(* ===== verification/Prelude.thy ===== *)
theory Prelude
  imports Main "HOL-Library.Word" "HOL-Library.Finite_Map" "HOL-Library.List_Lexorder"
    "HOL-Library.Char_ord" "HOL-Library.Signed_Division"
begin

text \<open>
  Shared vocabulary of the development: the machine types of the Go program, Go errors as
  values, Go maps as finite maps, and the generic facts about them that several components use.
  Unsigned Go integers keep their width (\<open>uint64\<close> is a 64-bit word, so its arithmetic wraps),
  \<open>*big.Int\<close> is an unbounded \<open>int\<close>, \<open>common.Hash\<close> and \<open>common.Address\<close> are words of 32
  and 20 bytes, a Go \<open>string\<close> is a list of bytes, and a \<open>time.Time\<close> or \<open>time.Duration\<close> is a
  number of nanoseconds, an instant counted from Go's zero time.
\<close>

section \<open>Machine types\<close>

type_synonym u8 = "8 word"
type_synonym u32 = "32 word"
type_synonym u64 = "64 word"
type_synonym hash = "256 word"
type_synonym address = "160 word"
type_synonym time = int
type_synonym duration = int

named_theorems u64_simps \<open>reading 64-bit arithmetic as arithmetic of natural numbers\<close>
named_theorems gomap_simps \<open>size and lookup of Go maps under updates\<close>

lemma u64_less_nat [u64_simps]: "(a :: u64) < b \<longleftrightarrow> unat a < unat b"
  by (rule word_less_nat_alt)

lemma u64_le_nat [u64_simps]: "(a :: u64) \<le> b \<longleftrightarrow> unat a \<le> unat b"
  by (rule word_le_nat_alt)

lemma u64_eq_nat: "(a :: u64) = b \<longleftrightarrow> unat a = unat b"
  by (simp add: word_unat_eq_iff)

lemma u64_bound [simp]: "unat (a :: u64) < 18446744073709551616"
  using unsigned_less [of a] by simp

lemma u64_Suc:
  assumes "(n :: u64) < m"
  shows "unat (n + 1) = Suc (unat n)"
proof -
  have "unat n < unat m" using assms by (simp add: word_less_nat_alt)
  moreover have "unat m < 18446744073709551616" by (rule u64_bound)
  ultimately have "unat n + 1 < 18446744073709551616" by linarith
  then show ?thesis by (simp add: unat_word_ariths)
qed

lemma u64_Suc_max:
  assumes "(n :: u64) \<noteq> - 1"
  shows "unat (n + 1) = Suc (unat n)"
proof -
  have "unat (- 1 :: u64) = 18446744073709551615" by (simp add: unsigned_minus_1_eq_mask mask_eq_exp_minus_1)
  with assms have "unat n \<noteq> 18446744073709551615" by (metis word_unat_eq_iff)
  moreover have "unat n < 18446744073709551616" by (rule u64_bound)
  ultimately have "unat n + 1 < 18446744073709551616" by linarith
  then show ?thesis by (simp add: unat_word_ariths)
qed

lemma u64_less_Suc: "(n :: u64) \<noteq> - 1 \<Longrightarrow> n < n + 1"
  by (simp add: word_less_nat_alt u64_Suc_max)

lemma u64_max: "unat (- 1 :: u64) = 18446744073709551615"
  by (simp add: unsigned_minus_1_eq_mask mask_eq_exp_minus_1)

lemma u64_less_max:
  assumes "(n :: u64) \<noteq> - 1" and "m \<le> n"
  shows "m \<noteq> - 1"
proof
  assume "m = - 1"
  then have "18446744073709551615 \<le> unat n"
    using assms(2) by (simp only: word_le_nat_alt u64_max)
  moreover have "unat n < 18446744073709551616" by (rule u64_bound)
  ultimately have "unat n = 18446744073709551615" by linarith
  then have "n = - 1" by (simp only: word_unat_eq_iff u64_max)
  then show False using assms(1) by simp
qed

lemma u64_pred: "(f :: u64) < n \<Longrightarrow> unat (n - 1) = unat n - 1"
proof -
  assume "f < n"
  then have "n \<noteq> 0" by auto
  then show ?thesis by (rule unat_minus_one)
qed

lemma u64_diff: "(f :: u64) \<le> n \<Longrightarrow> unat (n - f) = unat n - unat f"
  by (simp add: unat_sub)

lemma u64_add: "unat a + unat b < 18446744073709551616 \<Longrightarrow> unat ((a :: u64) + b) = unat a + unat b"
  by (simp add: unat_word_ariths)

lemma u64_of_nat_le: "n \<le> unat (m :: u64) \<Longrightarrow> unat (of_nat n :: u64) = n"
  by (metis le_unat_uoi)

lemma u64_of_nat_unat [simp]: "of_nat (unat (n :: u64)) = n"
  by (simp add: word_unat_eq_iff)

lemma u64_of_nat_inverse: "n < 18446744073709551616 \<Longrightarrow> unat (of_nat n :: u64) = n"
  by (simp add: unat_of_nat)

lemma u64_mod_less [simp]: "0 < d \<Longrightarrow> unat ((n :: u64) mod d) < unat d"
  by (simp add: unat_mod word_less_nat_alt)

section \<open>Go errors\<close>

text \<open>
  An \<open>error\<close> result is a value. The sentinels the source compares with \<open>errors.Is\<close> are
  constructors, every other error carries its text, and wrapping with \<open>%w\<close> keeps the wrapped
  error reachable. \<open>Panic\<close> marks the places where the Go runtime would panic (an index out of
  range, a nil dereference), so that their absence is a theorem and not an assumption.
\<close>

datatype goerr =
    NotFound
  | ChainMismatch
  | FinalityTag
  | Canceled
  | ErrText string
  | Wrap string goerr
  | Panic string

fun errIs :: "goerr \<Rightarrow> goerr \<Rightarrow> bool" where
  "errIs (Wrap m e) s = (Wrap m e = s \<or> errIs e s)"
| "errIs e s = (e = s)"

fun errText :: "goerr \<Rightarrow> string" where
  "errText NotFound = ''not found''"
| "errText ChainMismatch = ''chain id mismatch''"
| "errText FinalityTag = ''finality tag unsupported''"
| "errText Canceled = ''context canceled''"
| "errText (ErrText m) = m"
| "errText (Wrap m e) = m @ '': '' @ errText e"
| "errText (Panic m) = m"

fun isPanic :: "goerr \<Rightarrow> bool" where
  "isPanic (Panic m) = True"
| "isPanic (Wrap m e) = isPanic e"
| "isPanic e = False"

section \<open>Go maps\<close>

text \<open>
  A Go map is a finite map. \<open>goLen\<close> is \<open>len(m)\<close>; ranging over a map visits every key exactly
  once in an unspecified order, so a loop over a map takes that order as an argument, a list
  of which \<open>rangeOrder\<close> holds.
\<close>

definition goLen :: "('k, 'v) fmap \<Rightarrow> nat" where
  "goLen m = fcard (fmdom m)"

definition rangeOrder :: "'k list \<Rightarrow> ('k, 'v) fmap \<Rightarrow> bool" where
  "rangeOrder ord m \<longleftrightarrow> distinct ord \<and> set ord = fmdom' m"

lemma goLen_empty [gomap_simps, simp]: "goLen fmempty = 0"
  by (simp add: goLen_def)

lemma goLen_upd [gomap_simps]:
  "goLen (fmupd k v m) = (if fmlookup m k = None then Suc (goLen m) else goLen m)"
proof (cases "fmlookup m k")
  case None
  then have "k |\<notin>| fmdom m" by (rule fmdom_notI)
  then show ?thesis using None by (simp add: goLen_def fcard_finsert_disjoint)
next
  case (Some w)
  then have "finsert k (fmdom m) = fmdom m" by (simp add: finsert_absorb fmdomI)
  then show ?thesis using Some by (simp add: goLen_def)
qed

lemma goLen_drop [gomap_simps]:
  "goLen (fmdrop k m) = (if fmlookup m k = None then goLen m else goLen m - 1)"
proof (cases "fmlookup m k")
  case None
  then have "fmdom m - {|k|} = fmdom m" by auto
  then show ?thesis using None by (simp add: goLen_def)
next
  case (Some w)
  then have "k |\<in>| fmdom m" by (rule fmdomI)
  then have "fcard (fmdom m - {|k|}) = fcard (fmdom m) - 1"
    by (rule fcard_fminus_fsingleton)
  then show ?thesis using Some by (simp add: goLen_def)
qed

lemma goLen_card: "goLen m = card (fmdom' m)"
  by (simp add: goLen_def fcard.rep_eq fmdom'_alt_def)

lemma goLen_0_iff: "goLen m = 0 \<longleftrightarrow> m = fmempty"
proof
  assume "goLen m = 0"
  then have "fmdom' m = {}" by (simp add: goLen_card)
  then show "m = fmempty" by (intro fmap_ext) (auto dest: fmdom'_notD)
qed simp

text \<open>A nil slice and a missing key read the same: \<open>m[k]\<close> of a map of slices.\<close>

definition getSlice :: "('k, 'v list) fmap \<Rightarrow> 'k \<Rightarrow> 'v list" where
  "getSlice m k = (case fmlookup m k of None \<Rightarrow> [] | Some xs \<Rightarrow> xs)"

lemma getSlice_upd [gomap_simps]:
  "getSlice (fmupd k xs m) k' = (if k = k' then xs else getSlice m k')"
  by (simp add: getSlice_def)

lemma getSlice_drop [gomap_simps]:
  "getSlice (fmdrop k m) k' = (if k = k' then [] else getSlice m k')"
  by (simp add: getSlice_def)

lemma getSlice_empty [gomap_simps]: "getSlice fmempty k = []"
  by (simp add: getSlice_def)

section \<open>Lists\<close>

lemma find_Some_iff_first:
  "List.find P xs = Some x \<Longrightarrow> x \<in> set xs \<and> P x"
  by (auto simp: find_Some_iff)

lemma find_None_all: "List.find P xs = None \<longleftrightarrow> (\<forall>x\<in>set xs. \<not> P x)"
  by (auto simp: find_None_iff)

lemma find_append:
  "List.find P (xs @ ys) = (case List.find P xs of None \<Rightarrow> List.find P ys | Some x \<Rightarrow> Some x)"
  by (induction xs) auto

end
