(* ===== verification/Chain.thy ===== *)
theory Chain
  imports Prelude
begin

text \<open>
  The header ring buffer of one indexer (internal/indexer/chain.go): recording headers, reading
  them back, classifying a new head against the tip, and walking back to the common ancestor of
  a reorg. The ring is a list indexed by \<open>number mod depth\<close>; the interface the rest of the
  program uses, "a lookup returns the last header recorded in its slot, if it is the one asked
  for", is the locale \<open>header_window\<close>, interpreted on the ring at the end of the first section.
\<close>

section \<open>Headers and the ring\<close>

record headRef =
  hrNumber :: u64
  hrHash :: hash
  hrParentHash :: hash

text \<open>
  A subscribed \<open>types.Header\<close> is go-ethereum's; the model holds the three observations the source
  makes of it: \<open>Number.Uint64()\<close>, \<open>Hash()\<close> and \<open>ParentHash\<close>.
\<close>

record header =
  hdrNumber :: u64
  hdrHash :: hash
  hdrParentHash :: hash

definition noHead :: headRef where
  "noHead = \<lparr>hrNumber = 0, hrHash = 0, hrParentHash = 0\<rparr>"

datatype headKind = headExtend | headGap | headReorg | headStale

record chainState =
  refs :: "headRef list"
  tip :: "headRef option"
  depth :: u64

definition newChainState :: "u64 \<Rightarrow> chainState" where
  "newChainState confirmations =
     (let d = (if confirmations + 16 > 64 then confirmations + 16 else 64)
      in \<lparr>refs = replicate (unat d) noHead, tip = None, depth = d\<rparr>)"

definition slotOf :: "chainState \<Rightarrow> u64 \<Rightarrow> nat" where
  "slotOf c number = unat (number mod depth c)"

definition record_head :: "chainState \<Rightarrow> headRef \<Rightarrow> chainState" where
  "record_head c h =
     (let c' = c\<lparr>refs := (refs c)[slotOf c (hrNumber h) := h]\<rparr>
      in case tip c of
           None \<Rightarrow> c'\<lparr>tip := Some h\<rparr>
         | Some t \<Rightarrow> if hrNumber h \<ge> hrNumber t then c'\<lparr>tip := Some h\<rparr> else c')"

definition at :: "chainState \<Rightarrow> u64 \<Rightarrow> headRef \<times> bool" where
  "at c number =
     (let r = refs c ! slotOf c number in (r, hrNumber r = number \<and> hrHash r \<noteq> 0))"

definition floor_of :: "chainState \<Rightarrow> u64" where
  "floor_of c =
     (case tip c of
        None \<Rightarrow> 0
      | Some t \<Rightarrow> if hrNumber t < depth c - 1 then 0 else hrNumber t - (depth c - 1))"

definition resetTip :: "chainState \<Rightarrow> u64 \<Rightarrow> chainState" where
  "resetTip c number = (case at c number of (r, ok) \<Rightarrow> if ok then c\<lparr>tip := Some r\<rparr> else c)"

text \<open>
  \<open>for n := c.floor(); n <= c.tip.Number; n++\<close> does not end when the tip is the largest
  \<open>uint64\<close>, so the loop is a partial function: \<open>None\<close> is "does not return".
\<close>

partial_function (option) snapshot_loop ::
  "chainState \<Rightarrow> u64 \<Rightarrow> u64 \<Rightarrow> headRef list \<Rightarrow> headRef list option" where
  "snapshot_loop c n hi out =
     (if n \<le> hi
      then snapshot_loop c (n + 1) hi
             (case at c n of (r, ok) \<Rightarrow> if ok then out @ [r] else out)
      else Some out)"

definition snapshot :: "chainState \<Rightarrow> headRef list option" where
  "snapshot c =
     (case tip c of None \<Rightarrow> Some [] | Some t \<Rightarrow> snapshot_loop c (floor_of c) (hrNumber t) [])"

definition classify :: "chainState \<Rightarrow> header \<Rightarrow> headKind" where
  "classify c h =
     (case tip c of
        None \<Rightarrow> headExtend
      | Some t \<Rightarrow>
          (let num = hdrNumber h in
           if hdrParentHash h = hrHash t \<and> num = hrNumber t + 1 then headExtend
           else if num > hrNumber t + 1 then headGap
           else if num \<le> hrNumber t then
             (case at c num of (r, ok) \<Rightarrow> if ok \<and> hrHash r = hdrHash h then headStale else headReorg)
           else headReorg))"

section \<open>The interface: a window of headers\<close>

definition chainInv :: "chainState \<Rightarrow> bool" where
  "chainInv c \<longleftrightarrow> length (refs c) = unat (depth c) \<and> 64 \<le> depth c"

definition lookupHead :: "chainState \<Rightarrow> u64 \<Rightarrow> headRef option" where
  "lookupHead c n = (case at c n of (r, ok) \<Rightarrow> if ok then Some r else None)"

lemma at_lookup: "at c n = (r, True) \<longleftrightarrow> lookupHead c n = Some r"
  by (auto simp: lookupHead_def at_def Let_def split: if_splits)

lemma at_lookup_None: "snd (at c n) \<longleftrightarrow> lookupHead c n \<noteq> None"
  by (auto simp: lookupHead_def at_def Let_def)

lemma at_cases:
  "at c n = (fst (at c n), lookupHead c n \<noteq> None)"
  by (auto simp: lookupHead_def at_def Let_def)

locale header_window =
  fixes look :: "'s \<Rightarrow> u64 \<Rightarrow> headRef option"
    and rec :: "'s \<Rightarrow> headRef \<Rightarrow> 's"
    and slot :: "'s \<Rightarrow> u64 \<Rightarrow> nat"
    and inv :: "'s \<Rightarrow> bool"
  assumes inv_rec: "inv s \<Longrightarrow> inv (rec s h)"
    and slot_rec: "slot (rec s h) = slot s"
    and look_number: "look s n = Some r \<Longrightarrow> hrNumber r = n"
    and look_rec: "inv s \<Longrightarrow> hrHash h \<noteq> 0 \<Longrightarrow>
      look (rec s h) n =
        (if n = hrNumber h then Some h else if slot s n = slot s (hrNumber h) then None else look s n)"
begin

text \<open>
  Recording a sequence of headers: what a lookup returns afterwards is decided by the last header
  of the sequence that fell in its slot.
\<close>

lemma inv_rec_all: "inv s \<Longrightarrow> inv (foldl rec s hs)"
  by (induction hs arbitrary: s) (auto simp: inv_rec)

lemma slot_rec_all: "slot (foldl rec s hs) = slot s"
  by (induction hs arbitrary: s) (auto simp: slot_rec)

lemma look_rec_all:
  assumes "inv s" and "\<forall>h\<in>set hs. hrHash h \<noteq> 0"
  shows "look (foldl rec s hs) n =
    (case List.find (\<lambda>h. slot s (hrNumber h) = slot s n) (rev hs) of
       None \<Rightarrow> look s n
     | Some h \<Rightarrow> if hrNumber h = n then Some h else None)"
  using assms
proof (induction hs rule: rev_induct)
  case Nil
  then show ?case by simp
next
  case (snoc h hs)
  let ?s = "foldl rec s hs"
  have "inv ?s" and "hrHash h \<noteq> 0"
    using snoc.prems by (auto intro: inv_rec_all)
  then have "look (foldl rec s (hs @ [h])) n =
      (if n = hrNumber h then Some h else if slot s n = slot s (hrNumber h) then None else look ?s n)"
    by (simp add: look_rec slot_rec_all)
  then show ?case using snoc by auto
qed

lemma recorded_last_survives:
  assumes "inv s" and "\<forall>h\<in>set (pre @ h # post). hrHash h \<noteq> 0"
    and "\<forall>h'\<in>set post. slot s (hrNumber h') \<noteq> slot s (hrNumber h)"
  shows "look (foldl rec s (pre @ h # post)) (hrNumber h) = Some h"
proof -
  have "List.find (\<lambda>h'. slot s (hrNumber h') = slot s (hrNumber h)) (rev post) = None"
    using assms(3) by (auto simp: find_None_all)
  then show ?thesis
    using look_rec_all [OF assms(1,2), of "hrNumber h"] by (simp add: find_append)
qed

lemma overwritten_is_lost:
  assumes "inv s" and "\<forall>h\<in>set (pre @ h # post). hrHash h \<noteq> 0"
    and "slot s (hrNumber h) = slot s n" and "hrNumber h \<noteq> n"
    and "\<forall>h'\<in>set post. slot s (hrNumber h') \<noteq> slot s n"
  shows "look (foldl rec s (pre @ h # post)) n = None"
proof -
  have "List.find (\<lambda>h'. slot s (hrNumber h') = slot s n) (rev post) = None"
    using assms(5) by (auto simp: find_None_all)
  then show ?thesis
    using look_rec_all [OF assms(1,2), of n] assms(3,4) by (simp add: find_append)
qed

end

lemma record_head_fields [simp]:
  "depth (record_head c h) = depth c"
  "refs (record_head c h) = (refs c)[slotOf c (hrNumber h) := h]"
  by (auto simp: record_head_def Let_def split: option.splits)

lemma slotOf_record [simp]: "slotOf (record_head c h) = slotOf c"
  by (rule ext) (simp add: slotOf_def)

lemma chainInv_depth_pos: "chainInv c \<Longrightarrow> 0 < depth c"
  by (auto simp: chainInv_def word_le_nat_alt word_less_nat_alt)

lemma slotOf_bound: "chainInv c \<Longrightarrow> slotOf c n < length (refs c)"
  using chainInv_depth_pos [of c] by (simp add: slotOf_def chainInv_def)

lemma chainInv_record: "chainInv c \<Longrightarrow> chainInv (record_head c h)"
  by (simp add: chainInv_def)

lemma chainInv_resetTip: "chainInv c \<Longrightarrow> chainInv (resetTip c n)"
  by (auto simp: chainInv_def resetTip_def split: prod.splits)

lemma chainInv_new: "chainInv (newChainState k)"
  by (auto simp: chainInv_def newChainState_def Let_def)

lemma lookup_record:
  assumes "chainInv c" and "hrHash h \<noteq> 0"
  shows "lookupHead (record_head c h) n =
    (if n = hrNumber h then Some h
     else if slotOf c n = slotOf c (hrNumber h) then None else lookupHead c n)"
  using assms slotOf_bound [OF assms(1), of "hrNumber h"]
  by (auto simp: lookupHead_def at_def Let_def nth_list_update)

interpretation ring: header_window lookupHead record_head slotOf chainInv
  by unfold_locales
    (auto simp: chainInv_record lookup_record, auto simp: lookupHead_def at_def Let_def split: if_splits)

section \<open>Walking back a reorg\<close>

text \<open>
  \<open>headerFetcher.headerRefsByNumbers\<close> is an argument: it maps the numbers of a chunk to headers
  and per-number errors, or fails as a whole, and it may change the state \<open>'w\<close> of the outside
  world. \<open>scanChunk\<close> is the loop of the closure \<open>check\<close>; a result list shorter than the chunk is
  an index panic.
\<close>

type_synonym 'w headerFetcher =
  "u64 list \<Rightarrow> 'w \<Rightarrow> (goerr + headRef list \<times> goerr option list) \<times> 'w"

definition ancestorChunk :: nat where
  "ancestorChunk = 8"

fun scanChunk :: "u64 list \<Rightarrow> headRef list \<Rightarrow> headRef list \<Rightarrow> goerr option list
    \<Rightarrow> goerr + u64 option" where
  "scanChunk [] locals remotes errs = Inr None"
| "scanChunk (n # ns) (l # ls) (r # rs) (e # es) =
     (case e of
        Some err \<Rightarrow> Inl err
      | None \<Rightarrow> if hrHash r = hrHash l then Inr (Some n) else scanChunk ns ls rs es)"
| "scanChunk ns locals remotes errs = Inl (Panic ''index out of range'')"

definition checkChunk :: "'w headerFetcher \<Rightarrow> u64 list \<Rightarrow> headRef list \<Rightarrow> 'w
    \<Rightarrow> (goerr + u64 option) \<times> 'w" where
  "checkChunk fetch chunk locals w =
     (case fetch chunk w of
        (Inl e, w') \<Rightarrow> (Inl e, w')
      | (Inr (remotes, errs), w') \<Rightarrow> (scanChunk chunk locals remotes errs, w'))"

function walkBack :: "'w headerFetcher \<Rightarrow> chainState \<Rightarrow> u64 \<Rightarrow> u64 \<Rightarrow> u64 list \<Rightarrow> headRef list
    \<Rightarrow> 'w \<Rightarrow> (goerr + u64 \<times> bool) \<times> 'w" where
  "walkBack fetch c fl n chunk locals w =
     (if n > fl then
        (let chunk' = (if snd (at c n) then chunk @ [n] else chunk);
             locals' = (if snd (at c n) then locals @ [fst (at c n)] else locals)
         in if length chunk' \<ge> ancestorChunk then
              (case checkChunk fetch chunk' locals' w of
                 (Inl e, w') \<Rightarrow> (Inl e, w')
               | (Inr (Some a), w') \<Rightarrow> (Inr (a, False), w')
               | (Inr None, w') \<Rightarrow> walkBack fetch c fl (n - 1) [] [] w')
            else walkBack fetch c fl (n - 1) chunk' locals' w)
      else if length chunk > 0 then
        (case checkChunk fetch chunk locals w of
           (Inl e, w') \<Rightarrow> (Inl e, w')
         | (Inr (Some a), w') \<Rightarrow> (Inr (a, False), w')
         | (Inr None, w') \<Rightarrow> (Inr (fl, True), w'))
      else (Inr (fl, True), w))"
  by pat_completeness auto
termination
proof (relation "measure (\<lambda>(fetch, c, fl, n, chunk, locals, w). unat n)", goal_cases)
  case 1
  show ?case by simp
qed (auto simp: u64_pred word_less_nat_alt)

declare walkBack.simps [simp del]

definition findAncestor :: "'w headerFetcher \<Rightarrow> chainState \<Rightarrow> u64 \<Rightarrow> 'w
    \<Rightarrow> (goerr + u64 \<times> bool) \<times> 'w" where
  "findAncestor fetch c fromNumber w = walkBack fetch c (floor_of c) fromNumber [] [] w"

section \<open>Facts about the window, the snapshot and the walk\<close>

lemma nat_mod_neq: "(a::nat) < b \<Longrightarrow> b - a < d \<Longrightarrow> a mod d \<noteq> b mod d"
proof
  assume "a < b" "b - a < d" "a mod d = b mod d"
  then have "d dvd b - a" using mod_eq_dvd_iff_nat [of a b d] by simp
  then show False using \<open>a < b\<close> \<open>b - a < d\<close> by (auto dest: dvd_imp_le)
qed

lemma slotOf_nat: "slotOf c n = unat n mod unat (depth c)"
  by (simp add: slotOf_def unat_mod)

lemma slotOf_distinct:
  assumes "unat a < unat b" and "unat b - unat a < unat (depth c)"
  shows "slotOf c a \<noteq> slotOf c b"
  using nat_mod_neq [OF assms] by (simp add: slotOf_nat)

text \<open>
  A run of consecutively numbered headers, upwards from \<open>a\<close> or downwards from \<open>b\<close>.
\<close>

definition ascending :: "u64 \<Rightarrow> headRef list \<Rightarrow> bool" where
  "ascending a hs \<longleftrightarrow> (\<forall>i<length hs. unat (hrNumber (hs ! i)) = unat a + i \<and> hrHash (hs ! i) \<noteq> 0)"

definition descending :: "u64 \<Rightarrow> headRef list \<Rightarrow> bool" where
  "descending b hs \<longleftrightarrow>
     (\<forall>i<length hs. unat (hrNumber (hs ! i)) + i = unat b \<and> hrHash (hs ! i) \<noteq> 0)"

lemma tip_record_head [simp]: "tip (record_head c h) =
  (case tip c of None \<Rightarrow> Some h | Some t \<Rightarrow> if hrNumber t \<le> hrNumber h then Some h else Some t)"
  by (auto simp: record_head_def Let_def split: option.splits)

lemma record_all_tip:
  assumes "hs \<noteq> []" and "ascending a hs"
    and "\<forall>t. tip c = Some t \<longrightarrow> hrNumber t \<le> a"
  shows "tip (foldl record_head c hs) = Some (last hs)"
  using assms
proof (induction hs rule: rev_induct)
  case Nil
  then show ?case by simp
next
  case (snoc h hs)
  show ?case
  proof (cases "hs = []")
    case True
    with snoc.prems show ?thesis
      by (auto simp: ascending_def word_le_nat_alt split: option.splits)
  next
    case False
    from snoc.prems(2) have asc: "ascending a hs" and num: "unat (hrNumber h) = unat a + length hs"
      by (auto simp: ascending_def nth_append split: if_splits)
    have t: "tip (foldl record_head c hs) = Some (last hs)"
      using snoc.IH False asc snoc.prems(3) by simp
    have "unat (hrNumber (last hs)) = unat a + (length hs - 1)"
      using asc False by (simp add: ascending_def last_conv_nth)
    then have "hrNumber (last hs) \<le> hrNumber h"
      using num by (simp add: word_le_nat_alt)
    then show ?thesis using t by simp
  qed
qed

lemma foldl_record_depth [simp]: "depth (foldl record_head c hs) = depth c"
  by (induction hs arbitrary: c) auto

lemma ascending_window:
  assumes "chainInv c" and "ascending a hs" and "i < length hs"
    and "length hs - i \<le> unat (depth c)"
  shows "lookupHead (foldl record_head c hs) (hrNumber (hs ! i)) = Some (hs ! i)"
proof -
  have split: "hs = take i hs @ hs ! i # drop (Suc i) hs"
    using assms(3) by (rule id_take_nth_drop)
  have nz: "\<forall>h\<in>set hs. hrHash h \<noteq> 0"
    using assms(2) by (auto simp: ascending_def in_set_conv_nth)
  have "slotOf c (hrNumber h') \<noteq> slotOf c (hrNumber (hs ! i))" if "h' \<in> set (drop (Suc i) hs)" for h'
  proof -
    from that obtain k where k: "k < length hs - Suc i" and h': "h' = hs ! (Suc i + k)"
      by (auto simp: in_set_conv_nth)
    have "unat (hrNumber h') = unat a + (Suc i + k)" and "unat (hrNumber (hs ! i)) = unat a + i"
      using assms(2,3) k h' by (auto simp: ascending_def)
    then have "slotOf c (hrNumber (hs ! i)) \<noteq> slotOf c (hrNumber h')"
      using assms(3,4) k by (intro slotOf_distinct) auto
    then show ?thesis by simp
  qed
  then show ?thesis
    using ring.recorded_last_survives [OF assms(1), of "take i hs" "hs ! i" "drop (Suc i) hs"] nz
    by (metis split)
qed

lemma descending_slot_lost:
  assumes inv: "chainInv c" and desc: "descending b hs" and i: "i + unat (depth c) < length hs"
  shows "lookupHead (foldl record_head c hs) (hrNumber (hs ! i)) = None"
proof -
  let ?d = "unat (depth c)"
  have d: "0 < ?d" using chainInv_depth_pos [OF inv] by (simp add: word_less_nat_alt)
  define q where "q = (length hs - 1 - i) div ?d"
  define j where "j = i + q * ?d"
  have q1: "1 \<le> q" using i d by (simp add: q_def Suc_le_eq div_greater_zero_iff)
  have "q * ?d \<le> length hs - 1 - i" by (simp add: q_def)
  then have j: "j < length hs" using i by (simp add: j_def)
  have last: "length hs - 1 < j + ?d"
  proof -
    have "length hs - 1 - i < q * ?d + ?d"
      unfolding q_def using d by (metis add.commute mod_less_divisor div_mult_mod_eq nat_add_left_cancel_less)
    then show ?thesis using i by (simp add: j_def)
  qed
  have num: "unat (hrNumber (hs ! k)) = unat b - k" and le: "k \<le> unat b" if "k < length hs" for k
  proof -
    have "unat (hrNumber (hs ! k)) + k = unat b" using desc that by (simp add: descending_def)
    then show "unat (hrNumber (hs ! k)) = unat b - k" and "k \<le> unat b" by auto
  qed
  have nj: "unat (hrNumber (hs ! j)) + q * ?d = unat (hrNumber (hs ! i))"
    using num [OF j] num [of i] le [OF j] i by (simp add: j_def)
  have same: "slotOf c (hrNumber (hs ! j)) = slotOf c (hrNumber (hs ! i))"
    using nj by (metis slotOf_nat mod_mult_self1)
  have neq: "hrNumber (hs ! j) \<noteq> hrNumber (hs ! i)"
    using nj q1 d by (auto simp: u64_eq_nat)
  have split: "hs = take j hs @ hs ! j # drop (Suc j) hs"
    using j by (rule id_take_nth_drop)
  have post: "slotOf c (hrNumber h') \<noteq> slotOf c (hrNumber (hs ! i))" if "h' \<in> set (drop (Suc j) hs)" for h'
  proof -
    from that obtain k where k: "k < length hs - Suc j" and h': "h' = hs ! (Suc j + k)"
      by (auto simp: in_set_conv_nth)
    then have kl: "Suc j + k < length hs" by simp
    have "slotOf c (hrNumber h') \<noteq> slotOf c (hrNumber (hs ! j))"
      using num [OF kl] num [OF j] le [OF kl] h' last kl by (intro slotOf_distinct) auto
    then show ?thesis using same by simp
  qed
  have nz: "\<forall>h\<in>set hs. hrHash h \<noteq> 0"
    using desc by (auto simp: descending_def in_set_conv_nth)
  then show ?thesis
    using ring.overwritten_is_lost [OF inv, of "take j hs" "hs ! j" "drop (Suc j) hs" "hrNumber (hs ! i)"]
      same neq post by (metis split)
qed

lemma record_all_tip_descending:
  assumes "hs \<noteq> []" and "descending b hs" and "\<forall>t. tip c = Some t \<longrightarrow> hrNumber t \<le> b"
  shows "tip (foldl record_head c hs) = Some (hd hs)"
  using assms
proof (induction hs rule: rev_induct)
  case Nil
  then show ?case by simp
next
  case (snoc h hs)
  show ?case
  proof (cases "hs = []")
    case True
    with snoc.prems show ?thesis
      by (auto simp: descending_def word_le_nat_alt split: option.splits)
  next
    case False
    from snoc.prems(2) have desc: "descending b hs" and num: "unat (hrNumber h) + length hs = unat b"
      by (auto simp: descending_def nth_append split: if_splits)
    have "unat (hrNumber (hd hs)) = unat b"
      using desc False by (auto simp: descending_def hd_conv_nth)
    then have "\<not> hrNumber (hd hs) \<le> hrNumber h"
      using num False by (simp add: word_le_nat_alt) (metis length_greater_0_conv less_add_same_cancel1 not_less)
    then show ?thesis using snoc.IH False desc snoc.prems(3) by simp
  qed
qed

text \<open>The block numbers from \<open>lo\<close> up to \<open>hi\<close>, and \<open>snapshot\<close> as a filter over them.\<close>

definition u64_upto :: "u64 \<Rightarrow> u64 \<Rightarrow> u64 list" where
  "u64_upto lo hi = map of_nat [unat lo ..< Suc (unat hi)]"

lemma u64_upto_Cons: "lo \<le> hi \<Longrightarrow> hi \<noteq> - 1 \<Longrightarrow> u64_upto lo hi = lo # u64_upto (lo + 1) hi"
proof -
  assume le: "lo \<le> hi" and "hi \<noteq> - 1"
  then have "unat (lo + 1) = Suc (unat lo)" by (metis u64_less_max u64_Suc_max)
  then show ?thesis using le
    by (simp add: u64_upto_def word_le_nat_alt upt_conv_Cons del: upt_Suc)
qed

lemma u64_upto_Nil: "hi < lo \<Longrightarrow> u64_upto lo hi = []"
  by (simp add: u64_upto_def word_less_nat_alt)

lemma set_u64_upto: "set (u64_upto lo hi) = {lo..hi}"
proof (intro set_eqI iffI)
  fix x assume "x \<in> set (u64_upto lo hi)"
  then obtain k where k: "unat lo \<le> k" "k \<le> unat hi" "x = of_nat k"
    by (auto simp: u64_upto_def)
  then have "unat x = k" using u64_of_nat_le by metis
  then show "x \<in> {lo..hi}" using k by (simp add: word_le_nat_alt)
next
  fix x assume "x \<in> {lo..hi}"
  then have "unat lo \<le> unat x" "unat x < Suc (unat hi)"
    by (auto simp only: word_le_nat_alt atLeastAtMost_iff less_Suc_eq_le)
  then have "unat x \<in> set [unat lo ..< Suc (unat hi)]" by (simp only: set_upt atLeastLessThan_iff)
  then show "x \<in> set (u64_upto lo hi)"
    unfolding u64_upto_def set_map by (metis image_eqI u64_of_nat_unat)
qed

lemma snapshot_loop_eq:
  assumes "hi \<noteq> - 1" and "lo \<le> hi + 1"
  shows "snapshot_loop c lo hi out = Some (out @ List.map_filter (lookupHead c) (u64_upto lo hi))"
  using assms(2)
proof (induction "unat (hi + 1) - unat lo" arbitrary: lo out)
  case 0
  then have "lo = hi + 1" by (simp add: word_le_nat_alt u64_eq_nat)
  moreover have "\<not> hi + 1 \<le> hi" using u64_less_Suc [OF assms(1)] by simp
  ultimately show ?case
    by (subst snapshot_loop.simps) (simp add: u64_upto_Nil List.map_filter_def not_le [symmetric])
next
  case (Suc k)
  have "hi < hi + 1" using assms(1) by (rule u64_less_Suc)
  then have hs: "unat (hi + 1) = Suc (unat hi)" using assms(1) by (intro u64_Suc_max)
  from Suc.hyps(2) have "unat lo < unat (hi + 1)" by linarith
  then have le: "lo \<le> hi" using hs by (simp add: word_le_nat_alt)
  then have ls: "unat (lo + 1) = Suc (unat lo)" using assms(1) by (metis u64_less_max u64_Suc_max)
  then have "k = unat (hi + 1) - unat (lo + 1)" and "lo + 1 \<le> hi + 1"
    using Suc.hyps(2) le hs by (auto simp: word_le_nat_alt)
  note IH = Suc.hyps(1) [OF this]
  show ?case
    using le IH u64_upto_Cons [OF le assms(1)]
    by (subst snapshot_loop.simps)
      (auto simp: List.map_filter_def lookupHead_def split: prod.splits)
qed

lemma floor_le_tip: "tip c = Some t \<Longrightarrow> floor_of c \<le> hrNumber t"
  by (auto simp: floor_of_def word_le_nat_alt word_less_nat_alt unat_sub_if' )

lemma snapshot_eq:
  assumes "\<forall>t. tip c = Some t \<longrightarrow> hrNumber t \<noteq> - 1"
  shows "snapshot c = Some (case tip c of None \<Rightarrow> []
    | Some t \<Rightarrow> List.map_filter (lookupHead c) (u64_upto (floor_of c) (hrNumber t)))"
proof (cases "tip c")
  case None
  then show ?thesis by (simp add: snapshot_def)
next
  case (Some t)
  then have t: "hrNumber t \<noteq> - 1" using assms by simp
  have "floor_of c \<le> hrNumber t + 1"
    using floor_le_tip [OF Some] u64_less_Suc [OF t] by simp
  then show ?thesis using snapshot_loop_eq [OF t] Some by (simp add: snapshot_def)
qed

text \<open>
  The reference search: the numbers from \<open>n\<close> down to just above \<open>fl\<close>, and the first of them at
  which the buffered header and the canonical chain agree.
\<close>

function u64_downto :: "u64 \<Rightarrow> u64 \<Rightarrow> u64 list" where
  "u64_downto n fl = (if n > fl then n # u64_downto (n - 1) fl else [])"
  by pat_completeness auto
termination
  by (relation "measure (\<lambda>(n, fl). unat n)") (auto simp: u64_pred word_less_nat_alt)

declare u64_downto.simps [simp del]

definition agrees :: "chainState \<Rightarrow> (u64 \<Rightarrow> headRef) \<Rightarrow> u64 \<Rightarrow> bool" where
  "agrees c canon n = (case lookupHead c n of None \<Rightarrow> False | Some r \<Rightarrow> hrHash (canon n) = hrHash r)"

lemma scanChunk_find:
  assumes "\<forall>n\<in>set chunk. lookupHead c n \<noteq> None"
  shows "scanChunk chunk (map (\<lambda>n. fst (at c n)) chunk) (map canon chunk) (map (\<lambda>_. None) chunk)
    = Inr (List.find (agrees c canon) chunk)"
  using assms by (induction chunk) (auto simp: agrees_def lookupHead_def split: prod.splits if_splits)

lemma walkBack_find:
  assumes node: "\<And>ns w. fst (fetch ns w) = Inr (map canon ns, map (\<lambda>_. None) ns)"
    and "\<forall>n\<in>set chunk. lookupHead c n \<noteq> None"
  shows "fst (walkBack fetch c fl n chunk (map (\<lambda>n. fst (at c n)) chunk) w) =
    (case List.find (agrees c canon) (chunk @ u64_downto n fl) of
       Some a \<Rightarrow> Inr (a, False) | None \<Rightarrow> Inr (fl, True))"
  using assms(2)
proof (induction "unat n" arbitrary: n chunk w rule: less_induct)
  case less
  have chk: "\<exists>w'. checkChunk fetch ch (map (\<lambda>n. fst (at c n)) ch) v = (Inr (List.find (agrees c canon) ch), w')"
    if "\<forall>n\<in>set ch. lookupHead c n \<noteq> None" for ch v
  proof -
    obtain w' where "fetch ch v = (Inr (map canon ch, map (\<lambda>_. None) ch), w')"
      using node [of ch v] by (metis prod.collapse)
    then show ?thesis using scanChunk_find [OF that, of canon] by (simp add: checkChunk_def)
  qed
  show ?case
  proof (cases "n > fl")
    case False
    then show ?thesis using chk [OF less.prems, of w]
      by (auto simp: walkBack.simps [of _ _ _ n] u64_downto.simps [of n] split: option.splits)
  next
    case True
    then have dec: "unat (n - 1) < unat n"
      by (auto simp: u64_pred word_less_nat_alt)
    define ch where "ch = (if snd (at c n) then chunk @ [n] else chunk)"
    have ch: "\<forall>n\<in>set ch. lookupHead c n \<noteq> None"
      using less.prems by (auto simp: ch_def at_lookup_None)
    have loc: "(if snd (at c n) then map (\<lambda>n. fst (at c n)) chunk @ [fst (at c n)]
        else map (\<lambda>n. fst (at c n)) chunk) = map (\<lambda>n. fst (at c n)) ch"
      by (simp add: ch_def)
    have skip: "List.find (agrees c canon) (chunk @ u64_downto n fl) =
        List.find (agrees c canon) (ch @ u64_downto (n - 1) fl)"
    proof (cases "snd (at c n)")
      case True
      then show ?thesis using \<open>n > fl\<close> by (simp add: ch_def u64_downto.simps [of n])
    next
      case False
      then have "\<not> agrees c canon n" by (simp add: agrees_def at_lookup_None)
      then show ?thesis using \<open>n > fl\<close> False by (simp add: ch_def u64_downto.simps [of n] find_append split: option.splits)
    qed
    obtain w' where w': "checkChunk fetch ch (map (\<lambda>n. fst (at c n)) ch) w
        = (Inr (List.find (agrees c canon) ch), w')"
      using chk [OF ch, of w] by blast
    have step: "walkBack fetch c fl n chunk (map (\<lambda>n. fst (at c n)) chunk) w =
       (if length ch \<ge> ancestorChunk then
              (case checkChunk fetch ch (map (\<lambda>n. fst (at c n)) ch) w of
                 (Inl e, w') \<Rightarrow> (Inl e, w')
               | (Inr (Some a), w') \<Rightarrow> (Inr (a, False), w')
               | (Inr None, w') \<Rightarrow> walkBack fetch c fl (n - 1) [] [] w')
            else walkBack fetch c fl (n - 1) ch (map (\<lambda>n. fst (at c n)) ch) w)"
      using True loc by (subst walkBack.simps) (simp add: ch_def Let_def)
    show ?thesis
    proof (cases "ancestorChunk \<le> length ch")
      case True
      show ?thesis
        using step True w' skip less.hyps [OF dec, of "[]" w']
        by (auto simp: find_append split: option.splits)
    next
      case False
      then show ?thesis using step skip less.hyps [OF dec ch, of w] by simp
    qed
  qed
qed

lemma scanChunk_found:
  assumes "scanChunk ns ls rs es = Inr (Some a)"
  shows "\<exists>i. i < length ns \<and> i < length ls \<and> i < length rs \<and> i < length es \<and> ns ! i = a \<and>
    es ! i = None \<and> hrHash (rs ! i) = hrHash (ls ! i)"
  using assms
proof (induction ns ls rs es rule: scanChunk.induct)
  case (2 n ns l ls r rs e es)
  show ?case
  proof (cases "e = None \<and> hrHash r = hrHash l")
    case True
    then show ?thesis using "2.prems" by (intro exI [of _ 0]) auto
  next
    case False
    then obtain i where "i < length ns \<and> i < length ls \<and> i < length rs \<and> i < length es \<and>
        ns ! i = a \<and> es ! i = None \<and> hrHash (rs ! i) = hrHash (ls ! i)"
      using 2 by (auto split: option.splits if_splits)
    then show ?thesis by (intro exI [of _ "Suc i"]) auto
  qed
qed auto

definition nodeAgrees :: "'w headerFetcher \<Rightarrow> chainState \<Rightarrow> u64 \<Rightarrow> bool" where
  "nodeAgrees fetch c a \<longleftrightarrow> (\<exists>ns v v' remotes errs i r. fetch ns v = (Inr (remotes, errs), v') \<and>
     i < length ns \<and> i < length remotes \<and> i < length errs \<and> ns ! i = a \<and> errs ! i = None \<and>
     lookupHead c a = Some r \<and> hrHash (remotes ! i) = hrHash r)"

lemma checkChunk_found:
  assumes "checkChunk fetch ch (map (\<lambda>n. fst (at c n)) ch) w = (Inr (Some a), w')"
    and "\<forall>n\<in>set ch. lookupHead c n \<noteq> None"
  shows "a \<in> set ch \<and> nodeAgrees fetch c a"
proof -
  from assms(1) obtain remotes errs v' where f: "fetch ch w = (Inr (remotes, errs), v')"
    and s: "scanChunk ch (map (\<lambda>n. fst (at c n)) ch) remotes errs = Inr (Some a)"
    by (auto simp: checkChunk_def split: prod.splits sum.splits)
  from scanChunk_found [OF s] obtain i where i: "i < length ch" "i < length remotes" "i < length errs"
    "ch ! i = a" "errs ! i = None" "hrHash (remotes ! i) = hrHash (fst (at c (ch ! i)))"
    by auto
  obtain r where r: "lookupHead c a = Some r"
    using assms(2) i(1,4) nth_mem by blast
  then have "fst (at c (ch ! i)) = r"
    using i(4) by (auto simp: lookupHead_def split: prod.splits if_splits)
  then have "nodeAgrees fetch c a"
    unfolding nodeAgrees_def using f i r by blast
  then show ?thesis using i(1,4) nth_mem by blast
qed

lemma walkBack_sound:
  assumes "walkBack fetch c fl n chunk (map (\<lambda>n. fst (at c n)) chunk) w = (Inr (a, deep), w')"
    and "\<forall>n\<in>set chunk. lookupHead c n \<noteq> None"
  shows "(deep \<and> a = fl) \<or>
    (\<not> deep \<and> (a \<in> set chunk \<or> fl < a \<and> a \<le> n) \<and> nodeAgrees fetch c a)"
  using assms
proof (induction "unat n" arbitrary: n chunk w rule: less_induct)
  case less
  show ?case
  proof (cases "n > fl")
    case False
    then show ?thesis using less.prems checkChunk_found [of fetch chunk c w]
      by (auto simp: walkBack.simps [of _ _ _ n] split: sum.splits option.splits prod.splits if_splits)
  next
    case True
    then have dec: "unat (n - 1) < unat n" and le: "n - 1 \<le> n"
      by (auto simp: u64_pred word_less_nat_alt word_le_nat_alt)
    define ch where "ch = (if snd (at c n) then chunk @ [n] else chunk)"
    have ch: "\<forall>n\<in>set ch. lookupHead c n \<noteq> None"
      using less.prems(2) by (auto simp: ch_def at_lookup_None)
    have sub: "x \<in> set ch \<Longrightarrow> x \<in> set chunk \<or> fl < x \<and> x \<le> n" for x
      using True by (auto simp: ch_def split: if_splits)
    have loc: "(if snd (at c n) then map (\<lambda>n. fst (at c n)) chunk @ [fst (at c n)]
        else map (\<lambda>n. fst (at c n)) chunk) = map (\<lambda>n. fst (at c n)) ch"
      by (simp add: ch_def)
    have step: "walkBack fetch c fl n chunk (map (\<lambda>n. fst (at c n)) chunk) w =
       (if length ch \<ge> ancestorChunk then
              (case checkChunk fetch ch (map (\<lambda>n. fst (at c n)) ch) w of
                 (Inl e, w') \<Rightarrow> (Inl e, w')
               | (Inr (Some a), w') \<Rightarrow> (Inr (a, False), w')
               | (Inr None, w') \<Rightarrow> walkBack fetch c fl (n - 1) [] [] w')
            else walkBack fetch c fl (n - 1) ch (map (\<lambda>n. fst (at c n)) ch) w)"
      using True loc by (subst walkBack.simps) (simp add: ch_def Let_def)
    show ?thesis
    proof (cases "ancestorChunk \<le> length ch")
      case True
      then show ?thesis
        using step less.prems(1) checkChunk_found [OF _ ch, of fetch w] sub
          less.hyps [OF dec, of "[]"] le
        by (auto split: sum.splits option.splits prod.splits if_splits dest: order_trans)
    next
      case False
      then show ?thesis
        using step less.prems(1) less.hyps [OF dec _ ch, of w] sub le by (auto dest: order_trans)
    qed
  qed
qed

lemma walkBack_empty:
  assumes "\<forall>k. fl < k \<and> k \<le> n \<longrightarrow> lookupHead c k = None"
  shows "walkBack fetch c fl n [] [] w = (Inr (fl, True), w)"
  using assms
proof (induction "unat n" arbitrary: n rule: less_induct)
  case less
  show ?case
  proof (cases "n > fl")
    case True
    then have dec: "unat (n - 1) < unat n" and le: "n - 1 \<le> n"
      by (auto simp: u64_pred word_less_nat_alt word_le_nat_alt)
    have "\<not> snd (at c n)" using less.prems True by (simp add: at_lookup_None)
    then show ?thesis
      using True less.hyps [OF dec] less.prems le
      by (subst walkBack.simps) (auto simp: Let_def ancestorChunk_def dest: order_trans)
  qed (simp add: walkBack.simps)
qed

locale header_fetcher =
  fixes fetch :: "'w headerFetcher"
  assumes fetch_aligned: "fetch ns w = (Inr (remotes, errs), w') \<Longrightarrow>
      length remotes = length ns \<and> length errs = length ns"
    and fetch_no_panic: "fetch ns w = (Inl e, w') \<Longrightarrow> \<not> isPanic e"
    and fetch_elem_no_panic: "fetch ns w = (Inr (remotes, errs), w') \<Longrightarrow> Some e \<in> set errs \<Longrightarrow>
      \<not> isPanic e"
begin

lemma scanChunk_no_panic:
  "length ls = length ns \<Longrightarrow> length rs = length ns \<Longrightarrow> length es = length ns \<Longrightarrow>
   \<forall>e. Some e \<in> set es \<longrightarrow> \<not> isPanic e \<Longrightarrow> scanChunk ns ls rs es = Inl e \<Longrightarrow> \<not> isPanic e"
  by (induction ns ls rs es rule: scanChunk.induct) (auto split: option.splits if_splits)

lemma checkChunk_no_panic:
  assumes "checkChunk fetch ch ls w = (Inl e, w')" and "length ls = length ch"
  shows "\<not> isPanic e"
proof (cases "fetch ch w")
  case (Pair res v)
  show ?thesis
  proof (cases res)
    case (Inl e')
    then show ?thesis using Pair assms(1) fetch_no_panic by (auto simp: checkChunk_def)
  next
    case (Inr p)
    then obtain remotes errs where p: "fetch ch w = (Inr (remotes, errs), v)"
      using Pair by (cases p) auto
    then have "scanChunk ch ls remotes errs = Inl e"
      using assms(1) by (simp add: checkChunk_def)
    then show ?thesis
      using scanChunk_no_panic [of ls ch remotes errs e] fetch_aligned [OF p] assms(2)
        fetch_elem_no_panic [OF p] by blast
  qed
qed

lemma walkBack_no_panic:
  assumes "walkBack fetch c fl n chunk ls w = (Inl e, w')" and "length ls = length chunk"
  shows "\<not> isPanic e"
  using assms
proof (induction "unat n" arbitrary: n chunk ls w rule: less_induct)
  case less
  show ?case
  proof (cases "n > fl")
    case False
    then show ?thesis using less.prems checkChunk_no_panic [of chunk ls w]
      by (auto simp: walkBack.simps [of _ _ _ n] split: sum.splits option.splits prod.splits if_splits)
  next
    case True
    then have dec: "unat (n - 1) < unat n" by (auto simp: u64_pred word_less_nat_alt)
    define ch where "ch = (if snd (at c n) then chunk @ [n] else chunk)"
    define ls' where "ls' = (if snd (at c n) then ls @ [fst (at c n)] else ls)"
    have len: "length ls' = length ch" using less.prems(2) by (simp add: ch_def ls'_def)
    have step: "walkBack fetch c fl n chunk ls w =
       (if length ch \<ge> ancestorChunk then
              (case checkChunk fetch ch ls' w of
                 (Inl e, w') \<Rightarrow> (Inl e, w')
               | (Inr (Some a), w') \<Rightarrow> (Inr (a, False), w')
               | (Inr None, w') \<Rightarrow> walkBack fetch c fl (n - 1) [] [] w')
            else walkBack fetch c fl (n - 1) ch ls' w)"
      using True by (subst walkBack.simps) (simp add: ch_def ls'_def Let_def)
    show ?thesis
      using step less.prems(1) len checkChunk_no_panic [of ch ls' w]
        less.hyps [OF dec, of "[]" "[]"] less.hyps [OF dec _ len, of w]
      by (auto split: sum.splits option.splits prod.splits if_splits)
  qed
qed

end

lemma window_span:
  assumes "chainInv c" and "tip c = Some t" and "floor_of c \<le> m" and "n \<le> hrNumber t"
  shows "unat n - unat m < unat (depth c)"
proof -
  have d: "64 \<le> unat (depth c)" using assms(1) by (simp add: chainInv_def word_le_nat_alt)
  have d1: "unat (depth c - 1) = unat (depth c) - 1"
    using assms(1) by (intro u64_pred [of 0]) (simp add: chainInv_depth_pos)
  show ?thesis
  proof (cases "hrNumber t < depth c - 1")
    case True
    then show ?thesis using assms(4) d d1 by (simp add: word_le_nat_alt word_less_nat_alt)
  next
    case False
    then have "unat (floor_of c) = unat (hrNumber t) - (unat (depth c) - 1)"
      using assms(2) d1 u64_diff [of "depth c - 1" "hrNumber t"] by (simp add: floor_of_def)
    then show ?thesis using assms(3,4) d False d1 by (simp add: word_le_nat_alt word_less_nat_alt)
  qed
qed

lemma lookup_fresh: "lookupHead (newChainState k) n = None"
proof -
  have "slotOf (newChainState k) n < length (refs (newChainState k))"
    by (rule slotOf_bound) (rule chainInv_new)
  then have "refs (newChainState k) ! slotOf (newChainState k) n = noHead"
    by (simp add: newChainState_def Let_def split: if_splits)
  then show ?thesis by (simp add: lookupHead_def at_def Let_def noHead_def)
qed

lemma map_filter_mem:
  "h \<in> set (List.map_filter (lookupHead c) ns) \<longleftrightarrow> (\<exists>n\<in>set ns. lookupHead c n = Some h)"
  by (induction ns) (auto simp: List.map_filter_def)

lemma foldl_record_tip_mem:
  "tip (foldl record_head c hs) = Some x \<Longrightarrow> tip c = Some x \<or> x \<in> set hs"
  by (induction hs rule: rev_induct) (auto split: option.splits if_splits)

lemma map_filter_append: "List.map_filter f (xs @ ys) = List.map_filter f xs @ List.map_filter f ys"
  by (simp add: List.map_filter_def)

lemma u64_upto_snoc: "lo \<le> hi \<Longrightarrow> \<exists>ns. u64_upto lo hi = ns @ [hi] \<and> set ns \<subseteq> {lo..hi}"
proof -
  assume le: "lo \<le> hi"
  then have "u64_upto lo hi = map of_nat [unat lo ..< unat hi] @ [hi]"
    by (simp add: u64_upto_def word_le_nat_alt)
  then show ?thesis using set_u64_upto [of lo hi] by auto
qed

section \<open>Properties\<close>

text \<open>
  Recording an ascending run of consecutive blocks makes its last header the tip and
  keeps every header of the run that lies in the window from \<open>floor()\<close> to the tip readable: the
  doc comment of \<open>floor\<close> ("still guaranteed to be in the buffer") holds for forward scans.
\<close>

theorem ascending_run_is_buffered:
  assumes inv: "chainInv c" and old: "\<forall>t. tip c = Some t \<longrightarrow> hrNumber t \<le> a"
    and run: "hs \<noteq> []" "ascending a hs"
    and n: "a \<le> n" "floor_of (foldl record_head c hs) \<le> n" "n \<le> hrNumber (last hs)"
  shows "tip (foldl record_head c hs) = Some (last hs) \<and>
    at (foldl record_head c hs) n = (hs ! (unat n - unat a), True)"
proof -
  let ?c = "foldl record_head c hs" and ?i = "unat n - unat a"
  have t: "tip ?c = Some (last hs)" using record_all_tip [OF run old] .
  have last: "unat (hrNumber (last hs)) = unat a + (length hs - 1)"
    using run by (simp add: ascending_def last_conv_nth)
  have i: "?i < length hs" using n(1,3) last run(1)
    by (cases hs) (auto simp: word_le_nat_alt)
  then have num: "hrNumber (hs ! ?i) = n"
    using run(2) n(1) by (simp add: ascending_def u64_eq_nat word_le_nat_alt)
  have "unat (hrNumber (last hs)) - unat n < unat (depth c)"
    using window_span [of ?c, OF ring.inv_rec_all [OF inv] t n(2)] by simp
  then have "length hs - ?i \<le> unat (depth c)"
    using last i n(1) by (simp add: word_le_nat_alt)
  then have "lookupHead ?c n = Some (hs ! ?i)"
    using ascending_window [OF inv run(2) i] num by simp
  then have "at ?c n = (hs ! ?i, True)" by (simp add: at_lookup)
  then show ?thesis using t by simp
qed

text \<open>
  C17: recording a descending run, as the newest-first catch-up scan does, of at least two
  ring lengths leaves no header of the window from \<open>floor()\<close> to the tip readable, the tip itself
  included, so \<open>findAncestor\<close> reports a deep reorg from the floor without asking the node: the
  guarantee in the doc comment of \<open>floor\<close> does not survive a long catch-up.
\<close>

theorem backward_scan_empties_window:
  assumes inv: "chainInv c" and old: "\<forall>t. tip c = Some t \<longrightarrow> hrNumber t \<le> b"
    and run: "descending b hs" "2 * unat (depth c) \<le> length hs"
  shows "let c' = foldl record_head c hs in
    tip c' = Some (hd hs) \<and> hrNumber (hd hs) = b \<and>
    (\<forall>n. floor_of c' \<le> n \<and> n \<le> b \<longrightarrow> \<not> snd (at c' n)) \<and>
    (\<forall>n\<le>b. findAncestor fetch c' n w = (Inr (floor_of c', True), w))"
proof -
  define c' where "c' = foldl record_head c hs"
  have d: "64 \<le> unat (depth c)" using inv by (simp add: chainInv_def word_le_nat_alt)
  then have ne: "hs \<noteq> []" using run(2) by auto
  have hd: "hrNumber (hd hs) = b"
    using run(1) ne by (auto simp: descending_def hd_conv_nth u64_eq_nat)
  have t: "tip c' = Some (hd hs)"
    unfolding c'_def using record_all_tip_descending [OF ne run(1) old] .
  have inv': "chainInv c'" unfolding c'_def using inv by (rule ring.inv_rec_all)
  have none: "lookupHead c' n = None" if "floor_of c' \<le> n" "n \<le> b" for n
  proof -
    let ?i = "unat b - unat n"
    have "?i < unat (depth c')" using window_span [OF inv' t that(1)] hd by simp
    then have i: "?i + unat (depth c) < length hs" using run(2) by (simp add: c'_def)
    then have "?i < length hs" by simp
    then have "unat (hrNumber (hs ! ?i)) + ?i = unat b" using run(1) by (simp add: descending_def)
    then have "hrNumber (hs ! ?i) = n" using that(2) by (simp add: u64_eq_nat word_le_nat_alt)
    then show ?thesis using descending_slot_lost [OF inv run(1) i] by (simp add: c'_def)
  qed
  then have "\<forall>n. floor_of c' \<le> n \<and> n \<le> b \<longrightarrow> \<not> snd (at c' n)" by (simp add: at_lookup_None)
  moreover have "findAncestor fetch c' n w = (Inr (floor_of c', True), w)" if "n \<le> b" for n
    using none that by (auto simp: findAncestor_def intro!: walkBack_empty)
  ultimately show ?thesis using t hd by (simp add: c'_def Let_def)
qed

text \<open>
  C16: against a node that answers every header request, the chunked walk of \<open>findAncestor\<close>
  computes the same result as the plain downward search: the highest number above the floor at
  which the buffered and the canonical header agree, or the floor with \<open>deep\<close> set.
\<close>

theorem findAncestor_is_highest_agreement:
  assumes "\<And>ns w. fst (fetch ns w) = Inr (map canon ns, map (\<lambda>_. None) ns)"
  shows "fst (findAncestor fetch c fromNumber w) =
    Inr (case List.find (agrees c canon) (u64_downto fromNumber (floor_of c)) of
           Some a \<Rightarrow> (a, False) | None \<Rightarrow> (floor_of c, True))"
  using walkBack_find [of fetch canon "[]" c "floor_of c" fromNumber w] assms
  by (auto simp: findAncestor_def split: option.splits)

text \<open>
  Whatever the node answers, an ancestor reported with \<open>deep = false\<close> lies above the
  floor and at or below the start of the walk, and the node did return for it the hash that the
  ring holds; with \<open>deep = true\<close> the result is the floor.
\<close>

theorem findAncestor_sound:
  assumes "findAncestor fetch c fromNumber w = (Inr (a, deep), w')"
  shows "if deep then a = floor_of c
    else floor_of c < a \<and> a \<le> fromNumber \<and> nodeAgrees fetch c a"
  using walkBack_sound [of fetch c "floor_of c" fromNumber "[]" w a deep w'] assms
  by (auto simp: findAncestor_def)

text \<open>What \<open>snapshot\<close> keeps of a window: the headers found under the numbers from the floor to the tip.\<close>

definition windowHeads :: "chainState \<Rightarrow> headRef \<Rightarrow> headRef list" where
  "windowHeads c t = List.map_filter (lookupHead c) (u64_upto (floor_of c) (hrNumber t))"

lemma mem_windowHeads: "h \<in> set (windowHeads c t) \<longleftrightarrow>
    floor_of c \<le> hrNumber h \<and> hrNumber h \<le> hrNumber t \<and> lookupHead c (hrNumber h) = Some h"
  unfolding windowHeads_def map_filter_mem set_u64_upto by (auto dest: ring.look_number)

text \<open>In a window no two numbers share a slot, so none of its headers overwrites another.\<close>

lemma window_slots:
  assumes "chainInv c" and "tip c = Some t" and "floor_of c \<le> m" and "m \<le> hrNumber t"
    and "floor_of c \<le> n" and "n \<le> hrNumber t" and "slotOf c m = slotOf c n"
  shows "m = n"
proof (rule ccontr)
  assume "m \<noteq> n"
  then have "unat m < unat n \<or> unat n < unat m" by (metis u64_eq_nat linorder_less_linear)
  moreover have "\<not> unat m < unat n"
    using slotOf_distinct [of m n c] window_span [OF assms(1-3,6)] assms(7) by auto
  moreover have "\<not> unat n < unat m"
    using slotOf_distinct [of n m c] window_span [OF assms(1,2,5,4)] assms(7) by auto
  ultimately show False by blast
qed

lemma window_reread:
  assumes inv: "chainInv c" and t: "tip c = Some t" and d: "depth (newChainState k) = depth c"
    and n: "floor_of c \<le> n" "n \<le> hrNumber t"
  shows "lookupHead (foldl record_head (newChainState k) (windowHeads c t)) n = lookupHead c n"
proof -
  let ?hs = "windowHeads c t"
  let ?f = "List.find (\<lambda>h. slotOf c (hrNumber h) = slotOf c n) (rev ?hs)"
  have nz: "\<forall>h \<in> set ?hs. hrHash h \<noteq> 0"
    by (auto simp: mem_windowHeads lookupHead_def at_def Let_def split: if_splits)
  have "slotOf (newChainState k) = slotOf c" by (rule ext) (simp add: slotOf_def d)
  then have eq: "lookupHead (foldl record_head (newChainState k) ?hs) n =
      (case ?f of None \<Rightarrow> None | Some h \<Rightarrow> if hrNumber h = n then Some h else None)"
    using ring.look_rec_all [OF chainInv_new [of k] nz, of n] by (auto simp: lookup_fresh split: option.splits)
  show ?thesis
  proof (cases ?f)
    case (Some h)
    then have "h \<in> set ?hs" "slotOf c (hrNumber h) = slotOf c n" using find_Some_iff_first by fastforce+
    then have "hrNumber h = n" "lookupHead c (hrNumber h) = Some h"
      using window_slots [OF inv t _ _ n] by (auto simp: mem_windowHeads)
    then show ?thesis using eq Some by simp
  next
    case None
    have "lookupHead c n = None"
    proof (rule ccontr)
      assume "lookupHead c n \<noteq> None"
      then obtain h where h: "lookupHead c n = Some h" by auto
      then have "hrNumber h = n" by (rule ring.look_number)
      then show False using None h n by (auto simp: find_None_all mem_windowHeads)
    qed
    then show ?thesis using eq None by simp
  qed
qed

lemma window_tip:
  assumes t: "tip c = Some t" and look: "lookupHead c (hrNumber t) = Some t"
  shows "tip (foldl record_head (newChainState k) (windowHeads c t)) = Some t"
proof -
  obtain ns where "u64_upto (floor_of c) (hrNumber t) = ns @ [hrNumber t]"
    using u64_upto_snoc [OF floor_le_tip [OF t]] by blast
  then obtain pre where hs: "windowHeads c t = pre @ [t]"
    using look by (simp add: windowHeads_def map_filter_append List.map_filter_def)
  have "hrNumber x \<le> hrNumber t" if "tip (foldl record_head (newChainState k) pre) = Some x" for x
  proof -
    have "tip (newChainState k) = None" by (simp add: newChainState_def Let_def)
    then have "x \<in> set pre" using foldl_record_tip_mem [OF that] by simp
    then show ?thesis using mem_windowHeads [of x c t] hs by simp
  qed
  then show ?thesis by (auto simp: hs split: option.splits)
qed

text \<open>
  The headers that \<open>snapshot\<close> persists, recorded again into a fresh ring of the same
  depth, restore every lookup in the window from the floor to the tip, and the tip as well if
  the ring still held it; the loop of \<open>snapshot\<close> ends.
\<close>

theorem snapshot_restore:
  assumes inv: "chainInv c" and t: "tip c = Some t" and mx: "hrNumber t \<noteq> - 1"
    and d: "depth (newChainState k) = depth c"
  shows "\<exists>hs. snapshot c = Some hs \<and>
    (\<forall>n. floor_of c \<le> n \<and> n \<le> hrNumber t \<longrightarrow>
      lookupHead (foldl record_head (newChainState k) hs) n = lookupHead c n) \<and>
    (lookupHead c (hrNumber t) = Some t \<longrightarrow>
      tip (foldl record_head (newChainState k) hs) = Some t)"
proof -
  have "snapshot c = Some (windowHeads c t)" using snapshot_eq [of c] t mx by (simp add: windowHeads_def)
  then show ?thesis using window_reread [OF inv t d] window_tip [OF t] by blast
qed

section \<open>Witnesses\<close>

text \<open>
  A small chain for the witnesses: one header per number, recorded into the ring of a
  12-confirmations indexer, and a node that serves exactly these headers.
\<close>

definition demoHead :: "nat \<Rightarrow> headRef" where
  "demoHead n = \<lparr>hrNumber = of_nat n, hrHash = of_nat (Suc n), hrParentHash = of_nat n\<rparr>"

definition demoUp :: "headRef list" where
  "demoUp = map demoHead [100..<200]"

definition demoDown :: "headRef list" where
  "demoDown = map (\<lambda>i. demoHead (200 - i)) [0..<128]"

definition demoNode :: "unit headerFetcher" where
  "demoNode ns w = (Inr (map (\<lambda>n. demoHead (unat n)) ns, map (\<lambda>_. None) ns), w)"

lemma demoHead_hash: "n < 1000 \<Longrightarrow> hrHash (demoHead n) \<noteq> 0"
  by (simp add: demoHead_def word_unat_eq_iff unat_of_nat del: of_nat_Suc)

lemma demoHead_number: "n < 1000 \<Longrightarrow> unat (hrNumber (demoHead n)) = n"
  by (simp add: demoHead_def unat_of_nat)

lemma ascending_demoUp: "ascending 100 demoUp"
  by (simp add: ascending_def demoUp_def demoHead_hash demoHead_number del: upt_rec_numeral)

lemma descending_demoDown: "descending 200 demoDown"
  by (simp add: descending_def demoDown_def demoHead_hash demoHead_number del: upt_rec_numeral)

lemma new_chain_12 [simp]: "depth (newChainState 12) = 64" "tip (newChainState 12) = None"
  by (simp_all add: newChainState_def Let_def)

lemma last_demoUp: "demoUp \<noteq> []" "last demoUp = demoHead 199"
  by (simp_all add: demoUp_def last_map del: upt_rec_numeral)

lemma tip_demoUp: "tip (foldl record_head (newChainState 12) demoUp) = Some (demoHead 199)"
  using record_all_tip [OF last_demoUp(1) ascending_demoUp, of "newChainState 12"] last_demoUp(2)
  by simp

lemma floor_demoUp: "floor_of (foldl record_head (newChainState 12) demoUp) = 136"
  by (simp add: floor_of_def tip_demoUp demoHead_def)

lemma lookup_demoUp:
  "lookupHead (foldl record_head (newChainState 12) demoUp) 199 = Some (demoHead 199)"
proof -
  have "demoUp ! 99 = demoHead 199" and "length demoUp = 100"
    by (simp_all add: demoUp_def del: upt_rec_numeral)
  then show ?thesis
    using ascending_window [OF chainInv_new ascending_demoUp, of 99 12] by (simp add: demoHead_def)
qed

lemma demo_walk:
  "findAncestor demoNode (foldl record_head (newChainState 12) demoUp) 199 () = (Inr (199, False), ())"
proof -
  let ?c = "foldl record_head (newChainState 12) demoUp"
  have "agrees ?c (\<lambda>n. demoHead (unat n)) 199"
    by (simp add: agrees_def lookup_demoUp)
  then have "List.find (agrees ?c (\<lambda>n. demoHead (unat n))) (u64_downto 199 (floor_of ?c)) = Some 199"
    by (simp add: floor_demoUp u64_downto.simps [of 199])
  then have "fst (findAncestor demoNode ?c 199 ()) = Inr (199, False)"
    using walkBack_find [of demoNode "\<lambda>n. demoHead (unat n)" "[]" ?c "floor_of ?c" 199 "()"]
    by (simp add: findAncestor_def demoNode_def)
  then show ?thesis by (simp add: prod_eq_iff)
qed

theorem ascending_run_is_buffered_witness:
  "at (foldl record_head (newChainState 12) demoUp) 150 = (demoHead 150, True)"
proof -
  have "floor_of (foldl record_head (newChainState 12) demoUp) \<le> 150"
    by (simp add: floor_demoUp)
  moreover have "150 \<le> hrNumber (last demoUp)" by (simp add: last_demoUp demoHead_def)
  ultimately show ?thesis
    using ascending_run_is_buffered [OF chainInv_new _ last_demoUp(1) ascending_demoUp, of 12 150]
    by (simp add: demoUp_def del: upt_rec_numeral)
qed

theorem backward_scan_empties_window_witness:
  "tip (foldl record_head (newChainState 12) demoDown) = Some (demoHead 200) \<and>
   \<not> snd (at (foldl record_head (newChainState 12) demoDown) 200)"
proof -
  let ?c = "foldl record_head (newChainState 12) demoDown"
  have hd: "hd demoDown = demoHead 200" and len: "2 * unat (depth (newChainState 12)) \<le> length demoDown"
    by (simp_all add: demoDown_def hd_map del: upt_rec_numeral)
  have key: "tip ?c = Some (hd demoDown) \<and>
      (\<forall>n. floor_of ?c \<le> n \<and> n \<le> 200 \<longrightarrow> \<not> snd (at ?c n))"
    using backward_scan_empties_window [OF chainInv_new _ descending_demoDown len, of demoNode "()"]
    by (simp add: Let_def)
  then have "floor_of ?c = 137" using hd by (simp add: floor_of_def demoHead_def)
  then show ?thesis using key hd by simp
qed

theorem findAncestor_is_highest_agreement_witness:
  "fst (findAncestor demoNode (foldl record_head (newChainState 12) demoUp) 199 ()) = Inr (199, False)"
proof -
  let ?c = "foldl record_head (newChainState 12) demoUp"
  have "agrees ?c (\<lambda>n. demoHead (unat n)) 199"
    by (simp add: agrees_def lookup_demoUp)
  then have "List.find (agrees ?c (\<lambda>n. demoHead (unat n))) (u64_downto 199 (floor_of ?c)) = Some 199"
    by (simp add: floor_demoUp u64_downto.simps [of 199])
  then show ?thesis
    using findAncestor_is_highest_agreement [of demoNode "\<lambda>n. demoHead (unat n)" ?c 199 "()"]
    by (simp add: demoNode_def)
qed

theorem findAncestor_sound_witness:
  "nodeAgrees demoNode (foldl record_head (newChainState 12) demoUp) 199"
  using findAncestor_sound [OF demo_walk] by simp

theorem snapshot_restore_witness:
  "\<exists>hs. snapshot (foldl record_head (newChainState 12) demoUp) = Some hs \<and>
    lookupHead (foldl record_head (newChainState 12) hs) 199 = Some (demoHead 199)"
proof -
  let ?c = "foldl record_head (newChainState 12) demoUp"
  have inv: "chainInv ?c" by (rule ring.inv_rec_all) (rule chainInv_new)
  have mx: "hrNumber (demoHead 199) \<noteq> - 1" and le: "199 \<le> hrNumber (demoHead 199)"
    by (simp_all add: demoHead_def)
  have d: "depth (newChainState 12) = depth ?c" by simp
  show ?thesis
    using snapshot_restore [OF inv tip_demoUp mx d] lookup_demoUp le by (auto simp: floor_demoUp)
qed

end
