(* ===== verification/Decimal.thy ===== *)
theory Decimal
  imports Prelude
begin

text \<open>
  Decimal text, as Go's standard library writes it: \<open>big.Int.String\<close>, \<open>strconv\<close> and the
  zero-padded fields of \<open>time.Format\<close>. The theory has the rendering, the reading back, and the
  order of fixed-width fields, which the amount and time components share.
\<close>

section \<open>Digits\<close>

definition digitChar :: "nat \<Rightarrow> char" where
  "digitChar d = char_of (48 + d)"

definition digitVal :: "char \<Rightarrow> nat" where
  "digitVal c = of_char c - 48"

definition isDigit :: "char \<Rightarrow> bool" where
  "isDigit c \<longleftrightarrow> (48 :: nat) \<le> of_char c \<and> of_char c \<le> (57 :: nat)"

fun natString :: "nat \<Rightarrow> string" where
  "natString n = (if n < 10 then [digitChar n] else natString (n div 10) @ [digitChar (n mod 10)])"

declare natString.simps [simp del]

definition intString :: "int \<Rightarrow> string" where
  "intString v = (if v < 0 then CHR ''-'' # natString (nat (- v)) else natString (nat v))"

definition natOf :: "string \<Rightarrow> nat" where
  "natOf s = foldl (\<lambda>a c. 10 * a + digitVal c) 0 s"

text \<open>\<open>appendInt\<close> of \<open>time.Format\<close>: zeros on the left up to a minimal width.\<close>

definition padDec :: "nat \<Rightarrow> nat \<Rightarrow> string" where
  "padDec k n = replicate (k - length (natString n)) CHR ''0'' @ natString n"

text \<open>Exactly \<open>k\<close> digits: the reference the padded rendering is compared with.\<close>

fun digits :: "nat \<Rightarrow> nat \<Rightarrow> string" where
  "digits 0 n = []"
| "digits (Suc k) n = digits k (n div 10) @ [digitChar (n mod 10)]"

section \<open>Reading back\<close>

lemma digitVal_digitChar [simp]: "d < 10 \<Longrightarrow> digitVal (digitChar d) = d"
  by (simp add: digitVal_def digitChar_def)

lemma isDigit_digitChar [simp]: "d < 10 \<Longrightarrow> isDigit (digitChar d)"
  by (simp add: isDigit_def digitChar_def)

lemma digitChar_0: "digitChar 0 = CHR ''0''"
  by code_simp

lemma digitChar_inj: "a < 10 \<Longrightarrow> b < 10 \<Longrightarrow> digitChar a = digitChar b \<longleftrightarrow> a = b"
  by (metis digitVal_digitChar)

lemma digitChar_less: "a < 10 \<Longrightarrow> b < 10 \<Longrightarrow> digitChar a < digitChar b \<longleftrightarrow> a < b"
  by (simp add: digitChar_def less_char_def)

lemma isDigit_natString: "c \<in> set (natString n) \<Longrightarrow> isDigit c"
proof (induction n rule: natString.induct)
  case (1 n)
  then show ?case by (auto simp: natString.simps [of n] split: if_splits)
qed

lemma natString_nonempty [simp]: "natString n \<noteq> []"
  by (simp add: natString.simps [of n])

lemma natOf_snoc [simp]: "natOf (s @ [c]) = 10 * natOf s + digitVal c"
  by (simp add: natOf_def)

lemma natOf_Nil [simp]: "natOf [] = 0"
  by (simp add: natOf_def)

lemma natOf_natString [simp]: "natOf (natString n) = n"
proof (induction n rule: natString.induct)
  case (1 n)
  show ?case
  proof (cases "n < 10")
    case True
    then show ?thesis using natOf_snoc [of "[]"] by (simp add: natString.simps [of n])
  next
    case False
    then show ?thesis using 1 by (simp add: natString.simps [of n])
  qed
qed

lemma natString_inj: "natString a = natString b \<longleftrightarrow> a = b"
  by (metis natOf_natString)

lemma natOf_replicate_0: "natOf (replicate k CHR ''0'' @ s) = natOf s"
proof -
  have "foldl (\<lambda>a c. 10 * a + digitVal c) 0 (replicate k CHR ''0'') = 0"
    by (induction k) (auto simp: digitVal_def)
  then show ?thesis by (simp add: natOf_def)
qed

lemma natOf_padDec [simp]: "natOf (padDec k n) = n"
  by (simp add: padDec_def natOf_replicate_0)

lemma natOf_append_0: "natOf (s @ replicate k CHR ''0'') = natOf s * 10 ^ k"
proof (induction k)
  case (Suc k)
  have "natOf (s @ replicate (Suc k) CHR ''0'') = natOf ((s @ replicate k CHR ''0'') @ [CHR ''0''])"
    by (metis append_assoc replicate_Suc replicate_append_same)
  then show ?case using Suc by (simp only: natOf_snoc) (simp add: digitVal_def)
qed simp

lemma isDigit_padDec: "c \<in> set (padDec k n) \<Longrightarrow> isDigit c"
  by (auto simp: padDec_def isDigit_natString) (auto simp: isDigit_def)

section \<open>Fixed width and order\<close>

lemma length_digits [simp]: "length (digits k n) = k"
  by (induction k arbitrary: n) auto

lemma digits_zero: "digits k 0 = replicate k CHR ''0''"
  by (induction k) (auto simp: digitChar_0 replicate_append_same)

lemma natString_digits: "0 < k \<Longrightarrow> n < 10 ^ k \<Longrightarrow>
  length (natString n) \<le> k \<and> digits k n = replicate (k - length (natString n)) CHR ''0'' @ natString n"
proof (induction k arbitrary: n)
  case (Suc k)
  show ?case
  proof (cases "n < 10")
    case True
    then show ?thesis by (simp add: natString.simps [of n] digits_zero)
  next
    case False
    have "n div 10 < 10 ^ k" using Suc.prems(2) by (simp add: less_mult_imp_div_less mult.commute)
    moreover have "0 < k" using False Suc.prems(2) by (cases k) auto
    ultimately show ?thesis using Suc.IH [of "n div 10"] False by (simp add: natString.simps [of n])
  qed
qed simp

lemma padDec_digits: "0 < k \<Longrightarrow> n < 10 ^ k \<Longrightarrow> padDec k n = digits k n"
  using natString_digits by (simp add: padDec_def)

lemma length_padDec: "0 < k \<Longrightarrow> n < 10 ^ k \<Longrightarrow> length (padDec k n) = k"
  by (simp add: padDec_digits)

lemma append_less_iff:
  fixes a :: "'a :: linorder list"
  assumes "length a = length a'"
  shows "a @ b < a' @ b' \<longleftrightarrow> a < a' \<or> a = a' \<and> b < b'"
  using assms by (induction a a' rule: list_induct2) auto

lemma less_div_mod_10:
  "(m :: nat) < n \<longleftrightarrow> m div 10 < n div 10 \<or> m div 10 = n div 10 \<and> m mod 10 < n mod 10"
proof -
  have "m = 10 * (m div 10) + m mod 10" and "n = 10 * (n div 10) + n mod 10"
    and "m mod 10 < 10" and "n mod 10 < 10" by simp_all
  then show ?thesis
    by (cases "m div 10" "n div 10" rule: linorder_cases) linarith+
qed

lemma digits_less: "m < 10 ^ k \<Longrightarrow> n < 10 ^ k \<Longrightarrow> digits k m < digits k n \<longleftrightarrow> m < n"
proof (induction k arbitrary: m n)
  case (Suc k)
  have "m div 10 < 10 ^ k" and "n div 10 < 10 ^ k"
    using Suc.prems by (simp_all add: less_mult_imp_div_less mult.commute)
  note IH = Suc.IH [OF this] Suc.IH [OF this(2,1)]
  have eq: "digits k (m div 10) = digits k (n div 10) \<longleftrightarrow> m div 10 = n div 10"
    using IH by (metis less_irrefl linorder_neqE_nat)
  have "digits (Suc k) m < digits (Suc k) n \<longleftrightarrow>
      m div 10 < n div 10 \<or> m div 10 = n div 10 \<and> m mod 10 < n mod 10"
    using IH eq by (simp add: append_less_iff digitChar_less)
  also have "\<dots> \<longleftrightarrow> m < n"
    by (rule less_div_mod_10 [symmetric])
  finally show ?case .
qed simp

lemma padDec_less: "0 < k \<Longrightarrow> m < 10 ^ k \<Longrightarrow> n < 10 ^ k \<Longrightarrow> padDec k m < padDec k n \<longleftrightarrow> m < n"
  by (simp add: padDec_digits digits_less)

end
