(* ===== verification/Units.thy ===== *)
theory Units
  imports Decimal
begin

text \<open>
  internal/event/units.go: \<open>FormatUnits\<close>, the decimal rendering of a base-unit amount. The
  reference it is compared with is \<open>readUnits\<close>, which reads such a rendering back as the exact
  number of base units.
\<close>

definition TrimRight0 :: "string \<Rightarrow> string" where
  "TrimRight0 s = rev (dropWhile (\<lambda>c. c = CHR ''0'') (rev s))"

definition FormatUnits :: "int \<Rightarrow> u8 \<Rightarrow> string" where
  "FormatUnits v decimals =
     (if decimals = 0 then intString v
      else let divisor = 10 ^ unat decimals;
               whole = v sdiv divisor;
               frac = v smod divisor;
               neg = frac < 0;
               fracAbs = \<bar>frac\<bar>
           in if fracAbs = 0 then intString whole
              else let fracStr = intString fracAbs;
                       pad = int (unat decimals) - int (length fracStr);
                       padded = (if 0 < pad then replicate (nat pad) CHR ''0'' @ fracStr else fracStr);
                       trimmed = TrimRight0 padded;
                       wholeStr = (if neg \<and> whole = 0 then ''-'' @ intString whole else intString whole)
                   in wholeStr @ ''.'' @ trimmed)"

text \<open>The exact amount a decimal rendering stands for, in units of \<open>10 ^ (- decimals)\<close>.\<close>

definition readUnits :: "u8 \<Rightarrow> string \<Rightarrow> int" where
  "readUnits decimals s =
     (let neg = take 1 s = ''-'';
          body = (if neg then drop 1 s else s);
          whole = takeWhile isDigit body;
          frac = drop 1 (dropWhile isDigit body);
          units = int (natOf (whole @ frac @ replicate (unat decimals - length frac) CHR ''0''))
      in if neg then - units else units)"

lemma TrimRight0_decomp: "\<exists>k. s = TrimRight0 s @ replicate k CHR ''0''"
proof -
  have "rev s = takeWhile (\<lambda>c. c = CHR ''0'') (rev s) @ dropWhile (\<lambda>c. c = CHR ''0'') (rev s)" by simp
  then have "s = TrimRight0 s @ rev (takeWhile (\<lambda>c. c = CHR ''0'') (rev s))"
    unfolding TrimRight0_def by (metis rev_append rev_rev_ident)
  moreover have "\<exists>k. rev (takeWhile (\<lambda>c. c = CHR ''0'') t) = replicate k CHR ''0''" for t :: string
    by (intro exI [of _ "length (takeWhile (\<lambda>c. c = CHR ''0'') t)"] replicate_eqI) (auto dest: set_takeWhileD)
  ultimately show ?thesis by metis
qed

lemma TrimRight0_last: "TrimRight0 s \<noteq> [] \<Longrightarrow> last (TrimRight0 s) \<noteq> CHR ''0''"
  using hd_dropWhile [of "\<lambda>c. c = CHR ''0''" "rev s"] unfolding TrimRight0_def by (simp add: last_rev)

lemma isDigit_TrimRight0: "(\<And>c. c \<in> set s \<Longrightarrow> isDigit c) \<Longrightarrow> c \<in> set (TrimRight0 s) \<Longrightarrow> isDigit c"
  unfolding TrimRight0_def by (auto dest: set_dropWhileD)

lemma natOf_append: "natOf (a @ b) = natOf a * 10 ^ length b + natOf b"
proof (induction b rule: rev_induct)
  case (snoc c b)
  then show ?case using natOf_snoc [of "a @ b" c] by (simp add: algebra_simps)
qed simp

lemma intString_nonneg: "0 \<le> v \<Longrightarrow> intString v = natString (nat v)"
  by (simp add: intString_def)

lemma isDigit_minus: "\<not> isDigit CHR ''-''" and isDigit_dot: "\<not> isDigit CHR ''.''"
  by code_simp+

lemma natString_no_minus: "take 1 (natString n @ s) \<noteq> ''-''"
  using isDigit_natString [of "hd (natString n)" n] isDigit_minus
  by (cases "natString n") auto

lemma readUnits_digits:
  assumes "\<forall>c \<in> set f. isDigit c" and "length f \<le> unat d"
  shows "readUnits d (natString n @ (if f = [] then [] else CHR ''.'' # f)) =
      int (n * 10 ^ unat d + natOf f * 10 ^ (unat d - length f))"
    and "readUnits d (CHR ''-'' # natString n @ (if f = [] then [] else CHR ''.'' # f)) =
      - int (n * 10 ^ unat d + natOf f * 10 ^ (unat d - length f))"
proof -
  define r where "r = (if f = [] then [] else CHR ''.'' # f)"
  have "takeWhile isDigit r = []" "dropWhile isDigit r = r" using isDigit_dot by (auto simp: r_def)
  then have tw: "takeWhile isDigit (natString n @ r) = natString n" "dropWhile isDigit (natString n @ r) = r"
    by (simp_all add: takeWhile_append2 dropWhile_append2 isDigit_natString)
  have "drop 1 r = f" by (simp add: r_def)
  moreover have "natOf (natString n @ f @ replicate (unat d - length f) CHR ''0'') =
      n * 10 ^ unat d + natOf f * 10 ^ (unat d - length f)"
    using assms(2) natOf_append_0 [of "[]"] by (simp add: natOf_append)
  ultimately show "readUnits d (natString n @ (if f = [] then [] else CHR ''.'' # f)) =
      int (n * 10 ^ unat d + natOf f * 10 ^ (unat d - length f))"
    and "readUnits d (CHR ''-'' # natString n @ (if f = [] then [] else CHR ''.'' # f)) =
      - int (n * 10 ^ unat d + natOf f * 10 ^ (unat d - length f))"
    using tw natString_no_minus [of n r] by (simp_all add: readUnits_def Let_def r_def [symmetric] del: of_nat_add of_nat_mult)
qed

lemma readUnits_intString:
  "readUnits d (intString v) = v * 10 ^ unat d"
proof (cases "v < 0")
  case True
  then show ?thesis using readUnits_digits(2) [of "[]" d "nat (- v)"] by (simp add: intString_def)
next
  case False
  then show ?thesis using readUnits_digits(1) [of "[]" d "nat v"] by (simp add: intString_def)
qed

text \<open>The rendering on the magnitude of the amount: a sign, the integral part, and the padded
  remainder without its final zeros.\<close>

definition fraction :: "nat \<Rightarrow> nat \<Rightarrow> string" where
  "fraction k r = (if r = 0 then [] else TrimRight0 (padDec k r))"

lemma padDec_Repeat:
  "padDec k r = (if 0 < int k - int (length (intString (int r)))
     then replicate (nat (int k - int (length (intString (int r))))) CHR ''0'' @ intString (int r)
     else intString (int r))"
  by (auto simp: padDec_def intString_def nat_diff_distrib')

lemma FormatUnits_form:
  "FormatUnits v d = (if v < 0 then ''-'' else []) @ natString (nat \<bar>v\<bar> div 10 ^ unat d) @
     (if fraction (unat d) (nat \<bar>v\<bar> mod 10 ^ unat d) = [] then []
      else CHR ''.'' # fraction (unat d) (nat \<bar>v\<bar> mod 10 ^ unat d))"
proof -
  define a q r where "a = nat \<bar>v\<bar>" and "q = a div 10 ^ unat d" and "r = a mod 10 ^ unat d"
  have whole: "v sdiv 10 ^ unat d = sgn v * int q" and frac: "v smod 10 ^ unat d = sgn v * int r"
    by (simp_all add: signed_divide_int_def signed_modulo_int_def q_def r_def a_def zdiv_int zmod_int)
  have a: "a = q * 10 ^ unat d + r" by (simp only: q_def r_def div_mult_mod_eq)
  show ?thesis
  proof (cases "r = 0")
    case True
    then have "intString (sgn v * int q) = (if v < 0 then ''-'' else []) @ natString q"
      using a by (cases "v < 0"; cases "v = 0"; cases "q = 0") (auto simp: intString_def a_def sgn_if)
    moreover have "d = 0 \<Longrightarrow> sgn v * int q = v" by (simp add: q_def a_def sgn_mult_abs)
    ultimately show ?thesis
      using True by (auto simp: FormatUnits_def whole frac fraction_def a_def [symmetric] q_def [symmetric] r_def [symmetric])
  next
    case False
    have d: "d \<noteq> 0" using False by (auto simp: r_def)
    have v: "v \<noteq> 0" using False a by (auto simp: a_def)
    note pad = padDec_Repeat [of "unat d" r]
    have abs: "\<bar>sgn v * int r\<bar> = int r" using v by (simp add: abs_mult)
    have sg: "sgn v * int r < 0 \<longleftrightarrow> v < 0" "sgn v * int q = 0 \<longleftrightarrow> q = 0" using v False by (auto simp: sgn_if)
    have ws: "(if v < 0 \<and> q = 0 then ''-'' @ intString (sgn v * int q) else intString (sgn v * int q))
        = (if v < 0 then ''-'' else []) @ natString q"
      using v by (auto simp: intString_def sgn_if)
    have ne: "TrimRight0 (padDec (unat d) r) \<noteq> []"
    proof
      assume "TrimRight0 (padDec (unat d) r) = []"
      then obtain k where "padDec (unat d) r = replicate k CHR ''0''"
        using TrimRight0_decomp [of "padDec (unat d) r"] by auto
      then have "natOf (padDec (unat d) r) = 0" using natOf_append_0 [of "[]" k] by simp
      then show False using False by simp
    qed
    have "FormatUnits v d = ((if v < 0 \<and> q = 0 then ''-'' @ intString (sgn v * int q) else intString (sgn v * int q)))
        @ ''.'' @ TrimRight0 (padDec (unat d) r)"
      using d False by (simp add: FormatUnits_def whole frac abs sg pad [unfolded of_nat_unat] pad v sgn_0_0 Let_def)
    then show ?thesis unfolding ws using False ne
      by (simp add: fraction_def a_def [symmetric] q_def [symmetric] r_def [symmetric])
  qed
qed

lemma fraction_value:
  assumes "r < 10 ^ k"
  shows "(\<forall>c \<in> set (fraction k r). isDigit c) \<and> length (fraction k r) \<le> k \<and>
    natOf (fraction k r) * 10 ^ (k - length (fraction k r)) = r"
proof (cases "r = 0")
  case False
  then have k: "0 < k" using assms by (cases k) auto
  obtain j where j: "padDec k r = TrimRight0 (padDec k r) @ replicate j CHR ''0''"
    using TrimRight0_decomp by blast
  have "length (padDec k r) = k" using k assms by (rule length_padDec)
  then have l: "length (TrimRight0 (padDec k r)) + j = k" using j by (metis length_append length_replicate)
  have "natOf (TrimRight0 (padDec k r)) * 10 ^ j = r" using j by (metis natOf_append_0 natOf_padDec)
  moreover have "j = k - length (TrimRight0 (padDec k r))" using l by simp
  ultimately show ?thesis using False l isDigit_TrimRight0 [of "padDec k r"] isDigit_padDec
    by (auto simp: fraction_def)
qed (simp add: fraction_def)

lemma readUnits_FormatUnits:
  "readUnits d (FormatUnits v d) = v"
proof -
  define a where "a = nat \<bar>v\<bar>"
  define f where "f = fraction (unat d) (a mod 10 ^ unat d)"
  have f: "\<forall>c \<in> set f. isDigit c" "length f \<le> unat d" "natOf f * 10 ^ (unat d - length f) = a mod 10 ^ unat d"
    using fraction_value [of "a mod 10 ^ unat d" "unat d"] by (simp_all add: f_def)
  have form: "FormatUnits v d = (if v < 0 then ''-'' else []) @ natString (a div 10 ^ unat d) @
      (if f = [] then [] else CHR ''.'' # f)"
    by (simp add: FormatUnits_form a_def f_def)
  have "readUnits d (FormatUnits v d) = (if v < 0 then - int a else int a)"
    using readUnits_digits [OF f(1,2), of "a div 10 ^ unat d"] unfolding f(3) div_mult_mod_eq form
    by (cases "v < 0") (simp_all only: if_True if_False append.simps)
  then show ?thesis by (simp add: a_def)
qed

text \<open>
  C19: \<open>FormatUnits\<close> is exact: for every amount, negative ones included, and every number of
  decimals, the rendering reads back as the same number of base units; so no two amounts of a
  token ever print alike.
\<close>

theorem FormatUnits_exact:
  "readUnits d (FormatUnits v d) = v"
  by (rule readUnits_FormatUnits)

text \<open>
  The rendering is canonical: when it has a point, a fraction of at least one and at most
  \<open>decimals\<close> digits follows it and the last digit is not a zero; without a point the amount
  is a whole number of tokens.
\<close>

theorem FormatUnits_canonical:
  "if CHR ''.'' \<in> set (FormatUnits v d)
   then last (FormatUnits v d) \<noteq> CHR ''0'' \<and>
        (let f = drop 1 (dropWhile (\<lambda>c. c \<noteq> CHR ''.'') (FormatUnits v d)) in
           0 < length f \<and> length f \<le> unat d \<and> list_all isDigit f)
   else v = (v sdiv 10 ^ unat d) * 10 ^ unat d \<and> FormatUnits v d = intString (v sdiv 10 ^ unat d)"
proof -
  define a q r f where "a = nat \<bar>v\<bar>" and "q = a div 10 ^ unat d" and "r = a mod 10 ^ unat d" and "f = fraction (unat d) r"
  have form: "FormatUnits v d = (if v < 0 then ''-'' else []) @ natString q @ (if f = [] then [] else CHR ''.'' # f)"
    by (simp add: FormatUnits_form a_def q_def r_def f_def)
  have r: "r < 10 ^ unat d" by (simp add: r_def)
  have f: "\<forall>c \<in> set f. isDigit c" "length f \<le> unat d" "natOf f * 10 ^ (unat d - length f) = r"
    using fraction_value [OF r] by (simp_all add: f_def)
  have nodot: "CHR ''.'' \<notin> set (natString q)" using isDigit_natString isDigit_dot by blast
  show ?thesis
  proof (cases "f = []")
    case True
    then have "r = 0" using f(3) by simp
    moreover have "int r = \<bar>v\<bar> mod 10 ^ unat d" by (simp add: r_def a_def zmod_int)
    ultimately have "v smod 10 ^ unat d = 0" by (simp add: signed_modulo_int_def)
    then have v: "v = (v sdiv 10 ^ unat d) * 10 ^ unat d" using sdiv_mult_smod_eq [of v "10 ^ unat d"] by simp
    have "FormatUnits v d = intString (v sdiv 10 ^ unat d)"
      using \<open>v smod 10 ^ unat d = 0\<close> by (simp add: FormatUnits_def Let_def)
    moreover have "CHR ''.'' \<notin> set (FormatUnits v d)" using True nodot by (simp add: form)
    ultimately show ?thesis using v by simp
  next
    case False
    then have "last f \<noteq> CHR ''0''" using TrimRight0_last by (auto simp: f_def fraction_def split: if_splits)
    moreover have "dropWhile (\<lambda>c. c \<noteq> CHR ''.'') (FormatUnits v d) = CHR ''.'' # f"
      unfolding form using False nodot by (auto simp: dropWhile_append)
    ultimately show ?thesis using False f by (simp add: form list_all_iff)
  qed
qed

end
