(* ===== verification/GoTime.thy ===== *)
theory GoTime
  imports Decimal
begin

text \<open>
  The part of Go's \<open>time\<close> package the program uses: the zero time, the two layouts it formats
  UTC instants with (\<open>time.RFC3339\<close> and the fixed-width nanosecond layout, which
  internal/event/hub.go and internal/storage/sqlite.go each declare), and parsing them back.
  An instant is a number of nanoseconds since Go's zero time, 1 January of year 1, 00:00 UTC.
\<close>

section \<open>The calendar\<close>

definition nsPerSec :: int where
  "nsPerSec = 1000000000"

definition nsPerDay :: int where
  "nsPerDay = 86400 * 1000000000"

definition isLeap :: "nat \<Rightarrow> bool" where
  "isLeap y \<longleftrightarrow> y mod 4 = 0 \<and> (y mod 100 \<noteq> 0 \<or> y mod 400 = 0)"

text \<open>Days before 1 January of year \<open>y\<close>, and the year of a day number with the day inside it.\<close>

definition daysBeforeYear :: "nat \<Rightarrow> nat" where
  "daysBeforeYear y = 365 * (y - 1) + (y - 1) div 4 - (y - 1) div 100 + (y - 1) div 400"

definition yearOfDay :: "nat \<Rightarrow> nat" where
  "yearOfDay d =
     (let n400 = d div 146097; r400 = d mod 146097;
          n100 = min 3 (r400 div 36524); r100 = r400 - n100 * 36524;
          n4 = r100 div 1461; r4 = r100 mod 1461;
          n1 = min 3 (r4 div 365)
      in 400 * n400 + 100 * n100 + 4 * n4 + n1 + 1)"

definition monthLengths :: "bool \<Rightarrow> nat list" where
  "monthLengths leap = [31, if leap then 29 else 28, 31, 30, 31, 30, 31, 31, 30, 31, 30, 31]"

fun splitMonth :: "nat list \<Rightarrow> nat \<Rightarrow> nat \<Rightarrow> nat \<times> nat" where
  "splitMonth [] m d = (m, d + 1)"
| "splitMonth (l # ls) m d = (if d < l then (m, d + 1) else splitMonth ls (m + 1) (d - l))"

definition civil :: "nat \<Rightarrow> nat \<times> nat \<times> nat" where
  "civil d = (let y = yearOfDay d in (y, splitMonth (monthLengths (isLeap y)) 1 (d - daysBeforeYear y)))"

definition daysBeforeMonth :: "bool \<Rightarrow> nat \<Rightarrow> nat" where
  "daysBeforeMonth leap m = sum_list (take (m - 1) (monthLengths leap))"

definition dayNumber :: "nat \<Rightarrow> nat \<Rightarrow> nat \<Rightarrow> nat" where
  "dayNumber y m d = daysBeforeYear y + daysBeforeMonth (isLeap y) m + (d - 1)"

text \<open>
  The calendar repeats every 400 years (146097 days). Go's zero time is the first day of year 1,
  and the parser accepts a year 0 before it, so instants are read one period later.
\<close>

definition civilOf :: "int \<Rightarrow> nat \<times> nat \<times> nat" where
  "civilOf d = (case civil (nat (d + 146097)) of (y, m, dd) \<Rightarrow> (y - 400, m, dd))"

definition dayOf :: "nat \<Rightarrow> nat \<Rightarrow> nat \<Rightarrow> int" where
  "dayOf y m d = int (dayNumber (y + 400) m d) - 146097"

section \<open>Formatting and parsing\<close>

text \<open>
  The rendering is for instants from year 0 on: no clock and no parsed text of the program gives
  an earlier one, but for an offset that reaches back across the first midnight of year 0.
\<close>

definition dateTimeString :: "time \<Rightarrow> string" where
  "dateTimeString t =
     (let d = t div nsPerDay; s = nat (t mod nsPerDay div nsPerSec) in
      case civilOf d of (y, m, dd) \<Rightarrow>
        padDec 4 y @ ''-'' @ padDec 2 m @ ''-'' @ padDec 2 dd @ ''T'' @
        padDec 2 (s div 3600) @ '':'' @ padDec 2 (s mod 3600 div 60) @ '':'' @ padDec 2 (s mod 60))"

definition formatRFC3339 :: "time \<Rightarrow> string" where
  "formatRFC3339 t = dateTimeString t @ ''Z''"

definition formatNano :: "time \<Rightarrow> string" where
  "formatNano t = dateTimeString t @ ''.'' @ padDec 9 (nat (t mod nsPerSec)) @ ''Z''"

definition isZero :: "time \<Rightarrow> bool" where
  "isZero t \<longleftrightarrow> t = 0"

text \<open>
  \<open>time.Parse\<close> of an RFC 3339 instant: fixed columns, an optional fraction of a second, of which
  nine digits count, and a zone, \<open>Z\<close> or an offset of hours and minutes.
\<close>

definition digitsAt :: "string \<Rightarrow> nat \<Rightarrow> nat \<Rightarrow> nat option" where
  "digitsAt s i k =
     (let f = take k (drop i s) in if length f = k \<and> list_all isDigit f then Some (natOf f) else None)"

definition charAt :: "string \<Rightarrow> nat \<Rightarrow> char \<Rightarrow> bool" where
  "charAt s i c \<longleftrightarrow> i < length s \<and> s ! i = c"

definition parseZone :: "string \<Rightarrow> int option" where
  "parseZone z =
     (if z = ''Z'' then Some 0
      else if length z = 6 \<and> (charAt z 0 CHR ''+'' \<or> charAt z 0 CHR ''-'') \<and> charAt z 3 CHR '':'' then
        (case (digitsAt z 1 2, digitsAt z 4 2) of
           (Some h, Some m) \<Rightarrow>
             if h \<le> 24 \<and> m < 60
             then Some ((if charAt z 0 CHR ''-'' then - 1 else 1) * int (h * 3600 + m * 60) * nsPerSec)
             else None
         | _ \<Rightarrow> None)
      else None)"

definition parseFraction :: "string \<Rightarrow> (int \<times> string) option" where
  "parseFraction s =
     (case s of
        CHR ''.'' # r \<Rightarrow>
          (let ds = takeWhile isDigit r in
           if ds = [] then None
           else Some (int (natOf (take 9 (ds @ replicate 9 CHR ''0''))), dropWhile isDigit r))
      | _ \<Rightarrow> Some (0, s))"

definition parseRFC3339 :: "string \<Rightarrow> time option" where
  "parseRFC3339 s =
     (case (digitsAt s 0 4, digitsAt s 5 2, digitsAt s 8 2,
            digitsAt s 11 2, digitsAt s 14 2, digitsAt s 17 2, parseFraction (drop 19 s)) of
        (Some y, Some mo, Some d, Some h, Some mi, Some se, Some (ns, z)) \<Rightarrow>
          if charAt s 4 CHR ''-'' \<and> charAt s 7 CHR ''-'' \<and> charAt s 10 CHR ''T'' \<and>
             charAt s 13 CHR '':'' \<and> charAt s 16 CHR '':'' \<and>
             1 \<le> mo \<and> mo \<le> 12 \<and> 1 \<le> d \<and> d \<le> monthLengths (isLeap y) ! (mo - 1) \<and>
             h < 24 \<and> mi < 60 \<and> se < 60
          then (case parseZone z of
                  None \<Rightarrow> None
                | Some off \<Rightarrow>
                    Some (dayOf y mo d * nsPerDay
                      + int (h * 3600 + mi * 60 + se) * nsPerSec + ns - off))
          else None
      | _ \<Rightarrow> None)"


section \<open>Calendar facts\<close>

lemma daysBeforeYear_cycles:
  assumes "b \<le> 3" and "c \<le> 24" and "e \<le> 3"
  shows "daysBeforeYear (400 * a + 100 * b + 4 * c + e + 1) = 146097 * a + 36524 * b + 1461 * c + 365 * e"
proof -
  have "(400 * a + 100 * b + 4 * c + e) div 4 = 100 * a + 25 * b + c"
    and "(400 * a + 100 * b + 4 * c + e) div 100 = 4 * a + b"
    and "(400 * a + 100 * b + 4 * c + e) div 400 = a"
    using assms by (auto intro!: div_nat_eqI)
  then show ?thesis by (simp add: daysBeforeYear_def)
qed

lemma yearLength:
  "daysBeforeYear (Suc y + 1) = daysBeforeYear (Suc y) + (if isLeap (Suc y) then 366 else 365)"
proof -
  have 4: "Suc y div 4 = y div 4 + (if Suc y mod 4 = 0 then 1 else 0)"
    and 100: "Suc y div 100 = y div 100 + (if Suc y mod 100 = 0 then 1 else 0)"
    and 400: "Suc y div 400 = y div 400 + (if Suc y mod 400 = 0 then 1 else 0)"
    by (simp_all add: div_Suc)
  have m1: "Suc y mod 100 = 0 \<Longrightarrow> Suc y mod 4 = 0"
    using mod_mod_cancel [of 4 100 "Suc y"] by simp
  have m2: "Suc y mod 400 = 0 \<Longrightarrow> Suc y mod 100 = 0"
    using mod_mod_cancel [of 100 400 "Suc y"] by simp
  have le: "y div 100 \<le> y div 4" by (rule div_le_mono2) auto
  have sum: "daysBeforeYear (Suc z) = 365 * z + (z div 4 - z div 100) + z div 400" for z
    using div_le_mono2 [of 4 100 z] by (simp add: daysBeforeYear_def)
  define p4 p100 p400 where "p4 \<longleftrightarrow> Suc y mod 4 = 0"
    and "p100 \<longleftrightarrow> Suc y mod 100 = 0" and "p400 \<longleftrightarrow> Suc y mod 400 = 0"
  define A B C where "A = y div 4" and "B = y div 100" and "C = y div 400"
  have leap: "isLeap (Suc y) \<longleftrightarrow> p4 \<and> (\<not> p100 \<or> p400)"
    by (simp only: isLeap_def p4_def p100_def p400_def)
  have imp: "p100 \<longrightarrow> p4" "p400 \<longrightarrow> p100" unfolding p4_def p100_def p400_def using m1 m2 by blast+
  have s1: "daysBeforeYear (Suc y) = 365 * y + (A - B) + C" by (simp only: sum A_def B_def C_def)
  have s2: "daysBeforeYear (Suc y + 1) = 365 * (y + 1)
      + ((A + (if p4 then 1 else 0)) - (B + (if p100 then 1 else 0))) + (C + (if p400 then 1 else 0))"
  proof -
    have "daysBeforeYear (Suc (Suc y)) = 365 * Suc y + (Suc y div 4 - Suc y div 100) + Suc y div 400"
      by (rule sum)
    then show ?thesis unfolding p4_def p100_def p400_def A_def B_def C_def 4 100 400
      by (simp only: Suc_eq_plus1)
  qed
  obtain k where "A = B + k" using le by (auto simp: A_def B_def le_iff_add)
  then show ?thesis unfolding leap s1 s2 using imp
    by (cases p4; cases p100; cases p400) (simp_all only: simp_thms if_True if_False, simp_all)
qed

text \<open>A quotient capped at 3: the fourth part of a cycle is a day longer than the others.\<close>

lemma capped_quotient:
  fixes r m :: nat
  assumes "q = min 3 (r div m)" and "0 < m"
  shows "q \<le> 3" and "r = m * q + (r - q * m)" and "q < 3 \<Longrightarrow> r - q * m < m"
proof -
  show "q \<le> 3" using assms(1) by simp
  have "q * m \<le> r div m * m" using assms(1) by simp
  also have "\<dots> \<le> r" by simp
  finally show eq: "r = m * q + (r - q * m)" by (simp add: mult.commute)
  assume "q < 3"
  then have "q = r div m" using assms(1) by (auto simp: min_def split: if_splits)
  then show "r - q * m < m" using assms(2) by (simp add: minus_div_mult_eq_mod)
qed

text \<open>The fourth year of a group of four is a leap year, unless it ends one of the first three centuries.\<close>

lemma fourth_isLeap:
  assumes "c \<le> 24" and "c < 24 \<or> b = 3"
  shows "isLeap (400 * a + 100 * b + 4 * c + 4)"
proof (cases "c < 24")
  case True
  have "400 * a + 100 * b + 4 * c + 4 = 4 * (100 * a + 25 * b + c + 1)" by simp
  then have "(400 * a + 100 * b + 4 * c + 4) mod 4 = 0" by (metis mod_mult_self1_is_0)
  moreover have "(100 * (4 * a + b) + (4 * c + 4)) mod 100 = (4 * c + 4) mod 100" by (rule mod_mult_self4)
  then have "(400 * a + 100 * b + 4 * c + 4) mod 100 = 4 * c + 4" using True by (simp add: add.assoc)
  ultimately show ?thesis by (simp add: isLeap_def)
next
  case False
  then have year: "400 * a + 100 * b + 4 * c + 4 = 400 * (a + 1)" using assms by simp
  have "isLeap (400 * (a + 1))" by (simp add: isLeap_def)
  then show ?thesis by (simp only: year)
qed

lemma yearOfDay_bounds:
  "1 \<le> yearOfDay d \<and> daysBeforeYear (yearOfDay d) \<le> d \<and> d < daysBeforeYear (yearOfDay d + 1)"
proof -
  define a where "a = d div 146097"
  define r4h where "r4h = d mod 146097"
  define b where "b = min 3 (r4h div 36524)"
  define r1h where "r1h = r4h - b * 36524"
  define c where "c = r1h div 1461"
  define r4 where "r4 = r1h mod 1461"
  define e where "e = min 3 (r4 div 365)"
  define r1 where "r1 = r4 - e * 365"
  define k where "k = 400 * a + 100 * b + 4 * c + e"
  have y: "yearOfDay d = Suc k"
    by (simp add: yearOfDay_def Let_def a_def r4h_def b_def r1h_def c_def r4_def e_def k_def)
  have d: "d = 146097 * a + r4h" and r4h: "r4h < 146097" by (simp_all add: a_def r4h_def)
  note b = capped_quotient [OF b_def, folded r1h_def, simplified] and e = capped_quotient [OF e_def, folded r1_def, simplified]
  have r1h: "r1h \<le> 36524" using b r4h by (cases "b < 3") simp_all
  have c: "r1h = 1461 * c + r4" "r4 < 1461" "c \<le> 24" using r1h by (auto simp: c_def r4_def)
  have r1: "r1 \<le> 365" "r1 = 365 \<Longrightarrow> e = 3 \<and> r4 = 1460" using e c(2) by (cases "e < 3"; simp)+
  have "daysBeforeYear (Suc k) = 146097 * a + 36524 * b + 1461 * c + 365 * e"
    using daysBeforeYear_cycles [OF b(1) c(3) e(1), of a] by (simp add: k_def)
  then have eq: "d = daysBeforeYear (Suc k) + r1" using d b(2) c(1) e(2) by simp
  have "isLeap (Suc k)" if "r1 = 365"
  proof -
    have e3: "e = 3" "r4 = 1460" using r1(2) [OF that] by auto
    have "c < 24 \<or> b = 3" using b(1,3) c(1,3) e3(2) by fastforce
    then show ?thesis using fourth_isLeap [OF c(3), of b a] e3(1) by (simp add: k_def ac_simps)
  qed
  then show ?thesis using y eq yearLength [of k] r1(1) by (cases "r1 = 365") auto
qed

lemma daysBeforeYear_mono: "y \<le> z \<Longrightarrow> daysBeforeYear (Suc y) \<le> daysBeforeYear (Suc z)"
  by (rule lift_Suc_mono_le [of "\<lambda>y. daysBeforeYear (Suc y)"]) (use yearLength in auto)

lemma yearOfDay_mono:
  assumes "d \<le> d'"
  shows "yearOfDay d \<le> yearOfDay d'"
proof (rule ccontr)
  assume "\<not> yearOfDay d \<le> yearOfDay d'"
  then obtain z where z: "yearOfDay d = Suc z" "yearOfDay d' \<le> z" by (cases "yearOfDay d") auto
  then have "daysBeforeYear (Suc (yearOfDay d')) \<le> daysBeforeYear (Suc z)"
    by (intro daysBeforeYear_mono)
  also have "\<dots> \<le> d" using yearOfDay_bounds [of d] z by simp
  finally show False using assms yearOfDay_bounds [of d'] by simp
qed

lemma yearOfDay_unique:
  assumes "daysBeforeYear (Suc y) \<le> d" and "d < daysBeforeYear (Suc (Suc y))"
  shows "yearOfDay d = Suc y"
proof -
  obtain z where z: "yearOfDay d = Suc z" using yearOfDay_bounds [of d] by (cases "yearOfDay d") auto
  have "daysBeforeYear (Suc z) \<le> d" "d < daysBeforeYear (Suc (Suc z))"
    using yearOfDay_bounds [of d] z by simp_all
  then have "\<not> Suc z \<le> y" "\<not> Suc y \<le> z"
    using assms daysBeforeYear_mono [of "Suc z" y] daysBeforeYear_mono [of "Suc y" z] by linarith+
  then show ?thesis using z by simp
qed

lemma sum_monthLengths: "sum_list (monthLengths leap) = (if leap then 366 else 365)"
  by (simp add: monthLengths_def)

lemma splitMonth_sound:
  assumes "d < sum_list ls"
  shows "\<exists>i < length ls. \<exists>k. splitMonth ls m d = (m + i, Suc k) \<and> k < ls ! i \<and> d = sum_list (take i ls) + k"
  using assms
proof (induction ls m d rule: splitMonth.induct)
  case (2 l ls m d)
  show ?case
  proof (cases "d < l")
    case True
    then show ?thesis by (intro exI [of _ 0]) auto
  next
    case False
    then have "d - l < sum_list ls" using 2(2) by auto
    from 2(1) [OF False this] obtain i k where i: "i < length ls"
      "splitMonth ls (m + 1) (d - l) = (m + 1 + i, Suc k)"
      "k < ls ! i" "d - l = sum_list (take i ls) + k"
      by blast
    then have "d = sum_list (take (Suc i) (l # ls)) + k" using False by simp
    then show ?thesis using False i by (intro exI [of _ "Suc i"]) auto
  qed
qed simp

lemma splitMonth_mono:
  "d < d' \<Longrightarrow> d' < sum_list ls \<Longrightarrow>
    fst (splitMonth ls m d) < fst (splitMonth ls m d') \<or>
    fst (splitMonth ls m d) = fst (splitMonth ls m d') \<and> snd (splitMonth ls m d) < snd (splitMonth ls m d')"
proof (induction ls m d arbitrary: d' rule: splitMonth.induct)
  case (2 l ls m d)
  show ?case
  proof (cases "d' < l")
    case False
    have "d' - l < sum_list ls" using False 2(3) by auto
    then have *: "m + 1 \<le> fst (splitMonth ls (m + 1) (d' - l))"
      using splitMonth_sound [of "d' - l" ls "m + 1"] by auto
    show ?thesis
    proof (cases "d < l")
      case True
      then show ?thesis using False * by simp
    next
      case False
      then show ?thesis using 2(1) [of "d' - l"] 2(2,3) \<open>\<not> d' < l\<close> by simp
    qed
  qed (use 2(2) in simp)
qed simp

lemma dayInYear: "d - daysBeforeYear (yearOfDay d) < sum_list (monthLengths (isLeap (yearOfDay d)))"
proof -
  obtain y where "yearOfDay d = Suc y" using yearOfDay_bounds [of d] by (cases "yearOfDay d") auto
  then show ?thesis using yearOfDay_bounds [of d] yearLength [of y]
    by (auto simp: sum_monthLengths)
qed

lemma civil_sound:
  assumes "civil d = (y, m, dd)"
  shows "1 \<le> y \<and> 1 \<le> m \<and> m \<le> 12 \<and> 1 \<le> dd \<and> dd \<le> monthLengths (isLeap y) ! (m - 1)
    \<and> dayNumber y m dd = d"
proof -
  have y: "y = yearOfDay d" and s: "splitMonth (monthLengths (isLeap y)) 1 (d - daysBeforeYear y) = (m, dd)"
    using assms by (auto simp: civil_def Let_def)
  obtain i k where i: "i < length (monthLengths (isLeap y))" "m = 1 + i" "dd = Suc k"
      "k < monthLengths (isLeap y) ! i" "d - daysBeforeYear y = sum_list (take i (monthLengths (isLeap y))) + k"
    using splitMonth_sound [OF dayInYear [of d], of 1] s y by auto
  have "length (monthLengths (isLeap y)) = 12" by (simp add: monthLengths_def)
  moreover have "daysBeforeYear y \<le> d" "1 \<le> y" using yearOfDay_bounds [of d] y by auto
  ultimately show ?thesis using i by (auto simp: dayNumber_def daysBeforeMonth_def)
qed

lemma civil_mono:
  assumes "d < d'" and "civil d = (y, m, dd)" and "civil d' = (y', m', dd')"
  shows "y < y' \<or> y = y' \<and> (m < m' \<or> m = m' \<and> dd < dd')"
proof (cases "y = y'")
  case True
  have "daysBeforeYear y \<le> d" using yearOfDay_bounds [of d] assms(2) by (auto simp: civil_def Let_def)
  then have "d - daysBeforeYear y < d' - daysBeforeYear y" using assms(1) by simp
  moreover have "d' - daysBeforeYear y < sum_list (monthLengths (isLeap y))"
    using dayInYear [of d'] assms(3) True by (auto simp: civil_def Let_def)
  ultimately show ?thesis
    using splitMonth_mono [of "d - daysBeforeYear y" "d' - daysBeforeYear y" "monthLengths (isLeap y)" 1]
      assms(2,3) True by (auto simp: civil_def Let_def)
next
  case False
  then show ?thesis using yearOfDay_mono [of d d'] assms by (auto simp: civil_def Let_def)
qed

section \<open>Order of the fixed-width layout\<close>

text \<open>The end of year 9999: from there on \<open>time.Format\<close> needs a fifth digit.\<close>

definition maxTime :: time where
  "maxTime = 3652059 * nsPerDay"

lemma civilOf_range:
  assumes "0 \<le> d" and "d < 3652059" and "civilOf d = (y, m, dd)"
  shows "y < 10000 \<and> 1 \<le> m \<and> m \<le> 12 \<and> 1 \<le> dd \<and> dd \<le> monthLengths (isLeap (y + 400)) ! (m - 1)
    \<and> dayOf y m dd = d"
proof -
  define e where "e = nat (d + 146097)"
  obtain Y where c: "civil e = (Y, m, dd)" and y: "y = Y - 400"
    using assms(3) by (auto simp: civilOf_def e_def split: prod.splits)
  have Y: "Y = yearOfDay e" using c by (simp add: civil_def Let_def)
  have "146097 \<le> e" and e: "e < 3798156" "int e = d + 146097" using assms by (auto simp: e_def)
  have "daysBeforeYear 401 = 146097" and "daysBeforeYear 10400 = 3798156" by (simp_all add: daysBeforeYear_def)
  have "400 < Y"
  proof (rule ccontr)
    assume "\<not> 400 < Y"
    then have "daysBeforeYear (Suc Y) \<le> daysBeforeYear (Suc 400)" by (intro daysBeforeYear_mono) simp
    then show False using yearOfDay_bounds [of e] \<open>146097 \<le> e\<close> \<open>daysBeforeYear 401 = 146097\<close> Y by simp
  qed
  moreover have "Y < 10400"
  proof (rule ccontr)
    assume "\<not> Y < 10400"
    then have "daysBeforeYear (Suc 10399) \<le> daysBeforeYear (Suc (Y - 1))" by (intro daysBeforeYear_mono) simp
    then show False using yearOfDay_bounds [of e] e \<open>daysBeforeYear 10400 = 3798156\<close> Y by simp
  qed
  ultimately show ?thesis using civil_sound [OF c] e y by (simp add: dayOf_def)
qed

lemma civilOf_mono:
  assumes "d < d'" and "0 \<le> d" and "civilOf d = (y, m, dd)" and "civilOf d' = (y', m', dd')"
  shows "y < y' \<or> y = y' \<and> (m < m' \<or> m = m' \<and> dd < dd')"
proof -
  obtain Y Y' where c: "civil (nat (d + 146097)) = (Y, m, dd)" "y = Y - 400"
      "civil (nat (d' + 146097)) = (Y', m', dd')" "y' = Y' - 400"
    using assms(3,4) by (auto simp: civilOf_def split: prod.splits)
  have "nat (d + 146097) < nat (d' + 146097)" using assms(1,2) by simp
  from civil_mono [OF this c(1,3)] have *: "Y < Y' \<or> Y = Y' \<and> (m < m' \<or> m = m' \<and> dd < dd')" .
  have "400 \<le> Y"
  proof (rule ccontr)
    assume "\<not> 400 \<le> Y"
    then have "daysBeforeYear (Suc Y) \<le> daysBeforeYear (Suc 400)" by (intro daysBeforeYear_mono) simp
    moreover have "daysBeforeYear (Suc 400) = 146097" by (simp add: daysBeforeYear_def)
    moreover have "146097 \<le> nat (d + 146097)" using assms(2) by simp
    moreover have "Y = yearOfDay (nat (d + 146097))" using c(1) by (simp add: civil_def Let_def)
    ultimately show False using yearOfDay_bounds [of "nat (d + 146097)"] by simp
  qed
  then show ?thesis using * c by auto
qed

lemma padDec_append_less:
  "0 < k \<Longrightarrow> m < 10 ^ k \<Longrightarrow> n < 10 ^ k \<Longrightarrow>
    padDec k m @ b < padDec k n @ b' \<longleftrightarrow> m < n \<or> m = n \<and> b < b'"
  by (metis append_less_iff length_padDec natOf_padDec padDec_less)

text \<open>An instant as day, second of the day and nanosecond, and the columns of a second.\<close>

lemma time_split:
  "t div nsPerDay * nsPerDay + t mod nsPerDay div nsPerSec * nsPerSec + t mod nsPerSec = t"
  "0 \<le> t mod nsPerDay div nsPerSec" "t mod nsPerDay div nsPerSec < 86400"
  "0 \<le> t mod nsPerSec" "t mod nsPerSec < 1000000000"
proof -
  have "t mod nsPerDay mod nsPerSec = t mod nsPerSec"
    by (rule mod_mod_cancel) (simp add: nsPerDay_def nsPerSec_def)
  then have "t mod nsPerDay div nsPerSec * nsPerSec + t mod nsPerSec = t mod nsPerDay"
    by (metis div_mult_mod_eq)
  then show "t div nsPerDay * nsPerDay + t mod nsPerDay div nsPerSec * nsPerSec + t mod nsPerSec = t"
    by (simp only: add.assoc div_mult_mod_eq)
  have r: "0 \<le> t mod nsPerDay" "t mod nsPerDay < nsPerDay" by (simp_all add: nsPerDay_def)
  then show "0 \<le> t mod nsPerDay div nsPerSec" by (simp add: nsPerSec_def pos_imp_zdiv_nonneg_iff)
  have "t mod nsPerDay div nsPerSec * nsPerSec \<le> t mod nsPerDay"
    using div_mult_mod_eq [of "t mod nsPerDay" nsPerSec] pos_mod_sign [of nsPerSec "t mod nsPerDay"]
    by (simp add: nsPerSec_def)
  then have "t mod nsPerDay div nsPerSec * 1000000000 < 86400 * 1000000000"
    using r by (simp add: nsPerDay_def nsPerSec_def)
  then show "t mod nsPerDay div nsPerSec < 86400" by simp
  show "0 \<le> t mod nsPerSec" "t mod nsPerSec < 1000000000" by (simp_all add: nsPerSec_def)
qed

lemma second_split:
  "(s :: nat) = 3600 * (s div 3600) + 60 * (s mod 3600 div 60) + s mod 60"
  "s mod 3600 div 60 < 60" "s mod 60 < 60" "s < 86400 \<Longrightarrow> s div 3600 < 24"
proof -
  have "s mod 3600 mod 60 = s mod 60" by (rule mod_mod_cancel) simp
  then show "s = 3600 * (s div 3600) + 60 * (s mod 3600 div 60) + s mod 60"
    by (metis add.assoc mult_div_mod_eq)
  show "s mod 3600 div 60 < 60" "s mod 60 < 60" "s < 86400 \<Longrightarrow> s div 3600 < 24"
    by (auto simp: less_mult_imp_div_less)
qed

lemma monthLengths_le: "1 \<le> m \<Longrightarrow> m \<le> 12 \<Longrightarrow> monthLengths b ! (m - 1) \<le> 31"
  by (cases "m - 1 < 12") (auto simp: monthLengths_def nth_Cons split: nat.splits)

lemma formatNano_mono:
  assumes "0 \<le> t" and "t < t'" and "t' < maxTime"
  shows "formatNano t < formatNano t'"
proof -
  define d s n where "d = t div nsPerDay" and "s = nat (t mod nsPerDay div nsPerSec)" and "n = nat (t mod nsPerSec)"
  define d' s' n' where "d' = t' div nsPerDay" and "s' = nat (t' mod nsPerDay div nsPerSec)" and "n' = nat (t' mod nsPerSec)"
  have t: "t = d * nsPerDay + int s * nsPerSec + int n" "s < 86400" "n < 1000000000"
    using time_split [of t] by (simp_all add: d_def s_def n_def)
  have t': "t' = d' * nsPerDay + int s' * nsPerSec + int n'" "s' < 86400" "n' < 1000000000"
    using time_split [of t'] by (simp_all add: d'_def s'_def n'_def)
  have d: "0 \<le> d" "d \<le> d'" "d' < 3652059"
    using assms by (auto simp: d_def d'_def maxTime_def pos_imp_zdiv_nonneg_iff nsPerDay_def zdiv_mono1)
  obtain y m dd where c: "civilOf d = (y, m, dd)" by (cases "civilOf d") auto
  obtain y' m' dd' where c': "civilOf d' = (y', m', dd')" by (cases "civilOf d'") auto
  have R: "y < 10000 \<and> m \<le> 12 \<and> dd \<le> 31" and R': "y' < 10000 \<and> m' \<le> 12 \<and> dd' \<le> 31"
    using civilOf_range [OF _ _ c] civilOf_range [OF _ _ c'] monthLengths_le [of m "isLeap (y + 400)"]
      monthLengths_le [of m' "isLeap (y' + 400)"] d by linarith+
  then have r: "y < 10000" "m < 100" "dd < 100" and r': "y' < 10000" "m' < 100" "dd' < 100"
    by auto
  note hs = second_split [of s] and hs' = second_split [of s']
  have key: "y < y' \<or> y = y' \<and> (m < m' \<or> m = m' \<and> (dd < dd' \<or> dd = dd' \<and> (s < s' \<or> s = s' \<and> n < n')))"
  proof (cases "d = d'")
    case True
    then show ?thesis using c c' t t' assms(2) by (auto simp: nsPerSec_def)
  next
    case False
    then show ?thesis using civilOf_mono [OF _ d(1) c c'] d(2) by auto
  qed
  have lex: "s < s' \<Longrightarrow> s div 3600 < s' div 3600 \<or> s div 3600 = s' div 3600 \<and>
      (s mod 3600 div 60 < s' mod 3600 div 60 \<or> s mod 3600 div 60 = s' mod 3600 div 60 \<and> s mod 60 < s' mod 60)"
    using hs(1-3) hs'(1-3) by linarith
  have b: "s div 3600 < 100" "s mod 3600 div 60 < 100" "s mod 60 < 100"
      "s' div 3600 < 100" "s' mod 3600 div 60 < 100" "s' mod 60 < 100"
    using hs(2-4) hs'(2-4) t(2) t'(2) by linarith+
  have f: "formatNano t = padDec 4 y @ ''-'' @ padDec 2 m @ ''-'' @ padDec 2 dd @ ''T'' @
      padDec 2 (s div 3600) @ '':'' @ padDec 2 (s mod 3600 div 60) @ '':'' @ padDec 2 (s mod 60) @
      ''.'' @ padDec 9 n @ ''Z''"
    by (simp add: formatNano_def dateTimeString_def c Let_def d_def [symmetric] s_def [symmetric] n_def [symmetric])
  have f': "formatNano t' = padDec 4 y' @ ''-'' @ padDec 2 m' @ ''-'' @ padDec 2 dd' @ ''T'' @
      padDec 2 (s' div 3600) @ '':'' @ padDec 2 (s' mod 3600 div 60) @ '':'' @ padDec 2 (s' mod 60) @
      ''.'' @ padDec 9 n' @ ''Z''"
    by (simp add: formatNano_def dateTimeString_def c' Let_def d'_def [symmetric] s'_def [symmetric] n'_def [symmetric])
  have "formatNano t < formatNano t' \<longleftrightarrow> y < y' \<or> y = y' \<and> (m < m' \<or> m = m' \<and> (dd < dd' \<or> dd = dd' \<and>
      (s div 3600 < s' div 3600 \<or> s div 3600 = s' div 3600 \<and>
      (s mod 3600 div 60 < s' mod 3600 div 60 \<or> s mod 3600 div 60 = s' mod 3600 div 60 \<and>
      (s mod 60 < s' mod 60 \<or> s mod 60 = s' mod 60 \<and> n < n')))))"
    unfolding f f' using r r' t(3) t'(3) b by (simp add: padDec_append_less)
  then show ?thesis using key lex by blast
qed

section \<open>Reading an instant back\<close>

lemma digitsAt_skip: "length a \<le> i \<Longrightarrow> digitsAt (a @ b) i k = digitsAt b (i - length a) k"
  by (simp add: digitsAt_def)

lemma digitsAt_Cons: "0 < i \<Longrightarrow> digitsAt (c # b) i k = digitsAt b (i - 1) k"
  using digitsAt_skip [of "[c]" i b k] by simp

lemma digitsAt_padDec: "0 < k \<Longrightarrow> n < 10 ^ k \<Longrightarrow> digitsAt (padDec k n @ b) 0 k = Some n"
  by (auto simp: digitsAt_def length_padDec list_all_iff isDigit_padDec)

lemma charAt_skip: "length a \<le> i \<Longrightarrow> charAt (a @ b) i c = charAt b (i - length a) c"
  by (auto simp: charAt_def nth_append)

lemma charAt_Cons: "charAt (x # b) i c = (if i = 0 then x = c else charAt b (i - 1) c)"
  by (auto simp: charAt_def nth_Cons split: nat.splits)

lemma takeWhile_digits: "takeWhile isDigit (padDec k n @ b) = padDec k n @ takeWhile isDigit b"
  by (rule takeWhile_append2) (rule isDigit_padDec)

lemma dropWhile_digits: "dropWhile isDigit (padDec k n @ b) = dropWhile isDigit b"
  by (rule dropWhile_append2) (rule isDigit_padDec)

lemma isDigit_Z: "\<not> isDigit CHR ''Z''"
  by code_simp

lemma parseFraction_nano:
  assumes "n < 1000000000"
  shows "parseFraction (''.'' @ padDec 9 n @ ''Z'') = Some (int n, ''Z'')"
proof -
  have l: "length (padDec 9 n) = 9" using assms by (simp add: length_padDec)
  then have "padDec 9 n \<noteq> []" by auto
  then show ?thesis
    using l by (simp add: parseFraction_def Let_def takeWhile_digits dropWhile_digits isDigit_Z)
qed

lemma isLeap_400: "isLeap (y + 400) = isLeap y"
proof -
  have "(y + 400) mod 4 = y mod 4" "(y + 400) mod 100 = y mod 100" "(y + 400) mod 400 = y mod 400"
    using mod_mult_self1 [of y 100 4] mod_mult_self1 [of y 4 100] mod_mult_self1 [of y 1 400] by simp_all
  then show ?thesis by (simp only: isLeap_def)
qed

lemma parse_dateTime:
  assumes "0 \<le> t" and "t < maxTime" and "parseFraction r = Some (f, z)" and "parseZone z = Some 0"
  shows "parseRFC3339 (dateTimeString t @ r) = Some (t - t mod nsPerSec + f)"
proof -
  define d s where "d = t div nsPerDay" and "s = nat (t mod nsPerDay div nsPerSec)"
  have t: "t - t mod nsPerSec = d * nsPerDay + int s * nsPerSec" "s < 86400"
    using time_split [of t] by (simp_all add: d_def s_def)
  have d: "0 \<le> d" "d < 3652059"
    using assms by (auto simp: d_def maxTime_def nsPerDay_def pos_imp_zdiv_nonneg_iff)
  obtain y m dd where c: "civilOf d = (y, m, dd)" by (cases "civilOf d") auto
  have R: "y < 10000" "1 \<le> m" "m \<le> 12" "1 \<le> dd" "dd \<le> monthLengths (isLeap y) ! (m - 1)" "dayOf y m dd = d"
    using civilOf_range [OF d c] by (simp_all add: isLeap_400)
  then have dd: "dd \<le> 31" using monthLengths_le [of m "isLeap y"] by linarith
  note hs = second_split [of s]
  have b: "s div 3600 < 24" "s mod 3600 div 60 < 60" "s mod 60 < 60" using hs(2,3) hs(4) [OF t(2)] by auto
  have l: "length (padDec 4 y) = 4" "length (padDec 2 m) = 2" "length (padDec 2 dd) = 2"
    "length (padDec 2 (s div 3600)) = 2" "length (padDec 2 (s mod 3600 div 60)) = 2" "length (padDec 2 (s mod 60)) = 2"
    using R(1,3) dd b by (simp_all add: length_padDec)
  define S where "S = dateTimeString t @ r"
  have S: "S = padDec 4 y @ ''-'' @ padDec 2 m @ ''-'' @ padDec 2 dd @ ''T'' @
      padDec 2 (s div 3600) @ '':'' @ padDec 2 (s mod 3600 div 60) @ '':'' @ padDec 2 (s mod 60) @ r"
    by (simp add: S_def dateTimeString_def c Let_def d_def [symmetric] s_def [symmetric])
  have "digitsAt S 0 4 = Some y" "digitsAt S 5 2 = Some m" "digitsAt S 8 2 = Some dd"
    "digitsAt S 11 2 = Some (s div 3600)" "digitsAt S 14 2 = Some (s mod 3600 div 60)"
    "digitsAt S 17 2 = Some (s mod 60)" "drop 19 S = r"
    unfolding S using R(1,3) dd b l by (simp_all add: digitsAt_skip digitsAt_Cons digitsAt_padDec)
  moreover have "charAt S 4 CHR ''-''" "charAt S 7 CHR ''-''" "charAt S 10 CHR ''T''"
    "charAt S 13 CHR '':''" "charAt S 16 CHR '':''"
    unfolding S using l by (simp_all add: charAt_skip charAt_Cons)
  ultimately have "parseRFC3339 S = Some (dayOf y m dd * nsPerDay
      + int (s div 3600 * 3600 + s mod 3600 div 60 * 60 + s mod 60) * nsPerSec + f - 0)"
    using R(2-5) b assms(3,4) by (simp only: parseRFC3339_def option.case prod.case simp_thms if_True)
  moreover have "s div 3600 * 3600 + s mod 3600 div 60 * 60 + s mod 60 = s" using hs(1) by linarith
  ultimately show ?thesis using R(6) t(1) by (simp only: S_def diff_0_right)
qed

lemma parseZone_Z: "parseZone ''Z'' = Some 0"
  by (simp only: parseZone_def refl if_True)

lemma parseFraction_Z: "parseFraction ''Z'' = Some (0, ''Z'')"
  by (simp add: parseFraction_def)

lemma formatNano_order:
  assumes "0 \<le> t" and "t < maxTime" and "0 \<le> t'" and "t' < maxTime"
  shows "formatNano t < formatNano t' \<longleftrightarrow> t < t'"
  using formatNano_mono [of t t'] formatNano_mono [of t' t] assms
  by (cases t t' rule: linorder_cases) auto

lemma parse_formatNano:
  assumes "0 \<le> t" and "t < maxTime"
  shows "parseRFC3339 (formatNano t) = Some t"
proof -
  have n: "0 \<le> t mod nsPerSec" "nat (t mod nsPerSec) < 1000000000" using time_split [of t] by auto
  show ?thesis unfolding formatNano_def
    by (subst parse_dateTime [OF assms parseFraction_nano [OF n(2)] parseZone_Z]) (use n(1) in simp)
qed

lemma parse_formatRFC3339:
  assumes "0 \<le> t" and "t < maxTime"
  shows "parseRFC3339 (formatRFC3339 t) = Some (t - t mod nsPerSec)"
  unfolding formatRFC3339_def
  by (subst parse_dateTime [OF assms parseFraction_Z parseZone_Z]) simp

end
