(* ===== verification/Event.thy ===== *)
theory Event
  imports Units GoTime "HOL-Library.Sublist"
begin

text \<open>
  internal/event/event.go and hub.go: the lifecycle event, its types and directions, the sinks
  events are emitted to (\<open>Emitter\<close>, \<open>Multi\<close>) and the hub that broadcasts them to live
  subscribers. A Go channel with a buffer is its capacity, the values waiting in it and whether
  it has been closed; an operation under the hub's mutex is one step.
\<close>

section \<open>Events\<close>

definition TypePending :: string where "TypePending = ''pending''"
definition TypeMined :: string where "TypeMined = ''mined''"
definition TypeConfirmed :: string where "TypeConfirmed = ''confirmed''"
definition TypeReorged :: string where "TypeReorged = ''reorged''"
definition TypeDropped :: string where "TypeDropped = ''dropped''"
definition TypeFailed :: string where "TypeFailed = ''failed''"
definition TypeReplaced :: string where "TypeReplaced = ''replaced''"

definition DirectionIn :: string where "DirectionIn = ''in''"
definition DirectionOut :: string where "DirectionOut = ''out''"
definition DirectionSelf :: string where "DirectionSelf = ''self''"

lemmas type_defs = TypePending_def TypeMined_def TypeConfirmed_def TypeReorged_def TypeDropped_def
  TypeFailed_def TypeReplaced_def

lemmas direction_defs = DirectionIn_def DirectionOut_def DirectionSelf_def

lemma types_distinct [simp]:
  "distinct [TypePending, TypeMined, TypeConfirmed, TypeReorged, TypeDropped, TypeFailed, TypeReplaced]"
  by (simp add: type_defs)

lemma directions_distinct [simp]: "distinct [DirectionIn, DirectionOut, DirectionSelf]"
  by (simp add: direction_defs)

lemma types_neq [simp]:
  "TypeDropped \<noteq> TypeConfirmed" "TypeFailed \<noteq> TypeConfirmed" "TypeReplaced \<noteq> TypeConfirmed"
  "TypeConfirmed \<noteq> TypeDropped" "TypeFailed \<noteq> TypeDropped" "TypeReplaced \<noteq> TypeDropped"
  "TypeConfirmed \<noteq> TypeFailed" "TypeConfirmed \<noteq> TypeReplaced"
  "TypeMined \<noteq> TypeConfirmed" "TypeConfirmed \<noteq> TypeMined" "TypePending \<noteq> TypeConfirmed"
  "TypeReorged \<noteq> TypeConfirmed"
  by (simp_all add: type_defs)

record event =
  evType :: string
  evIndexer :: string
  evChainID :: u64
  evDirection :: string
  evTimestamp :: string
  evFirstSeen :: string
  evFirstSeenBlock :: u64
  evMinedAt :: string
  evTxHash :: string
  evLogIndex :: "u64 option"
  evFrom :: string
  evTo :: string
  evWallet :: string
  evAsset :: string
  evTokenAddress :: string
  evDecimals :: u8
  evValueRaw :: string
  evValue :: string
  evBlockNumber :: u64
  evBlockHash :: string
  evConfirmations :: u64
  evReplacedBy :: string

definition emptyEvent :: event where
  "emptyEvent = \<lparr>evType = '''', evIndexer = '''', evChainID = 0, evDirection = '''', evTimestamp = '''',
     evFirstSeen = '''', evFirstSeenBlock = 0, evMinedAt = '''', evTxHash = '''', evLogIndex = None,
     evFrom = '''', evTo = '''', evWallet = '''', evAsset = '''', evTokenAddress = '''', evDecimals = 0,
     evValueRaw = '''', evValue = '''', evBlockNumber = 0, evBlockHash = '''', evConfirmations = 0,
     evReplacedBy = ''''\<rparr>"

section \<open>Sinks\<close>

text \<open>
  A sink is what its \<open>Emit\<close> does to the state behind it and the error it returns. \<open>Multi\<close> drops
  the nil sinks, returns nil for none and the sink itself for one.
\<close>

type_synonym 's sink = "event \<Rightarrow> 's \<Rightarrow> goerr option \<times> 's"

fun multiEmit :: "'s sink list \<Rightarrow> event \<Rightarrow> 's \<Rightarrow> goerr option \<times> 's" where
  "multiEmit [] ev s = (None, s)"
| "multiEmit (k # ks) ev s =
     (let (err, s1) = k ev s; (rest, s2) = multiEmit ks ev s1
      in (case err of None \<Rightarrow> rest | Some e \<Rightarrow> Some e, s2))"

definition Multi :: "'s sink option list \<Rightarrow> 's sink option" where
  "Multi sinks =
     (let out = map the (filter (\<lambda>s. s \<noteq> None) sinks) in
      case out of [] \<Rightarrow> None | [k] \<Rightarrow> Some k | _ \<Rightarrow> Some (multiEmit out))"

text \<open>
  \<open>Emitter.Emit\<close> stamps the event when the producer has not, and hands it to the JSON encoder,
  which is a parameter: what it appends to the output, or the error of the write.
\<close>

definition emitterEmit :: "time \<Rightarrow> (event \<Rightarrow> 'o \<Rightarrow> goerr option \<times> 'o) \<Rightarrow> event \<Rightarrow> 'o \<Rightarrow> goerr option \<times> 'o" where
  "emitterEmit now encode ev out =
     (let ev' = (if evTimestamp ev = '''' then ev\<lparr>evTimestamp := formatNano now\<rparr> else ev)
      in encode ev' out)"

text \<open>A time stamp in \<open>TimeLayout\<close> has fixed width and reads back as the same instant, and
  comparing two of them as strings compares the instants, which the cursors of the API and the
  keyset paging of the database rely on.\<close>

theorem TimeLayout_order:
  assumes "0 \<le> t" and "t < maxTime" and "0 \<le> t'" and "t' < maxTime"
  shows "(formatNano t < formatNano t' \<longleftrightarrow> t < t') \<and> parseRFC3339 (formatNano t) = Some t"
  using formatNano_order [OF assms] parse_formatNano [OF assms(1,2)] by blast

theorem TimeLayout_order_witness:
  "formatNano 1500000000 < formatNano (nsPerDay + 7) \<and> parseRFC3339 (formatNano 1500000000) = Some 1500000000"
  using TimeLayout_order [of 1500000000 "nsPerDay + 7"] by (simp add: maxTime_def nsPerDay_def)

section \<open>Multi\<close>

text \<open>What each sink is handed and which error comes back.\<close>

fun errorsOf :: "'s sink list \<Rightarrow> event \<Rightarrow> 's \<Rightarrow> goerr list" where
  "errorsOf [] ev s = []"
| "errorsOf (k # ks) ev s =
     (case fst (k ev s) of None \<Rightarrow> [] | Some e \<Rightarrow> [e]) @ errorsOf ks ev (snd (k ev s))"

lemma multiEmit_all:
  "multiEmit ks ev s = ((case errorsOf ks ev s of [] \<Rightarrow> None | e # _ \<Rightarrow> Some e), fold (\<lambda>k s. snd (k ev s)) ks s)"
  by (induction ks arbitrary: s) (auto simp: Let_def split: prod.splits option.splits list.splits)

lemma Multi_runs:
  "Multi sinks = (let ks = map the (filter (\<lambda>s. s \<noteq> None) sinks) in if ks = [] then None else Some (multiEmit ks))"
proof -
  have one: "multiEmit [k] = k" for k :: "'a sink"
    by (intro ext) (auto simp: Let_def split: prod.splits option.splits)
  show ?thesis
    by (auto simp: Multi_def Let_def one simp del: multiEmit.simps split: list.splits)
qed

text \<open>
  \<open>Multi\<close> is nil exactly when every sink is; otherwise its \<open>Emit\<close> hands the event to every
  non-nil sink once, in the given order, whatever the earlier ones returned, and returns the
  first error.
\<close>

theorem Multi_broadcasts:
  "case Multi sinks of
     None \<Rightarrow> set sinks \<subseteq> {None}
   | Some emit \<Rightarrow>
       emit ev s =
         (let ks = map the (filter (\<lambda>k. k \<noteq> None) sinks) in
          ((case errorsOf ks ev s of [] \<Rightarrow> None | e # _ \<Rightarrow> Some e), fold (\<lambda>k s. snd (k ev s)) ks s))"
  by (auto simp: Multi_runs Let_def multiEmit_all filter_empty_conv)

section \<open>The hub\<close>

record channel =
  chCap :: nat
  chQueue :: "event list"
  chClosed :: bool

text \<open>Channels are shared between the hub and the subscriber, so the hub's map holds references
  into a store of channels.\<close>

record hub =
  hubSubs :: "(u64, nat) fmap"
  hubNext :: u64
  hubChans :: "channel list"

definition NewHub :: hub where
  "NewHub = \<lparr>hubSubs = fmempty, hubNext = 0, hubChans = []\<rparr>"

text \<open>\<open>Subscribe\<close> returns the channel and the id its cancel function captures.\<close>

definition Subscribe :: "nat \<Rightarrow> hub \<Rightarrow> (nat \<times> u64) \<times> hub" where
  "Subscribe buffer h =
     (let ch = length (hubChans h); i = hubNext h in
      ((ch, i), \<lparr>hubSubs = fmupd i ch (hubSubs h), hubNext = i + 1,
        hubChans = hubChans h @ [\<lparr>chCap = buffer, chQueue = [], chClosed = False\<rparr>]\<rparr>))"

definition closeChan :: "nat \<Rightarrow> hub \<Rightarrow> hub" where
  "closeChan c h = h\<lparr>hubChans := (hubChans h)[c := (hubChans h ! c)\<lparr>chClosed := True\<rparr>]\<rparr>"

definition hubCancel :: "nat \<times> u64 \<Rightarrow> hub \<Rightarrow> hub" where
  "hubCancel handle h =
     (case fmlookup (hubSubs h) (snd handle) of
        None \<Rightarrow> h
      | Some _ \<Rightarrow> closeChan (fst handle) (h\<lparr>hubSubs := fmdrop (snd handle) (hubSubs h)\<rparr>))"

definition Subscribers :: "hub \<Rightarrow> nat" where
  "Subscribers h = goLen (hubSubs h)"

text \<open>One round of the loop of \<open>Emit\<close>: the send succeeds when the buffer has room, else the
  subscriber is dropped and its channel closed. (The program subscribes with a buffer; on a
  channel without one the send would also need a receiver that is already waiting.)\<close>

definition hubDeliver :: "event \<Rightarrow> u64 \<Rightarrow> hub \<Rightarrow> hub" where
  "hubDeliver ev i h =
     (case fmlookup (hubSubs h) i of
        None \<Rightarrow> h
      | Some c \<Rightarrow>
          (let ch = hubChans h ! c in
           if length (chQueue ch) < chCap ch
           then h\<lparr>hubChans := (hubChans h)[c := ch\<lparr>chQueue := chQueue ch @ [ev]\<rparr>]\<rparr>
           else closeChan c (h\<lparr>hubSubs := fmdrop i (hubSubs h)\<rparr>)))"

definition hubEmit :: "u64 list \<Rightarrow> event \<Rightarrow> hub \<Rightarrow> goerr option \<times> hub" where
  "hubEmit ord ev h = (None, fold (hubDeliver ev) ord h)"

text \<open>A receive by the subscriber: the next value waiting, or none.\<close>

definition chanRecv :: "nat \<Rightarrow> hub \<Rightarrow> event option \<times> hub" where
  "chanRecv c h =
     (case chQueue (hubChans h ! c) of
        [] \<Rightarrow> (None, h)
      | ev # q \<Rightarrow> (Some ev, h\<lparr>hubChans := (hubChans h)[c := (hubChans h ! c)\<lparr>chQueue := q\<rparr>]\<rparr>))"

text \<open>Runs of the hub: what its clients can do, in any order.\<close>

datatype hubOp = OpSubscribe nat | OpCancel "nat \<times> u64" | OpEmit "u64 list" event | OpRecv nat

fun hubExec :: "hubOp \<Rightarrow> hub \<Rightarrow> hub" where
  "hubExec (OpSubscribe n) h = snd (Subscribe n h)"
| "hubExec (OpCancel x) h = hubCancel x h"
| "hubExec (OpEmit ord ev) h = snd (hubEmit ord ev h)"
| "hubExec (OpRecv c) h = snd (chanRecv c h)"

text \<open>A client cancels with a handle it was given, receives on its own channel, and \<open>Emit\<close> ranges
  over the live subscribers.\<close>

fun hubOpOK :: "hubOp \<Rightarrow> hub \<Rightarrow> bool" where
  "hubOpOK (OpSubscribe n) h = (length (hubChans h) + 1 < 2 ^ 64)"
| "hubOpOK (OpCancel x) h = (fst x < length (hubChans h) \<and> snd x = of_nat (fst x))"
| "hubOpOK (OpEmit ord ev) h = rangeOrder ord (hubSubs h)"
| "hubOpOK (OpRecv c) h = (c < length (hubChans h))"

fun hubRun :: "hubOp list \<Rightarrow> hub \<Rightarrow> hub option" where
  "hubRun [] h = Some h"
| "hubRun (op # ops) h = (if hubOpOK op h then hubRun ops (hubExec op h) else None)"

text \<open>The invariant: the i-th subscription has id i and channel i, and a channel is closed exactly
  when its subscriber is gone.\<close>

definition hubInv :: "hub \<Rightarrow> bool" where
  "hubInv h \<longleftrightarrow>
     length (hubChans h) < 2 ^ 64 \<and> hubNext h = of_nat (length (hubChans h)) \<and>
     (\<forall>i c. fmlookup (hubSubs h) i = Some c \<longrightarrow> c = unat i \<and> c < length (hubChans h)) \<and>
     (\<forall>c < length (hubChans h). chClosed (hubChans h ! c) \<longleftrightarrow> fmlookup (hubSubs h) (of_nat c) = None)"

text \<open>One subscriber alone, the abstract view of channel \<open>c\<close>: its buffer, what waits in it and
  whether it still gets events.\<close>

record subscriber =
  subCap :: nat
  subQueue :: "event list"
  subLive :: bool

definition subscriberOf :: "nat \<Rightarrow> hub \<Rightarrow> subscriber" where
  "subscriberOf c h = \<lparr>subCap = chCap (hubChans h ! c), subQueue = chQueue (hubChans h ! c),
     subLive = (\<not> chClosed (hubChans h ! c))\<rparr>"

fun subscriberStep :: "nat \<Rightarrow> hubOp \<Rightarrow> subscriber \<Rightarrow> subscriber" where
  "subscriberStep c (OpSubscribe n) s = s"
| "subscriberStep c (OpCancel x) s = (if fst x = c then s\<lparr>subLive := False\<rparr> else s)"
| "subscriberStep c (OpEmit ord ev) s =
     (if \<not> subLive s then s
      else if length (subQueue s) < subCap s then s\<lparr>subQueue := subQueue s @ [ev]\<rparr>
      else s\<lparr>subLive := False\<rparr>)"
| "subscriberStep c (OpRecv d) s = (if d = c then s\<lparr>subQueue := tl (subQueue s)\<rparr> else s)"

text \<open>What the subscriber of channel \<open>c\<close> receives during a run, and what is emitted in it.\<close>

fun receivedBy :: "nat \<Rightarrow> hubOp list \<Rightarrow> hub \<Rightarrow> event list" where
  "receivedBy c [] h = []"
| "receivedBy c (op # ops) h =
     (case op of OpRecv d \<Rightarrow> (if d = c then take 1 (chQueue (hubChans h ! c)) else []) | _ \<Rightarrow> [])
     @ receivedBy c ops (hubExec op h)"

definition emittedIn :: "hubOp list \<Rightarrow> event list" where
  "emittedIn ops = concat (map (\<lambda>op. case op of OpEmit _ ev \<Rightarrow> [ev] | _ \<Rightarrow> []) ops)"

section \<open>Facts of the hub\<close>

lemma hubInv_NewHub: "hubInv NewHub"
  by (simp add: hubInv_def NewHub_def)

lemma subs_of_nat:
  assumes "hubInv h" and "c < length (hubChans h)" and "fmlookup (hubSubs h) (of_nat c) = Some d"
  shows "d = c"
proof -
  have "c < 18446744073709551616" using assms(1,2) by (simp add: hubInv_def)
  then have "unat (of_nat c :: u64) = c" by (rule u64_of_nat_inverse)
  moreover have "d = unat (of_nat c :: u64)" using assms(1,3) unfolding hubInv_def by blast
  ultimately show ?thesis by simp
qed

lemma hubInv_deliver:
  assumes inv: "hubInv h"
  shows "hubInv (hubDeliver ev i h) \<and> length (hubChans (hubDeliver ev i h)) = length (hubChans h) \<and>
    (\<forall>c < length (hubChans h). subscriberOf c (hubDeliver ev i h) =
       (if i = of_nat c then subscriberStep c (OpEmit [] ev) (subscriberOf c h) else subscriberOf c h))"
proof (cases "fmlookup (hubSubs h) i")
  case None
  then show ?thesis using inv by (auto simp: hubDeliver_def hubInv_def subscriberOf_def)
next
  case (Some d)
  then have d: "d = unat i" "d < length (hubChans h)" using inv by (auto simp: hubInv_def)
  have i: "i = of_nat c \<longleftrightarrow> c = d" if "c < length (hubChans h)" for c
  proof -
    have "c < 18446744073709551616" using that inv by (simp add: hubInv_def)
    then show ?thesis using d(1) by (auto simp: u64_of_nat_inverse)
  qed
  have "of_nat d = i" using d(1) by simp
  then have open_d: "\<not> chClosed (hubChans h ! d)" using inv d(2) Some by (auto simp: hubInv_def)
  have other: "i \<noteq> of_nat c" if "c < length (hubChans h)" "c \<noteq> d" for c using i that by blast
  show ?thesis
  proof (cases "length (chQueue (hubChans h ! d)) < chCap (hubChans h ! d)")
    case True
    then show ?thesis using inv d i open_d Some other
      by (auto simp: hubDeliver_def Let_def hubInv_def subscriberOf_def nth_list_update)
  next
    case False
    then show ?thesis using inv d i open_d Some other
      by (auto simp: hubDeliver_def Let_def closeChan_def hubInv_def subscriberOf_def nth_list_update)
  qed
qed

lemma hub_deliver_all:
  assumes "hubInv h" and "distinct ord"
  shows "hubInv (fold (hubDeliver ev) ord h) \<and> length (hubChans (fold (hubDeliver ev) ord h)) = length (hubChans h) \<and>
    (\<forall>c < length (hubChans h). subscriberOf c (fold (hubDeliver ev) ord h) =
       (if of_nat c \<in> set ord then subscriberStep c (OpEmit [] ev) (subscriberOf c h) else subscriberOf c h))"
  using assms
proof (induction ord arbitrary: h)
  case (Cons i ord)
  show ?case using Cons.IH [of "hubDeliver ev i h"] hubInv_deliver [OF Cons.prems(1), of ev i] Cons.prems(2)
    by auto
qed simp

text \<open>Every step of the hub keeps the invariant and acts on each subscriber as on one alone.\<close>

lemma hub_step:
  assumes inv: "hubInv h" and ok: "hubOpOK op h"
  shows "hubInv (hubExec op h) \<and> length (hubChans h) \<le> length (hubChans (hubExec op h)) \<and>
    (\<forall>c < length (hubChans h). subscriberOf c (hubExec op h) = subscriberStep c op (subscriberOf c h))"
proof (cases op)
  case (OpSubscribe n)
  have n: "fmlookup (hubSubs h) (of_nat (length (hubChans h))) = None"
  proof (rule ccontr)
    assume "fmlookup (hubSubs h) (of_nat (length (hubChans h))) \<noteq> None"
    then obtain d where "fmlookup (hubSubs h) (of_nat (length (hubChans h))) = Some d" by blast
    then have "d = unat (of_nat (length (hubChans h)) :: u64)" "d < length (hubChans h)"
      using inv by (auto simp: hubInv_def)
    then show False using inv by (simp add: hubInv_def u64_of_nat_inverse)
  qed
  have ne: "(of_nat (length (hubChans h)) :: u64) \<noteq> of_nat c" if "c < length (hubChans h)" for c
  proof -
    have "c < 18446744073709551616" "length (hubChans h) < 18446744073709551616"
      using that inv by (simp_all add: hubInv_def)
    then show ?thesis using that by (metis less_irrefl u64_of_nat_inverse)
  qed
  then show ?thesis using OpSubscribe inv ok n
    by (auto simp: hubInv_def Subscribe_def Let_def subscriberOf_def nth_append less_Suc_eq u64_of_nat_inverse)
next
  case (OpCancel x)
  obtain c i where x: "x = (c, i)" by (cases x)
  have c: "c < length (hubChans h)" "i = of_nat c" using ok OpCancel x by auto
  have ne: "(of_nat d :: u64) \<noteq> of_nat c" if "d < length (hubChans h)" "d \<noteq> c" for d
  proof -
    have "c < 18446744073709551616" "d < 18446744073709551616" using that c inv by (simp_all add: hubInv_def)
    then show ?thesis using that by (metis u64_of_nat_inverse)
  qed
  show ?thesis
  proof (cases "fmlookup (hubSubs h) i")
    case None
    then show ?thesis using OpCancel x c inv by (auto simp: hubCancel_def hubInv_def subscriberOf_def)
  next
    case (Some d)
    then show ?thesis using OpCancel x c inv ne
      by (auto simp: hubCancel_def closeChan_def hubInv_def subscriberOf_def nth_list_update)
  qed
next
  case (OpEmit ord ev)
  then have ord: "distinct ord" "set ord = fmdom' (hubSubs h)" using ok by (simp_all add: rangeOrder_def)
  have "of_nat c \<in> set ord \<longleftrightarrow> subLive (subscriberOf c h)" if "c < length (hubChans h)" for c
  proof -
    have "chClosed (hubChans h ! c) \<longleftrightarrow> fmlookup (hubSubs h) (of_nat c) = None"
      using inv that unfolding hubInv_def by blast
    then show ?thesis using ord(2) by (auto simp: subscriberOf_def fmlookup_dom'_iff)
  qed
  then show ?thesis using hub_deliver_all [OF inv ord(1), of ev] OpEmit by (auto simp: hubEmit_def)
next
  case (OpRecv c)
  then show ?thesis using ok inv
    by (auto simp: chanRecv_def hubInv_def subscriberOf_def nth_list_update split: list.splits)
qed


lemma hub_fifo_gen:
  assumes "hubInv h" and "c < length (hubChans h)" and "hubRun ops h = Some h'"
  shows "\<exists>k. receivedBy c ops h @ subQueue (subscriberOf c h') = subQueue (subscriberOf c h) @ take k (emittedIn ops)
    \<and> (subLive (subscriberOf c h') \<longrightarrow> k = length (emittedIn ops))
    \<and> (\<not> subLive (subscriberOf c h) \<longrightarrow> k = 0 \<and> \<not> subLive (subscriberOf c h'))"
  using assms
proof (induction ops arbitrary: h)
  case Nil
  then show ?case by (auto simp: emittedIn_def intro: exI [of _ 0])
next
  case (Cons op ops)
  let ?h = "hubExec op h"
  from Cons.prems(3) have ok: "hubOpOK op h" and run: "hubRun ops ?h = Some h'" by (auto split: if_splits)
  have st: "hubInv ?h" "c < length (hubChans ?h)" "subscriberOf c ?h = subscriberStep c op (subscriberOf c h)"
    using hub_step [OF Cons.prems(1) ok] Cons.prems(2) by auto
  from Cons.IH [OF st(1,2) run] obtain k where
    k: "receivedBy c ops ?h @ subQueue (subscriberOf c h') = subQueue (subscriberOf c ?h) @ take k (emittedIn ops)"
    "subLive (subscriberOf c h') \<Longrightarrow> k = length (emittedIn ops)"
    "\<not> subLive (subscriberOf c ?h) \<Longrightarrow> k = 0 \<and> \<not> subLive (subscriberOf c h')" by blast
  show ?case
  proof (cases op)
    case (OpSubscribe n)
    then show ?thesis using k st(3) by (intro exI [of _ k]) (auto simp: emittedIn_def)
  next
    case (OpCancel x)
    then show ?thesis using k st(3) by (intro exI [of _ k]) (auto simp: emittedIn_def split: if_splits)
  next
    case (OpRecv d)
    have "take 1 (subQueue (subscriberOf c h)) @ tl (subQueue (subscriberOf c h)) = subQueue (subscriberOf c h)"
      by (cases "subQueue (subscriberOf c h)") auto
    moreover have "subQueue (subscriberOf c h) = chQueue (hubChans h ! c)" by (simp add: subscriberOf_def)
    ultimately show ?thesis using OpRecv k st(3)
      by (intro exI [of _ k]) (auto simp: emittedIn_def split: if_splits)
  next
    case (OpEmit ord ev)
    have em: "emittedIn (op # ops) = ev # emittedIn ops" using OpEmit by (simp add: emittedIn_def)
    have rc: "receivedBy c (op # ops) h = receivedBy c ops ?h" using OpEmit by simp
    show ?thesis
    proof (cases "subLive (subscriberOf c h) \<and> length (subQueue (subscriberOf c h)) < subCap (subscriberOf c h)")
      case True
      then show ?thesis unfolding em rc using k st(3) OpEmit by (intro exI [of _ "Suc k"]) auto
    next
      case False
      then have "\<not> subLive (subscriberOf c ?h)" "subQueue (subscriberOf c ?h) = subQueue (subscriberOf c h)"
        using st(3) OpEmit by auto
      then show ?thesis unfolding em rc using k by (intro exI [of _ 0]) auto
    qed
  qed
qed

lemma hubRun_append: "hubRun (xs @ ys) h = Option.bind (hubRun xs h) (hubRun ys)"
  by (induction xs arbitrary: h) auto

lemma hubRun_inv: "hubRun ops h = Some h' \<Longrightarrow> hubInv h \<Longrightarrow> hubInv h'"
  using hub_step by (induction ops arbitrary: h) (auto split: if_splits)

lemma hubRun_grows:
  "hubRun ops h = Some h' \<Longrightarrow> hubInv h \<Longrightarrow> length (hubChans h) \<le> length (hubChans h')"
proof (induction ops arbitrary: h)
  case (Cons op ops)
  then have "hubOpOK op h" "hubRun ops (hubExec op h) = Some h'" by (auto split: if_splits)
  then show ?case using Cons.IH [of "hubExec op h"] hub_step [OF Cons.prems(2), of op] by linarith
qed simp

lemma subscriber_stream:
  assumes "hubRun before NewHub = Some h" and "length (hubChans h) + 1 < 2 ^ 64"
    and "Subscribe buffer h = ((c, i), h0)" and "hubRun ops h0 = Some h1"
  shows "prefix (receivedBy c ops h0 @ subQueue (subscriberOf c h1)) (emittedIn ops) \<and>
    (fmlookup (hubSubs h1) i = Some c \<longrightarrow>
       receivedBy c ops h0 @ subQueue (subscriberOf c h1) = emittedIn ops \<and> \<not> chClosed (hubChans h1 ! c)) \<and>
    (fmlookup (hubSubs h1) i = None \<longrightarrow> chClosed (hubChans h1 ! c))"
proof -
  have inv: "hubInv h" using hubRun_inv [OF assms(1) hubInv_NewHub] .
  have h0: "h0 = hubExec (OpSubscribe buffer) h" using assms(3) by simp
  have inv0: "hubInv h0" unfolding h0 using hub_step [OF inv, of "OpSubscribe buffer"] assms(2) by simp
  have c: "c < length (hubChans h0)" "i = of_nat c" "subQueue (subscriberOf c h0) = []"
    using assms(3) inv by (auto simp: Subscribe_def Let_def subscriberOf_def hubInv_def)
  obtain k where k: "receivedBy c ops h0 @ subQueue (subscriberOf c h1) = take k (emittedIn ops)"
      "subLive (subscriberOf c h1) \<Longrightarrow> k = length (emittedIn ops)"
    using hub_fifo_gen [OF inv0 c(1) assms(4)] c(3) by auto
  have inv1: "hubInv h1" using hubRun_inv [OF assms(4) inv0] .
  have len: "c < length (hubChans h1)" using hubRun_grows [OF assms(4) inv0] c(1) by simp
  have "\<forall>c < length (hubChans h1). chClosed (hubChans h1 ! c) \<longleftrightarrow> fmlookup (hubSubs h1) (of_nat c) = None"
    using inv1 by (simp add: hubInv_def)
  then have "chClosed (hubChans h1 ! c) \<longleftrightarrow> fmlookup (hubSubs h1) i = None"
    using len c(2) by simp
  then have live: "subLive (subscriberOf c h1) \<longleftrightarrow> fmlookup (hubSubs h1) i \<noteq> None"
      "chClosed (hubChans h1 ! c) \<longleftrightarrow> fmlookup (hubSubs h1) i = None" by (simp_all add: subscriberOf_def)
  have "prefix (receivedBy c ops h0 @ subQueue (subscriberOf c h1)) (emittedIn ops)"
    unfolding k(1) by (rule take_is_prefix)
  moreover have "receivedBy c ops h0 @ subQueue (subscriberOf c h1) = emittedIn ops"
    if "fmlookup (hubSubs h1) i = Some c"
    using k(2) that unfolding k(1) live by simp
  ultimately show ?thesis unfolding live by blast
qed

text \<open>
  C18: every reachable hub gives each subscriber a gap-free stream. From its subscription on,
  what a subscriber has received followed by what waits in its channel is a prefix of the
  events emitted, in order and without duplicates or gaps; as long as the hub has not dropped
  it and it has not cancelled, that prefix is everything emitted. And a channel is closed
  exactly when its subscriber is no longer registered, whoever ended it.
\<close>

theorem hub_stream_gap_free:
  assumes "hubRun before NewHub = Some h" and "length (hubChans h) + 1 < 2 ^ 64"
    and "Subscribe buffer h = ((c, i), h0)" and "hubRun ops h0 = Some h1"
  shows "prefix (receivedBy c ops h0 @ subQueue (subscriberOf c h1)) (emittedIn ops) \<and>
    (fmlookup (hubSubs h1) i = Some c \<longrightarrow>
       receivedBy c ops h0 @ subQueue (subscriberOf c h1) = emittedIn ops \<and> \<not> chClosed (hubChans h1 ! c)) \<and>
    (fmlookup (hubSubs h1) i = None \<longrightarrow> chClosed (hubChans h1 ! c))"
  by (rule subscriber_stream [OF assms])

definition demoEvent :: "string \<Rightarrow> event" where
  "demoEvent h = emptyEvent\<lparr>evType := TypeMined, evTxHash := h\<rparr>"

theorem hub_stream_gap_free_witness:
  "\<exists>h0 h1. Subscribe 2 NewHub = ((0, 0), h0) \<and>
     hubRun [OpEmit [0] (demoEvent ''a''), OpRecv 0, OpEmit [0] (demoEvent ''b'')] h0 = Some h1 \<and>
     receivedBy 0 [OpEmit [0] (demoEvent ''a''), OpRecv 0, OpEmit [0] (demoEvent ''b'')] h0
       @ subQueue (subscriberOf 0 h1) = [demoEvent ''a'', demoEvent ''b'']"
proof -
  let ?h0 = "snd (Subscribe 2 NewHub)"
  let ?ops = "[OpEmit [0] (demoEvent ''a''), OpRecv 0, OpEmit [0] (demoEvent ''b'')]"
  let ?h1 = "hubExec (OpEmit [0] (demoEvent ''b'')) (hubExec (OpRecv 0) (hubExec (OpEmit [0] (demoEvent ''a'')) ?h0))"
  have s: "Subscribe 2 NewHub = ((0, 0), ?h0)" by (simp add: Subscribe_def NewHub_def)
  have r: "hubRun ?ops ?h0 = Some ?h1" and l: "fmlookup (hubSubs ?h1) 0 = Some 0"
    by (simp_all add: Subscribe_def NewHub_def rangeOrder_def hubEmit_def hubDeliver_def chanRecv_def)
  have em: "emittedIn ?ops = [demoEvent ''a'', demoEvent ''b'']" by (simp add: emittedIn_def)
  have "hubRun [] NewHub = Some NewHub" "length (hubChans NewHub) + 1 < 2 ^ 64" by (simp_all add: NewHub_def)
  from hub_stream_gap_free [OF this s r] l em
  have "receivedBy 0 ?ops ?h0 @ subQueue (subscriberOf 0 ?h1) = [demoEvent ''a'', demoEvent ''b'']" by metis
  then show ?thesis using s r by blast
qed

end
