(* ===== verification/Watched.thy ===== *)
theory Watched
  imports Event
begin

text \<open>
  internal/config/watched.go: the set of watched addresses with interned wallet labels. A label
  index is an \<open>int32\<close>, kept at its width: the conversion of a slice length to it wraps, and
  indexing with a negative or too large index is a Go panic.
\<close>

type_synonym i32 = "32 word"

record watchedSet =
  wsIdx :: "(address, i32) fmap"
  wsLabels :: "string list"
  wsByLabel :: "(string, i32) fmap"

definition newWatchedSet :: watchedSet where
  "newWatchedSet = \<lparr>wsIdx = fmempty, wsLabels = [''''], wsByLabel = fmempty\<rparr>"

definition intern :: "string \<Rightarrow> watchedSet \<Rightarrow> i32 \<times> watchedSet" where
  "intern label s =
     (if label = '''' then (0, s)
      else case fmlookup (wsByLabel s) label of
        Some i \<Rightarrow> (i, s)
      | None \<Rightarrow>
          (let labels = wsLabels s @ [label];
               i = word_of_int (int (length labels) - 1)
           in (i, s\<lparr>wsLabels := labels, wsByLabel := fmupd label i (wsByLabel s)\<rparr>)))"

definition addWatched :: "address \<Rightarrow> i32 \<Rightarrow> watchedSet \<Rightarrow> bool \<times> watchedSet" where
  "addWatched addr label s =
     (case fmlookup (wsIdx s) addr of
        Some _ \<Rightarrow> (False, s)
      | None \<Rightarrow> (True, s\<lparr>wsIdx := fmupd addr label (wsIdx s)\<rparr>))"

text \<open>\<open>NewWatchedSet\<close> ranges over the names in an unspecified order \<open>ord\<close>.\<close>

definition addNamed :: "address \<Rightarrow> string \<Rightarrow> watchedSet \<Rightarrow> watchedSet" where
  "addNamed addr name s = (case intern name s of (i, s1) \<Rightarrow> snd (addWatched addr i s1))"

definition NewWatchedSet :: "address list \<Rightarrow> (address, string) fmap \<Rightarrow> watchedSet" where
  "NewWatchedSet ord names = fold (\<lambda>a. addNamed a (the (fmlookup names a))) ord newWatchedSet"

definition watchedCount :: "watchedSet \<Rightarrow> nat" where
  "watchedCount s = goLen (wsIdx s)"

definition Contains :: "watchedSet \<Rightarrow> address \<Rightarrow> bool" where
  "Contains s addr \<longleftrightarrow> fmlookup (wsIdx s) addr \<noteq> None"

text \<open>A missing key reads as index 0.\<close>

definition Name :: "watchedSet \<Rightarrow> address \<Rightarrow> goerr + string" where
  "Name s addr =
     (let i = sint (case fmlookup (wsIdx s) addr of Some i \<Rightarrow> i | None \<Rightarrow> 0) in
      if 0 \<le> i \<and> i < int (length (wsLabels s)) then Inr (wsLabels s ! nat i)
      else Inl (Panic ''index out of range''))"

definition ForSide :: "watchedSet \<Rightarrow> address \<Rightarrow> address \<Rightarrow> string \<Rightarrow> goerr + string" where
  "ForSide s from to dir =
     (if dir = DirectionOut then Name s from
      else case Name s to of
        Inl e \<Rightarrow> Inl e
      | Inr name \<Rightarrow>
          if name \<noteq> '''' then Inr name
          else if dir = DirectionSelf then Name s from
          else Inr '''')"

definition Each :: "address list \<Rightarrow> (address \<Rightarrow> 's \<Rightarrow> 's) \<Rightarrow> 's \<Rightarrow> 's" where
  "Each ord fn st = fold fn ord st"

section \<open>The invariant\<close>

text \<open>
  Index 0 is the empty label, \<open>byLabel\<close> is the inverse of the label table beyond it, and every
  address points into the table.
\<close>

definition watchedInv :: "watchedSet \<Rightarrow> bool" where
  "watchedInv s \<longleftrightarrow>
     length (wsLabels s) \<le> 2 ^ 31 \<and> wsLabels s \<noteq> [] \<and> wsLabels s ! 0 = '''' \<and> distinct (wsLabels s) \<and>
     (\<forall>l i. fmlookup (wsByLabel s) l = Some i \<longrightarrow> 0 \<le> sint i \<and> nat (sint i) < length (wsLabels s) \<and> wsLabels s ! nat (sint i) = l) \<and>
     (\<forall>k < length (wsLabels s). 0 < k \<longrightarrow> fmlookup (wsByLabel s) (wsLabels s ! k) = Some (word_of_int (int k))) \<and>
     (\<forall>a i. fmlookup (wsIdx s) a = Some i \<longrightarrow> 0 \<le> sint i \<and> nat (sint i) < length (wsLabels s))"

lemma sint_small: "0 \<le> k \<Longrightarrow> k < 2 ^ 31 \<Longrightarrow> sint (word_of_int k :: i32) = k"
  by (simp add: sint_sbintrunc' signed_take_bit_int_eq_self)

lemma watchedInv_new: "watchedInv newWatchedSet"
  by (simp add: watchedInv_def newWatchedSet_def)

lemma intern_inv:
  assumes inv: "watchedInv s" and len: "length (wsLabels s) < 2 ^ 31" and r: "intern label s = (i, s')"
  shows "watchedInv s' \<and> 0 \<le> sint i \<and> nat (sint i) < length (wsLabels s') \<and> wsLabels s' ! nat (sint i) = label
    \<and> wsIdx s' = wsIdx s \<and> (\<exists>x. wsLabels s' = wsLabels s @ x \<and> length x \<le> 1)"
proof (cases "label = ''''")
  case True
  then show ?thesis using r inv by (auto simp: intern_def watchedInv_def)
next
  case False
  show ?thesis
  proof (cases "fmlookup (wsByLabel s) label")
    case (Some j)
    then show ?thesis using r False inv by (auto simp: intern_def watchedInv_def)
  next
    case None
    let ?n = "length (wsLabels s)"
    have i: "i = word_of_int (int ?n)" and s': "s' = s\<lparr>wsLabels := wsLabels s @ [label],
        wsByLabel := fmupd label i (wsByLabel s)\<rparr>"
      using r False None by (auto simp: intern_def Let_def)
    have si: "sint i = int ?n" unfolding i by (rule sint_small) (use len in auto)
    have fresh: "label \<notin> set (wsLabels s)"
    proof
      assume "label \<in> set (wsLabels s)"
      then obtain k where k: "k < ?n" "wsLabels s ! k = label" by (auto simp: in_set_conv_nth)
      moreover have "wsLabels s ! 0 = ''''" using inv by (simp add: watchedInv_def)
      then have "0 < k" using k(2) False by (cases k) auto
      ultimately have "fmlookup (wsByLabel s) label = Some (word_of_int (int k))"
        using inv by (auto simp: watchedInv_def)
      then show False using None by simp
    qed
    have A: "length (wsLabels s') \<le> 2 ^ 31 \<and> wsLabels s' \<noteq> [] \<and> wsLabels s' ! 0 = '''' \<and> distinct (wsLabels s')"
      using inv len fresh unfolding s' by (auto simp: watchedInv_def nth_append)
    have "0 \<le> sint j \<and> nat (sint j) < length (wsLabels s') \<and> wsLabels s' ! nat (sint j) = l"
      if "fmlookup (wsByLabel s') l = Some j" for l j
    proof (cases "l = label")
      case True
      then show ?thesis using that si unfolding s' by auto
    next
      case False
      then have "fmlookup (wsByLabel s) l = Some j" using that unfolding s' by auto
      then have "0 \<le> sint j \<and> nat (sint j) < ?n \<and> wsLabels s ! nat (sint j) = l"
        using inv unfolding watchedInv_def by blast
      then show ?thesis unfolding s' by (auto simp: nth_append)
    qed
    then have B: "\<forall>l j. fmlookup (wsByLabel s') l = Some j \<longrightarrow>
        0 \<le> sint j \<and> nat (sint j) < length (wsLabels s') \<and> wsLabels s' ! nat (sint j) = l" by blast
    have C: "\<forall>k < length (wsLabels s'). 0 < k \<longrightarrow> fmlookup (wsByLabel s') (wsLabels s' ! k) = Some (word_of_int (int k))"
      using inv fresh unfolding s' by (auto simp: watchedInv_def nth_append i less_Suc_eq)
    have D: "\<forall>a j. fmlookup (wsIdx s') a = Some j \<longrightarrow> 0 \<le> sint j \<and> nat (sint j) < length (wsLabels s')"
      using inv unfolding s' by (fastforce simp: watchedInv_def)
    show ?thesis using A B C D si unfolding watchedInv_def by (simp add: s' nth_append)
  qed
qed

text \<open>Adding a new address under a name: the invariant is kept, the address reads the name back
  and no other address changes.\<close>

lemma Name_Inr_iff:
  "watchedInv s \<Longrightarrow> Name s a = Inr (case fmlookup (wsIdx s) a of None \<Rightarrow> '''' | Some i \<Rightarrow> wsLabels s ! nat (sint i))"
  by (force simp: Name_def Let_def watchedInv_def split: option.splits)

lemma addNamed_inv:
  assumes inv: "watchedInv s" and len: "length (wsLabels s) < 2 ^ 31"
  shows "watchedInv (addNamed a name s) \<and> length (wsLabels (addNamed a name s)) \<le> Suc (length (wsLabels s)) \<and>
    fmdom' (wsIdx (addNamed a name s)) = insert a (fmdom' (wsIdx s)) \<and>
    (\<forall>b. Name (addNamed a name s) b = (if b = a \<and> \<not> Contains s a then Inr name else Name s b))"
proof -
  obtain i s1 where i: "intern name s = (i, s1)" by (cases "intern name s")
  note I = intern_inv [OF inv len i]
  then obtain x where x: "wsLabels s1 = wsLabels s @ x" "length x \<le> 1" and inv1: "watchedInv s1" by blast
  have old: "Name s1 b = Name s b" for b
    using inv inv1 I x by (auto simp: Name_Inr_iff watchedInv_def nth_append split: option.splits)
  show ?thesis
  proof (cases "fmlookup (wsIdx s) a")
    case None
    let ?s = "s1\<lparr>wsIdx := fmupd a i (wsIdx s1)\<rparr>"
    have r: "addNamed a name s = ?s" using I None by (simp add: addNamed_def i addWatched_def)
    have inv': "watchedInv ?s" using inv1 I by (auto simp: watchedInv_def)
    have "Name ?s b = (if b = a then Inr name else Name s1 b)" for b
      using inv' inv1 I by (auto simp: Name_Inr_iff split: option.splits)
    then show ?thesis using r inv' I x None old by (auto simp: Contains_def fmdom'_fmupd)
  next
    case (Some j)
    then have "addNamed a name s = s1" using I by (simp add: addNamed_def i addWatched_def)
    moreover have "a \<in> fmdom' (wsIdx s)" using Some by (rule fmdom'I)
    ultimately show ?thesis using Some I x inv1 old by (auto simp: Contains_def)
  qed
qed

lemma NewWatchedSet_gen:
  assumes "distinct ord" and "set ord \<inter> fmdom' (wsIdx s) = {}" and "watchedInv s"
    and "length (wsLabels s) + length ord \<le> 2 ^ 31"
  shows "let s' = fold (\<lambda>a. addNamed a (f a)) ord s in watchedInv s' \<and>
    fmdom' (wsIdx s') = set ord \<union> fmdom' (wsIdx s) \<and>
    (\<forall>b. Name s' b = (if b \<in> set ord then Inr (f b) else Name s b))"
  using assms
proof (induction ord arbitrary: s)
  case (Cons a ord)
  have len: "length (wsLabels s) < 2 ^ 31" using Cons.prems(4) by simp
  note A = addNamed_inv [OF Cons.prems(3) len, of a "f a"]
  have "\<not> Contains s a" using Cons.prems(2) by (auto simp: Contains_def fmlookup_dom'_iff)
  then show ?case using Cons.IH [of "addNamed a (f a) s"] A Cons.prems by (auto simp: Let_def)
qed simp

lemma NewWatchedSet_correct:
  assumes "rangeOrder ord names" and "length ord < 2 ^ 31"
  shows "(Contains (NewWatchedSet ord names) a \<longleftrightarrow> fmlookup names a \<noteq> None) \<and>
    watchedCount (NewWatchedSet ord names) = goLen names \<and>
    Name (NewWatchedSet ord names) a = Inr (case fmlookup names a of Some n \<Rightarrow> n | None \<Rightarrow> '''')"
proof -
  have ord: "distinct ord" "set ord = fmdom' names" using assms(1) by (simp_all add: rangeOrder_def)
  have G: "watchedInv (NewWatchedSet ord names) \<and> fmdom' (wsIdx (NewWatchedSet ord names)) = set ord \<and>
      (\<forall>b. Name (NewWatchedSet ord names) b = (if b \<in> set ord then Inr (the (fmlookup names b)) else Name newWatchedSet b))"
    using NewWatchedSet_gen [OF ord(1), of newWatchedSet "\<lambda>a. the (fmlookup names a)"] watchedInv_new assms(2)
    by (simp add: NewWatchedSet_def newWatchedSet_def Let_def)
  have "Name newWatchedSet a = Inr ''''" by (simp add: Name_def newWatchedSet_def)
  then have "Name (NewWatchedSet ord names) a = Inr (case fmlookup names a of Some n \<Rightarrow> n | None \<Rightarrow> '''')"
    using G ord(2) by (auto simp: fmlookup_dom'_iff split: option.splits)
  moreover have "Contains (NewWatchedSet ord names) a \<longleftrightarrow> fmlookup names a \<noteq> None"
    using G ord(2) by (metis Contains_def fmlookup_dom'_iff not_None_eq)
  moreover have "watchedCount (NewWatchedSet ord names) = goLen names"
    using G ord(2) by (simp add: watchedCount_def goLen_card)
  ultimately show ?thesis by blast
qed

text \<open>
  The set built from the configured names is exactly those names: an address is watched when
  it has an entry, its label reads back whatever order the map was walked in and however many
  addresses share labels, an unwatched address reads as unnamed, and no lookup indexes outside
  the label table, as long as there are fewer than \<open>2 ^ 31\<close> names.
\<close>

theorem NewWatchedSet_names:
  assumes "rangeOrder ord names" and "length ord < 2 ^ 31"
  shows "(Contains (NewWatchedSet ord names) a \<longleftrightarrow> fmlookup names a \<noteq> None) \<and>
    watchedCount (NewWatchedSet ord names) = goLen names \<and>
    Name (NewWatchedSet ord names) a = Inr (case fmlookup names a of Some n \<Rightarrow> n | None \<Rightarrow> '''')"
  using NewWatchedSet_correct [OF assms] .

theorem NewWatchedSet_names_witness:
  "Name (NewWatchedSet [7, 8] (fmupd 7 ''hot'' (fmupd 8 ''hot'' fmempty))) 8 = Inr ''hot''"
  using NewWatchedSet_names [of "[7, 8]" "fmupd 7 ''hot'' (fmupd 8 ''hot'' fmempty)" 8]
  by (simp add: rangeOrder_def)

text \<open>
  The label of a transfer is that of its watched side: for a set built from the configured
  names, \<open>For\<close> never panics, an outgoing transfer carries the sender's name, and an incoming or
  self transfer the recipient's, a self transfer falling back to the sender's when the recipient
  has none.
\<close>

theorem ForSide_label:
  assumes "rangeOrder ord names" and "length ord < 2 ^ 31"
  shows "let name = (\<lambda>a. case fmlookup names a of Some n \<Rightarrow> n | None \<Rightarrow> '''') in
    ForSide (NewWatchedSet ord names) src dst dir =
      Inr (if dir = DirectionOut then name src
           else if name dst = '''' \<and> dir = DirectionSelf then name src else name dst)"
  using NewWatchedSet_correct [OF assms] by (auto simp: ForSide_def Let_def)

theorem ForSide_label_witness:
  "ForSide (NewWatchedSet [7, 8] (fmupd 7 ''hot'' (fmupd 8 '''' fmempty))) 7 8 DirectionSelf = Inr ''hot''"
  using ForSide_label [of "[7, 8]" "fmupd 7 ''hot'' (fmupd 8 '''' fmempty)" 7 8 DirectionSelf]
  by (simp add: rangeOrder_def direction_defs Let_def)

end
