(* ===== verification/Matcher.thy ===== *)
theory Matcher
  imports Watched
begin

text \<open>
  internal/indexer/matcher.go: finding the transfers a transaction or a log carries that touch a
  watched address. The signature recovery of go-ethereum (\<open>types.Sender\<close>) is a parameter; its
  transaction is a record of the fields the code reads. \<open>logZeroValue\<close> only writes a debug line
  and has no counterpart.
\<close>

section \<open>Data\<close>

type_synonym bytes = "u8 list"

text \<open>The \<open>Match\<close> struct; nil pointers are \<open>None\<close>.\<close>

record transferMatch =
  mTxHash :: hash
  mFrom :: address
  mTo :: address
  mDirection :: string
  mAsset :: string
  mToken :: "address option"
  mDecimals :: u8
  mValue :: int
  mLogIndex :: "u64 option"
  mTxSender :: address
  mTxNonce :: u64

record parsedToken =
  ptAddress :: address
  ptSymbol :: string
  ptDecimals :: u8

record matcher =
  mWatched :: watchedSet
  mTokens :: "(address, parsedToken) fmap"
  mNativeSymbol :: string

record blockTx =
  btHash :: hash
  btFrom :: address
  btTo :: "address option"
  btValue :: "int option"
  btInput :: bytes
  btNonce :: u64

record ethTx =
  etHash :: hash
  etTo :: "address option"
  etValue :: int
  etData :: bytes
  etNonce :: u64

record ethLog =
  lgAddress :: address
  lgTopics :: "hash list"
  lgData :: bytes
  lgTxHash :: hash
  lgIndex :: u64
  lgBlockNumber :: u64
  lgBlockHash :: hash
  lgRemoved :: bool

definition transferTopic :: hash where
  "transferTopic = 0xddf252ad1be2c89b69c2b068fc378daa952ba7f163c4a11628f55a4df523b3ef"

definition methodTransfer :: bytes where
  "methodTransfer = [0xa9, 0x05, 0x9c, 0xbb]"

definition methodTransferFrom :: bytes where
  "methodTransferFrom = [0x23, 0xb8, 0x72, 0xdd]"

text \<open>\<open>big.Int.SetBytes\<close> reads big-endian; \<open>common.BytesToAddress\<close> keeps the last 20 bytes.\<close>

definition SetBytes :: "bytes \<Rightarrow> int" where
  "SetBytes bs = foldl (\<lambda>a b. 256 * a + uint b) 0 bs"

definition BytesToAddress :: "bytes \<Rightarrow> address" where
  "BytesToAddress bs = word_of_int (SetBytes bs)"

section \<open>Operations\<close>

definition NewMatcher :: "watchedSet \<Rightarrow> parsedToken list \<Rightarrow> string \<Rightarrow> matcher" where
  "NewMatcher watched tokens nativeSymbol =
     \<lparr>mWatched = watched,
      mTokens = fold (\<lambda>t. fmupd (ptAddress t) t) tokens fmempty,
      mNativeSymbol = (if nativeSymbol = '''' then ''ETH'' else nativeSymbol)\<rparr>"

definition WatchedCount :: "matcher \<Rightarrow> nat" where
  "WatchedCount m = watchedCount (mWatched m)"

text \<open>The two lists the log queries filter by; each ranges over a map in an unspecified order.\<close>

definition TokenAddresses :: "address list \<Rightarrow> matcher \<Rightarrow> address list" where
  "TokenAddresses ord m = ord"

definition WatchedTopics :: "address list \<Rightarrow> matcher \<Rightarrow> hash list" where
  "WatchedTopics ord m = Each ord (\<lambda>a out. out @ [ucast a]) []"

definition direction :: "matcher \<Rightarrow> address \<Rightarrow> address \<Rightarrow> string option" where
  "direction m from to =
     (let fromWatched = Contains (mWatched m) from;
          toWatched = Contains (mWatched m) to
      in if fromWatched \<and> toWatched then Some DirectionSelf
         else if toWatched then Some DirectionIn
         else if fromWatched then Some DirectionOut
         else None)"

definition decodeERC20Transfer :: "address \<Rightarrow> bytes \<Rightarrow> (address \<times> address \<times> int) option" where
  "decodeERC20Transfer signer data =
     (if length data < 4 then None
      else let method = take 4 data;
               args = drop 4 data;
               word = (\<lambda>i. take 32 (drop (32 * i) args))
           in if method = methodTransfer then
                (if length args < 64 then None
                 else Some (signer, BytesToAddress (word 0), SetBytes (word 1)))
              else if method = methodTransferFrom then
                (if length args < 96 then None
                 else Some (BytesToAddress (word 0), BytesToAddress (word 1), SetBytes (word 2)))
              else None)"

definition nativeLegs :: "matcher \<Rightarrow> hash \<Rightarrow> address \<Rightarrow> address \<Rightarrow> int \<Rightarrow> transferMatch list" where
  "nativeLegs m h signer to v =
     (case direction m signer to of
        None \<Rightarrow> []
      | Some dir \<Rightarrow>
          if 0 < v
          then [\<lparr>mTxHash = h, mFrom = signer, mTo = to, mDirection = dir, mAsset = mNativeSymbol m,
                 mToken = None, mDecimals = 18, mValue = v, mLogIndex = None, mTxSender = 0, mTxNonce = 0\<rparr>]
          else [])"

definition tokenLegs :: "matcher \<Rightarrow> hash \<Rightarrow> address \<Rightarrow> address \<Rightarrow> bytes \<Rightarrow> transferMatch list" where
  "tokenLegs m h signer to data =
     (case fmlookup (mTokens m) to of
        None \<Rightarrow> []
      | Some token \<Rightarrow>
          (case decodeERC20Transfer signer data of
             None \<Rightarrow> []
           | Some (tokenFrom, recipient, amount) \<Rightarrow>
               (case direction m tokenFrom recipient of
                  None \<Rightarrow> []
                | Some dir \<Rightarrow>
                    if amount = 0 then []
                    else [\<lparr>mTxHash = h, mFrom = tokenFrom, mTo = recipient, mDirection = dir,
                           mAsset = ptSymbol token, mToken = Some to, mDecimals = ptDecimals token,
                           mValue = amount, mLogIndex = None, mTxSender = 0, mTxNonce = 0\<rparr>])))"

definition matchLegs :: "matcher \<Rightarrow> hash \<Rightarrow> address \<Rightarrow> address \<Rightarrow> int \<Rightarrow> bytes \<Rightarrow> transferMatch list" where
  "matchLegs m h signer to v data = nativeLegs m h signer to v @ tokenLegs m h signer to data"

definition withTxInfo :: "transferMatch list \<Rightarrow> address \<Rightarrow> u64 \<Rightarrow> transferMatch list" where
  "withTxInfo ms sender nonce = map (\<lambda>x. x\<lparr>mTxSender := sender, mTxNonce := nonce\<rparr>) ms"

definition MatchTx :: "(ethTx \<Rightarrow> goerr + address) \<Rightarrow> matcher \<Rightarrow> ethTx \<Rightarrow> transferMatch list" where
  "MatchTx Sender m tx =
     (case etTo tx of
        None \<Rightarrow> []
      | Some to \<Rightarrow>
          (case Sender tx of
             Inl _ \<Rightarrow> []
           | Inr from \<Rightarrow> withTxInfo (matchLegs m (etHash tx) from to (etValue tx) (etData tx)) from (etNonce tx)))"

definition MatchBlockTx :: "matcher \<Rightarrow> blockTx \<Rightarrow> transferMatch list" where
  "MatchBlockTx m tx =
     (case btTo tx of
        None \<Rightarrow> []
      | Some to \<Rightarrow>
          (let v = (case btValue tx of None \<Rightarrow> 0 | Some x \<Rightarrow> x)
           in withTxInfo (matchLegs m (btHash tx) (btFrom tx) to v (btInput tx)) (btFrom tx) (btNonce tx)))"

text \<open>\<open>common.BytesToAddress\<close> of a topic's 32 bytes keeps its low 160 bits.\<close>

definition MatchLog :: "matcher \<Rightarrow> ethLog \<Rightarrow> transferMatch option" where
  "MatchLog m lg =
     (case fmlookup (mTokens m) (lgAddress lg) of
        None \<Rightarrow> None
      | Some token \<Rightarrow>
          if length (lgTopics lg) \<noteq> 3 \<or> lgTopics lg ! 0 \<noteq> transferTopic then None
          else
            (let from = ucast (lgTopics lg ! 1); to = ucast (lgTopics lg ! 2) in
             case direction m from to of
               None \<Rightarrow> None
             | Some dir \<Rightarrow>
                 (let v = SetBytes (lgData lg) in
                  if v = 0 then None
                  else Some \<lparr>mTxHash = lgTxHash lg, mFrom = from, mTo = to, mDirection = dir,
                         mAsset = ptSymbol token, mToken = Some (lgAddress lg), mDecimals = ptDecimals token,
                         mValue = v, mLogIndex = Some (lgIndex lg), mTxSender = 0, mTxNonce = 0\<rparr>)))"

section \<open>Calldata\<close>

text \<open>The ABI encoding the decoder is for: a selector and 32-byte big-endian words.\<close>

fun bigEndian :: "nat \<Rightarrow> int \<Rightarrow> bytes" where
  "bigEndian 0 v = []"
| "bigEndian (Suc k) v = bigEndian k (v div 256) @ [word_of_int v]"

definition encodeTransfer :: "address \<Rightarrow> int \<Rightarrow> bytes" where
  "encodeTransfer to v = methodTransfer @ bigEndian 32 (uint to) @ bigEndian 32 v"

definition encodeTransferFrom :: "address \<Rightarrow> address \<Rightarrow> int \<Rightarrow> bytes" where
  "encodeTransferFrom from to v = methodTransferFrom @ bigEndian 32 (uint from) @ bigEndian 32 (uint to) @ bigEndian 32 v"

lemma length_bigEndian [simp]: "length (bigEndian k v) = k"
  by (induction k arbitrary: v) auto

lemma SetBytes_snoc: "SetBytes (bs @ [b]) = 256 * SetBytes bs + uint b"
  by (simp add: SetBytes_def)

lemma SetBytes_Nil [simp]: "SetBytes [] = 0"
  by (simp add: SetBytes_def)

lemma SetBytes_bigEndian: "0 \<le> v \<Longrightarrow> v < 256 ^ k \<Longrightarrow> SetBytes (bigEndian k v) = v"
proof (induction k arbitrary: v)
  case (Suc k)
  have "0 \<le> v div 256" "v div 256 < 256 ^ k"
    using Suc.prems by (auto simp: pos_imp_zdiv_nonneg_iff div_less_iff_less_mult mult.commute)
  moreover have "uint (word_of_int v :: u8) = v mod 256" by (simp add: uint_word_of_int)
  ultimately show ?case using Suc.IH by (simp add: SetBytes_snoc)
qed simp

lemma SetBytes_nonneg: "0 \<le> SetBytes bs"
  by (induction bs rule: rev_induct) (auto simp: SetBytes_snoc)

lemma uint_address_less: "uint (a :: address) < 256 ^ 32"
  using uint_bounded [of a] by simp

lemma BytesToAddress_bigEndian: "BytesToAddress (bigEndian 32 (uint a)) = a"
  by (simp add: BytesToAddress_def SetBytes_bigEndian [OF _ uint_address_less])

lemma decode_transfer:
  assumes "0 \<le> v" and "v < 2 ^ 256"
  shows "decodeERC20Transfer signer (encodeTransfer to v @ rest) = Some (signer, to, v)"
  using assms by (simp add: decodeERC20Transfer_def encodeTransfer_def methodTransfer_def Let_def
      BytesToAddress_bigEndian SetBytes_bigEndian)

lemma decode_transferFrom:
  assumes "0 \<le> v" and "v < 2 ^ 256"
  shows "decodeERC20Transfer signer (encodeTransferFrom from to v @ rest) = Some (from, to, v)"
  using assms by (simp add: decodeERC20Transfer_def encodeTransferFrom_def methodTransfer_def
      methodTransferFrom_def Let_def BytesToAddress_bigEndian SetBytes_bigEndian)

section \<open>What a match is\<close>

text \<open>The direction a leg between two addresses has, given the watched set.\<close>

definition sidesWatched :: "matcher \<Rightarrow> address \<Rightarrow> address \<Rightarrow> string \<Rightarrow> bool" where
  "sidesWatched m from to dir \<longleftrightarrow>
     dir = DirectionSelf \<and> Contains (mWatched m) from \<and> Contains (mWatched m) to \<or>
     dir = DirectionIn \<and> \<not> Contains (mWatched m) from \<and> Contains (mWatched m) to \<or>
     dir = DirectionOut \<and> Contains (mWatched m) from \<and> \<not> Contains (mWatched m) to"

lemma direction_iff: "direction m from to = Some dir \<longleftrightarrow> sidesWatched m from to dir"
  by (auto simp: direction_def sidesWatched_def Let_def)

definition nativeLegOf :: "matcher \<Rightarrow> address \<Rightarrow> address \<Rightarrow> int \<Rightarrow> transferMatch \<Rightarrow> bool" where
  "nativeLegOf m signer to v x \<longleftrightarrow> mToken x = None \<and> mFrom x = signer \<and> mTo x = to \<and> mValue x = v \<and>
     mAsset x = mNativeSymbol m \<and> mDecimals x = 18"

definition tokenLegOf :: "matcher \<Rightarrow> address \<Rightarrow> (address \<times> address \<times> int) option \<Rightarrow> transferMatch \<Rightarrow> bool" where
  "tokenLegOf m contract args x \<longleftrightarrow> mToken x = Some contract \<and> args = Some (mFrom x, mTo x, mValue x) \<and>
     (\<exists>t. fmlookup (mTokens m) contract = Some t \<and> mAsset x = ptSymbol t \<and> mDecimals x = ptDecimals t)"

lemma decode_nonneg: "decodeERC20Transfer signer data = Some (f, t, v) \<Longrightarrow> 0 \<le> v"
  by (auto simp: decodeERC20Transfer_def Let_def SetBytes_nonneg split: if_splits)

lemma matchLegs_iff:
  "x \<in> set (matchLegs m h signer to v data) \<longleftrightarrow>
     mTxHash x = h \<and> mTxSender x = 0 \<and> mTxNonce x = 0 \<and> mLogIndex x = None \<and> 0 < mValue x \<and>
     sidesWatched m (mFrom x) (mTo x) (mDirection x) \<and>
     (nativeLegOf m signer to v x \<or> tokenLegOf m to (decodeERC20Transfer signer data) x)"
proof -
  have n: "x \<in> set (nativeLegs m h signer to v) \<longleftrightarrow>
      mTxHash x = h \<and> mTxSender x = 0 \<and> mTxNonce x = 0 \<and> mLogIndex x = None \<and> 0 < mValue x \<and>
      sidesWatched m (mFrom x) (mTo x) (mDirection x) \<and> nativeLegOf m signer to v x"
    by (cases x) (auto simp: nativeLegs_def nativeLegOf_def direction_iff [symmetric] split: option.splits)
  have t: "x \<in> set (tokenLegs m h signer to data) \<longleftrightarrow>
      mTxHash x = h \<and> mTxSender x = 0 \<and> mTxNonce x = 0 \<and> mLogIndex x = None \<and> 0 < mValue x \<and>
      sidesWatched m (mFrom x) (mTo x) (mDirection x) \<and> tokenLegOf m to (decodeERC20Transfer signer data) x"
  proof (cases "fmlookup (mTokens m) to")
    case (Some t)
    show ?thesis
    proof (cases "decodeERC20Transfer signer data")
      case d: (Some p)
      obtain f r a where p: "p = (f, r, a)" by (cases p)
      then have "0 \<le> a" using decode_nonneg d by blast
      then show ?thesis using Some d p
        by (cases x) (auto simp: tokenLegs_def tokenLegOf_def direction_iff [symmetric] split: option.splits)
    qed (simp add: tokenLegs_def tokenLegOf_def Some)
  qed (simp add: tokenLegs_def tokenLegOf_def)
  show ?thesis unfolding matchLegs_def using n t by auto
qed

lemma matchLegs_length: "length (matchLegs m h signer to v data) \<le> 2"
  by (auto simp: matchLegs_def nativeLegs_def tokenLegs_def split: option.splits prod.splits)

lemma withTxInfo_iff:
  assumes "\<forall>x \<in> set ms. mTxSender x = 0 \<and> mTxNonce x = 0"
  shows "x \<in> set (withTxInfo ms sender nonce) \<longleftrightarrow>
    mTxSender x = sender \<and> mTxNonce x = nonce \<and> x\<lparr>mTxSender := 0, mTxNonce := 0\<rparr> \<in> set ms"
proof
  assume "x \<in> set (withTxInfo ms sender nonce)"
  then obtain y where "y \<in> set ms" "x = y\<lparr>mTxSender := sender, mTxNonce := nonce\<rparr>"
    by (auto simp: withTxInfo_def)
  moreover from this have "x\<lparr>mTxSender := 0, mTxNonce := 0\<rparr> = y" using assms by (cases y) auto
  ultimately show "mTxSender x = sender \<and> mTxNonce x = nonce \<and> x\<lparr>mTxSender := 0, mTxNonce := 0\<rparr> \<in> set ms"
    by simp
next
  assume a: "mTxSender x = sender \<and> mTxNonce x = nonce \<and> x\<lparr>mTxSender := 0, mTxNonce := 0\<rparr> \<in> set ms"
  moreover have "x = x\<lparr>mTxSender := 0, mTxNonce := 0\<rparr>\<lparr>mTxSender := sender, mTxNonce := nonce\<rparr>"
    using a by (cases x) auto
  ultimately show "x \<in> set (withTxInfo ms sender nonce)" 
    unfolding withTxInfo_def set_map using a by (intro image_eqI) auto
qed

text \<open>
  The calldata decoder inverts the ABI encoding: for every amount of 256 bits and every
  trailing bytes, \<open>transfer\<close> calldata gives the signer, the recipient and the amount, and
  \<open>transferFrom\<close> calldata the owner, the recipient and the amount; the owner argument, not the
  signer, is who the token moves from.
\<close>

theorem calldata_roundtrip:
  assumes "0 \<le> v" and "v < 2 ^ 256"
  shows "decodeERC20Transfer signer (encodeTransfer to v @ rest) = Some (signer, to, v) \<and>
    decodeERC20Transfer signer (encodeTransferFrom owner to v @ rest) = Some (owner, to, v)"
  using decode_transfer [OF assms] decode_transferFrom [OF assms] by blast

theorem calldata_roundtrip_witness:
  "decodeERC20Transfer 5 (encodeTransferFrom 6 7 1000 @ [1, 2]) = Some (6, 7, 1000)"
  using calldata_roundtrip [of 1000 5 7 "[1, 2]" 6] by simp

lemma MatchBlockTx_iff:
  "(x \<in> set (MatchBlockTx m tx) \<longleftrightarrow>
     mTxHash x = btHash tx \<and> mTxSender x = btFrom tx \<and> mTxNonce x = btNonce tx \<and> mLogIndex x = None \<and>
     0 < mValue x \<and> sidesWatched m (mFrom x) (mTo x) (mDirection x) \<and>
     (\<exists>to. btTo tx = Some to \<and>
       (nativeLegOf m (btFrom tx) to (case btValue tx of None \<Rightarrow> 0 | Some v \<Rightarrow> v) x \<or>
        tokenLegOf m to (decodeERC20Transfer (btFrom tx) (btInput tx)) x))) \<and>
   length (MatchBlockTx m tx) \<le> 2"
proof (cases "btTo tx")
  case (Some to)
  let ?v = "case btValue tx of None \<Rightarrow> 0 | Some v \<Rightarrow> v"
  have "\<forall>x \<in> set (matchLegs m (btHash tx) (btFrom tx) to ?v (btInput tx)). mTxSender x = 0 \<and> mTxNonce x = 0"
    by (simp add: matchLegs_iff)
  from withTxInfo_iff [OF this, of x "btFrom tx" "btNonce tx"] show ?thesis
    using Some matchLegs_length [of m "btHash tx" "btFrom tx" to ?v "btInput tx"]
    by (auto simp: MatchBlockTx_def Let_def matchLegs_iff nativeLegOf_def tokenLegOf_def withTxInfo_def)
qed (simp add: MatchBlockTx_def)

text \<open>
  C13: \<open>MatchBlockTx\<close> finds exactly the transfers a mined transaction commits to. A match is
  reported precisely when it has a positive amount, carries the hash, sender and nonce of the
  transaction and no log index, its direction says which sides are watched (at least one is), and
  it is either the native leg from the sender to the destination or, when the destination is a
  watched token, the leg its calldata decodes to. A contract creation reports nothing, and no
  transaction reports more than two.
\<close>

theorem MatchBlockTx_exact:
  "(x \<in> set (MatchBlockTx m tx) \<longleftrightarrow>
     mTxHash x = btHash tx \<and> mTxSender x = btFrom tx \<and> mTxNonce x = btNonce tx \<and> mLogIndex x = None \<and>
     0 < mValue x \<and> sidesWatched m (mFrom x) (mTo x) (mDirection x) \<and>
     (\<exists>to. btTo tx = Some to \<and>
       (nativeLegOf m (btFrom tx) to (case btValue tx of None \<Rightarrow> 0 | Some v \<Rightarrow> v) x \<or>
        tokenLegOf m to (decodeERC20Transfer (btFrom tx) (btInput tx)) x))) \<and>
   length (MatchBlockTx m tx) \<le> 2"
  by (rule MatchBlockTx_iff)

text \<open>
  C14: a log is matched exactly when a watched token contract emitted a three-topic \<open>Transfer\<close> with
  a positive amount and a watched side, and the match carries the addresses of the topics, the
  amount of the data, the token and the position of the log.
\<close>

theorem MatchLog_exact:
  "MatchLog m lg = Some x \<longleftrightarrow>
     length (lgTopics lg) = 3 \<and> lgTopics lg ! 0 = transferTopic \<and>
     mTxHash x = lgTxHash lg \<and> mLogIndex x = Some (lgIndex lg) \<and> mTxSender x = 0 \<and> mTxNonce x = 0 \<and>
     0 < mValue x \<and> sidesWatched m (mFrom x) (mTo x) (mDirection x) \<and>
     tokenLegOf m (lgAddress lg)
       (Some (ucast (lgTopics lg ! 1), ucast (lgTopics lg ! 2), SetBytes (lgData lg))) x"
  using SetBytes_nonneg [of "lgData lg"]
  by (cases x) (auto simp: MatchLog_def tokenLegOf_def Let_def direction_iff [symmetric]
    order.strict_iff_order split: option.splits)

text \<open>
  A pending transaction and the same transaction in a block give the same matches, when the
  sender recovered from the signature is the one the node reports.
\<close>

theorem MatchTx_as_mined:
  assumes "Sender tx = Inr from"
  shows "MatchTx Sender m tx = MatchBlockTx m \<lparr>btHash = etHash tx, btFrom = from, btTo = etTo tx,
    btValue = Some (etValue tx), btInput = etData tx, btNonce = etNonce tx\<rparr>"
  using assms by (simp add: MatchTx_def MatchBlockTx_def Let_def split: option.splits)

definition demoMatcher :: matcher where
  "demoMatcher = NewMatcher (NewWatchedSet [7, 8] (fmupd 7 ''hot'' (fmupd 8 ''cold'' fmempty)))
     [\<lparr>ptAddress = 99, ptSymbol = ''TEST'', ptDecimals = 6\<rparr>] ''''"

definition demoTx :: ethTx where
  "demoTx = \<lparr>etHash = 1, etTo = Some 8, etValue = 3, etData = [], etNonce = 0\<rparr>"

theorem MatchTx_as_mined_witness:
  "MatchTx (\<lambda>tx. Inr 7) demoMatcher demoTx = MatchBlockTx demoMatcher
     \<lparr>btHash = 1, btFrom = 7, btTo = Some 8, btValue = Some 3, btInput = [], btNonce = 0\<rparr> \<and>
   map mDirection (MatchTx (\<lambda>tx. Inr 7) demoMatcher demoTx) = [DirectionSelf]"
proof -
  have "map mDirection (MatchTx (\<lambda>tx. Inr 7) demoMatcher demoTx) = [DirectionSelf]"
    by code_simp
  then show ?thesis
    using MatchTx_as_mined [of "\<lambda>tx. Inr 7" demoTx 7 demoMatcher] by (simp add: demoTx_def)
qed

text \<open>
  C15: what the calldata promised is what the log delivers: when a transaction's calldata gave a
  token leg and the token contract emitted the standard \<open>Transfer\<close> log for those addresses and
  that amount, the log gives the same leg, now with its position.
\<close>

theorem calldata_leg_is_log_leg:
  assumes "x \<in> set (MatchBlockTx m tx)" and "mToken x = Some contract" and "mValue x < 2 ^ 256"
  shows "MatchLog m \<lparr>lgAddress = contract, lgTopics = [transferTopic, ucast (mFrom x), ucast (mTo x)],
      lgData = bigEndian 32 (mValue x), lgTxHash = mTxHash x, lgIndex = i, lgBlockNumber = n,
      lgBlockHash = b, lgRemoved = False\<rparr>
    = Some (x\<lparr>mLogIndex := Some i, mTxSender := 0, mTxNonce := 0\<rparr>)"
proof -
  obtain to where to: "0 < mValue x" "sidesWatched m (mFrom x) (mTo x) (mDirection x)"
      "tokenLegOf m to (decodeERC20Transfer (btFrom tx) (btInput tx)) x"
    using assms(1,2) MatchBlockTx_iff [of x m tx] by (auto simp: nativeLegOf_def)
  have u: "ucast (ucast (a :: address) :: hash) = a" for a by transfer simp
  have "SetBytes (bigEndian 32 (mValue x)) = mValue x"
    using to(1) assms(3) by (intro SetBytes_bigEndian) auto
  then show ?thesis
    using to assms(2) by (cases x)
      (auto simp: MatchLog_def Let_def u tokenLegOf_def direction_iff [symmetric])
qed

definition demoCall :: blockTx where
  "demoCall = \<lparr>btHash = 5, btFrom = 7, btTo = Some 99, btValue = None, btInput = encodeTransfer 8 1000, btNonce = 3\<rparr>"

definition demoTokenLeg :: transferMatch where
  "demoTokenLeg = \<lparr>mTxHash = 5, mFrom = 7, mTo = 8, mDirection = DirectionSelf, mAsset = ''TEST'', mToken = Some 99,
     mDecimals = 6, mValue = 1000, mLogIndex = None, mTxSender = 7, mTxNonce = 3\<rparr>"

lemma demoTokenLeg_matched: "demoTokenLeg \<in> set (MatchBlockTx demoMatcher demoCall)"
proof -
  have "sidesWatched demoMatcher 7 8 DirectionSelf" by code_simp
  moreover have "fmlookup (mTokens demoMatcher) 99 = Some \<lparr>ptAddress = 99, ptSymbol = ''TEST'', ptDecimals = 6\<rparr>"
    by (simp add: demoMatcher_def NewMatcher_def)
  moreover have "decodeERC20Transfer 7 (encodeTransfer 8 1000) = Some (7, 8, 1000)"
    using decode_transfer [of 1000 7 8 "[]"] by simp
  ultimately show ?thesis
    by (simp add: MatchBlockTx_iff demoTokenLeg_def demoCall_def tokenLegOf_def)
qed

theorem calldata_leg_is_log_leg_witness:
  "MatchLog demoMatcher \<lparr>lgAddress = 99, lgTopics = [transferTopic, 7, 8], lgData = bigEndian 32 1000, lgTxHash = 5,
     lgIndex = 2, lgBlockNumber = 10, lgBlockHash = 6, lgRemoved = False\<rparr>
   = Some (demoTokenLeg\<lparr>mLogIndex := Some 2, mTxSender := 0, mTxNonce := 0\<rparr>)"
  using calldata_leg_is_log_leg [OF demoTokenLeg_matched, of 99 2 10 6] by (simp add: demoTokenLeg_def)

end
