(* ===== verification/Records.thy ===== *)
theory Records
  imports Matcher
begin

text \<open>
  The records components exchange: the transfer types of internal/storage/storage.go, the
  \<open>Confirmations\<close> threshold of internal/config/config.go, and the textual form of hashes and
  addresses, which is go-ethereum's and hence a parameter (\<open>hexcodec\<close>).
\<close>

record legRow =
  lrFrom :: string
  lrTo :: string
  lrDirection :: string
  lrAsset :: string
  lrTokenAddress :: string
  lrDecimals :: u8
  lrValueRaw :: string
  lrValue :: string
  lrLogIndex :: "u64 option"
  lrTxSender :: string
  lrTxNonce :: u64

record storedTx =
  stHash :: string
  stStatus :: string
  stBlockHash :: string
  stBlockNumber :: u64
  stFirstSeen :: time
  stFirstSeenBlock :: u64
  stMinedAt :: time
  stPendingSince :: time
  stSender :: string
  stNonce :: u64
  stHasNonce :: bool
  stAuthoritative :: bool
  stTransfers :: "legRow list"
  stReplacedBy :: string

record storedHeader =
  shNumber :: u64
  shHash :: string
  shParentHash :: string

record indexerState =
  isLastProcessed :: u64
  isRecentHeaders :: "storedHeader list"

record confirmations =
  cfDepth :: u64
  cfTag :: string

definition RingDepth :: "confirmations \<Rightarrow> u64" where
  "RingDepth c = (if cfTag c \<noteq> '''' then 128 else cfDepth c)"

text \<open>
  \<open>Hash.Hex\<close>, \<open>HexToHash\<close>, \<open>Address.Hex\<close> and \<open>HexToAddress\<close> of go-ethereum. What the program
  relies on is that parsing inverts printing and that the empty string reads as the zero value.
\<close>

record hexcodec =
  hashHex :: "hash \<Rightarrow> string"
  HexToHash :: "string \<Rightarrow> hash"
  addrHex :: "address \<Rightarrow> string"
  HexToAddress :: "string \<Rightarrow> address"

definition hexOK :: "hexcodec \<Rightarrow> bool" where
  "hexOK c \<longleftrightarrow> (\<forall>h. HexToHash c (hashHex c h) = h) \<and> HexToHash c '''' = 0 \<and>
     (\<forall>a. HexToAddress c (addrHex c a) = a) \<and> (\<forall>a. addrHex c a \<noteq> '''')"

lemma hexOK_inj:
  assumes "hexOK c"
  shows "hashHex c h = hashHex c h' \<longleftrightarrow> h = h'" and "addrHex c a = addrHex c a' \<longleftrightarrow> a = a'"
  using assms unfolding hexOK_def by metis+

lemma hexOK_simps:
  assumes "hexOK c"
  shows "HexToHash c (hashHex c h) = h" and "HexToHash c '''' = 0" and "HexToAddress c (addrHex c a) = a"
    and "addrHex c a \<noteq> ''''"
  using assms unfolding hexOK_def by metis+

text \<open>A concrete codec for the witnesses: plain decimal numbers.\<close>

definition decimalCodec :: hexcodec where
  "decimalCodec = \<lparr>hashHex = (\<lambda>h. natString (unat h)), HexToHash = (\<lambda>s. of_nat (natOf s)),
     addrHex = (\<lambda>a. natString (unat a)), HexToAddress = (\<lambda>s. of_nat (natOf s))\<rparr>"

lemma decimalCodec_OK: "hexOK decimalCodec"
  by (simp add: hexOK_def decimalCodec_def)

end
