(* ===== verification/Tracker.thy ===== *)
theory Tracker
  imports Records
begin

text \<open>
  internal/indexer/tracker.go: the lifecycle state machine. The tracker's maps are finite maps,
  a \<open>*trackedTx\<close> is owned by the one map entry that holds it and so is a value of the map, and a
  slice is a list. The injected clock is \<open>clk\<close>; each call of \<open>t.now()\<close> reads it at the next tick.
  Every operation returns the events the Go code returns and the new tracker.
\<close>

section \<open>State\<close>

datatype txState = statePending | stateMined

record trackedTx =
  tHash :: hash
  tTransfers :: "transferMatch list"
  tAuthoritative :: bool
  tState :: txState
  tBlock :: hash
  tBlockNum :: u64
  tFirstSeen :: time
  tFirstSeenBlock :: u64
  tMinedAt :: time
  tPendingSince :: time
  tSender :: address
  tNonce :: u64
  tHasNonce :: bool

type_synonym nonceKey = "address \<times> u64"

definition tombstoneCap :: nat where
  "tombstoneCap = 8192"

record tombstone =
  tsTyp :: string
  tsSeq :: u64

type_synonym tombstoneRef = "hash \<times> u64"

record tracker =
  trTxs :: "(hash, trackedTx) fmap"
  trByNonce :: "(nonceKey, hash list) fmap"
  trConfirmations :: confirmations
  trTimeout :: duration
  trClock :: "nat \<Rightarrow> time"
  trTick :: nat
  trTombstones :: "(hash, tombstone) fmap"
  trFIFO :: "tombstoneRef list"
  trSeq :: u64

definition NewTracker :: "confirmations \<Rightarrow> duration \<Rightarrow> (nat \<Rightarrow> time) \<Rightarrow> tracker" where
  "NewTracker conf timeout clk =
     \<lparr>trTxs = fmempty, trByNonce = fmempty, trConfirmations = conf, trTimeout = timeout,
      trClock = clk, trTick = 0, trTombstones = fmempty, trFIFO = [], trSeq = 0\<rparr>"

definition nowOf :: "tracker \<Rightarrow> time \<times> tracker" where
  "nowOf t = (trClock t (trTick t), t\<lparr>trTick := Suc (trTick t)\<rparr>)"

section \<open>Tombstones\<close>

definition liveRef :: "(hash, tombstone) fmap \<Rightarrow> tombstoneRef \<Rightarrow> bool" where
  "liveRef T r \<longleftrightarrow> (case fmlookup T (fst r) of None \<Rightarrow> False | Some ts \<Rightarrow> tsSeq ts = snd r)"

fun evictLoop :: "tombstoneRef list \<Rightarrow> (hash, tombstone) fmap \<Rightarrow> tombstoneRef list \<times> (hash, tombstone) fmap" where
  "evictLoop [] T = ([], T)"
| "evictLoop (r # rs) T =
     (if tombstoneCap < goLen T
      then evictLoop rs (if liveRef T r then fmdrop (fst r) T else T)
      else (r # rs, T))"

definition bury :: "hash \<Rightarrow> string \<Rightarrow> tracker \<Rightarrow> tracker" where
  "bury h typ t =
     (let s = trSeq t + 1;
          T = fmupd h \<lparr>tsTyp = typ, tsSeq = s\<rparr> (trTombstones t);
          (F, T') = evictLoop (trFIFO t @ [(h, s)]) T;
          F' = (if 2 * tombstoneCap < length F then filter (liveRef T') F else F)
      in t\<lparr>trSeq := s, trTombstones := T', trFIFO := F'\<rparr>)"

section \<open>The nonce index\<close>

definition keyOf :: "trackedTx \<Rightarrow> nonceKey" where
  "keyOf tx = (tSender tx, tNonce tx)"

definition indexNonce :: "trackedTx \<Rightarrow> tracker \<Rightarrow> tracker" where
  "indexNonce tx t =
     (if \<not> tHasNonce tx then t
      else t\<lparr>trByNonce := fmupd (keyOf tx) (getSlice (trByNonce t) (keyOf tx) @ [tHash tx]) (trByNonce t)\<rparr>)"

definition unindexNonce :: "trackedTx \<Rightarrow> tracker \<Rightarrow> tracker" where
  "unindexNonce tx t =
     (if \<not> tHasNonce tx then t
      else let hashes = remove1 (tHash tx) (getSlice (trByNonce t) (keyOf tx)) in
           if hashes = [] then t\<lparr>trByNonce := fmdrop (keyOf tx) (trByNonce t)\<rparr>
           else t\<lparr>trByNonce := fmupd (keyOf tx) hashes (trByNonce t)\<rparr>)"

section \<open>Events\<close>

definition legEvent :: "hexcodec \<Rightarrow> trackedTx \<Rightarrow> string \<Rightarrow> u64 \<Rightarrow> transferMatch \<Rightarrow> event" where
  "legEvent c tx typ confs m = emptyEvent\<lparr>
     evType := typ,
     evDirection := mDirection m,
     evFirstSeen := formatRFC3339 (tFirstSeen tx),
     evFirstSeenBlock := tFirstSeenBlock tx,
     evTxHash := hashHex c (mTxHash m),
     evLogIndex := mLogIndex m,
     evFrom := addrHex c (mFrom m),
     evTo := addrHex c (mTo m),
     evAsset := mAsset m,
     evDecimals := mDecimals m,
     evValueRaw := intString (mValue m),
     evValue := FormatUnits (mValue m) (mDecimals m),
     evConfirmations := confs,
     evTokenAddress := (case mToken m of None \<Rightarrow> '''' | Some a \<Rightarrow> addrHex c a),
     evMinedAt := (if isZero (tMinedAt tx) then '''' else formatRFC3339 (tMinedAt tx)),
     evBlockNumber := (if tState tx = stateMined then tBlockNum tx else 0),
     evBlockHash := (if tState tx = stateMined then hashHex c (tBlock tx) else '''')\<rparr>"

definition txEvents :: "hexcodec \<Rightarrow> trackedTx \<Rightarrow> string \<Rightarrow> u64 \<Rightarrow> event list" where
  "txEvents c tx typ confs = map (legEvent c tx typ confs) (tTransfers tx)"

section \<open>Operations\<close>

definition pendingTx :: "transferMatch list \<Rightarrow> transferMatch \<Rightarrow> time \<Rightarrow> trackedTx" where
  "pendingTx ms m now = \<lparr>tHash = mTxHash m, tTransfers = ms, tAuthoritative = False, tState = statePending,
     tBlock = 0, tBlockNum = 0, tFirstSeen = now, tFirstSeenBlock = 0, tMinedAt = 0, tPendingSince = now,
     tSender = mTxSender m, tNonce = mTxNonce m, tHasNonce = True\<rparr>"

definition OnPending :: "hexcodec \<Rightarrow> transferMatch list \<Rightarrow> tracker \<Rightarrow> event list \<times> tracker" where
  "OnPending c ms t =
     (case ms of
        [] \<Rightarrow> ([], t)
      | m # _ \<Rightarrow>
          (let h = mTxHash m in
           if fmlookup (trTxs t) h \<noteq> None then ([], t)
           else if (case fmlookup (trTombstones t) h of None \<Rightarrow> False | Some ts \<Rightarrow> tsTyp ts \<noteq> TypeDropped) then ([], t)
           else
             let (now, t1) = nowOf t;
                 tx = pendingTx ms m now;
                 t2 = indexNonce tx (t1\<lparr>trTxs := fmupd h tx (trTxs t1)\<rparr>)
             in (txEvents c tx TypePending 0, t2)))"

definition confirmedAt :: "tracker \<Rightarrow> u64 \<Rightarrow> u64 \<Rightarrow> u64 \<Rightarrow> bool" where
  "confirmedAt t blockNum confs finalized =
     (if cfTag (trConfirmations t) \<noteq> '''' then 0 < finalized \<and> blockNum \<le> finalized
      else cfDepth (trConfirmations t) \<le> confs)"

definition dropTx :: "hash \<Rightarrow> tracker \<Rightarrow> tracker" where
  "dropTx h t = t\<lparr>trTxs := fmdrop h (trTxs t)\<rparr>"

definition putTx :: "hash \<Rightarrow> trackedTx \<Rightarrow> tracker \<Rightarrow> tracker" where
  "putTx h tx t = t\<lparr>trTxs := fmupd h tx (trTxs t)\<rparr>"

text \<open>\<open>OnMined\<close> from the point where the record is at hand: \<open>tx\<close> is the entry of \<open>h\<close> in \<open>t\<close>.\<close>

definition mineTx :: "hexcodec \<Rightarrow> hash \<Rightarrow> hash \<Rightarrow> u64 \<Rightarrow> transferMatch list \<Rightarrow> bool \<Rightarrow> u64 \<Rightarrow> u64 \<Rightarrow>
    trackedTx \<Rightarrow> tracker \<Rightarrow> event list \<times> tracker" where
  "mineTx c h blockHash blockNum transfers failed confs finalized tx t =
     (let t1 = (if tState tx = statePending then unindexNonce tx t else t);
          (tx1, t2) = (if tFirstSeenBlock tx = 0
                       then (case nowOf t1 of (now, t') \<Rightarrow> (tx\<lparr>tFirstSeenBlock := blockNum, tMinedAt := now\<rparr>, t'))
                       else (tx, t1));
          tx2 = (if transfers \<noteq> [] then tx1\<lparr>tTransfers := transfers, tAuthoritative := True\<rparr> else tx1);
          tx3 = tx2\<lparr>tState := stateMined, tBlock := blockHash, tBlockNum := blockNum\<rparr>;
          t3 = putTx h tx3 t2;
          n = (if confs = 0 then 1 else confs)
      in if failed then (txEvents c tx3 TypeFailed n, bury h TypeFailed (dropTx h t3))
         else if \<not> tAuthoritative tx3 then ([], bury h TypeFailed (dropTx h t3))
         else if confirmedAt t3 blockNum n finalized
              then (txEvents c tx3 TypeConfirmed n, bury h TypeConfirmed (dropTx h t3))
         else (txEvents c tx3 TypeMined n, t3))"

definition freshTx :: "hash \<Rightarrow> time \<Rightarrow> trackedTx" where
  "freshTx h now = \<lparr>tHash = h, tTransfers = [], tAuthoritative = False, tState = statePending, tBlock = 0,
     tBlockNum = 0, tFirstSeen = now, tFirstSeenBlock = 0, tMinedAt = 0, tPendingSince = now,
     tSender = 0, tNonce = 0, tHasNonce = False\<rparr>"

definition OnMined :: "hexcodec \<Rightarrow> hash \<Rightarrow> hash \<Rightarrow> u64 \<Rightarrow> transferMatch list \<Rightarrow> bool \<Rightarrow> u64 \<Rightarrow> u64 \<Rightarrow>
    tracker \<Rightarrow> event list \<times> tracker" where
  "OnMined c h blockHash blockNum transfers failed confs finalized t =
     (if (case fmlookup (trTombstones t) h of None \<Rightarrow> False | Some ts \<Rightarrow> tsTyp ts = TypeConfirmed) then ([], t)
      else
        let t1 = t\<lparr>trTombstones := fmdrop h (trTombstones t)\<rparr> in
        case fmlookup (trTxs t1) h of
          None \<Rightarrow>
            (case nowOf t1 of (now, t2) \<Rightarrow>
               mineTx c h blockHash blockNum transfers failed confs finalized (freshTx h now)
                 (putTx h (freshTx h now) t2))
        | Some tx \<Rightarrow>
            if tState tx = stateMined \<and> tBlock tx = blockHash then ([], t1)
            else mineTx c h blockHash blockNum transfers failed confs finalized tx t1)"

definition MempoolWait :: "hash \<Rightarrow> tracker \<Rightarrow> duration option" where
  "MempoolWait h t =
     (case fmlookup (trTxs t) h of
        None \<Rightarrow> None
      | Some tx \<Rightarrow> if \<not> tHasNonce tx \<or> isZero (tMinedAt tx) then None else Some (tMinedAt tx - tFirstSeen tx))"

text \<open>The scan ranges over the map in the order \<open>ord\<close>.\<close>

definition depthAt :: "u64 \<Rightarrow> trackedTx \<Rightarrow> u64" where
  "depthAt head tx = (if tBlockNum tx \<le> head then head - tBlockNum tx + 1 else 0)"

definition OnHead :: "hash list \<Rightarrow> u64 \<Rightarrow> u64 \<Rightarrow> tracker \<Rightarrow> (hash list \<times> hash list) \<times> tracker" where
  "OnHead ord head finalized t =
     (let (now, t1) = nowOf t;
          cutoff = now - trTimeout t;
          confirm = filter (\<lambda>h. case fmlookup (trTxs t) h of
              Some tx \<Rightarrow> tState tx = stateMined \<and> confirmedAt t (tBlockNum tx) (depthAt head tx) finalized
            | None \<Rightarrow> False) ord;
          stale = filter (\<lambda>h. case fmlookup (trTxs t) h of
              Some tx \<Rightarrow> tState tx = statePending \<and> tPendingSince tx < cutoff
            | None \<Rightarrow> False) ord
      in ((confirm, stale), t1))"

definition Confirm :: "hexcodec \<Rightarrow> hash \<Rightarrow> u64 \<Rightarrow> tracker \<Rightarrow> event list \<times> tracker" where
  "Confirm c h head t =
     (case fmlookup (trTxs t) h of
        None \<Rightarrow> ([], t)
      | Some tx \<Rightarrow>
          if tState tx \<noteq> stateMined \<or> head < tBlockNum tx then ([], t)
          else (txEvents c tx TypeConfirmed (head - tBlockNum tx + 1), bury h TypeConfirmed (dropTx h t)))"

definition IsPending :: "hash \<Rightarrow> tracker \<Rightarrow> bool" where
  "IsPending h t = (case fmlookup (trTxs t) h of None \<Rightarrow> False | Some tx \<Rightarrow> tState tx = statePending)"

definition NativeLegs :: "hash \<Rightarrow> tracker \<Rightarrow> transferMatch list" where
  "NativeLegs h t =
     (case fmlookup (trTxs t) h of None \<Rightarrow> [] | Some tx \<Rightarrow> filter (\<lambda>m. mToken m = None) (tTransfers tx))"

definition MinedBlock :: "hash \<Rightarrow> tracker \<Rightarrow> (hash \<times> u64) option" where
  "MinedBlock h t =
     (case fmlookup (trTxs t) h of
        None \<Rightarrow> None
      | Some tx \<Rightarrow> if tState tx \<noteq> stateMined then None else Some (tBlock tx, tBlockNum tx))"

definition OnDropStale :: "hexcodec \<Rightarrow> hash \<Rightarrow> bool \<Rightarrow> tracker \<Rightarrow> event list \<times> tracker" where
  "OnDropStale c h stillKnown t =
     (case fmlookup (trTxs t) h of
        None \<Rightarrow> ([], t)
      | Some tx \<Rightarrow>
          if tState tx \<noteq> statePending then ([], t)
          else if stillKnown then
            (case nowOf t of (now, t1) \<Rightarrow> ([], putTx h (tx\<lparr>tPendingSince := now\<rparr>) t1))
          else (txEvents c tx TypeDropped 0, bury h TypeDropped (dropTx h (unindexNonce tx t))))"

definition replaceOne :: "hexcodec \<Rightarrow> hash \<Rightarrow> hash \<Rightarrow> event list \<times> tracker \<Rightarrow> event list \<times> tracker" where
  "replaceOne c byHash h r =
     (case r of (evs, t) \<Rightarrow>
        if h = byHash then (evs, t)
        else case fmlookup (trTxs t) h of
          None \<Rightarrow> (evs, t)
        | Some tx \<Rightarrow>
            if tState tx \<noteq> statePending then (evs, t)
            else (evs @ map (\<lambda>e. e\<lparr>evReplacedBy := hashHex c byHash\<rparr>) (txEvents c tx TypeReplaced 0),
                  bury h TypeReplaced (dropTx h (unindexNonce tx t))))"

definition OnNonceUsed :: "hexcodec \<Rightarrow> address \<Rightarrow> u64 \<Rightarrow> hash \<Rightarrow> tracker \<Rightarrow> event list \<times> tracker" where
  "OnNonceUsed c sender nonce byHash t =
     fold (replaceOne c byHash) (getSlice (trByNonce t) (sender, nonce)) ([], t)"

definition demoteTx :: "hexcodec \<Rightarrow> hash \<Rightarrow> trackedTx \<Rightarrow> tracker \<Rightarrow> event list \<times> tracker" where
  "demoteTx c h tx t =
     (case nowOf t of (now, t1) \<Rightarrow>
        (let tx' = tx\<lparr>tState := statePending, tBlock := 0, tBlockNum := 0, tPendingSince := now\<rparr>
         in (txEvents c tx TypeReorged 0, indexNonce tx' (putTx h tx' t1))))"

definition reorgOne :: "hexcodec \<Rightarrow> u64 \<Rightarrow> hash \<Rightarrow> event list \<times> tracker \<Rightarrow> event list \<times> tracker" where
  "reorgOne c ancestor h r =
     (case r of (evs, t) \<Rightarrow>
        (case fmlookup (trTxs t) h of
           None \<Rightarrow> (evs, t)
         | Some tx \<Rightarrow>
             if tState tx \<noteq> stateMined \<or> tBlockNum tx \<le> ancestor then (evs, t)
             else (case demoteTx c h tx t of (es, t') \<Rightarrow> (evs @ es, t'))))"

definition OnReorg :: "hexcodec \<Rightarrow> hash list \<Rightarrow> u64 \<Rightarrow> tracker \<Rightarrow> event list \<times> tracker" where
  "OnReorg c ord ancestor t = fold (reorgOne c ancestor) ord ([], t)"

definition Demote :: "hexcodec \<Rightarrow> hash \<Rightarrow> tracker \<Rightarrow> event list \<times> tracker" where
  "Demote c h t =
     (case fmlookup (trTxs t) h of
        None \<Rightarrow> ([], t)
      | Some tx \<Rightarrow> if tState tx \<noteq> stateMined then ([], t) else demoteTx c h tx t)"

definition trackerLen :: "tracker \<Rightarrow> nat" where
  "trackerLen t = goLen (trTxs t)"

section \<open>Persistence\<close>

definition exportLeg :: "hexcodec \<Rightarrow> transferMatch \<Rightarrow> legRow" where
  "exportLeg c m =
     \<lparr>lrFrom = addrHex c (mFrom m), lrTo = addrHex c (mTo m), lrDirection = mDirection m, lrAsset = mAsset m,
      lrTokenAddress = (case mToken m of None \<Rightarrow> '''' | Some a \<Rightarrow> addrHex c a), lrDecimals = mDecimals m,
      lrValueRaw = intString (mValue m), lrValue = FormatUnits (mValue m) (mDecimals m),
      lrLogIndex = mLogIndex m, lrTxSender = addrHex c (mTxSender m), lrTxNonce = mTxNonce m\<rparr>"

definition exportTracked :: "hexcodec \<Rightarrow> trackedTx \<Rightarrow> storedTx" where
  "exportTracked c tx =
     \<lparr>stHash = hashHex c (tHash tx),
      stStatus = (if tState tx = stateMined then ''mined'' else ''pending''),
      stBlockHash = (if tState tx = statePending then '''' else hashHex c (tBlock tx)),
      stBlockNumber = tBlockNum tx, stFirstSeen = tFirstSeen tx, stFirstSeenBlock = tFirstSeenBlock tx,
      stMinedAt = tMinedAt tx, stPendingSince = tPendingSince tx, stSender = addrHex c (tSender tx),
      stNonce = tNonce tx, stHasNonce = tHasNonce tx, stAuthoritative = tAuthoritative tx,
      stTransfers = map (exportLeg c) (tTransfers tx), stReplacedBy = ''''\<rparr>"

definition ExportTx :: "hexcodec \<Rightarrow> hash \<Rightarrow> tracker \<Rightarrow> storedTx option" where
  "ExportTx c h t = (case fmlookup (trTxs t) h of None \<Rightarrow> None | Some tx \<Rightarrow> Some (exportTracked c tx))"

text \<open>\<open>big.Int.SetString(s, 10)\<close>: an optional sign and at least one digit.\<close>

definition SetString10 :: "string \<Rightarrow> int option" where
  "SetString10 s =
     (let neg = take 1 s = ''-''; body = (if neg \<or> take 1 s = ''+'' then drop 1 s else s) in
      if body \<noteq> [] \<and> list_all isDigit body
      then Some (if neg then - int (natOf body) else int (natOf body)) else None)"

fun importLegs :: "hexcodec \<Rightarrow> hash \<Rightarrow> string \<Rightarrow> legRow list \<Rightarrow> goerr + transferMatch list" where
  "importLegs c h hx [] = Inr []"
| "importLegs c h hx (leg # legs) =
     (case SetString10 (lrValueRaw leg) of
        None \<Rightarrow> Inl (ErrText (''tx '' @ hx @ '': invalid value '' @ lrValueRaw leg))
      | Some v \<Rightarrow>
          (case importLegs c h hx legs of
             Inl e \<Rightarrow> Inl e
           | Inr ms \<Rightarrow>
               Inr (\<lparr>mTxHash = h, mFrom = HexToAddress c (lrFrom leg), mTo = HexToAddress c (lrTo leg),
                     mDirection = lrDirection leg, mAsset = lrAsset leg,
                     mToken = (if lrTokenAddress leg \<noteq> '''' then Some (HexToAddress c (lrTokenAddress leg)) else None),
                     mDecimals = lrDecimals leg, mValue = v, mLogIndex = lrLogIndex leg,
                     mTxSender = HexToAddress c (lrTxSender leg), mTxNonce = lrTxNonce leg\<rparr> # ms)))"

definition importTracked :: "hexcodec \<Rightarrow> storedTx \<Rightarrow> goerr + trackedTx" where
  "importTracked c stx =
     (if stStatus stx \<noteq> ''pending'' \<and> stStatus stx \<noteq> ''mined''
      then Inl (ErrText (''tx '' @ stHash stx @ '': not an active status: '' @ stStatus stx))
      else case importLegs c (HexToHash c (stHash stx)) (stHash stx) (stTransfers stx) of
        Inl e \<Rightarrow> Inl e
      | Inr ms \<Rightarrow>
          Inr \<lparr>tHash = HexToHash c (stHash stx), tTransfers = ms, tAuthoritative = stAuthoritative stx,
               tState = (if stStatus stx = ''mined'' then stateMined else statePending),
               tBlock = HexToHash c (stBlockHash stx), tBlockNum = stBlockNumber stx,
               tFirstSeen = stFirstSeen stx, tFirstSeenBlock = stFirstSeenBlock stx, tMinedAt = stMinedAt stx,
               tPendingSince = stPendingSince stx, tSender = HexToAddress c (stSender stx),
               tNonce = stNonce stx, tHasNonce = stHasNonce stx\<rparr>)"

definition importOne :: "hexcodec \<Rightarrow> storedTx \<Rightarrow> goerr option \<times> tracker \<Rightarrow> goerr option \<times> tracker" where
  "importOne c stx r =
     (case r of (firstErr, t) \<Rightarrow>
        (case importTracked c stx of
           Inl e \<Rightarrow> (if firstErr = None then Some e else firstErr, t)
         | Inr tx \<Rightarrow>
             (firstErr,
              (let t1 = putTx (tHash tx) tx t in if tState tx = statePending then indexNonce tx t1 else t1))))"

definition Import :: "hexcodec \<Rightarrow> storedTx list \<Rightarrow> tracker \<Rightarrow> goerr option \<times> tracker" where
  "Import c txs t = fold (importOne c) txs (None, t)"

end
