(* ===== verification/TrackerInv.thy ===== *)
theory TrackerInv
  imports Tracker
begin

text \<open>
  The invariant of the tracker and its preservation by every operation: every entry of the
  transaction map is keyed by its own hash, the nonce index lists exactly the pending
  transactions that hold a slot, nothing both lives and is buried (but for a dropped transaction
  that came back), and a mined transaction has authoritative legs.
\<close>

section \<open>The slot index as an interface\<close>

text \<open>
  What the tracker needs of its nonce index: adding appends to one slot, removing takes one hash
  out of one slot, and no slot is left empty behind.
\<close>

locale slot_index =
  fixes add rem :: "'k \<Rightarrow> 'h \<Rightarrow> 's \<Rightarrow> 's"
    and slot :: "'s \<Rightarrow> 'k \<Rightarrow> 'h list"
    and tidy :: "'s \<Rightarrow> bool"
  assumes slot_add: "slot (add k h s) k' = (if k' = k then slot s k @ [h] else slot s k')"
    and slot_rem: "slot (rem k h s) k' = (if k' = k then remove1 h (slot s k) else slot s k')"
    and tidy_add: "tidy s \<Longrightarrow> tidy (add k h s)"
    and tidy_rem: "tidy s \<Longrightarrow> tidy (rem k h s)"
begin

definition indexes :: "'s \<Rightarrow> ('h \<Rightarrow> 'k option) \<Rightarrow> bool" where
  "indexes s R \<longleftrightarrow> tidy s \<and> (\<forall>k. distinct (slot s k) \<and> set (slot s k) = {h. R h = Some k})"

lemma indexes_add:
  assumes "indexes s R" and "R h = None"
  shows "indexes (add k h s) (R(h := Some k))"
  using assms unfolding indexes_def by (auto simp: slot_add intro: tidy_add)

lemma indexes_rem:
  assumes "indexes s R" and "R h = Some k"
  shows "indexes (rem k h s) (R(h := None))"
  using assms unfolding indexes_def by (auto simp: slot_rem intro: tidy_rem)

lemma indexes_slot: "indexes s R \<Longrightarrow> h \<in> set (slot s k) \<longleftrightarrow> R h = Some k"
  unfolding indexes_def by auto

lemma indexes_cong: "indexes s R \<Longrightarrow> (\<And>h. R h = R' h) \<Longrightarrow> indexes s R'"
  by (metis ext)

end

definition slotAdd :: "'k \<Rightarrow> 'h \<Rightarrow> ('k, 'h list) fmap \<Rightarrow> ('k, 'h list) fmap" where
  "slotAdd k h m = fmupd k (getSlice m k @ [h]) m"

definition slotRem :: "'k \<Rightarrow> 'h \<Rightarrow> ('k, 'h list) fmap \<Rightarrow> ('k, 'h list) fmap" where
  "slotRem k h m = (let hs = remove1 h (getSlice m k) in if hs = [] then fmdrop k m else fmupd k hs m)"

definition slotTidy :: "('k, 'h list) fmap \<Rightarrow> bool" where
  "slotTidy m \<longleftrightarrow> (\<forall>k. fmlookup m k \<noteq> Some [])"

lemma indexNonce_slot: "indexNonce tx t =
    (if tHasNonce tx then t\<lparr>trByNonce := slotAdd (keyOf tx) (tHash tx) (trByNonce t)\<rparr> else t)"
  by (simp add: indexNonce_def slotAdd_def)

lemma unindexNonce_slot: "unindexNonce tx t =
    (if tHasNonce tx then t\<lparr>trByNonce := slotRem (keyOf tx) (tHash tx) (trByNonce t)\<rparr> else t)"
  by (simp add: unindexNonce_def slotRem_def Let_def)

interpretation nidx: slot_index slotAdd slotRem getSlice slotTidy
  by unfold_locales (auto simp: slotAdd_def slotRem_def slotTidy_def getSlice_def Let_def)

section \<open>What an operation leaves alone\<close>

named_theorems tracker_simps \<open>fields of the tracker under its helpers\<close>

lemma bury_fields [tracker_simps]:
  "trTxs (bury h typ t) = trTxs t" "trByNonce (bury h typ t) = trByNonce t"
  "trConfirmations (bury h typ t) = trConfirmations t" "trTimeout (bury h typ t) = trTimeout t"
  "trClock (bury h typ t) = trClock t" "trTick (bury h typ t) = trTick t"
  by (simp_all add: bury_def Let_def split: prod.splits)

lemma index_fields [tracker_simps]:
  "trTxs (indexNonce tx t) = trTxs t" "trTombstones (indexNonce tx t) = trTombstones t"
  "trTxs (unindexNonce tx t) = trTxs t" "trTombstones (unindexNonce tx t) = trTombstones t"
  "trConfirmations (indexNonce tx t) = trConfirmations t" "trConfirmations (unindexNonce tx t) = trConfirmations t"
  "trFIFO (indexNonce tx t) = trFIFO t" "trFIFO (unindexNonce tx t) = trFIFO t"
  "trSeq (indexNonce tx t) = trSeq t" "trSeq (unindexNonce tx t) = trSeq t"
  "trClock (indexNonce tx t) = trClock t" "trClock (unindexNonce tx t) = trClock t"
  "trTick (indexNonce tx t) = trTick t" "trTick (unindexNonce tx t) = trTick t"
  by (simp_all add: indexNonce_def unindexNonce_def Let_def)

lemma dropTx_fields [tracker_simps]:
  "trTxs (dropTx h t) = fmdrop h (trTxs t)" "trByNonce (dropTx h t) = trByNonce t"
  "trTombstones (dropTx h t) = trTombstones t" "trConfirmations (dropTx h t) = trConfirmations t"
  "trFIFO (dropTx h t) = trFIFO t" "trSeq (dropTx h t) = trSeq t"
  "trClock (dropTx h t) = trClock t" "trTick (dropTx h t) = trTick t"
  by (simp_all add: dropTx_def)

lemma putTx_fields [tracker_simps]:
  "trTxs (putTx h tx t) = fmupd h tx (trTxs t)" "trByNonce (putTx h tx t) = trByNonce t"
  "trTombstones (putTx h tx t) = trTombstones t" "trConfirmations (putTx h tx t) = trConfirmations t"
  "trFIFO (putTx h tx t) = trFIFO t" "trSeq (putTx h tx t) = trSeq t"
  "trClock (putTx h tx t) = trClock t" "trTick (putTx h tx t) = trTick t"
  by (simp_all add: putTx_def)

lemma fmdrop_fmupd_same [tracker_simps]: "fmdrop h (fmupd h x m) = fmdrop h m"
  by (rule fmap_ext) simp

text \<open>Burying a hash remembers it, and may at most forget others.\<close>

lemma evictLoop_sub: "fmlookup (snd (evictLoop F T)) h = Some ts \<Longrightarrow> fmlookup T h = Some ts"
  by (induction F T rule: evictLoop.induct) (auto split: if_splits)

lemma bury_tombstones:
  "fmlookup (trTombstones (bury h typ t)) h' = Some ts \<Longrightarrow>
    (if h' = h then ts = \<lparr>tsTyp = typ, tsSeq = trSeq t + 1\<rparr> else fmlookup (trTombstones t) h' = Some ts)"
  using evictLoop_sub [of "trFIFO t @ [(h, trSeq t + 1)]" "fmupd h \<lparr>tsTyp = typ, tsSeq = trSeq t + 1\<rparr> (trTombstones t)" h' ts]
  by (auto simp: bury_def Let_def split: prod.splits if_splits)

section \<open>The invariant\<close>

text \<open>The slot a hash holds in the index: that of its pending record, when its nonce is known.\<close>

definition slotOfTx :: "trackedTx \<Rightarrow> nonceKey option" where
  "slotOfTx tx = (if tState tx = statePending \<and> tHasNonce tx then Some (keyOf tx) else None)"

definition slotIn :: "(hash, trackedTx) fmap \<Rightarrow> hash \<Rightarrow> nonceKey option" where
  "slotIn m h = (case fmlookup m h of None \<Rightarrow> None | Some tx \<Rightarrow> slotOfTx tx)"

definition txOK :: "hash \<Rightarrow> trackedTx \<Rightarrow> bool" where
  "txOK h tx \<longleftrightarrow> tHash tx = h \<and> tTransfers tx \<noteq> [] \<and> (\<forall>m \<in> set (tTransfers tx). mTxHash m = h) \<and>
     (tState tx = stateMined \<longrightarrow> tAuthoritative tx) \<and>
     (tState tx = statePending \<longrightarrow> tBlock tx = 0 \<and> tBlockNum tx = 0)"

definition trackerInv :: "tracker \<Rightarrow> bool" where
  "trackerInv t \<longleftrightarrow>
     (\<forall>h tx. fmlookup (trTxs t) h = Some tx \<longrightarrow> txOK h tx) \<and>
     nidx.indexes (trByNonce t) (slotIn (trTxs t)) \<and>
     (\<forall>h ts. fmlookup (trTombstones t) h = Some ts \<and> fmlookup (trTxs t) h \<noteq> None \<longrightarrow> tsTyp ts = TypeDropped)"

lemma trackerInv_tx: "trackerInv t \<Longrightarrow> fmlookup (trTxs t) h = Some tx \<Longrightarrow> txOK h tx"
  by (simp add: trackerInv_def)

lemma trackerInv_index: "trackerInv t \<Longrightarrow> nidx.indexes (trByNonce t) (slotIn (trTxs t))"
  by (simp add: trackerInv_def)

lemma trackerInv_grave:
  "trackerInv t \<Longrightarrow> fmlookup (trTombstones t) h = Some ts \<Longrightarrow> fmlookup (trTxs t) h = Some tx \<Longrightarrow>
    tsTyp ts = TypeDropped"
  unfolding trackerInv_def by (metis option.distinct(1))

lemma trackerInv_new: "trackerInv (NewTracker conf timeout clk)"
  by (simp add: trackerInv_def NewTracker_def nidx.indexes_def slotIn_def getSlice_def slotTidy_def)

text \<open>The three ways an operation changes a transaction: it gives up its slot, it leaves, it enters.\<close>

lemma slotIn_upd: "slotIn (fmupd h tx m) = (slotIn m)(h := slotOfTx tx)"
  by (auto simp: slotIn_def)

lemma slotIn_drop: "slotIn (fmdrop h m) = (slotIn m)(h := None)"
  by (auto simp: slotIn_def)

lemma unindex_indexes:
  assumes "trackerInv t" and "fmlookup (trTxs t) h = Some tx" and "tState tx = statePending"
  shows "nidx.indexes (trByNonce (unindexNonce tx t)) ((slotIn (trTxs t))(h := None))"
proof -
  have h: "tHash tx = h" using trackerInv_tx [OF assms(1,2)] by (simp add: txOK_def)
  have "slotIn (trTxs t) h = (if tHasNonce tx then Some (keyOf tx) else None)"
    using assms(2,3) by (simp add: slotIn_def slotOfTx_def)
  then show ?thesis
    using nidx.indexes_rem [of "trByNonce t" "slotIn (trTxs t)" h "keyOf tx"] trackerInv_index [OF assms(1)] h
    by (auto simp: unindexNonce_slot fun_upd_idem)
qed

lemma mined_slot:
  "trackerInv t \<Longrightarrow> fmlookup (trTxs t) h = Some tx \<Longrightarrow> tState tx = stateMined \<Longrightarrow>
    nidx.indexes (trByNonce t) ((slotIn (trTxs t))(h := None))"
  using trackerInv_index [of t] by (auto simp: slotIn_def slotOfTx_def fun_upd_idem)

lemma trackerInv_bury_drop:
  assumes "trackerInv t" and "nidx.indexes (trByNonce t') ((slotIn (trTxs t))(h := None))"
    and "trTxs t' = fmdrop h (trTxs t)" and "\<And>h'. h' \<noteq> h \<Longrightarrow> fmlookup (trTombstones t') h' = fmlookup (trTombstones t) h'"
  shows "trackerInv (bury h typ t')"
proof -
  have other: "h' \<noteq> h \<Longrightarrow> fmlookup (trTombstones (bury h typ t')) h' = Some ts \<Longrightarrow>
      fmlookup (trTombstones t) h' = Some ts" for h' ts
    using bury_tombstones [of h "typ" t' h' ts] assms(4) [of h'] by simp
  have "tsTyp ts = TypeDropped"
    if "fmlookup (trTombstones (bury h typ t')) h' = Some ts" "fmlookup (fmdrop h (trTxs t)) h' \<noteq> None" for h' ts
  proof -
    have "h' \<noteq> h" "fmlookup (trTxs t) h' \<noteq> None" using that(2) by (auto split: if_splits)
    then show ?thesis using other [OF _ that(1)] assms(1) unfolding trackerInv_def by blast
  qed
  then show ?thesis using assms(1-3) by (auto simp: trackerInv_def tracker_simps slotIn_drop)
qed

lemma trackerInv_put:
  assumes "trackerInv t" and "txOK h tx"
    and "nidx.indexes (trByNonce t') ((slotIn (trTxs t))(h := slotOfTx tx))"
    and "trTxs t' = fmupd h tx (trTxs t)"
    and "\<And>h'. h' \<noteq> h \<Longrightarrow> fmlookup (trTombstones t') h' = fmlookup (trTombstones t) h'"
    and "\<And>ts. fmlookup (trTombstones t') h = Some ts \<Longrightarrow> tsTyp ts = TypeDropped"
  shows "trackerInv t'"
  using assms by (auto simp: trackerInv_def slotIn_upd split: if_splits)

section \<open>Every operation preserves the invariant\<close>

lemma nowOf_inv: "trackerInv (t\<lparr>trTick := n\<rparr>) = trackerInv t"
  by (simp add: trackerInv_def)

definition entersPending :: "hash \<Rightarrow> tracker \<Rightarrow> bool" where
  "entersPending h t \<longleftrightarrow> fmlookup (trTxs t) h = None \<and>
     (\<forall>ts. fmlookup (trTombstones t) h = Some ts \<longrightarrow> tsTyp ts = TypeDropped)"

definition pendingBase :: "hash \<Rightarrow> trackedTx \<Rightarrow> tracker \<Rightarrow> tracker" where
  "pendingBase h tx t = indexNonce tx (putTx h tx (t\<lparr>trTick := Suc (trTick t)\<rparr>))"

lemma OnPending_outcome:
  "OnPending c (m # ms) t =
     (if entersPending (mTxHash m) t
      then let tx = pendingTx (m # ms) m (trClock t (trTick t))
           in (txEvents c tx TypePending 0, pendingBase (mTxHash m) tx t)
      else ([], t))"
  by (auto simp: OnPending_def entersPending_def pendingBase_def putTx_def Let_def nowOf_def split: option.splits)

lemma pendingTx_fields:
  "tHash (pendingTx ms m now) = mTxHash m" "tTransfers (pendingTx ms m now) = ms"
  "tState (pendingTx ms m now) = statePending" "tHasNonce (pendingTx ms m now)"
  "tBlock (pendingTx ms m now) = 0" "tBlockNum (pendingTx ms m now) = 0"
  "keyOf (pendingTx ms m now) = (mTxSender m, mTxNonce m)" "\<not> tAuthoritative (pendingTx ms m now)"
  "tFirstSeenBlock (pendingTx ms m now) = 0" "tFirstSeen (pendingTx ms m now) = now" "tMinedAt (pendingTx ms m now) = 0"
  by (simp_all add: pendingTx_def keyOf_def)

lemma pendingBase_fields [tracker_simps]:
  "trTxs (pendingBase h tx t) = fmupd h tx (trTxs t)" "trTombstones (pendingBase h tx t) = trTombstones t"
  "trFIFO (pendingBase h tx t) = trFIFO t" "trSeq (pendingBase h tx t) = trSeq t"
  by (simp_all add: pendingBase_def tracker_simps)

lemma OnPending_inv:
  assumes inv: "trackerInv t" and ms: "\<forall>m \<in> set ms. mTxHash m = mTxHash (hd ms)"
  shows "trackerInv (snd (OnPending c ms t))"
proof (cases ms)
  case (Cons m rest)
  let ?tx = "pendingTx ms m (trClock t (trTick t))"
  have "trackerInv (pendingBase (mTxHash m) ?tx t)" if en: "entersPending (mTxHash m) t"
  proof (rule trackerInv_put [OF inv, of "mTxHash m" ?tx])
    show "txOK (mTxHash m) ?tx" using ms Cons by (auto simp: txOK_def pendingTx_fields)
    have "slotIn (trTxs t) (mTxHash m) = None" using en by (simp add: slotIn_def entersPending_def)
    then show "nidx.indexes (trByNonce (pendingBase (mTxHash m) ?tx t)) ((slotIn (trTxs t))(mTxHash m := slotOfTx ?tx))"
      using nidx.indexes_add trackerInv_index [OF inv]
      by (simp add: pendingBase_def indexNonce_slot slotOfTx_def pendingTx_fields putTx_fields)
  qed (use en in \<open>simp_all add: tracker_simps entersPending_def\<close>)
  then show ?thesis using inv Cons by (simp add: OnPending_outcome Let_def)
qed (simp add: OnPending_def inv)

text \<open>The record of a transaction once it is in the block, and what becomes of it.\<close>

definition minedRecord :: "hash \<Rightarrow> u64 \<Rightarrow> transferMatch list \<Rightarrow> time \<Rightarrow> trackedTx \<Rightarrow> trackedTx" where
  "minedRecord blockHash blockNum transfers now tx =
     (let tx1 = (if tFirstSeenBlock tx = 0 then tx\<lparr>tFirstSeenBlock := blockNum, tMinedAt := now\<rparr> else tx);
          tx2 = (if transfers \<noteq> [] then tx1\<lparr>tTransfers := transfers, tAuthoritative := True\<rparr> else tx1)
      in tx2\<lparr>tState := stateMined, tBlock := blockHash, tBlockNum := blockNum\<rparr>)"

definition minedBase :: "trackedTx \<Rightarrow> tracker \<Rightarrow> tracker" where
  "minedBase tx t =
     (let t1 = (if tState tx = statePending then unindexNonce tx t else t)
      in if tFirstSeenBlock tx = 0 then t1\<lparr>trTick := Suc (trTick t)\<rparr> else t1)"

lemma mineTx_outcome:
  "mineTx c h bh bn transfers failed confs fin tx t =
     (let rec = minedRecord bh bn transfers (trClock t (trTick t)) tx; t3 = putTx h rec (minedBase tx t);
          n = (if confs = 0 then 1 else confs)
      in if failed then (txEvents c rec TypeFailed n, bury h TypeFailed (dropTx h t3))
         else if \<not> tAuthoritative rec then ([], bury h TypeFailed (dropTx h t3))
         else if confirmedAt t bn n fin then (txEvents c rec TypeConfirmed n, bury h TypeConfirmed (dropTx h t3))
         else (txEvents c rec TypeMined n, t3))"
  unfolding mineTx_def minedRecord_def minedBase_def Let_def nowOf_def
  by (cases "tFirstSeenBlock tx = 0"; cases "tState tx = statePending"; cases "transfers = []")
    (simp_all add: tracker_simps confirmedAt_def)

lemma minedRecord_fields:
  "tHash (minedRecord bh bn tr now tx) = tHash tx" "tState (minedRecord bh bn tr now tx) = stateMined"
  "tBlock (minedRecord bh bn tr now tx) = bh" "tBlockNum (minedRecord bh bn tr now tx) = bn"
  "tTransfers (minedRecord bh bn tr now tx) = (if tr = [] then tTransfers tx else tr)"
  "tAuthoritative (minedRecord bh bn tr now tx) \<longleftrightarrow> tr \<noteq> [] \<or> tAuthoritative tx"
  "tFirstSeen (minedRecord bh bn tr now tx) = tFirstSeen tx"
  "tFirstSeenBlock (minedRecord bh bn tr now tx) = (if tFirstSeenBlock tx = 0 then bn else tFirstSeenBlock tx)"
  "tMinedAt (minedRecord bh bn tr now tx) = (if tFirstSeenBlock tx = 0 then now else tMinedAt tx)"
  "tSender (minedRecord bh bn tr now tx) = tSender tx" "tNonce (minedRecord bh bn tr now tx) = tNonce tx"
  "tHasNonce (minedRecord bh bn tr now tx) = tHasNonce tx"
  by (simp_all add: minedRecord_def Let_def)

lemma minedBase_fields [tracker_simps]:
  "trTxs (minedBase tx t) = trTxs t" "trTombstones (minedBase tx t) = trTombstones t"
  "trFIFO (minedBase tx t) = trFIFO t" "trSeq (minedBase tx t) = trSeq t"
  "trByNonce (minedBase tx t) = trByNonce (if tState tx = statePending then unindexNonce tx t else t)"
  "trClock (minedBase tx t) = trClock t" "trConfirmations (minedBase tx t) = trConfirmations t"
  by (simp_all add: minedBase_def Let_def tracker_simps)

lemma mineTx_inv:
  assumes inv: "trackerInv t" and tx: "fmlookup (trTxs t) h = Some tx"
    and tomb: "fmlookup (trTombstones t) h = None" and tr: "\<forall>m \<in> set transfers. mTxHash m = h"
  shows "trackerInv (snd (mineTx c h bh bn transfers failed confs fin tx t))"
proof -
  let ?rec = "minedRecord bh bn transfers (trClock t (trTick t)) tx"
  let ?t3 = "putTx h ?rec (minedBase tx t)"
  have ix: "nidx.indexes (trByNonce (minedBase tx t)) ((slotIn (trTxs t))(h := None))"
    using unindex_indexes [OF inv tx] mined_slot [OF inv tx] by (cases "tState tx") (simp_all add: tracker_simps)
  have drop: "trackerInv (bury h ty (dropTx h ?t3))" for ty
    by (rule trackerInv_bury_drop [OF inv]) (use ix in \<open>simp_all add: tracker_simps\<close>)
  have keep: "trackerInv ?t3" if "tAuthoritative ?rec"
  proof (rule trackerInv_put [OF inv, of h ?rec])
    show "txOK h ?rec" using trackerInv_tx [OF inv tx] tr that
      by (auto simp: txOK_def minedRecord_fields)
    show "nidx.indexes (trByNonce ?t3) ((slotIn (trTxs t))(h := slotOfTx ?rec))"
      using ix by (simp add: tracker_simps slotOfTx_def minedRecord_fields)
  qed (simp_all add: tracker_simps tomb)
  show ?thesis unfolding mineTx_outcome Let_def using drop keep by simp
qed

text \<open>A record the tracker does not know yet enters through the same path as a fresh one. Its legs
  are empty until the block supplies them, so the record is not yet one of the invariant.\<close>

lemma mineTx_fresh_inv:
  assumes inv: "trackerInv t" and tx: "fmlookup (trTxs t) h = None"
    and tomb: "fmlookup (trTombstones t) h = None" and tr: "\<forall>m \<in> set transfers. mTxHash m = h"
  shows "trackerInv (snd (mineTx c h bh bn transfers failed confs fin (freshTx h now)
    (putTx h (freshTx h now) (t\<lparr>trTick := n\<rparr>))))"
proof -
  let ?t = "putTx h (freshTx h now) (t\<lparr>trTick := n\<rparr>)"
  let ?rec = "minedRecord bh bn transfers (trClock ?t (trTick ?t)) (freshTx h now)"
  let ?t3 = "putTx h ?rec (minedBase (freshTx h now) ?t)"
  have nf: "unindexNonce (freshTx h now) ?t = ?t" by (simp add: unindexNonce_def freshTx_def)
  have "slotIn (trTxs t) h = None" using tx by (simp add: slotIn_def)
  then have ix: "nidx.indexes (trByNonce t) ((slotIn (trTxs t))(h := None))"
    using trackerInv_index [OF inv] by (simp add: fun_upd_idem)
  have bn: "trByNonce ?t3 = trByNonce t" by (simp add: tracker_simps nf)
  have drop: "trackerInv (bury h ty (dropTx h ?t3))" for ty
    by (rule trackerInv_bury_drop [OF inv]) (use ix bn in \<open>simp_all add: tracker_simps\<close>)
  have keep: "trackerInv ?t3" if "tAuthoritative ?rec"
  proof (rule trackerInv_put [OF inv, of h ?rec])
    show "txOK h ?rec" using tr that by (auto simp: txOK_def minedRecord_fields freshTx_def)
    show "nidx.indexes (trByNonce ?t3) ((slotIn (trTxs t))(h := slotOfTx ?rec))"
      using ix bn by (simp add: slotOfTx_def minedRecord_fields)
  qed (simp_all add: tracker_simps tomb)
  show ?thesis unfolding mineTx_outcome Let_def using drop keep by simp
qed

lemma clear_tombstone_inv: "trackerInv t \<Longrightarrow> trackerInv (t\<lparr>trTombstones := fmdrop h (trTombstones t)\<rparr>)"
  by (auto simp: trackerInv_def)

lemma OnMined_inv:
  assumes inv: "trackerInv t" and tr: "\<forall>m \<in> set transfers. mTxHash m = h"
  shows "trackerInv (snd (OnMined c h bh bn transfers failed confs fin t))"
proof -
  let ?t1 = "t\<lparr>trTombstones := fmdrop h (trTombstones t)\<rparr>"
  note inv1 = clear_tombstone_inv [OF inv, of h]
  show ?thesis
  proof (cases "fmlookup (trTxs t) h")
    case None
    then show ?thesis using mineTx_fresh_inv [OF inv1, of h transfers c bh bn failed confs fin] inv tr
      by (auto simp: OnMined_def Let_def nowOf_def)
  next
    case (Some tx)
    then show ?thesis using mineTx_inv [OF inv1, of h tx transfers c bh bn failed confs fin] inv inv1 tr
      by (auto simp: OnMined_def Let_def)
  qed
qed

lemma Confirm_inv:
  assumes inv: "trackerInv t"
  shows "trackerInv (snd (Confirm c h head t))"
proof (cases "fmlookup (trTxs t) h")
  case (Some tx)
  show ?thesis
  proof (cases "tState tx \<noteq> stateMined \<or> head < tBlockNum tx")
    case False
    then have "trackerInv (bury h TypeConfirmed (dropTx h t))"
      by (intro trackerInv_bury_drop [OF inv]) (use mined_slot [OF inv Some] in \<open>simp_all add: tracker_simps\<close>)
    then show ?thesis using Some False by (simp add: Confirm_def)
  qed (use Some inv in \<open>auto simp: Confirm_def\<close>)
qed (simp add: Confirm_def inv)

lemma pending_gone_inv:
  assumes inv: "trackerInv t" and tx: "fmlookup (trTxs t) h = Some tx" and "tState tx = statePending"
  shows "trackerInv (bury h ty (dropTx h (unindexNonce tx t)))"
  by (rule trackerInv_bury_drop [OF inv]) (use unindex_indexes [OF assms] in \<open>simp_all add: tracker_simps\<close>)

lemma OnDropStale_inv:
  assumes inv: "trackerInv t"
  shows "trackerInv (snd (OnDropStale c h stillKnown t))"
proof (cases "fmlookup (trTxs t) h")
  case (Some tx)
  show ?thesis
  proof (cases "tState tx")
    case statePending
    have "trackerInv (putTx h (tx\<lparr>tPendingSince := now\<rparr>) (t\<lparr>trTick := n\<rparr>))" for now n
    proof (rule trackerInv_put [OF inv, of h "tx\<lparr>tPendingSince := now\<rparr>"])
      show "txOK h (tx\<lparr>tPendingSince := now\<rparr>)" using trackerInv_tx [OF inv Some] by (simp add: txOK_def)
      have "(slotIn (trTxs t))(h := slotOfTx (tx\<lparr>tPendingSince := now\<rparr>)) = slotIn (trTxs t)"
        using Some by (intro fun_upd_idem) (simp add: slotIn_def slotOfTx_def keyOf_def)
      then show "nidx.indexes (trByNonce (putTx h (tx\<lparr>tPendingSince := now\<rparr>) (t\<lparr>trTick := n\<rparr>)))
          ((slotIn (trTxs t))(h := slotOfTx (tx\<lparr>tPendingSince := now\<rparr>)))"
        using trackerInv_index [OF inv] by (simp add: tracker_simps)
    qed (use trackerInv_grave [OF inv _ Some] in \<open>simp_all add: tracker_simps\<close>)
    then show ?thesis using Some statePending pending_gone_inv [OF inv Some]
      by (simp add: OnDropStale_def nowOf_def)
  qed (use Some inv in \<open>simp add: OnDropStale_def\<close>)
qed (simp add: OnDropStale_def inv)

lemma replaceOne_inv: "trackerInv (snd r) \<Longrightarrow> trackerInv (snd (replaceOne c byHash h r))"
  using pending_gone_inv [of "snd r" h] by (auto simp: replaceOne_def split: prod.splits option.splits)

lemma fold_inv: "(\<And>x r. P r \<Longrightarrow> P (f x r)) \<Longrightarrow> P r \<Longrightarrow> P (fold f xs r)"
  by (induction xs arbitrary: r) auto

lemma OnNonceUsed_inv: "trackerInv t \<Longrightarrow> trackerInv (snd (OnNonceUsed c sender nonce byHash t))"
  unfolding OnNonceUsed_def
  by (rule fold_inv [where P = "\<lambda>r. trackerInv (snd r)"]) (auto intro: replaceOne_inv)

lemma demoteTx_inv:
  assumes inv: "trackerInv t" and tx: "fmlookup (trTxs t) h = Some tx" and st: "tState tx = stateMined"
  shows "trackerInv (snd (demoteTx c h tx t))"
proof -
  define tx' where "tx' = tx\<lparr>tState := statePending, tBlock := 0, tBlockNum := 0, tPendingSince := trClock t (trTick t)\<rparr>"
  let ?t' = "indexNonce tx' (putTx h tx' (t\<lparr>trTick := Suc (trTick t)\<rparr>))"
  have h: "tHash tx' = h" using trackerInv_tx [OF inv tx] by (simp add: txOK_def tx'_def)
  have "nidx.indexes (trByNonce ?t') (((slotIn (trTxs t))(h := None))(h := slotOfTx tx'))"
    using nidx.indexes_add [OF mined_slot [OF inv tx st], of h "keyOf tx'"] mined_slot [OF inv tx st] h
    by (auto simp: indexNonce_slot putTx_fields slotOfTx_def tx'_def keyOf_def)
  moreover have "txOK h tx'" using trackerInv_tx [OF inv tx] by (simp add: txOK_def tx'_def)
  ultimately have "trackerInv ?t'"
    using trackerInv_grave [OF inv _ tx] by (intro trackerInv_put [OF inv, of h tx']) (simp_all add: tracker_simps)
  then show ?thesis by (simp add: demoteTx_def nowOf_def Let_def tx'_def)
qed

lemma reorgOne_inv: "trackerInv (snd r) \<Longrightarrow> trackerInv (snd (reorgOne c ancestor h r))"
  using demoteTx_inv [of "snd r" h _ c]
  by (auto simp: reorgOne_def split: prod.splits option.splits)

lemma OnReorg_inv: "trackerInv t \<Longrightarrow> trackerInv (snd (OnReorg c ord ancestor t))"
  unfolding OnReorg_def
  by (rule fold_inv [where P = "\<lambda>r. trackerInv (snd r)"]) (auto intro: reorgOne_inv)

lemma Demote_inv: "trackerInv t \<Longrightarrow> trackerInv (snd (Demote c h t))"
  using demoteTx_inv [of t h] by (auto simp: Demote_def split: option.splits)

lemma OnHead_inv: "trackerInv t \<Longrightarrow> trackerInv (snd (OnHead ord head fin t))"
  by (simp add: OnHead_def nowOf_def nowOf_inv)

section \<open>Runs of the tracker\<close>

datatype trackerOp =
    opPending "transferMatch list"
  | opMined hash hash u64 "transferMatch list" bool u64 u64
  | opHead "hash list" u64 u64
  | opConfirm hash u64
  | opDropStale hash bool
  | opNonceUsed address u64 hash
  | opReorg "hash list" u64
  | opDemote hash

fun trackerExec :: "hexcodec \<Rightarrow> trackerOp \<Rightarrow> tracker \<Rightarrow> event list \<times> tracker" where
  "trackerExec c (opPending ms) t = OnPending c ms t"
| "trackerExec c (opMined h bh bn tr failed confs fin) t = OnMined c h bh bn tr failed confs fin t"
| "trackerExec c (opHead ord head fin) t = ([], snd (OnHead ord head fin t))"
| "trackerExec c (opConfirm h head) t = Confirm c h head t"
| "trackerExec c (opDropStale h known) t = OnDropStale c h known t"
| "trackerExec c (opNonceUsed s n h) t = OnNonceUsed c s n h t"
| "trackerExec c (opReorg ord a) t = OnReorg c ord a t"
| "trackerExec c (opDemote h) t = Demote c h t"

text \<open>What the callers guarantee: the legs handed over are legs of the transaction, and a scan
  ranges over the map.\<close>

fun trackerOpOK :: "trackerOp \<Rightarrow> tracker \<Rightarrow> bool" where
  "trackerOpOK (opPending ms) t = (\<forall>m \<in> set ms. mTxHash m = mTxHash (hd ms))"
| "trackerOpOK (opMined h bh bn tr failed confs fin) t = (\<forall>m \<in> set tr. mTxHash m = h)"
| "trackerOpOK (opHead ord head fin) t = rangeOrder ord (trTxs t)"
| "trackerOpOK (opReorg ord a) t = rangeOrder ord (trTxs t)"
| "trackerOpOK op t = True"

inductive trackerReach :: "hexcodec \<Rightarrow> tracker \<Rightarrow> tracker \<Rightarrow> bool" for c t0 where
  start: "trackerReach c t0 t0"
| step: "trackerReach c t0 t \<Longrightarrow> trackerOpOK op t \<Longrightarrow> trackerReach c t0 (snd (trackerExec c op t))"

lemma trackerExec_inv: "trackerInv t \<Longrightarrow> trackerOpOK op t \<Longrightarrow> trackerInv (snd (trackerExec c op t))"
  by (cases op) (auto intro: OnPending_inv OnMined_inv OnHead_inv Confirm_inv OnDropStale_inv
    OnNonceUsed_inv OnReorg_inv Demote_inv)

lemma trackerReach_inv: "trackerReach c t0 t \<Longrightarrow> trackerInv t0 \<Longrightarrow> trackerInv t"
  by (induction rule: trackerReach.induct) (auto intro: trackerExec_inv)

end
