(* ===== verification/Lifecycle.thy ===== *)
theory Lifecycle
  imports TrackerInv
begin

text \<open>
  The contract of the tracker, per transaction: a small transition system of phases, and the
  proof that every operation of internal/indexer/tracker.go moves every transaction along it and
  emits for each the events of that move and no others.
\<close>

section \<open>The abstract lifecycle\<close>

text \<open>What the tracker knows of a hash: nothing, pending, mined in a block, or ended in some way.\<close>

datatype phase = Unknown | Pending | MinedIn hash u64 | Ended string

fun phaseAt :: "trackedTx option \<Rightarrow> tombstone option \<Rightarrow> phase" where
  "phaseAt (Some tx) _ = (if tState tx = statePending then Pending else MinedIn (tBlock tx) (tBlockNum tx))"
| "phaseAt None (Some ts) = Ended (tsTyp ts)"
| "phaseAt None None = Unknown"

definition phaseOf :: "tracker \<Rightarrow> hash \<Rightarrow> phase" where
  "phaseOf t h = phaseAt (fmlookup (trTxs t) h) (fmlookup (trTombstones t) h)"

text \<open>One move, with the type of the events it emits, if any.\<close>

inductive lifecycle :: "phase \<Rightarrow> string option \<Rightarrow> phase \<Rightarrow> bool" where
  stay: "lifecycle p None p"
| seen: "p = Unknown \<or> p = Ended TypeDropped \<Longrightarrow> lifecycle p (Some TypePending) Pending"
| included: "p \<noteq> Ended TypeConfirmed \<Longrightarrow> (\<And>k. p \<noteq> MinedIn b k) \<Longrightarrow> lifecycle p (Some TypeMined) (MinedIn b n)"
| final: "p \<noteq> Ended TypeConfirmed \<Longrightarrow> lifecycle p (Some TypeConfirmed) (Ended TypeConfirmed)"
| reverted: "p \<noteq> Ended TypeConfirmed \<Longrightarrow> lifecycle p (Some TypeFailed) (Ended TypeFailed)"
| void: "p \<noteq> Ended TypeConfirmed \<Longrightarrow> (\<And>b n. p \<noteq> MinedIn b n) \<Longrightarrow> lifecycle p None (Ended TypeFailed)"
| reorged: "lifecycle (MinedIn b n) (Some TypeReorged) Pending"
| dropped: "lifecycle Pending (Some TypeDropped) (Ended TypeDropped)"
| replaced: "lifecycle Pending (Some TypeReplaced) (Ended TypeReplaced)"

inductive_cases lifecycle_confirmed: "lifecycle (Ended TypeConfirmed) e p"

text \<open>The memory of ended transactions is bounded, so a phase may decay.\<close>

definition decays :: "phase \<Rightarrow> phase \<Rightarrow> bool" where
  "decays p q \<longleftrightarrow> q = p \<or> (\<exists>ty. p = Ended ty) \<and> q = Unknown"

definition typesFor :: "hexcodec \<Rightarrow> hash \<Rightarrow> event list \<Rightarrow> string set" where
  "typesFor c h evs = evType ` {e \<in> set evs. evTxHash e = hashHex c h}"

definition conforms :: "hexcodec \<Rightarrow> hash \<Rightarrow> tracker \<Rightarrow> event list \<times> tracker \<Rightarrow> bool" where
  "conforms c h t r \<longleftrightarrow>
     (\<exists>e p. lifecycle (phaseOf t h) e p \<and> decays p (phaseOf (snd r) h) \<and> typesFor c h (fst r) = set_option e)"

section \<open>Events and phases of the building blocks\<close>

named_theorems phase_simps \<open>phases and event types under the tracker's helpers\<close>

lemma typesFor_Nil [phase_simps]: "typesFor c h [] = {}"
  by (simp add: typesFor_def)

lemma typesFor_append [phase_simps]: "typesFor c h (xs @ ys) = typesFor c h xs \<union> typesFor c h ys"
  by (auto simp: typesFor_def)

lemma typesFor_txEvents:
  assumes "hexOK c" and "\<forall>m \<in> set (tTransfers tx). mTxHash m = h0"
  shows "typesFor c h (txEvents c tx ty k) = (if h = h0 \<and> tTransfers tx \<noteq> [] then {ty} else {})"
proof -
  have "evTxHash e = hashHex c h0 \<and> evType e = ty" if "e \<in> set (txEvents c tx ty k)" for e
    using that assms(2) by (auto simp: txEvents_def legEvent_def)
  moreover have "txEvents c tx ty k \<noteq> [] \<longleftrightarrow> tTransfers tx \<noteq> []" by (simp add: txEvents_def)
  ultimately show ?thesis using hexOK_inj(1) [OF assms(1)]
    by (auto simp: typesFor_def image_iff) (metis list.set_intros(1) neq_Nil_conv)+
qed

lemma typesFor_replaced:
  "typesFor c h (map (\<lambda>e. e\<lparr>evReplacedBy := x\<rparr>) evs) = typesFor c h evs"
proof -
  have "map (\<lambda>e. (evTxHash e, evType e)) (map (\<lambda>e. e\<lparr>evReplacedBy := x\<rparr>) evs) = map (\<lambda>e. (evTxHash e, evType e)) evs"
    by (induction evs) auto
  from arg_cong [OF this, of set]
  have "(\<lambda>e. (evTxHash e, evType e)) ` set (map (\<lambda>e. e\<lparr>evReplacedBy := x\<rparr>) evs) = (\<lambda>e. (evTxHash e, evType e)) ` set evs"
    by (simp only: set_map)
  moreover have "typesFor c h es = {ty. (hashHex c h, ty) \<in> (\<lambda>e. (evTxHash e, evType e)) ` set es}" for es
    by (force simp: typesFor_def)
  ultimately show ?thesis by simp
qed

lemma phaseOf_cong: "fmlookup (trTxs t') h = fmlookup (trTxs t) h \<Longrightarrow>
    fmlookup (trTombstones t') h = fmlookup (trTombstones t) h \<Longrightarrow> phaseOf t' h = phaseOf t h"
  by (simp only: phaseOf_def)

lemma decays_refl [simp]: "decays p p"
  by (simp add: decays_def)

lemma conforms_quiet: "typesFor c h (fst r) = {} \<Longrightarrow> decays (phaseOf t h) (phaseOf (snd r) h) \<Longrightarrow> conforms c h t r"
  unfolding conforms_def by (rule exI [of _ None]) (auto intro: stay)

lemma conformsI: "lifecycle (phaseOf t h) e p \<Longrightarrow> decays p (phaseOf (snd r) h) \<Longrightarrow>
    typesFor c h (fst r) = set_option e \<Longrightarrow> conforms c h t r"
  unfolding conforms_def by blast

text \<open>Burying \<open>h0\<close>: it ends, and of another hash at most the memory goes.\<close>

lemma phase_bury_self:
  "fmlookup (trTxs t) h = None \<Longrightarrow> decays (Ended ty) (phaseOf (bury h ty t) h)"
  using bury_tombstones [of h ty t h]
  by (cases "fmlookup (trTombstones (bury h ty t)) h") (simp_all add: phaseOf_def tracker_simps decays_def)

lemma phase_bury_other: "h \<noteq> h0 \<Longrightarrow> decays (phaseOf t h) (phaseOf (bury h0 ty t) h)"
  using bury_tombstones [of h0 ty t h]
  by (cases "fmlookup (trTombstones (bury h0 ty t)) h"; cases "fmlookup (trTxs t) h"; cases "fmlookup (trTombstones t) h")
    (simp_all add: phaseOf_def tracker_simps decays_def)

lemma decays_trans: "decays p q \<Longrightarrow> decays q r \<Longrightarrow> decays p r"
  by (auto simp: decays_def)

section \<open>Every operation conforms\<close>

lemma OnPending_conforms:
  assumes hex: "hexOK c" and inv: "trackerInv t" and ms: "\<forall>m \<in> set ms. mTxHash m = mTxHash (hd ms)"
  shows "conforms c h t (OnPending c ms t)"
proof (cases ms)
  case (Cons m rest)
  let ?tx = "pendingTx ms m (trClock t (trTick t))"
  let ?t2 = "pendingBase (mTxHash m) ?tx t"
  have ty: "typesFor c h (txEvents c ?tx TypePending 0) = (if h = mTxHash m then {TypePending} else {})"
  proof -
    have "\<forall>x \<in> set (tTransfers ?tx). mTxHash x = mTxHash m"
      unfolding pendingTx_fields using ms Cons by (metis list.sel(1))
    from typesFor_txEvents [OF hex this, of h TypePending 0] show ?thesis using Cons by (simp add: pendingTx_fields)
  qed
  have "conforms c h t (txEvents c ?tx TypePending 0, ?t2)" if en: "entersPending (mTxHash m) t"
  proof (cases "h = mTxHash m")
    case True
    have "phaseOf t h = Unknown \<or> phaseOf t h = Ended TypeDropped"
      using en True by (cases "fmlookup (trTombstones t) h") (simp_all add: phaseOf_def entersPending_def)
    moreover have "phaseOf ?t2 h = Pending" using True by (simp add: phaseOf_def tracker_simps pendingTx_fields)
    ultimately have "lifecycle (phaseOf t h) (Some TypePending) (phaseOf ?t2 h)" by (simp only: seen)
    from conformsI [OF this, of "(txEvents c ?tx TypePending 0, ?t2)"] show ?thesis using ty True by simp
  next
    case False
    then have "phaseOf ?t2 h = phaseOf t h" by (intro phaseOf_cong) (simp_all add: tracker_simps)
    then show ?thesis using ty False by (intro conforms_quiet) simp_all
  qed
  then show ?thesis using Cons by (simp add: OnPending_outcome Let_def conforms_quiet phase_simps)
qed (simp add: OnPending_def conforms_quiet phase_simps)

lemma mineTx_conforms:
  assumes hex: "hexOK c" and tr: "\<forall>m \<in> set transfers. mTxHash m = h0"
    and ms: "\<forall>m \<in> set (tTransfers tx). mTxHash m = h0"
    and p: "p \<noteq> Ended TypeConfirmed" "\<And>k. p \<noteq> MinedIn bh k"
    and auth: "\<And>b n. p = MinedIn b n \<Longrightarrow> tAuthoritative tx \<and> tTransfers tx \<noteq> []"
      "tAuthoritative tx \<Longrightarrow> tTransfers tx \<noteq> []"
    and r: "r = mineTx c h0 bh bn transfers failed confs fin tx t"
  shows "\<exists>e q. lifecycle p e q \<and> decays q (phaseOf (snd r) h0) \<and> typesFor c h0 (fst r) = set_option e"
    and "h \<noteq> h0 \<Longrightarrow> typesFor c h (fst r) = {} \<and> decays (phaseOf t h) (phaseOf (snd r) h)"
proof -
  let ?rec = "minedRecord bh bn transfers (trClock t (trTick t)) tx"
  let ?t3 = "putTx h0 ?rec (minedBase tx t)"
  let ?n = "if confs = 0 then 1 else confs"
  have legs: "\<forall>m \<in> set (tTransfers ?rec). mTxHash m = h0" using tr ms by (simp add: minedRecord_fields)
  have ty: "typesFor c x (txEvents c ?rec k n) = (if x = h0 \<and> tTransfers ?rec \<noteq> [] then {k} else {})" for x k n
    using typesFor_txEvents [OF hex legs] .
  have out: "r = (if failed then (txEvents c ?rec TypeFailed ?n, bury h0 TypeFailed (dropTx h0 ?t3))
      else if \<not> tAuthoritative ?rec then ([], bury h0 TypeFailed (dropTx h0 ?t3))
      else if confirmedAt t bn ?n fin then (txEvents c ?rec TypeConfirmed ?n, bury h0 TypeConfirmed (dropTx h0 ?t3))
      else (txEvents c ?rec TypeMined ?n, ?t3))"
    unfolding r mineTx_outcome Let_def ..
  have nonempty: "tAuthoritative ?rec \<Longrightarrow> tTransfers ?rec \<noteq> []"
    using auth(2) by (auto simp: minedRecord_fields)
  have void_ok: "lifecycle p None (Ended TypeFailed)" if "tTransfers ?rec = [] \<or> \<not> tAuthoritative ?rec"
    using p(1) auth(1) that by (intro void) (auto simp: minedRecord_fields split: if_splits)
  have d: "decays (Ended k) (phaseOf (bury h0 k (dropTx h0 ?t3)) h0)" for k
    by (rule phase_bury_self) (simp add: tracker_simps)
  have m: "phaseOf ?t3 h0 = MinedIn bh bn" by (simp add: phaseOf_def tracker_simps minedRecord_fields)
  consider "failed" "tTransfers ?rec \<noteq> []" | "failed" "tTransfers ?rec = []" | "\<not> failed" "\<not> tAuthoritative ?rec"
    | "\<not> failed" "tAuthoritative ?rec" "confirmedAt t bn ?n fin" | "\<not> failed" "tAuthoritative ?rec" "\<not> confirmedAt t bn ?n fin"
    by blast
  then show "\<exists>e q. lifecycle p e q \<and> decays q (phaseOf (snd r) h0) \<and> typesFor c h0 (fst r) = set_option e"
  proof cases
    case 1
    have "lifecycle p (Some TypeFailed) (Ended TypeFailed)" using p(1) by (rule reverted)
    then show ?thesis unfolding out using 1 d ty by (intro exI conjI) auto
  next
    case 2
    have "lifecycle p None (Ended TypeFailed)" using void_ok 2 by blast
    then show ?thesis unfolding out using 2 d ty by (intro exI conjI) auto
  next
    case 3
    have "lifecycle p None (Ended TypeFailed)" using void_ok 3 by blast
    then show ?thesis unfolding out using 3 d by (intro exI conjI) (auto simp: phase_simps)
  next
    case 4
    have "lifecycle p (Some TypeConfirmed) (Ended TypeConfirmed)" using p(1) by (rule final)
    then show ?thesis unfolding out using 4 d ty nonempty by (intro exI conjI) auto
  next
    case 5
    have "lifecycle p (Some TypeMined) (MinedIn bh bn)" using p by (rule included)
    then show ?thesis unfolding out using 5 m ty nonempty by (intro exI conjI) auto
  qed
  assume h: "h \<noteq> h0"
  have 1: "phaseOf (dropTx h0 ?t3) h = phaseOf t h" and 2: "phaseOf ?t3 h = phaseOf t h"
    using h by (auto intro!: phaseOf_cong simp: tracker_simps)
  show "typesFor c h (fst r) = {} \<and> decays (phaseOf t h) (phaseOf (snd r) h)"
    unfolding out using h ty phase_bury_other [OF h, of "dropTx h0 ?t3"] 1 2 by (auto simp: phase_simps)
qed

lemma freshTx_fields:
  "tTransfers (freshTx h now) = []" "\<not> tAuthoritative (freshTx h now)"
  by (simp_all add: freshTx_def)

lemma OnMined_conforms:
  assumes hex: "hexOK c" and inv: "trackerInv t" and tr: "\<forall>m \<in> set transfers. mTxHash m = h0"
  shows "conforms c h t (OnMined c h0 bh bn transfers failed confs fin t)"
proof (cases "\<exists>ts. fmlookup (trTombstones t) h0 = Some ts \<and> tsTyp ts = TypeConfirmed")
  case True
  then have "OnMined c h0 bh bn transfers failed confs fin t = ([], t)" by (auto simp: OnMined_def)
  then show ?thesis by (simp add: conforms_quiet phase_simps)
next
  case live: False
  let ?t1 = "t\<lparr>trTombstones := fmdrop h0 (trTombstones t)\<rparr>"
  have other1: "h \<noteq> h0 \<Longrightarrow> phaseOf ?t1 h = phaseOf t h" by (intro phaseOf_cong) simp_all
  show ?thesis
  proof (cases "fmlookup (trTxs t) h0")
    case None
    let ?t2 = "putTx h0 (freshTx h0 (trClock t (trTick t))) (?t1\<lparr>trTick := Suc (trTick t)\<rparr>)"
    have s: "OnMined c h0 bh bn transfers failed confs fin t =
        mineTx c h0 bh bn transfers failed confs fin (freshTx h0 (trClock t (trTick t))) ?t2"
      using live None by (auto simp: OnMined_def Let_def nowOf_def split: option.splits)
    have p: "phaseOf t h0 \<noteq> Ended TypeConfirmed" "\<And>b k. phaseOf t h0 \<noteq> MinedIn b k"
      using live None by (cases "fmlookup (trTombstones t) h0"; simp add: phaseOf_def)+
    have "phaseOf ?t2 h = phaseOf t h" if "h \<noteq> h0" using that by (intro phaseOf_cong) (simp_all add: tracker_simps)
    then show ?thesis unfolding s
      using mineTx_conforms(1) [OF hex tr, where tx = "freshTx h0 (trClock t (trTick t))" and p = "phaseOf t h0" and bh = bh
          and bn = bn and failed = failed and confs = confs and fin = fin and t = ?t2, OF _ _ _ _ _ refl]
        mineTx_conforms(2) [OF hex tr, where tx = "freshTx h0 (trClock t (trTick t))" and p = "phaseOf t h0" and bh = bh
          and bn = bn and failed = failed and confs = confs and fin = fin and t = ?t2 and h = h, OF _ _ _ _ _ refl] p
      by (cases "h = h0") (simp_all add: freshTx_fields conforms_def [of c h0] conforms_quiet)
  next
    case (Some tx)
    have ok: "txOK h0 tx" by (rule trackerInv_tx [OF inv Some])
    show ?thesis
    proof (cases "tState tx = stateMined \<and> tBlock tx = bh")
      case True
      then have s: "OnMined c h0 bh bn transfers failed confs fin t = ([], ?t1)"
        using live Some by (auto simp: OnMined_def Let_def split: option.splits)
      have "phaseOf ?t1 h0 = phaseOf t h0" using Some by (simp add: phaseOf_def)
      then show ?thesis unfolding s using other1 by (cases "h = h0") (auto intro!: conforms_quiet simp: phase_simps)
    next
      case False
      then have s: "OnMined c h0 bh bn transfers failed confs fin t =
          mineTx c h0 bh bn transfers failed confs fin tx ?t1"
        using live Some by (auto simp: OnMined_def Let_def split: option.splits)
      have p: "phaseOf t h0 \<noteq> Ended TypeConfirmed" "\<And>k. phaseOf t h0 \<noteq> MinedIn bh k"
        "\<And>b n. phaseOf t h0 = MinedIn b n \<Longrightarrow> tState tx = stateMined"
        using Some False by (auto simp: phaseOf_def split: if_splits) (metis txState.exhaust)+
      then show ?thesis unfolding s using ok
          mineTx_conforms(1) [OF hex tr, where tx = tx and p = "phaseOf t h0" and bh = bh
          and bn = bn and failed = failed and confs = confs and fin = fin and t = ?t1, OF _ _ _ _ _ refl]
        mineTx_conforms(2) [OF hex tr, where tx = tx and p = "phaseOf t h0" and bh = bh
          and bn = bn and failed = failed and confs = confs and fin = fin and t = ?t1 and h = h, OF _ _ _ _ _ refl] other1
        by (cases "h = h0") (simp_all add: txOK_def conforms_def [of c h0] conforms_quiet)
    qed
  qed
qed

lemma Confirm_conforms:
  assumes hex: "hexOK c" and inv: "trackerInv t"
  shows "conforms c h t (Confirm c h0 head t)"
proof (cases "\<exists>tx. fmlookup (trTxs t) h0 = Some tx \<and> tState tx = stateMined \<and> tBlockNum tx \<le> head")
  case True
  then obtain tx where tx: "fmlookup (trTxs t) h0 = Some tx" "tState tx = stateMined" "tBlockNum tx \<le> head" by blast
  have ok: "txOK h0 tx" by (rule trackerInv_tx [OF inv tx(1)])
  let ?k = "head - tBlockNum tx + 1" and ?t = "bury h0 TypeConfirmed (dropTx h0 t)"
  have s: "Confirm c h0 head t = (txEvents c tx TypeConfirmed ?k, ?t)" using tx by (simp add: Confirm_def leD)
  have ty: "typesFor c h (txEvents c tx TypeConfirmed ?k) = (if h = h0 then {TypeConfirmed} else {})"
    using typesFor_txEvents [OF hex, of tx h0 h TypeConfirmed ?k] ok by (simp add: txOK_def)
  show ?thesis
  proof (cases "h = h0")
    case True
    have "phaseOf t h \<noteq> Ended TypeConfirmed" using tx True by (simp add: phaseOf_def)
    from conformsI [OF final [OF this], of "(txEvents c tx TypeConfirmed ?k, ?t)" c] show ?thesis
      unfolding s using ty True phase_bury_self [of "dropTx h0 t" h0] by (simp add: tracker_simps)
  next
    case False
    have "phaseOf (dropTx h0 t) h = phaseOf t h" using False by (intro phaseOf_cong) (simp_all add: tracker_simps)
    then show ?thesis unfolding s using ty False phase_bury_other [OF False, of "dropTx h0 t"]
      by (intro conforms_quiet) simp_all
  qed
next
  case False
  then have "Confirm c h0 head t = ([], t)"
    by (auto simp: Confirm_def not_less split: option.splits)
  then show ?thesis by (simp add: conforms_quiet phase_simps)
qed

lemma gone_conforms:
  assumes hex: "hexOK c" and inv: "trackerInv t" and tx: "fmlookup (trTxs t) h0 = Some tx" "tState tx = statePending"
    and ty: "typesFor c h evs = (if h = h0 then {ty} else {})"
    and move: "lifecycle Pending (Some ty) (Ended ty)"
  shows "conforms c h t (evs, bury h0 ty (dropTx h0 (unindexNonce tx t)))"
proof (cases "h = h0")
  case True
  have "lifecycle (phaseOf t h) (Some ty) (Ended ty)" using tx True move by (simp add: phaseOf_def)
  from conformsI [OF this, of "(evs, bury h0 ty (dropTx h0 (unindexNonce tx t)))" c] show ?thesis
    using True ty phase_bury_self [of "dropTx h0 (unindexNonce tx t)" h0 ty] by (simp add: tracker_simps)
next
  case False
  have "phaseOf (dropTx h0 (unindexNonce tx t)) h = phaseOf t h"
    using False by (intro phaseOf_cong) (simp_all add: tracker_simps)
  then show ?thesis using ty False phase_bury_other [OF False, of "dropTx h0 (unindexNonce tx t)"]
    by (intro conforms_quiet) simp_all
qed

lemma OnDropStale_conforms:
  assumes hex: "hexOK c" and inv: "trackerInv t"
  shows "conforms c h t (OnDropStale c h0 stillKnown t)"
proof (cases "\<exists>tx. fmlookup (trTxs t) h0 = Some tx \<and> tState tx = statePending")
  case True
  then obtain tx where tx: "fmlookup (trTxs t) h0 = Some tx" "tState tx = statePending" by blast
  have ok: "txOK h0 tx" by (rule trackerInv_tx [OF inv tx(1)])
  show ?thesis
  proof (cases stillKnown)
    case True
    then have s: "OnDropStale c h0 stillKnown t =
        ([], putTx h0 (tx\<lparr>tPendingSince := trClock t (trTick t)\<rparr>) (t\<lparr>trTick := Suc (trTick t)\<rparr>))"
      using tx by (simp add: OnDropStale_def nowOf_def)
    have "phaseOf (snd (OnDropStale c h0 stillKnown t)) h = phaseOf t h"
      unfolding s using tx by (auto simp: phaseOf_def tracker_simps)
    then show ?thesis by (intro conforms_quiet) (simp_all add: s phase_simps)
  next
    case False
    have "typesFor c h (txEvents c tx TypeDropped 0) = (if h = h0 then {TypeDropped} else {})"
      using typesFor_txEvents [OF hex, of tx h0 h TypeDropped 0] ok by (simp add: txOK_def)
    from gone_conforms [OF hex inv tx this dropped] show ?thesis using False tx by (simp add: OnDropStale_def)
  qed
next
  case False
  then have "OnDropStale c h0 stillKnown t = ([], t)"
    by (cases "fmlookup (trTxs t) h0") (simp_all add: OnDropStale_def)
  then show ?thesis by (simp add: conforms_quiet phase_simps)
qed

lemma demoteTx_conforms:
  assumes hex: "hexOK c" and inv: "trackerInv t" and tx: "fmlookup (trTxs t) h0 = Some tx" "tState tx = stateMined"
  shows "conforms c h t (demoteTx c h0 tx t)"
proof -
  have ok: "txOK h0 tx" by (rule trackerInv_tx [OF inv tx(1)])
  let ?tx = "tx\<lparr>tState := statePending, tBlock := 0, tBlockNum := 0, tPendingSince := trClock t (trTick t)\<rparr>"
  let ?t = "indexNonce ?tx (putTx h0 ?tx (t\<lparr>trTick := Suc (trTick t)\<rparr>))"
  have s: "demoteTx c h0 tx t = (txEvents c tx TypeReorged 0, ?t)" by (simp add: demoteTx_def nowOf_def Let_def)
  have ty: "typesFor c h (txEvents c tx TypeReorged 0) = (if h = h0 then {TypeReorged} else {})"
    using typesFor_txEvents [OF hex, of tx h0 h TypeReorged 0] ok by (simp add: txOK_def)
  show ?thesis
  proof (cases "h = h0")
    case True
    have "lifecycle (phaseOf t h) (Some TypeReorged) (phaseOf ?t h)"
      using tx True by (simp add: phaseOf_def tracker_simps reorged)
    from conformsI [OF this, of "(txEvents c tx TypeReorged 0, ?t)" c] show ?thesis unfolding s using ty True by simp
  next
    case False
    then have "phaseOf ?t h = phaseOf t h" by (intro phaseOf_cong) (simp_all add: tracker_simps)
    then show ?thesis unfolding s using ty False by (intro conforms_quiet) simp_all
  qed
qed

lemma Demote_conforms: "hexOK c \<Longrightarrow> trackerInv t \<Longrightarrow> conforms c h t (Demote c h0 t)"
  using demoteTx_conforms [of c t h0]
  by (cases "fmlookup (trTxs t) h0") (simp_all add: Demote_def conforms_quiet phase_simps)

lemma OnHead_conforms: "conforms c h t ([], snd (OnHead ord head fin t))"
  by (rule conforms_quiet) (simp_all add: OnHead_def nowOf_def phase_simps phaseOf_def)

section \<open>Operations that visit several transactions\<close>

text \<open>
  A loop over distinct hashes whose rounds each conform, touch one hash, and do nothing for a
  hash that is not tracked.
\<close>

lemma phase_untracked: "fmlookup (trTxs t) h = None \<longleftrightarrow> phaseOf t h = Unknown \<or> (\<exists>ty. phaseOf t h = Ended ty)"
  by (cases "fmlookup (trTxs t) h"; cases "fmlookup (trTombstones t) h") (simp_all add: phaseOf_def)

lemma decays_untracked:
  "decays (phaseOf t h) (phaseOf t' h) \<Longrightarrow> fmlookup (trTxs t) h = None \<longleftrightarrow> fmlookup (trTxs t') h = None"
  unfolding phase_untracked decays_def by metis

lemma fold_conforms:
  assumes f: "\<And>x evs t. f x (evs, t) = (evs @ fst (g x t), snd (g x t))"
    and step: "\<And>x t. trackerInv t \<Longrightarrow> conforms c h t (g x t)"
    and inv: "\<And>x t. trackerInv t \<Longrightarrow> trackerInv (snd (g x t))"
    and other: "\<And>x t. trackerInv t \<Longrightarrow> h \<noteq> x \<Longrightarrow> typesFor c h (fst (g x t)) = {} \<and> decays (phaseOf t h) (phaseOf (snd (g x t)) h)"
    and idle: "\<And>x t. fmlookup (trTxs t) x = None \<Longrightarrow> g x t = ([], t)"
    and "distinct hs" and "trackerInv t"
  shows "\<exists>e p es. lifecycle (phaseOf t h) e p \<and> decays p (phaseOf (snd (fold f hs (evs, t))) h) \<and>
    fst (fold f hs (evs, t)) = evs @ es \<and> typesFor c h es = set_option e \<and>
    (h \<notin> set hs \<or> fmlookup (trTxs t) h = None \<longrightarrow> e = None \<and> p = phaseOf t h)"
  using assms(6,7)
proof (induction hs arbitrary: evs t)
  case Nil
  show ?case using stay [of "phaseOf t h"] by (intro exI [of _ None] exI [of _ "phaseOf t h"] exI [of _ "[]"]) (simp add: phase_simps)
next
  case (Cons x hs)
  let ?t = "snd (g x t)"
  have inv': "trackerInv ?t" using inv Cons.prems(2) by blast
  have fold: "fold f (x # hs) (evs, t) = fold f hs (evs @ fst (g x t), ?t)" by (simp add: f)
  from Cons.IH [OF _ inv', of "evs @ fst (g x t)"] Cons.prems(1) obtain e p es where
    IH: "lifecycle (phaseOf ?t h) e p" "decays p (phaseOf (snd (fold f (x # hs) (evs, t))) h)"
      "fst (fold f (x # hs) (evs, t)) = evs @ fst (g x t) @ es" "typesFor c h es = set_option e"
      "h \<notin> set hs \<or> fmlookup (trTxs ?t) h = None \<longrightarrow> e = None \<and> p = phaseOf ?t h"
    unfolding fold by auto
  show ?case
  proof (cases "h = x")
    case True
    then have rest: "e = None" "p = phaseOf ?t h" using IH(5) Cons.prems(1) by auto
    obtain e1 p1 where s: "lifecycle (phaseOf t h) e1 p1" "decays p1 (phaseOf ?t h)"
        "typesFor c h (fst (g x t)) = set_option e1"
      using step [OF Cons.prems(2), of x] unfolding conforms_def by blast
    show ?thesis
    proof (cases "fmlookup (trTxs t) h")
      case None
      then have "g x t = ([], t)" using idle True by blast
      then show ?thesis using IH rest stay [of "phaseOf t h"] by (intro exI conjI) (auto simp: phase_simps)
    next
      case (Some tx)
      have "typesFor c h (fst (g x t) @ es) = set_option e1" using s(3) IH(4) rest by (simp add: phase_simps)
      moreover have "decays p1 (phaseOf (snd (fold f (x # hs) (evs, t))) h)"
        using decays_trans [OF s(2)] IH(2) rest(2) by simp
      ultimately show ?thesis using s(1) IH(3) Some True
        by (intro exI [of _ e1] exI [of _ p1] exI [of _ "fst (g x t) @ es"]) simp
    qed
  next
    case False
    have o: "typesFor c h (fst (g x t)) = {}" "decays (phaseOf t h) (phaseOf ?t h)"
      using other [OF Cons.prems(2) False] by auto
    have ty: "typesFor c h (fst (g x t) @ es) = set_option e" using o(1) IH(4) by (simp add: phase_simps)
    show ?thesis
    proof (cases "phaseOf ?t h = phaseOf t h")
      case True
      moreover have "fmlookup (trTxs t) h = None \<longleftrightarrow> fmlookup (trTxs ?t) h = None" by (rule decays_untracked [OF o(2)])
      ultimately show ?thesis using IH ty False
        by (intro exI [of _ e] exI [of _ p] exI [of _ "fst (g x t) @ es"]) simp
    next
      case gone: False
      then have u: "phaseOf ?t h = Unknown" "\<exists>ty. phaseOf t h = Ended ty" using o(2) by (auto simp: decays_def)
      then have "fmlookup (trTxs ?t) h = None" by (simp add: phase_untracked)
      then have "e = None" "p = phaseOf ?t h" using IH(5) by auto
      then have "decays (phaseOf t h) (phaseOf (snd (fold f (x # hs) (evs, t))) h)"
        using decays_trans [OF o(2)] IH(2) by simp
      then show ?thesis using IH(3) ty \<open>e = None\<close> stay [of "phaseOf t h"]
        by (intro exI [of _ None] exI [of _ "phaseOf t h"] exI [of _ "fst (g x t) @ es"]) simp
    qed
  qed
qed

lemma fold_conforms_op:
  assumes "\<exists>e p es. lifecycle (phaseOf t h) e p \<and> decays p (phaseOf (snd r) h) \<and>
    fst r = [] @ es \<and> typesFor c h es = set_option e \<and> X e p"
  shows "conforms c h t r"
  using assms unfolding conforms_def by auto

lemma replaceOne_acc: "replaceOne c byHash x (evs, t) =
    (evs @ fst (replaceOne c byHash x ([], t)), snd (replaceOne c byHash x ([], t)))"
  by (simp add: replaceOne_def split: option.split)

lemma replaceOne_conforms:
  assumes hex: "hexOK c" and inv: "trackerInv t"
  shows "conforms c h t (replaceOne c byHash x ([], t)) \<and>
    (h \<noteq> x \<longrightarrow> typesFor c h (fst (replaceOne c byHash x ([], t))) = {} \<and>
      decays (phaseOf t h) (phaseOf (snd (replaceOne c byHash x ([], t))) h))"
proof (cases "x \<noteq> byHash \<and> (\<exists>tx. fmlookup (trTxs t) x = Some tx \<and> tState tx = statePending)")
  case True
  then obtain tx where tx: "fmlookup (trTxs t) x = Some tx" "tState tx = statePending" and ne: "x \<noteq> byHash" by blast
  let ?evs = "map (\<lambda>e. e\<lparr>evReplacedBy := hashHex c byHash\<rparr>) (txEvents c tx TypeReplaced 0)"
  let ?t = "bury x TypeReplaced (dropTx x (unindexNonce tx t))"
  have s: "replaceOne c byHash x ([], t) = (?evs, ?t)" using tx ne by (simp add: replaceOne_def)
  have ok: "txOK x tx" by (rule trackerInv_tx [OF inv tx(1)])
  have ty: "typesFor c h ?evs = (if h = x then {TypeReplaced} else {})"
    using typesFor_txEvents [OF hex, of tx x h TypeReplaced 0] ok by (simp add: typesFor_replaced txOK_def)
  have "decays (phaseOf t h) (phaseOf ?t h)" if "h \<noteq> x"
  proof -
    have "phaseOf (dropTx x (unindexNonce tx t)) h = phaseOf t h"
      using that by (intro phaseOf_cong) (simp_all add: tracker_simps)
    then show ?thesis using phase_bury_other [OF that, of "dropTx x (unindexNonce tx t)"] by simp
  qed
  then show ?thesis unfolding s using gone_conforms [OF hex inv tx ty replaced] ty by simp
next
  case False
  then have "replaceOne c byHash x ([], t) = ([], t)" by (auto simp: replaceOne_def split: option.splits)
  then show ?thesis by (simp add: conforms_quiet phase_simps)
qed

lemma OnNonceUsed_conforms:
  assumes hex: "hexOK c" and inv: "trackerInv t"
  shows "conforms c h t (OnNonceUsed c sender nonce byHash t)"
proof -
  have d: "distinct (getSlice (trByNonce t) (sender, nonce))"
    using trackerInv_index [OF inv] by (simp add: nidx.indexes_def)
  have "\<exists>e p es. lifecycle (phaseOf t h) e p \<and>
      decays p (phaseOf (snd (fold (replaceOne c byHash) (getSlice (trByNonce t) (sender, nonce)) ([], t))) h) \<and>
      fst (fold (replaceOne c byHash) (getSlice (trByNonce t) (sender, nonce)) ([], t)) = [] @ es \<and>
      typesFor c h es = set_option e \<and>
      (h \<notin> set (getSlice (trByNonce t) (sender, nonce)) \<or> fmlookup (trTxs t) h = None \<longrightarrow> e = None \<and> p = phaseOf t h)"
  proof (rule fold_conforms [where g = "\<lambda>x t. replaceOne c byHash x ([], t)", OF _ _ _ _ _ d inv])
    show "replaceOne c byHash x (evs, t) = (evs @ fst (replaceOne c byHash x ([], t)), snd (replaceOne c byHash x ([], t)))"
      for x evs t by (rule replaceOne_acc)
    show "fmlookup (trTxs t) x = None \<Longrightarrow> replaceOne c byHash x ([], t) = ([], t)" for x t
      by (simp add: replaceOne_def)
  qed (use replaceOne_conforms [OF hex] replaceOne_inv in auto)
  then show ?thesis unfolding OnNonceUsed_def by (rule fold_conforms_op)
qed

lemma reorgOne_acc: "reorgOne c ancestor x (evs, t) =
    (evs @ fst (reorgOne c ancestor x ([], t)), snd (reorgOne c ancestor x ([], t)))"
  by (simp add: reorgOne_def split: option.split prod.split)

lemma demoteTx_other: "h \<noteq> x \<Longrightarrow> phaseOf (snd (demoteTx c x tx t)) h = phaseOf t h"
  by (intro phaseOf_cong) (simp_all add: demoteTx_def nowOf_def Let_def tracker_simps)

lemma demoteTx_events:
  "hexOK c \<Longrightarrow> txOK x tx \<Longrightarrow> typesFor c h (fst (demoteTx c x tx t)) = (if h = x then {TypeReorged} else {})"
  using typesFor_txEvents [of c tx x h TypeReorged 0] by (simp add: demoteTx_def nowOf_def Let_def txOK_def)

lemma reorgOne_conforms:
  assumes hex: "hexOK c" and inv: "trackerInv t"
  shows "conforms c h t (reorgOne c ancestor x ([], t)) \<and>
    (h \<noteq> x \<longrightarrow> typesFor c h (fst (reorgOne c ancestor x ([], t))) = {} \<and>
      decays (phaseOf t h) (phaseOf (snd (reorgOne c ancestor x ([], t))) h))"
proof (cases "\<exists>tx. fmlookup (trTxs t) x = Some tx \<and> tState tx = stateMined \<and> \<not> tBlockNum tx \<le> ancestor")
  case True
  then obtain tx where tx: "fmlookup (trTxs t) x = Some tx" "tState tx = stateMined" "\<not> tBlockNum tx \<le> ancestor" by blast
  then have s: "reorgOne c ancestor x ([], t) = demoteTx c x tx t" by (simp add: reorgOne_def)
  show ?thesis unfolding s
    using demoteTx_conforms [OF hex inv tx(1,2)] demoteTx_events [OF hex trackerInv_tx [OF inv tx(1)]]
    by (simp add: demoteTx_other)
next
  case False
  then have "reorgOne c ancestor x ([], t) = ([], t)" by (auto simp: reorgOne_def split: option.splits)
  then show ?thesis by (simp add: conforms_quiet phase_simps)
qed

lemma OnReorg_conforms:
  assumes hex: "hexOK c" and inv: "trackerInv t" and d: "distinct ord"
  shows "conforms c h t (OnReorg c ord ancestor t)"
proof -
  have "\<exists>e p es. lifecycle (phaseOf t h) e p \<and> decays p (phaseOf (snd (fold (reorgOne c ancestor) ord ([], t))) h) \<and>
      fst (fold (reorgOne c ancestor) ord ([], t)) = [] @ es \<and> typesFor c h es = set_option e \<and>
      (h \<notin> set ord \<or> fmlookup (trTxs t) h = None \<longrightarrow> e = None \<and> p = phaseOf t h)"
  proof (rule fold_conforms [where g = "\<lambda>x t. reorgOne c ancestor x ([], t)", OF _ _ _ _ _ d inv])
    show "reorgOne c ancestor x (evs, t) = (evs @ fst (reorgOne c ancestor x ([], t)), snd (reorgOne c ancestor x ([], t)))"
      for x evs t by (rule reorgOne_acc)
    show "fmlookup (trTxs t) x = None \<Longrightarrow> reorgOne c ancestor x ([], t) = ([], t)" for x t
      by (simp add: reorgOne_def)
  qed (use reorgOne_conforms [OF hex] reorgOne_inv in auto)
  then show ?thesis unfolding OnReorg_def by (rule fold_conforms_op)
qed

lemma trackerExec_conforms:
  "hexOK c \<Longrightarrow> trackerInv t \<Longrightarrow> trackerOpOK op t \<Longrightarrow> conforms c h t (trackerExec c op t)"
  by (cases op) (auto simp: rangeOrder_def intro: OnPending_conforms OnMined_conforms OnHead_conforms
    Confirm_conforms OnDropStale_conforms OnNonceUsed_conforms OnReorg_conforms Demote_conforms)

end
