(* ===== verification/Graves.thy ===== *)
theory Graves
  imports Lifecycle
begin

text \<open>
  The tracker's memory of ended transactions (internal/indexer/tracker.go, \<open>bury\<close>): it is bounded,
  and the most recent 8192 burials are remembered. Both rest on the sequence numbers, so they
  hold for the first \<open>2 ^ 64 - 1\<close> burials of a process.
\<close>

section \<open>The memory as an interface\<close>

text \<open>
  What the lifecycle needs of the memory, whatever its layout: a burial remembers the hash, it
  forgets another hash only when that one is older than \<open>cap\<close> burials, and looking never changes
  it. \<open>age\<close> is the number of burials since that of the hash.
\<close>

locale grave_memory =
  fixes bury :: "'h \<Rightarrow> 'v \<Rightarrow> 's \<Rightarrow> 's"
    and mem :: "'s \<Rightarrow> 'h \<Rightarrow> 'v option"
    and age :: "'s \<Rightarrow> 'h \<Rightarrow> nat"
    and wf :: "'s \<Rightarrow> bool"
    and more :: "'s \<Rightarrow> bool"
    and cap :: nat
  assumes wf_bury: "wf s \<Longrightarrow> more s \<Longrightarrow> wf (bury h v s)"
    and mem_self: "wf s \<Longrightarrow> more s \<Longrightarrow> mem (bury h v s) h = Some v \<and> age (bury h v s) h = 0"
    and mem_other: "wf s \<Longrightarrow> more s \<Longrightarrow> h' \<noteq> h \<Longrightarrow> mem s h' = Some v' \<Longrightarrow> age s h' + 1 < cap \<Longrightarrow>
        mem (bury h v s) h' = Some v' \<and> age (bury h v s) h' = age s h' + 1"
begin

fun buryAll :: "('h \<times> 'v) list \<Rightarrow> 's \<Rightarrow> 's" where
  "buryAll [] s = s"
| "buryAll ((h, v) # hs) s = buryAll hs (bury h v s)"

fun moreAll :: "('h \<times> 'v) list \<Rightarrow> 's \<Rightarrow> bool" where
  "moreAll [] s = True"
| "moreAll ((h, v) # hs) s = (more s \<and> moreAll hs (bury h v s))"

lemma remembered_aged:
  assumes "wf s" and "moreAll hs s" and "h \<notin> fst ` set hs" and "mem s h = Some v" and "age s h + length hs < cap"
  shows "mem (buryAll hs s) h = Some v"
  using assms
proof (induction hs s rule: buryAll.induct)
  case (2 h0 v0 hs s)
  then show ?case using mem_other [of s h h0 v v0] wf_bury [of s h0 v0] by auto
qed simp

text \<open>A burial is remembered until \<open>cap\<close> others have followed.\<close>

lemma remembered:
  assumes "wf s" and "moreAll ((h, v) # hs) s" and "h \<notin> fst ` set hs" and "length hs < cap"
  shows "mem (buryAll ((h, v) # hs) s) h = Some v"
  using assms mem_self [of s h v] wf_bury [of s h v] by (auto intro: remembered_aged)

end

section \<open>The FIFO and its eviction\<close>

text \<open>Every live tombstone has its entry in the FIFO, whose sequence numbers increase up to \<open>n\<close>.\<close>

definition fifoInv :: "nat \<Rightarrow> tombstoneRef list \<Rightarrow> (hash, tombstone) fmap \<Rightarrow> bool" where
  "fifoInv n F T \<longleftrightarrow>
     (\<forall>h ts. fmlookup T h = Some ts \<longrightarrow> (h, tsSeq ts) \<in> set F) \<and>
     sorted_wrt (\<lambda>a b. unat (snd a) < unat (snd b)) F \<and> (\<forall>r \<in> set F. unat (snd r) \<le> n)"

lemma sorted_key_inj:
  fixes f :: "'a \<Rightarrow> nat"
  shows "sorted_wrt (\<lambda>a b. f a < f b) xs \<Longrightarrow> inj_on f (set xs) \<and> distinct xs"
proof (induction xs)
  case (Cons x xs)
  then have lt: "\<forall>y \<in> set xs. f x < f y" and IH: "inj_on f (set xs)" "distinct xs" by simp_all
  have "f x \<notin> f ` set xs" using lt by (metis imageE less_irrefl)
  then have "x \<notin> set xs" "inj_on f (set (x # xs))" using IH(1) by (auto simp: inj_on_insert)
  then show ?case using IH(2) by simp
qed simp

lemma fifoInv_live_card:
  assumes inv: "fifoInv n (r # F) T" and live: "liveRef T r"
  shows "goLen T \<le> n - unat (snd r) + 1"
proof -
  let ?seq = "\<lambda>h. unat (tsSeq (the (fmlookup T h)))"
  have mem: "(h, tsSeq (the (fmlookup T h))) \<in> set (r # F)" if "h \<in> fmdom' T" for h
    using inv that by (auto simp: fifoInv_def fmlookup_dom'_iff)
  have inj: "inj_on ?seq (fmdom' T)"
  proof (rule inj_onI)
    fix a b assume a: "a \<in> fmdom' T" and b: "b \<in> fmdom' T" and e: "?seq a = ?seq b"
    have "inj_on (\<lambda>r. unat (snd r)) (set (r # F))"
      using inv sorted_key_inj [of "\<lambda>r. unat (snd r)" "r # F"] by (simp only: fifoInv_def)
    from inj_onD [OF this _ mem [OF a] mem [OF b]] e show "a = b" by simp
  qed
  have "?seq ` fmdom' T \<subseteq> {unat (snd r)..n}"
  proof
    fix x assume "x \<in> ?seq ` fmdom' T"
    then obtain h where h: "h \<in> fmdom' T" "x = ?seq h" by blast
    from mem [OF h(1)] have "(h, tsSeq (the (fmlookup T h))) = r \<or> (h, tsSeq (the (fmlookup T h))) \<in> set F" by simp
    then show "x \<in> {unat (snd r)..n}" using inv h(2) unfolding fifoInv_def by (auto dest: less_imp_le)
  qed
  from card_mono [OF _ this] have "card (fmdom' T) \<le> card {unat (snd r)..n}" by (simp only: card_image [OF inj] finite_atLeastAtMost)
  then show ?thesis by (simp add: goLen_card)
qed

lemma fifoInv_pop:
  assumes inv: "fifoInv n (r # F) T"
  shows "fifoInv n F (if liveRef T r then fmdrop (fst r) T else T)"
proof -
  have "(h, tsSeq ts) \<in> set F" if "fmlookup (if liveRef T r then fmdrop (fst r) T else T) h = Some ts" for h ts
  proof -
    have "fmlookup T h = Some ts" "liveRef T r \<Longrightarrow> h \<noteq> fst r" using that by (auto split: if_splits)
    then show ?thesis using inv by (cases "h = fst r"; cases r) (auto simp: fifoInv_def liveRef_def)
  qed
  then show ?thesis using inv by (auto simp: fifoInv_def)
qed

lemma evictLoop_inv:
  assumes "fifoInv n F T"
  shows "fifoInv n (fst (evictLoop F T)) (snd (evictLoop F T)) \<and> goLen (snd (evictLoop F T)) \<le> tombstoneCap \<and>
    length (fst (evictLoop F T)) \<le> length F"
  using assms
proof (induction F T rule: evictLoop.induct)
  case (1 T)
  then have "fmlookup T x = None" for x by (cases "fmlookup T x") (auto simp: fifoInv_def)
  then have "T = fmempty" by (intro fmap_ext) simp
  then show ?case using 1 by simp
next
  case (2 r F T)
  show ?case
  proof (cases "tombstoneCap < goLen T")
    case True
    then show ?thesis using 2 fifoInv_pop [OF 2(2)] by fastforce
  next
    case False
    then show ?thesis using 2(2) by simp
  qed
qed

lemma evictLoop_keeps:
  assumes "fifoInv n F T" and "fmlookup T h = Some ts" and "n < unat (tsSeq ts) + tombstoneCap"
  shows "fmlookup (snd (evictLoop F T)) h = Some ts"
  using assms
proof (induction F T rule: evictLoop.induct)
  case (2 r F T)
  show ?case
  proof (cases "tombstoneCap < goLen T")
    case True
    have "\<not> (liveRef T r \<and> fst r = h)"
    proof
      assume l: "liveRef T r \<and> fst r = h"
      then have "snd r = tsSeq ts" using 2(3) by (auto simp: liveRef_def)
      moreover have "goLen T \<le> n - unat (snd r) + 1" using fifoInv_live_card [OF 2(2)] l by blast
      ultimately show False using True 2(4) by (simp add: tombstoneCap_def)
    qed
    then have "fmlookup (if liveRef T r then fmdrop (fst r) T else T) h = Some ts" using 2(3) by auto
    then show ?thesis using True 2(1) [OF True fifoInv_pop [OF 2(2)]] 2(4) by simp
  qed (use 2(3) in simp)
qed simp

lemma live_length:
  assumes inv: "fifoInv n F T"
  shows "length (filter (liveRef T) F) \<le> goLen T"
proof -
  have "sorted_wrt (\<lambda>a b. unat (snd a) < unat (snd b)) (filter (liveRef T) F)"
    using inv by (simp add: fifoInv_def sorted_wrt_filter)
  then have d: "distinct (filter (liveRef T) F)"
    using sorted_key_inj [of "\<lambda>r. unat (snd r)" "filter (liveRef T) F"] by simp
  have "inj_on fst (set (filter (liveRef T) F))"
    by (rule inj_onI) (auto simp: liveRef_def split: option.splits)
  then have "length (filter (liveRef T) F) = card (fst ` set (filter (liveRef T) F))"
    using distinct_card [OF d] by (simp only: card_image)
  also have "\<dots> \<le> card (fmdom' T)"
    by (rule card_mono) (auto simp: liveRef_def fmlookup_dom'_iff split: option.splits)
  finally show ?thesis by (simp add: goLen_card)
qed

lemma fifoInv_filter: "fifoInv n F T \<Longrightarrow> fifoInv n (filter (liveRef T) F) T"
  by (auto simp: fifoInv_def liveRef_def sorted_wrt_filter)

section \<open>The tracker's memory\<close>

definition graveInv :: "tracker \<Rightarrow> bool" where
  "graveInv t \<longleftrightarrow> fifoInv (unat (trSeq t)) (trFIFO t) (trTombstones t) \<and>
     goLen (trTombstones t) \<le> tombstoneCap \<and> length (trFIFO t) \<le> 2 * tombstoneCap"

lemma graveInv_new: "graveInv (NewTracker conf timeout clk)"
  by (simp add: graveInv_def NewTracker_def fifoInv_def)

lemma fifoInv_push:
  assumes "fifoInv n F T" and "unat s = Suc n"
  shows "fifoInv (Suc n) (F @ [(h, s)]) (fmupd h \<lparr>tsTyp = ty, tsSeq = s\<rparr> T)"
  using assms by (auto simp: fifoInv_def sorted_wrt_append less_Suc_eq_le le_SucI)

lemma bury_grave:
  assumes inv: "graveInv t" and more: "trSeq t \<noteq> - 1"
  shows "graveInv (bury h ty t) \<and> fmlookup (trTombstones (bury h ty t)) h = Some \<lparr>tsTyp = ty, tsSeq = trSeq t + 1\<rparr> \<and>
    unat (trSeq (bury h ty t)) = Suc (unat (trSeq t)) \<and>
    (\<forall>h' ts. h' \<noteq> h \<and> fmlookup (trTombstones t) h' = Some ts \<and> unat (trSeq t) + 1 < unat (tsSeq ts) + tombstoneCap \<longrightarrow>
      fmlookup (trTombstones (bury h ty t)) h' = Some ts)"
proof -
  let ?s = "trSeq t + 1"
  let ?F = "trFIFO t @ [(h, ?s)]" and ?T = "fmupd h \<lparr>tsTyp = ty, tsSeq = ?s\<rparr> (trTombstones t)"
  have s: "unat ?s = Suc (unat (trSeq t))" using more by (rule u64_Suc_max)
  have push: "fifoInv (unat ?s) ?F ?T"
    using fifoInv_push [of "unat (trSeq t)" "trFIFO t" "trTombstones t" ?s h ty] inv s by (simp add: graveInv_def)
  obtain F T where e: "evictLoop ?F ?T = (F, T)" by (cases "evictLoop ?F ?T")
  have ev: "fifoInv (unat ?s) F T" "goLen T \<le> tombstoneCap" "length F \<le> Suc (length (trFIFO t))"
    using evictLoop_inv [OF push] e by auto
  let ?F' = "if 2 * tombstoneCap < length F then filter (liveRef T) F else F"
  have b: "bury h ty t = t\<lparr>trSeq := ?s, trTombstones := T, trFIFO := ?F'\<rparr>" by (simp add: bury_def Let_def e)
  have "length ?F' \<le> 2 * tombstoneCap" using live_length [OF ev(1)] ev(2) by auto
  then have "graveInv (bury h ty t)" using ev fifoInv_filter [OF ev(1)] by (simp add: graveInv_def b)
  moreover have "fmlookup T h' = Some ts" if "fmlookup ?T h' = Some ts" "unat ?s < unat (tsSeq ts) + tombstoneCap" for h' ts
    using evictLoop_keeps [OF push that] e by simp
  moreover have "0 < tombstoneCap" by (simp add: tombstoneCap_def)
  ultimately show ?thesis using s by (auto simp: b)
qed

definition graveMem :: "tracker \<Rightarrow> hash \<Rightarrow> string option" where
  "graveMem t h = map_option tsTyp (fmlookup (trTombstones t) h)"

definition graveAge :: "tracker \<Rightarrow> hash \<Rightarrow> nat" where
  "graveAge t h = (case fmlookup (trTombstones t) h of None \<Rightarrow> 0 | Some ts \<Rightarrow> unat (trSeq t) - unat (tsSeq ts))"

lemma grave_seq_le: "graveInv t \<Longrightarrow> fmlookup (trTombstones t) h = Some ts \<Longrightarrow> unat (tsSeq ts) \<le> unat (trSeq t)"
  unfolding graveInv_def fifoInv_def by (metis snd_conv)

interpretation graves: grave_memory bury graveMem graveAge graveInv "\<lambda>t. trSeq t \<noteq> - 1" tombstoneCap
proof
  fix t h ty assume inv: "graveInv t" and more: "trSeq t \<noteq> - 1"
  note B = bury_grave [OF inv more, of h ty]
  show "graveInv (bury h ty t)" using B by blast
  have "trSeq (bury h ty t) = trSeq t + 1" by (simp add: bury_def Let_def split: prod.split)
  then show "graveMem (bury h ty t) h = Some ty \<and> graveAge (bury h ty t) h = 0"
    using B by (simp add: graveMem_def graveAge_def)
  fix h' ty' assume o: "h' \<noteq> h" "graveMem t h' = Some ty'" "graveAge t h' + 1 < tombstoneCap"
  then obtain ts where ts: "fmlookup (trTombstones t) h' = Some ts" "tsTyp ts = ty'" by (auto simp: graveMem_def)
  have le: "unat (tsSeq ts) \<le> unat (trSeq t)" by (rule grave_seq_le [OF inv ts(1)])
  have "unat (trSeq t) + 1 < unat (tsSeq ts) + tombstoneCap" using o(3) ts(1) le by (simp add: graveAge_def)
  then have "fmlookup (trTombstones (bury h ty t)) h' = Some ts" using B o(1) ts(1) by blast
  then show "graveMem (bury h ty t) h' = Some ty' \<and> graveAge (bury h ty t) h' = graveAge t h' + 1"
    using ts le B by (simp add: graveMem_def graveAge_def)
qed

section \<open>The memory along a run\<close>

text \<open>Only burials touch the memory, but for \<open>OnMined\<close> clearing the tombstone of a hash that was
  not confirmed. A step buries at most every tracked transaction and one more.\<close>

definition roomy :: "tracker \<Rightarrow> bool" where
  "roomy t \<longleftrightarrow> unat (trSeq t) + goLen (trTxs t) + 1 < 2 ^ 64"

lemma fifoInv_drop: "fifoInv n F T \<Longrightarrow> fifoInv n F (fmdrop h T)"
  by (auto simp: fifoInv_def)

lemma graveInv_cong: "trSeq t' = trSeq t \<Longrightarrow> trFIFO t' = trFIFO t \<Longrightarrow> trTombstones t' = trTombstones t \<Longrightarrow>
    graveInv t' = graveInv t"
  by (simp add: graveInv_def)

lemma graveInv_clear: "graveInv t \<Longrightarrow> graveInv (t\<lparr>trTombstones := fmdrop h (trTombstones t)\<rparr>)"
  by (auto simp: graveInv_def goLen_drop intro: fifoInv_drop)

text \<open>What a step may do to the memory of a confirmed hash \<open>h\<close>: age it. The \<open>extra\<close> is the number of
  burials beyond the transactions that left the map.\<close>

definition ages :: "nat \<Rightarrow> hash \<Rightarrow> tracker \<Rightarrow> tracker \<Rightarrow> bool" where
  "ages extra h t t' \<longleftrightarrow> graveInv t' \<and> unat (trSeq t) \<le> unat (trSeq t') \<and>
     unat (trSeq t') + goLen (trTxs t') \<le> unat (trSeq t) + goLen (trTxs t) + extra \<and>
     (\<forall>ts. fmlookup (trTombstones t) h = Some ts \<and> tsTyp ts = TypeConfirmed \<and>
         unat (trSeq t') < unat (tsSeq ts) + tombstoneCap \<longrightarrow> fmlookup (trTombstones t') h = Some ts)"

lemma ages_refl: "graveInv t \<Longrightarrow> ages k h t t"
  by (simp add: ages_def)

lemma ages_weaken: "ages j h t t' \<Longrightarrow> j \<le> k \<Longrightarrow> ages k h t t'"
  by (auto simp: ages_def)

lemma ages_trans: "ages 0 h t t' \<Longrightarrow> ages 0 h t' t'' \<Longrightarrow> ages 0 h t t''"
  unfolding ages_def by (auto intro: le_trans)

lemma ages_same:
  "graveInv t \<Longrightarrow> trSeq t' = trSeq t \<Longrightarrow> trFIFO t' = trFIFO t \<Longrightarrow> trTombstones t' = trTombstones t \<Longrightarrow>
    goLen (trTxs t') \<le> goLen (trTxs t) + k \<Longrightarrow> ages k h t t'"
  using graveInv_cong [of t' t] by (simp add: ages_def)

lemma seq_not_max: "unat (trSeq t) + 1 < 2 ^ 64 \<Longrightarrow> trSeq t \<noteq> - 1"
  using u64_max by auto

text \<open>A transaction that is not confirmed ends: it leaves the map, if it was there, and is buried.\<close>

lemma bury_ages:
  assumes inv: "graveInv t" and room: "unat (trSeq t) + 1 < 2 ^ 64"
    and x: "\<forall>ts. fmlookup (trTombstones t) x = Some ts \<longrightarrow> tsTyp ts \<noteq> TypeConfirmed"
    and same: "trSeq t' = trSeq t" "trFIFO t' = trFIFO t"
      "trTombstones t' = trTombstones t \<or> trTombstones t' = fmdrop x (trTombstones t)"
    and len: "Suc (goLen (trTxs t')) \<le> goLen (trTxs t) + k"
  shows "ages k h t (bury x ty t')"
proof -
  have "graveInv t'" using inv same by (auto simp: graveInv_def goLen_drop intro: fifoInv_drop)
  moreover have "trSeq t' \<noteq> - 1" using seq_not_max [OF room] same by simp
  ultimately have B: "graveInv (bury x ty t') \<and> unat (trSeq (bury x ty t')) = Suc (unat (trSeq t)) \<and>
    (\<forall>h' ts. h' \<noteq> x \<and> fmlookup (trTombstones t') h' = Some ts \<and> unat (trSeq t) + 1 < unat (tsSeq ts) + tombstoneCap \<longrightarrow>
      fmlookup (trTombstones (bury x ty t')) h' = Some ts)"
    using bury_grave [of t' x ty] same(1) by simp
  have "fmlookup (trTombstones (bury x ty t')) h = Some ts"
    if "fmlookup (trTombstones t) h = Some ts" "tsTyp ts = TypeConfirmed"
      "unat (trSeq (bury x ty t')) < unat (tsSeq ts) + tombstoneCap" for ts
  proof -
    have "h \<noteq> x" using that x by auto
    then have "fmlookup (trTombstones t') h = Some ts" using same(3) that(1) by auto
    then show ?thesis using B that(3) \<open>h \<noteq> x\<close> by simp
  qed
  then show ?thesis using B len by (auto simp: ages_def tracker_simps)
qed

lemma goLen_drop_tracked: "fmlookup m x = Some tx \<Longrightarrow> Suc (goLen (fmdrop x m)) = goLen m"
  using goLen_0_iff [of m] by (cases "goLen m") (auto simp: goLen_drop)

lemma tracked_not_confirmed:
  "trackerInv t \<Longrightarrow> fmlookup (trTxs t) x = Some tx \<Longrightarrow>
    \<forall>ts. fmlookup (trTombstones t) x = Some ts \<longrightarrow> tsTyp ts \<noteq> TypeConfirmed"
  using trackerInv_grave [of t x] by fastforce

lemma end_ages:
  assumes "trackerInv t" and "graveInv t" and "unat (trSeq t) + 1 < 2 ^ 64" and tx: "fmlookup (trTxs t) x = Some tx"
  shows "ages 0 h t (bury x ty (dropTx x t))" and "ages 0 h t (bury x ty (dropTx x (unindexNonce tx t)))"
  by (rule bury_ages [OF assms(2,3) tracked_not_confirmed [OF assms(1) tx]];
      simp add: tracker_simps goLen_drop_tracked [OF tx])+

lemma OnMined_ages:
  assumes inv: "trackerInv t" and grave: "graveInv t" and room: "roomy t"
  shows "ages 1 h t (snd (OnMined c x bh bn tr failed confs fin t))"
proof (cases "\<exists>ts. fmlookup (trTombstones t) x = Some ts \<and> tsTyp ts = TypeConfirmed")
  case True
  then have "OnMined c x bh bn tr failed confs fin t = ([], t)" by (auto simp: OnMined_def)
  then show ?thesis using ages_refl [OF grave] by simp
next
  case live: False
  let ?t1 = "t\<lparr>trTombstones := fmdrop x (trTombstones t)\<rparr>"
  have x: "\<forall>ts. fmlookup (trTombstones t) x = Some ts \<longrightarrow> tsTyp ts \<noteq> TypeConfirmed" using live by blast
  have room': "unat (trSeq t) + 1 < 2 ^ 64" using room by (simp add: roomy_def)
  have keep: "ages 1 h t t'" if "trSeq t' = trSeq t" "trFIFO t' = trFIFO t" "trTombstones t' = fmdrop x (trTombstones t)"
      "goLen (trTxs t') \<le> Suc (goLen (trTxs t))" for t'
    using that x grave graveInv_clear [OF grave, of x]
    by (auto simp: ages_def graveInv_def)
  have mine: "ages 1 h t (snd (mineTx c x bh bn tr failed confs fin tx t2))"
    if "trSeq t2 = trSeq t" "trFIFO t2 = trFIFO t" "trTombstones t2 = fmdrop x (trTombstones t)"
      "fmdrop x (trTxs t2) = fmdrop x (trTxs t)" for tx t2
  proof -
    let ?t3 = "putTx x (minedRecord bh bn tr (trClock t2 (trTick t2)) tx) (minedBase tx t2)"
    have "goLen (fmdrop x (trTxs t)) \<le> goLen (trTxs t)" by (simp add: goLen_drop)
    then have b: "ages 1 h t (bury x ty (dropTx x ?t3))" for ty
      by (intro bury_ages [OF grave room' x]) (simp_all add: tracker_simps that)
    have "goLen (fmupd x r (trTxs t2)) \<le> Suc (goLen (trTxs t))" for r
    proof -
      have "goLen (fmupd x r (trTxs t2)) = Suc (goLen (fmdrop x (fmupd x r (trTxs t2))))"
        by (rule goLen_drop_tracked [symmetric]) simp
      also have "fmdrop x (fmupd x r (trTxs t2)) = fmdrop x (trTxs t)" using that(4) by (simp add: tracker_simps)
      finally show ?thesis by (simp add: goLen_drop)
    qed
    then have "ages 1 h t ?t3" by (intro keep) (simp_all add: tracker_simps that)
    then show ?thesis using b by (simp add: mineTx_outcome Let_def)
  qed
  show ?thesis
  proof (cases "fmlookup (trTxs t) x")
    case None
    then have "OnMined c x bh bn tr failed confs fin t = mineTx c x bh bn tr failed confs fin
        (freshTx x (trClock t (trTick t))) (putTx x (freshTx x (trClock t (trTick t))) (?t1\<lparr>trTick := Suc (trTick t)\<rparr>))"
      using live by (auto simp: OnMined_def Let_def nowOf_def split: option.splits)
    then show ?thesis by (simp only:) (rule mine, simp_all add: tracker_simps)
  next
    case (Some tx)
    then have "OnMined c x bh bn tr failed confs fin t = (if tState tx = stateMined \<and> tBlock tx = bh then ([], ?t1)
        else mineTx c x bh bn tr failed confs fin tx ?t1)"
      using live by (auto simp: OnMined_def Let_def split: option.splits)
    moreover have "ages 1 h t ?t1" by (rule keep) simp_all
    moreover have "ages 1 h t (snd (mineTx c x bh bn tr failed confs fin tx ?t1))"
      by (rule mine) simp_all
    ultimately show ?thesis by simp
  qed
qed

lemma fold_ages:
  assumes round: "\<And>x r. trackerInv (snd r) \<Longrightarrow> graveInv (snd r) \<Longrightarrow> roomy (snd r) \<Longrightarrow> ages 0 h (snd r) (snd (f x r))"
    and inv: "\<And>x r. trackerInv (snd r) \<Longrightarrow> trackerInv (snd (f x r))"
    and "trackerInv (snd r)" and "graveInv (snd r)" and "roomy (snd r)"
  shows "ages 0 h (snd r) (snd (fold f xs r))"
  using assms(3-)
proof (induction xs arbitrary: r)
  case Nil
  then show ?case using ages_refl by simp
next
  case (Cons x xs)
  have a: "ages 0 h (snd r) (snd (f x r))" using round Cons.prems by blast
  then have "graveInv (snd (f x r))" "roomy (snd (f x r))" using Cons.prems(3) by (auto simp: ages_def roomy_def)
  then show ?case using Cons.IH [of "f x r"] inv Cons.prems(1) ages_trans [OF a] by simp
qed

lemma roomy_seq: "roomy t \<Longrightarrow> unat (trSeq t) + 1 < 2 ^ 64"
  by (simp add: roomy_def)

lemma replaceOne_ages:
  "trackerInv (snd r) \<Longrightarrow> graveInv (snd r) \<Longrightarrow> roomy (snd r) \<Longrightarrow> ages 0 h (snd r) (snd (replaceOne c byHash x r))"
  using end_ages(2) [of "snd r" x _ h TypeReplaced] roomy_seq [of "snd r"]
  by (auto simp: replaceOne_def ages_refl split: prod.splits option.splits)

lemma demoteTx_ages:
  assumes "graveInv t" and "fmlookup (trTxs t) x = Some tx"
  shows "ages 0 h t (snd (demoteTx c x tx t))"
  by (rule ages_same [OF assms(1)]) (use assms(2) in \<open>simp_all add: demoteTx_def nowOf_def Let_def tracker_simps goLen_upd\<close>)

lemma reorgOne_ages:
  "graveInv (snd r) \<Longrightarrow> ages 0 h (snd r) (snd (reorgOne c ancestor x r))"
  using demoteTx_ages [of "snd r" x _ h c]
  by (cases "fmlookup (trTxs (snd r)) x") (auto simp: reorgOne_def ages_refl split: prod.splits)

lemma trackerExec_ages:
  assumes inv: "trackerInv t" and grave: "graveInv t" and room: "roomy t"
  shows "ages 1 h t (snd (trackerExec c op t))"
proof (cases op)
  case (opPending ms)
  show ?thesis
  proof (cases ms)
    case Nil
    then show ?thesis using opPending ages_refl [OF grave] by (simp add: OnPending_def)
  next
    case (Cons m rest)
    have "ages 1 h t (pendingBase y tx t)" for y tx
      by (rule ages_same [OF grave]) (simp_all add: tracker_simps goLen_upd)
    then show ?thesis using opPending Cons ages_refl [OF grave, of 1] by (simp add: OnPending_outcome Let_def)
  qed
next
  case (opMined x bh bn tr failed confs fin)
  then show ?thesis using OnMined_ages [OF assms] by simp
next
  case (opHead ord head fin)
  then show ?thesis using ages_same [OF grave, of _ 1 h] by (simp add: OnHead_def nowOf_def)
next
  case (opConfirm x head)
  then show ?thesis using end_ages(1) [OF inv grave roomy_seq [OF room], of x _ h TypeConfirmed, THEN ages_weaken]
    by (auto simp: Confirm_def ages_refl [OF grave] split: option.splits)
next
  case (opDropStale x known)
  then show ?thesis using end_ages(2) [OF inv grave roomy_seq [OF room], of x _ h TypeDropped, THEN ages_weaken]
    ages_same [OF grave, of _ 1 h]
    by (auto simp: OnDropStale_def ages_refl [OF grave] nowOf_def tracker_simps goLen_upd split: option.splits)
next
  case (opNonceUsed s n x)
  have "ages 0 h t (snd (fold (replaceOne c x) (getSlice (trByNonce t) (s, n)) ([], t)))"
    using fold_ages [where f = "replaceOne c x" and r = "([], t)", OF replaceOne_ages replaceOne_inv] inv grave room by simp
  from ages_weaken [OF this, of 1] show ?thesis using opNonceUsed by (simp add: OnNonceUsed_def)
next
  case (opReorg ord a)
  have "ages 0 h t (snd (fold (reorgOne c a) ord ([], t)))"
    using fold_ages [where f = "reorgOne c a" and r = "([], t)", OF reorgOne_ages reorgOne_inv] inv grave room by simp
  from ages_weaken [OF this, of 1] show ?thesis using opReorg by (simp add: OnReorg_def)
next
  case (opDemote x)
  then show ?thesis using demoteTx_ages [OF grave, of x _ h c, THEN ages_weaken]
    by (auto simp: Demote_def ages_refl [OF grave] split: option.splits)
qed

section \<open>Runs with room\<close>

inductive roomyRun :: "hexcodec \<Rightarrow> tracker \<Rightarrow> tracker \<Rightarrow> bool" for c t0 where
  roomy_start: "roomyRun c t0 t0"
| roomy_step: "roomyRun c t0 t \<Longrightarrow> trackerOpOK op t \<Longrightarrow> roomy t \<Longrightarrow> roomyRun c t0 (snd (trackerExec c op t))"

lemma roomyRun_inv: "roomyRun c t0 t \<Longrightarrow> trackerInv t0 \<and> graveInv t0 \<Longrightarrow> trackerInv t \<and> graveInv t"
proof (induction rule: roomyRun.induct)
  case (roomy_step t op)
  then show ?case using trackerExec_inv trackerExec_ages [of t undefined c op] by (auto simp: ages_def)
qed simp

lemma roomyRun_trans: "roomyRun c t1 t2 \<Longrightarrow> roomyRun c t0 t1 \<Longrightarrow> roomyRun c t0 t2"
  by (induction rule: roomyRun.induct) (auto intro: roomyRun.intros)

text \<open>A confirmed hash stays remembered while fewer than \<open>tombstoneCap\<close> burials follow its own.\<close>

lemma confirmed_remembered:
  assumes "roomyRun c t t'" and "trackerInv t \<and> graveInv t"
    and "fmlookup (trTombstones t) h = Some ts" and "tsTyp ts = TypeConfirmed"
  shows "unat (trSeq t) \<le> unat (trSeq t') \<and>
    (unat (trSeq t') < unat (tsSeq ts) + tombstoneCap \<longrightarrow> fmlookup (trTombstones t') h = Some ts)"
  using assms(1)
proof (induction rule: roomyRun.induct)
  case (roomy_step t' op)
  have "trackerInv t' \<and> graveInv t'" using roomyRun_inv [OF roomy_step(1) assms(2)] .
  then have "ages 1 h t' (snd (trackerExec c op t'))" using trackerExec_ages roomy_step(3) by blast
  then show ?case using roomy_step.IH assms(4) by (auto simp: ages_def)
qed (use assms(3) in simp)

text \<open>A remembered confirmed hash is silent.\<close>

lemma confirmed_silent:
  assumes hex: "hexOK c" and inv: "trackerInv t" and ok: "trackerOpOK op t"
    and ts: "fmlookup (trTombstones t) h = Some ts" "tsTyp ts = TypeConfirmed"
  shows "typesFor c h (fst (trackerExec c op t)) = {}"
proof -
  have "fmlookup (trTxs t) h = None" using trackerInv_grave [OF inv ts(1)] ts(2) by (cases "fmlookup (trTxs t) h") auto
  then have "phaseOf t h = Ended TypeConfirmed" using ts by (simp add: phaseOf_def)
  then show ?thesis
    using trackerExec_conforms [OF hex inv ok, of h] unfolding conforms_def
    by (auto elim: lifecycle_confirmed)
qed

end
