(* ===== verification/TrackerProps.thy ===== *)
theory TrackerProps
  imports Graves
begin

text \<open>
  The properties of the tracker (internal/indexer/tracker.go): the invariant and the lifecycle
  over every run, what each operation returns exactly, the finality of a confirmation, what
  never changes in a record, and the round trip through the database records.
\<close>

section \<open>Operations over several transactions, exactly\<close>

lemma replaceOne_pending:
  assumes "fmlookup (trTxs t) h = Some tx" and "tState tx = statePending" and "h \<noteq> byHash"
  shows "replaceOne c byHash h (evs, t) =
    (evs @ map (\<lambda>e. e\<lparr>evReplacedBy := hashHex c byHash\<rparr>) (txEvents c tx TypeReplaced 0),
     bury h TypeReplaced (dropTx h (unindexNonce tx t)))"
  using assms by (simp add: replaceOne_def)

definition replacedEvents :: "hexcodec \<Rightarrow> hash \<Rightarrow> tracker \<Rightarrow> hash \<Rightarrow> event list" where
  "replacedEvents c byHash t h =
     map (\<lambda>e. e\<lparr>evReplacedBy := hashHex c byHash\<rparr>) (txEvents c (the (fmlookup (trTxs t) h)) TypeReplaced 0)"

lemma fold_replace_exact:
  assumes "distinct hs" and "\<forall>h \<in> set hs. \<exists>tx. fmlookup (trTxs t) h = Some tx \<and> tState tx = statePending"
  shows "fst (fold (replaceOne c byHash) hs (evs, t)) = evs @ concat (map (replacedEvents c byHash t)
      (filter (\<lambda>h. h \<noteq> byHash) hs)) \<and>
    (\<forall>h. fmlookup (trTxs (snd (fold (replaceOne c byHash) hs (evs, t)))) h =
      (if h \<in> set hs \<and> h \<noteq> byHash then None else fmlookup (trTxs t) h))"
  using assms
proof (induction hs arbitrary: evs t)
  case (Cons x hs)
  obtain tx where tx: "fmlookup (trTxs t) x = Some tx" "tState tx = statePending" using Cons.prems(2) by auto
  show ?case
  proof (cases "x = byHash")
    case True
    then have "replaceOne c byHash x (evs, t) = (evs, t)" by (simp add: replaceOne_def)
    then show ?thesis using Cons.IH [of t evs] Cons.prems True by auto
  next
    case False
    let ?t = "bury x TypeReplaced (dropTx x (unindexNonce tx t))"
    let ?evs = "map (\<lambda>e. e\<lparr>evReplacedBy := hashHex c byHash\<rparr>) (txEvents c tx TypeReplaced 0)"
    have l: "fmlookup (trTxs ?t) h = (if h = x then None else fmlookup (trTxs t) h)" for h by (simp add: tracker_simps)
    have "\<forall>h \<in> set hs. \<exists>tx. fmlookup (trTxs ?t) h = Some tx \<and> tState tx = statePending"
      using Cons.prems by (auto simp: l)
    from Cons.IH [OF _ this, of "evs @ ?evs"] Cons.prems(1)
    have IH: "fst (fold (replaceOne c byHash) hs (evs @ ?evs, ?t)) = (evs @ ?evs) @ concat (map (replacedEvents c byHash ?t)
      (filter (\<lambda>h. h \<noteq> byHash) hs))"
      "\<forall>h. fmlookup (trTxs (snd (fold (replaceOne c byHash) hs (evs @ ?evs, ?t)))) h =
        (if h \<in> set hs \<and> h \<noteq> byHash then None else fmlookup (trTxs ?t) h)" by auto
    have step: "fold (replaceOne c byHash) (x # hs) (evs, t) = fold (replaceOne c byHash) hs (evs @ ?evs, ?t)"
      using replaceOne_pending [OF tx False] by simp
    have m: "map (replacedEvents c byHash ?t) (filter (\<lambda>h. h \<noteq> byHash) hs) =
        map (replacedEvents c byHash t) (filter (\<lambda>h. h \<noteq> byHash) hs)"
      using Cons.prems(1) by (intro map_cong) (auto simp: l replacedEvents_def)
    have e: "?evs = replacedEvents c byHash t x" using tx(1) by (simp add: replacedEvents_def)
    have "fst (fold (replaceOne c byHash) (x # hs) (evs, t)) =
        evs @ concat (map (replacedEvents c byHash t) (filter (\<lambda>h. h \<noteq> byHash) (x # hs)))"
      unfolding step IH(1) m using False e by simp
    then show ?thesis unfolding step using IH(2) False tx(1) by (auto simp: l)
  qed
qed simp

lemma slot_pending:
  assumes "trackerInv t"
  shows "h \<in> set (getSlice (trByNonce t) (s, n)) \<longleftrightarrow>
    (\<exists>tx. fmlookup (trTxs t) h = Some tx \<and> tState tx = statePending \<and> tHasNonce tx \<and> tSender tx = s \<and> tNonce tx = n)"
  using nidx.indexes_slot [OF trackerInv_index [OF assms], of h "(s, n)"]
  by (auto simp: slotIn_def slotOfTx_def keyOf_def split: option.splits if_splits)

lemma OnNonceUsed_result:
  assumes inv: "trackerInv t"
  shows "fst (OnNonceUsed c s n byHash t) = concat (map (replacedEvents c byHash t)
      (filter (\<lambda>h. h \<noteq> byHash) (getSlice (trByNonce t) (s, n)))) \<and>
    (\<forall>h. fmlookup (trTxs (snd (OnNonceUsed c s n byHash t))) h =
      (if h \<noteq> byHash \<and> (\<exists>tx. fmlookup (trTxs t) h = Some tx \<and> tState tx = statePending \<and> tHasNonce tx \<and>
          tSender tx = s \<and> tNonce tx = n) then None else fmlookup (trTxs t) h)) \<and>
    set (getSlice (trByNonce (snd (OnNonceUsed c s n byHash t))) (s, n)) \<subseteq> {byHash}"
proof -
  have d: "distinct (getSlice (trByNonce t) (s, n))" using trackerInv_index [OF inv] by (simp add: nidx.indexes_def)
  have p: "\<forall>h \<in> set (getSlice (trByNonce t) (s, n)). \<exists>tx. fmlookup (trTxs t) h = Some tx \<and> tState tx = statePending"
    using slot_pending [OF inv] by blast
  note E = fold_replace_exact [OF d p, of c byHash "[]"]
  have l: "\<forall>h. fmlookup (trTxs (snd (OnNonceUsed c s n byHash t))) h =
      (if h \<noteq> byHash \<and> h \<in> set (getSlice (trByNonce t) (s, n)) then None else fmlookup (trTxs t) h)"
    using E by (auto simp: OnNonceUsed_def)
  have "set (getSlice (trByNonce (snd (OnNonceUsed c s n byHash t))) (s, n)) \<subseteq> {byHash}"
    using slot_pending [OF OnNonceUsed_inv [OF inv], of _ c s n byHash s n] l slot_pending [OF inv, of _ s n]
    by (auto split: if_splits)
  then show ?thesis using E l slot_pending [OF inv, of _ s n] by (simp add: OnNonceUsed_def)
qed

text \<open>The record a reorganisation leaves.\<close>

definition isReorged :: "u64 \<Rightarrow> trackedTx \<Rightarrow> bool" where
  "isReorged ancestor tx \<longleftrightarrow> tState tx = stateMined \<and> ancestor < tBlockNum tx"

definition demotedTo :: "trackedTx \<Rightarrow> trackedTx \<Rightarrow> bool" where
  "demotedTo tx tx' \<longleftrightarrow>
     tx' = tx\<lparr>tState := statePending, tBlock := 0, tBlockNum := 0, tPendingSince := tPendingSince tx'\<rparr>"

lemma demoteTx_lookup:
  "fst (demoteTx c x tx t) = txEvents c tx TypeReorged 0"
  "h \<noteq> x \<Longrightarrow> fmlookup (trTxs (snd (demoteTx c x tx t))) h = fmlookup (trTxs t) h"
  "\<exists>tx'. fmlookup (trTxs (snd (demoteTx c x tx t))) x = Some tx' \<and> demotedTo tx tx'"
  by (simp_all add: demoteTx_def nowOf_def Let_def tracker_simps demotedTo_def)

definition reorgEvents :: "hexcodec \<Rightarrow> u64 \<Rightarrow> tracker \<Rightarrow> hash \<Rightarrow> event list" where
  "reorgEvents c a t h = (case fmlookup (trTxs t) h of
     None \<Rightarrow> [] | Some tx \<Rightarrow> if isReorged a tx then txEvents c tx TypeReorged 0 else [])"

fun afterReorg :: "bool \<Rightarrow> u64 \<Rightarrow> trackedTx option \<Rightarrow> trackedTx option \<Rightarrow> bool" where
  "afterReorg seen a None r \<longleftrightarrow> r = None"
| "afterReorg seen a (Some tx) r \<longleftrightarrow> (\<exists>tx'. r = Some tx' \<and>
     (if seen \<and> isReorged a tx then demotedTo tx tx' else tx' = tx))"

lemma fold_reorg_exact:
  assumes "distinct ord"
  shows "fst (fold (reorgOne c a) ord (evs, t)) = evs @ concat (map (reorgEvents c a t) ord) \<and>
    (\<forall>h. afterReorg (h \<in> set ord) a (fmlookup (trTxs t) h) (fmlookup (trTxs (snd (fold (reorgOne c a) ord (evs, t)))) h))"
  using assms
proof (induction ord arbitrary: evs t)
  case Nil
  have "afterReorg False a x x" for x by (cases x) simp_all
  then show ?case by simp
next
  case (Cons x ord)
  show ?case
  proof (cases "\<exists>tx. fmlookup (trTxs t) x = Some tx \<and> isReorged a tx")
    case False
    then have s: "reorgOne c a x (evs, t) = (evs, t)" and e: "reorgEvents c a t x = []"
      by (auto simp: reorgOne_def reorgEvents_def isReorged_def not_le split: option.splits)
    have "afterReorg (x \<in> set (x # ord)) a (fmlookup (trTxs t) x) r" if "afterReorg (x \<in> set ord) a (fmlookup (trTxs t) x) r" for r
      using that False by (cases "fmlookup (trTxs t) x") auto
    then have "afterReorg (h \<in> set (x # ord)) a (fmlookup (trTxs t) h) r"
      if "afterReorg (h \<in> set ord) a (fmlookup (trTxs t) h) r" for h r
      using that by (cases "h = x") simp_all
    then show ?thesis using Cons.IH [of evs t] Cons.prems s e by simp
  next
    case True
    then obtain tx where tx: "fmlookup (trTxs t) x = Some tx" "isReorged a tx" by blast
    let ?t = "snd (demoteTx c x tx t)" and ?evs = "evs @ txEvents c tx TypeReorged 0"
    have s: "reorgOne c a x (evs, t) = (?evs, ?t)"
    proof -
      have "\<not> tBlockNum tx \<le> a" "tState tx = stateMined" using tx(2) by (auto simp: isReorged_def)
      then show ?thesis using tx(1) demoteTx_lookup(1) [of c x tx t]
        by (cases "demoteTx c x tx t") (simp add: reorgOne_def)
    qed
    obtain tx' where tx': "fmlookup (trTxs ?t) x = Some tx'" "demotedTo tx tx'" using demoteTx_lookup(3) by blast
    have same: "fmlookup (trTxs ?t) h = fmlookup (trTxs t) h" if "h \<noteq> x" for h using demoteTx_lookup(2) [OF that] .
    have map: "map (reorgEvents c a ?t) ord = map (reorgEvents c a t) ord"
    proof (rule map_cong [OF refl])
      fix y assume "y \<in> set ord"
      then have "y \<noteq> x" using Cons.prems by auto
      then show "reorgEvents c a ?t y = reorgEvents c a t y" by (simp add: reorgEvents_def same)
    qed
    have IH: "fst (fold (reorgOne c a) ord (?evs, ?t)) = ?evs @ concat (map (reorgEvents c a t) ord)"
      "\<And>h. afterReorg (h \<in> set ord) a (fmlookup (trTxs ?t) h) (fmlookup (trTxs (snd (fold (reorgOne c a) ord (?evs, ?t)))) h)"
      using Cons.IH [of ?evs ?t] Cons.prems map by auto
    have e: "reorgEvents c a t x = txEvents c tx TypeReorged 0" using tx by (simp add: reorgEvents_def)
    have "afterReorg (h \<in> set (x # ord)) a (fmlookup (trTxs t) h) (fmlookup (trTxs (snd (fold (reorgOne c a) ord (?evs, ?t)))) h)" for h
    proof (cases "h = x")
      case True
      then show ?thesis using IH(2) [of x] tx tx' Cons.prems by simp
    next
      case False
      then show ?thesis using IH(2) [of h] by (simp add: same [OF False])
    qed
    then show ?thesis using IH(1) s e by simp
  qed
qed

lemma afterReorg_seen: "afterReorg (h \<in> fmdom' m) a (fmlookup m h) r \<Longrightarrow> afterReorg True a (fmlookup m h) r"
  by (cases "fmlookup m h") (auto simp: fmlookup_dom'_iff)

lemma OnReorg_result:
  assumes "rangeOrder ord (trTxs t)"
  shows "fst (OnReorg c ord a t) = concat (map (reorgEvents c a t) ord) \<and>
    afterReorg True a (fmlookup (trTxs t) h) (fmlookup (trTxs (snd (OnReorg c ord a t))) h)"
proof -
  have d: "distinct ord" and s: "set ord = fmdom' (trTxs t)" using assms by (simp_all add: rangeOrder_def)
  have "afterReorg (h \<in> fmdom' (trTxs t)) a (fmlookup (trTxs t) h) (fmlookup (trTxs (snd (OnReorg c ord a t))) h)"
    using fold_reorg_exact [OF d, of c a "[]" t] unfolding OnReorg_def s by blast
  then show ?thesis using fold_reorg_exact [OF d, of c a "[]" t] afterReorg_seen by (simp add: OnReorg_def)
qed

section \<open>What never changes in a record\<close>

text \<open>\<open>tx'\<close> is a later state of the same tracked transaction as \<open>tx\<close>.\<close>

definition sameOrigin :: "trackedTx \<Rightarrow> trackedTx \<Rightarrow> bool" where
  "sameOrigin tx tx' \<longleftrightarrow> tFirstSeen tx' = tFirstSeen tx \<and> tSender tx' = tSender tx \<and> tNonce tx' = tNonce tx \<and>
     tHasNonce tx' = tHasNonce tx \<and> (tAuthoritative tx \<longrightarrow> tAuthoritative tx') \<and>
     (tFirstSeenBlock tx \<noteq> 0 \<longrightarrow> tFirstSeenBlock tx' = tFirstSeenBlock tx \<and> tMinedAt tx' = tMinedAt tx)"

definition keepsOrigin :: "hash \<Rightarrow> tracker \<Rightarrow> tracker \<Rightarrow> bool" where
  "keepsOrigin h t t' \<longleftrightarrow>
     (\<forall>tx tx'. fmlookup (trTxs t) h = Some tx \<and> fmlookup (trTxs t') h = Some tx' \<longrightarrow> sameOrigin tx tx')"

lemma sameOrigin_refl [simp]: "sameOrigin tx tx"
  by (simp add: sameOrigin_def)

lemma sameOrigin_demoted: "demotedTo tx tx' \<Longrightarrow> sameOrigin tx tx'"
  unfolding demotedTo_def sameOrigin_def by (cases tx; cases tx') simp

lemma keepsOrigin_same: "fmlookup (trTxs t') h = fmlookup (trTxs t) h \<Longrightarrow> keepsOrigin h t t'"
  by (auto simp: keepsOrigin_def)

lemma keepsOrigin_gone: "fmlookup (trTxs t') h = None \<Longrightarrow> keepsOrigin h t t'"
  by (simp add: keepsOrigin_def)

lemma sameOrigin_minedRecord: "sameOrigin tx (minedRecord bh bn tr now tx)"
  by (simp add: sameOrigin_def minedRecord_fields)

lemma mineTx_keepsOrigin:
  assumes "fmlookup (trTxs t) x = Some tx"
  shows "keepsOrigin h t (snd (mineTx c x bh bn tr failed confs fin tx t))"
  using assms sameOrigin_minedRecord
  by (cases "h = x") (auto simp: mineTx_outcome Let_def keepsOrigin_def tracker_simps)

lemma mineTx_other:
  "h \<noteq> x \<Longrightarrow> fmlookup (trTxs (snd (mineTx c x bh bn tr failed confs fin tx t))) h = fmlookup (trTxs t) h"
  by (simp add: mineTx_outcome Let_def tracker_simps)

lemma OnMined_keepsOrigin: "keepsOrigin h t (snd (OnMined c x bh bn tr failed confs fin t))"
proof (cases "\<exists>ts. fmlookup (trTombstones t) x = Some ts \<and> tsTyp ts = TypeConfirmed")
  case True
  then have "OnMined c x bh bn tr failed confs fin t = ([], t)" by (auto simp: OnMined_def)
  then show ?thesis by (simp add: keepsOrigin_same)
next
  case live: False
  let ?t1 = "t\<lparr>trTombstones := fmdrop x (trTombstones t)\<rparr>"
  show ?thesis
  proof (cases "fmlookup (trTxs t) x")
    case None
    then have s: "OnMined c x bh bn tr failed confs fin t = mineTx c x bh bn tr failed confs fin
        (freshTx x (trClock t (trTick t))) (putTx x (freshTx x (trClock t (trTick t))) (?t1\<lparr>trTick := Suc (trTick t)\<rparr>))"
      using live by (auto simp: OnMined_def Let_def nowOf_def split: option.splits)
    show ?thesis
    proof (cases "h = x")
      case True
      then show ?thesis using None by (simp add: keepsOrigin_def)
    next
      case False
      then show ?thesis unfolding s by (intro keepsOrigin_same) (simp add: mineTx_other tracker_simps)
    qed
  next
    case (Some tx)
    then have s: "OnMined c x bh bn tr failed confs fin t = (if tState tx = stateMined \<and> tBlock tx = bh then ([], ?t1)
        else mineTx c x bh bn tr failed confs fin tx ?t1)"
      using live by (auto simp: OnMined_def Let_def split: option.splits)
    have "keepsOrigin h ?t1 (snd (mineTx c x bh bn tr failed confs fin tx ?t1))"
      using Some by (intro mineTx_keepsOrigin) simp
    then have "keepsOrigin h t (snd (mineTx c x bh bn tr failed confs fin tx ?t1))" by (simp add: keepsOrigin_def)
    moreover have "keepsOrigin h t ?t1" by (rule keepsOrigin_same) simp
    ultimately show ?thesis unfolding s by simp
  qed
qed

lemma trackerExec_keepsOrigin:
  assumes inv: "trackerInv t" and ok: "trackerOpOK op t"
  shows "keepsOrigin h t (snd (trackerExec c op t))"
proof (cases op)
  case (opPending ms)
  then show ?thesis
    by (cases ms) (auto simp: OnPending_outcome OnPending_def [of c "[]"] Let_def keepsOrigin_def tracker_simps entersPending_def)
next
  case (opMined x bh bn tr failed confs fin)
  then show ?thesis using OnMined_keepsOrigin by simp
next
  case (opHead ord head fin)
  then show ?thesis by (simp add: OnHead_def nowOf_def keepsOrigin_same)
next
  case (opConfirm x head)
  then show ?thesis by (auto simp: Confirm_def keepsOrigin_def tracker_simps split: option.splits)
next
  case (opDropStale x known)
  then show ?thesis
    by (auto simp: OnDropStale_def keepsOrigin_def tracker_simps nowOf_def sameOrigin_def split: option.splits if_splits)
next
  case (opNonceUsed s n x)
  then show ?thesis using OnNonceUsed_result [OF inv, of c s n x] by (auto simp: keepsOrigin_def split: if_splits)
next
  case (opReorg ord a)
  then have "afterReorg True a (fmlookup (trTxs t) h) (fmlookup (trTxs (snd (OnReorg c ord a t))) h)"
    using ok OnReorg_result by simp
  then show ?thesis using opReorg sameOrigin_demoted
    by (cases "fmlookup (trTxs t) h") (auto simp: keepsOrigin_def split: if_splits)
next
  case (opDemote x)
  have "keepsOrigin h t (snd (demoteTx c x tx t))" if "fmlookup (trTxs t) x = Some tx" for tx
    using demoteTx_lookup [where c = c and x = x and tx = tx and t = t] that sameOrigin_demoted
    by (cases "h = x") (auto simp: keepsOrigin_def)
  then show ?thesis using opDemote by (auto simp: Demote_def keepsOrigin_same split: option.splits)
qed

section \<open>The confirmation threshold\<close>

lemma depth_confirmed:
  assumes tag: "cfTag (trConfirmations t) = ''''" and pos: "0 < cfDepth (trConfirmations t)" and head: "head \<noteq> - 1"
  shows "confirmedAt t bn (if bn \<le> head then head - bn + 1 else 0) fin \<longleftrightarrow>
    unat bn + unat (cfDepth (trConfirmations t)) \<le> unat head + 1"
proof (cases "bn \<le> head")
  case True
  have "head - bn \<le> head" using True by (simp add: word_le_nat_alt unat_sub)
  then have "unat (head - bn + 1) = Suc (unat head - unat bn)"
    using u64_Suc_max [OF u64_less_max [OF head]] True by (simp add: unat_sub)
  then show ?thesis using True tag by (auto simp: confirmedAt_def word_le_nat_alt)
next
  case False
  have "0 < unat (cfDepth (trConfirmations t))" using pos by (simp add: word_less_nat_alt)
  moreover have "unat head < unat bn" using False by (simp add: word_le_nat_alt)
  moreover have "\<not> cfDepth (trConfirmations t) \<le> 0" using pos by simp
  ultimately show ?thesis using False tag by (simp add: confirmedAt_def)
qed

section \<open>Through the database records\<close>

lemma SetString10_intString: "SetString10 (intString v) = Some v"
proof -
  have d: "list_all isDigit (natString n)" for n by (simp add: list_all_iff isDigit_natString)
  have "\<not> isDigit CHR ''+''" by code_simp
  then have p: "take 1 (natString n) \<noteq> ''-''" "take 1 (natString n) \<noteq> ''+''" for n
    using isDigit_natString [of "hd (natString n)" n] isDigit_minus by (cases "natString n"; auto)+
  show ?thesis using d p by (auto simp: SetString10_def intString_def Let_def)
qed

lemma importLegs_export:
  assumes hex: "hexOK c" and "\<forall>m \<in> set ms. mTxHash m = h"
  shows "importLegs c h hx (map (exportLeg c) ms) = Inr ms"
  using assms(2)
proof (induction ms)
  case (Cons m ms)
  have "\<lparr>mTxHash = h, mFrom = mFrom m, mTo = mTo m, mDirection = mDirection m, mAsset = mAsset m, mToken = mToken m,
      mDecimals = mDecimals m, mValue = mValue m, mLogIndex = mLogIndex m, mTxSender = mTxSender m,
      mTxNonce = mTxNonce m\<rparr> = m" using Cons.prems by (cases m) simp
  moreover have "(if lrTokenAddress (exportLeg c m) \<noteq> '''' then Some (HexToAddress c (lrTokenAddress (exportLeg c m))) else None) = mToken m"
    by (cases "mToken m") (simp_all add: exportLeg_def hexOK_simps [OF hex])
  moreover have "lrValueRaw (exportLeg c m) = intString (mValue m)" "HexToAddress c (lrFrom (exportLeg c m)) = mFrom m"
    "HexToAddress c (lrTo (exportLeg c m)) = mTo m" "lrDirection (exportLeg c m) = mDirection m"
    "lrAsset (exportLeg c m) = mAsset m" "lrDecimals (exportLeg c m) = mDecimals m"
    "lrLogIndex (exportLeg c m) = mLogIndex m" "HexToAddress c (lrTxSender (exportLeg c m)) = mTxSender m"
    "lrTxNonce (exportLeg c m) = mTxNonce m"
    by (simp_all add: exportLeg_def hexOK_simps [OF hex])
  ultimately show ?case using Cons by (simp only: list.map importLegs.simps SetString10_intString option.case) simp
qed simp

lemma importTracked_export:
  assumes hex: "hexOK c" and ok: "txOK h tx"
  shows "importTracked c (exportTracked c tx) = Inr tx"
proof -
  have legs: "importLegs c (tHash tx) (hashHex c (tHash tx)) (map (exportLeg c) (tTransfers tx)) = Inr (tTransfers tx)"
    using importLegs_export [OF hex, of "tTransfers tx" "tHash tx"] ok by (simp add: txOK_def)
  have status: "stStatus (exportTracked c tx) = (if tState tx = stateMined then ''mined'' else ''pending'')"
    by (simp add: exportTracked_def)
  show ?thesis
  proof (cases "tState tx")
    case statePending
    then have "tBlock tx = 0" using ok by (simp add: txOK_def)
    then show ?thesis using statePending legs
      by (simp add: importTracked_def exportTracked_def hexOK_simps [OF hex])
  next
    case stateMined
    then show ?thesis using legs
      by (simp add: importTracked_def exportTracked_def hexOK_simps [OF hex])
  qed
qed

lemma Import_gen:
  assumes hex: "hexOK c" and inv: "trackerInv t" and "distinct ord"
    and "trackerInv t0" and "trTombstones t0 = fmempty"
    and "\<forall>h \<in> set ord. fmlookup (trTxs t0) h = None \<and> fmlookup (trTxs t) h \<noteq> None"
  shows "let r = fold (importOne c) (map (\<lambda>h. exportTracked c (the (fmlookup (trTxs t) h))) ord) (None, t0) in
    fst r = None \<and> trackerInv (snd r) \<and>
    (\<forall>h. fmlookup (trTxs (snd r)) h = (if h \<in> set ord then fmlookup (trTxs t) h else fmlookup (trTxs t0) h))"
  using assms(3-)
proof (induction ord arbitrary: t0)
  case (Cons x ord)
  obtain tx where tx: "fmlookup (trTxs t) x = Some tx" using Cons.prems(4) by auto
  have ok: "txOK x tx" by (rule trackerInv_tx [OF inv tx])
  then have h: "tHash tx = x" by (simp add: txOK_def)
  let ?t1 = "if tState tx = statePending then indexNonce tx (putTx x tx t0) else putTx x tx t0"
  have step: "importOne c (exportTracked c tx) (None, t0) = (None, ?t1)"
    by (simp add: importOne_def importTracked_export [OF hex ok] h Let_def)
  have "slotIn (trTxs t0) x = None" using Cons.prems(4) by (simp add: slotIn_def)
  then have ix: "nidx.indexes (trByNonce ?t1) ((slotIn (trTxs t0))(x := slotOfTx tx))"
    using nidx.indexes_add trackerInv_index [OF Cons.prems(2)] h
    by (auto simp: indexNonce_slot putTx_fields slotOfTx_def fun_upd_idem)
  have f: "trTxs ?t1 = fmupd x tx (trTxs t0)" "trTombstones ?t1 = fmempty"
    using Cons.prems(3) by (simp_all add: tracker_simps)
  have "trackerInv ?t1"
    by (rule trackerInv_put [OF Cons.prems(2) ok ix f(1)]) (simp_all only: f Cons.prems(3) fmempty_lookup option.distinct)
  moreover have "\<forall>h \<in> set ord. fmlookup (trTxs ?t1) h = None \<and> fmlookup (trTxs t) h \<noteq> None"
    using Cons.prems(1,4) by (auto simp: f)
  ultimately show ?case using Cons.IH [of ?t1] Cons.prems(1) step tx f by (auto simp: Let_def)
qed (simp add: Let_def)

section \<open>The properties\<close>

text \<open>
  C6: in every state the tracker can reach, the nonce index lists, without duplicates, exactly the
  pending transactions whose nonce slot is known; every record is stored under its own hash, has
  legs, all of that transaction, authoritative ones once it is mined, and no block while it is
  pending; and nothing that is buried as confirmed, failed or replaced is tracked.
\<close>

theorem tracker_invariant:
  assumes "trackerReach c (NewTracker conf timeout clk) t"
  shows "(\<forall>s n. distinct (getSlice (trByNonce t) (s, n)) \<and>
      (\<forall>h. h \<in> set (getSlice (trByNonce t) (s, n)) \<longleftrightarrow>
        (\<exists>tx. fmlookup (trTxs t) h = Some tx \<and> tState tx = statePending \<and> tHasNonce tx \<and>
              tSender tx = s \<and> tNonce tx = n))) \<and>
    (\<forall>h tx. fmlookup (trTxs t) h = Some tx \<longrightarrow> txOK h tx) \<and>
    (\<forall>h ts. fmlookup (trTombstones t) h = Some ts \<and> tsTyp ts \<noteq> TypeDropped \<longrightarrow> fmlookup (trTxs t) h = None)"
proof -
  have inv: "trackerInv t" by (rule trackerReach_inv [OF assms trackerInv_new])
  have "\<forall>k. distinct (getSlice (trByNonce t) k)" using trackerInv_index [OF inv] unfolding nidx.indexes_def by blast
  moreover have "fmlookup (trTombstones t) h = Some ts \<and> tsTyp ts \<noteq> TypeDropped \<longrightarrow> fmlookup (trTxs t) h = None" for h ts
    using trackerInv_grave [OF inv, of h ts] by (cases "fmlookup (trTxs t) h") auto
  ultimately show ?thesis using slot_pending [OF inv] trackerInv_tx [OF inv] by blast
qed

definition demoLeg :: "hash \<Rightarrow> transferMatch" where
  "demoLeg h = \<lparr>mTxHash = h, mFrom = 7, mTo = 8, mDirection = DirectionIn, mAsset = ''ETH'', mToken = None,
     mDecimals = 18, mValue = 1500000000000000000, mLogIndex = None, mTxSender = 7, mTxNonce = 4\<rparr>"

definition demoNew :: tracker where
  "demoNew = NewTracker \<lparr>cfDepth = 2, cfTag = ''''\<rparr> 100 (\<lambda>n. 1000 + int n)"

text \<open>Two transactions compete for one slot; then the first is mined in block 10.\<close>

definition demoPend :: tracker where
  "demoPend = snd (trackerExec decimalCodec (opPending [demoLeg 2])
     (snd (trackerExec decimalCodec (opPending [demoLeg 1]) demoNew)))"

definition demoMined :: tracker where
  "demoMined = snd (trackerExec decimalCodec (opMined 1 77 10 [demoLeg 1] False 1 0) demoPend)"

lemma demo_reach: "trackerReach decimalCodec demoNew demoPend" "trackerReach decimalCodec demoNew demoMined"
proof -
  have ok: "trackerOpOK (opPending [demoLeg h]) t" "trackerOpOK (opMined 1 77 10 [demoLeg 1] False 1 0) t" for h t
    by (simp_all add: demoLeg_def)
  show p: "trackerReach decimalCodec demoNew demoPend" unfolding demoPend_def
    by (intro trackerReach.intros ok)
  show "trackerReach decimalCodec demoNew demoMined" unfolding demoMined_def by (rule trackerReach.step [OF p ok(2)])
qed

lemma demoNew_new: "demoNew = NewTracker \<lparr>cfDepth = 2, cfTag = ''''\<rparr> 100 (\<lambda>n. 1000 + int n)"
  by (rule demoNew_def)

lemma demoLeg_fields: "mTxHash (demoLeg h) = h" "mTxSender (demoLeg h) = 7" "mTxNonce (demoLeg h) = 4"
  by (simp_all add: demoLeg_def)

lemma demoNew_fields:
  "trTxs demoNew = fmempty" "trTombstones demoNew = fmempty" "trByNonce demoNew = fmempty" "trFIFO demoNew = []"
  "trSeq demoNew = 0" "trTick demoNew = 0" "trConfirmations demoNew = \<lparr>cfDepth = 2, cfTag = ''''\<rparr>"
  by (simp_all add: demoNew_def NewTracker_def)

lemma demo_slot: "getSlice (trByNonce demoPend) (7, 4) = [1, 2]"
  by (simp add: demoPend_def OnPending_outcome Let_def entersPending_def tracker_simps pendingBase_def indexNonce_slot
      pendingTx_fields demoLeg_fields demoNew_fields slotAdd_def getSlice_def)

theorem tracker_invariant_witness:
  "\<exists>tx. fmlookup (trTxs demoPend) 2 = Some tx \<and> tState tx = statePending \<and> tSender tx = 7 \<and> tNonce tx = 4"
  using tracker_invariant [OF demo_reach(1) [unfolded demoNew_new]] demo_slot by fastforce

text \<open>
  C1: refinement of the lifecycle. From every reachable state, every operation moves every
  transaction along one edge of \<open>lifecycle\<close>, emits for it events of exactly the type of that edge
  and of no other, and leaves every other transaction where it was but for forgetting how an
  ended one ended. So no transaction is ever reported dropped or replaced once mined, reorged
  while pending, or anything at all from \<open>Ended confirmed\<close>.
\<close>

theorem tracker_follows_lifecycle:
  assumes "hexOK c" and "trackerReach c (NewTracker conf timeout clk) t" and "trackerOpOK op t"
  shows "\<exists>e p. lifecycle (phaseOf t h) e p \<and> decays p (phaseOf (snd (trackerExec c op t)) h) \<and>
    typesFor c h (fst (trackerExec c op t)) = set_option e"
  using trackerExec_conforms [OF assms(1) trackerReach_inv [OF assms(2) trackerInv_new] assms(3), of h]
  unfolding conforms_def .

theorem tracker_follows_lifecycle_witness:
  "\<exists>e p. lifecycle (phaseOf demoPend 2) e p \<and>
     decays p (phaseOf (snd (trackerExec decimalCodec (opNonceUsed 7 4 1) demoPend)) 2) \<and>
     typesFor decimalCodec 2 (fst (trackerExec decimalCodec (opNonceUsed 7 4 1) demoPend)) = set_option e"
  using tracker_follows_lifecycle [OF decimalCodec_OK demo_reach(1) [unfolded demoNew_new], of "opNonceUsed 7 4 1" 2] by simp

text \<open>
  C7: a confirmation is final. After \<open>h\<close> was buried as confirmed, through any further operations -
  a late mempool echo, a rescan of its block, a reorganisation - it stays ended and no event is
  emitted for it, as long as fewer than 8192 burials have followed its own.
\<close>

theorem confirmed_is_final:
  assumes "hexOK c" and "roomyRun c (NewTracker conf timeout clk) t"
    and "fmlookup (trTombstones t) h = Some ts" and "tsTyp ts = TypeConfirmed"
    and "roomyRun c t t'" and "unat (trSeq t') < unat (tsSeq ts) + 8192" and "trackerOpOK op t'"
  shows "phaseOf t' h = Ended TypeConfirmed \<and> typesFor c h (fst (trackerExec c op t')) = {}"
proof -
  have inv: "trackerInv t \<and> graveInv t" using roomyRun_inv [OF assms(2)] trackerInv_new graveInv_new by blast
  have inv': "trackerInv t'" using roomyRun_inv [OF assms(5) inv] by blast
  have ts: "fmlookup (trTombstones t') h = Some ts"
    using confirmed_remembered [OF assms(5) inv assms(3,4)] assms(6) by (simp add: tombstoneCap_def)
  have "fmlookup (trTxs t') h = None" using trackerInv_grave [OF inv' ts] assms(4) by (cases "fmlookup (trTxs t') h") auto
  then have "phaseOf t' h = Ended TypeConfirmed" using ts assms(4) by (simp add: phaseOf_def)
  then show ?thesis using confirmed_silent [OF assms(1) inv' assms(7) ts assms(4)] by blast
qed

definition demoConfirmed :: tracker where
  "demoConfirmed = snd (trackerExec decimalCodec (opMined 1 77 10 [demoLeg 1] False 5 0) demoNew)"

lemma demo_confirmed: "fmlookup (trTombstones demoConfirmed) 1 = Some \<lparr>tsTyp = TypeConfirmed, tsSeq = 1\<rparr>"
  "trSeq demoConfirmed = 1" "roomy demoNew"
proof -
  let ?f = "freshTx 1 (trClock demoNew 0)"
  let ?t = "putTx 1 ?f (demoNew\<lparr>trTombstones := fmempty, trTick := 1\<rparr>)"
  have "OnMined decimalCodec 1 77 10 [demoLeg 1] False 5 0 demoNew = mineTx decimalCodec 1 77 10 [demoLeg 1] False 5 0 ?f ?t"
    by (simp add: OnMined_def demoNew_fields Let_def nowOf_def)
  moreover have "snd (mineTx decimalCodec 1 77 10 [demoLeg 1] False 5 0 ?f ?t) = bury 1 TypeConfirmed
      (dropTx 1 (putTx 1 (minedRecord 77 10 [demoLeg 1] (trClock ?t (trTick ?t)) ?f) (minedBase ?f ?t)))"
    by (simp add: mineTx_outcome Let_def minedRecord_fields confirmedAt_def tracker_simps demoNew_fields)
  ultimately have d: "demoConfirmed = bury 1 TypeConfirmed
      (dropTx 1 (putTx 1 (minedRecord 77 10 [demoLeg 1] (trClock ?t (trTick ?t)) ?f) (minedBase ?f ?t)))"
    by (simp add: demoConfirmed_def)
  show "fmlookup (trTombstones demoConfirmed) 1 = Some \<lparr>tsTyp = TypeConfirmed, tsSeq = 1\<rparr>" "trSeq demoConfirmed = 1"
    unfolding d by (simp_all add: bury_def Let_def tracker_simps demoNew_fields goLen_upd tombstoneCap_def)
  show "roomy demoNew" by (simp add: roomy_def demoNew_fields)
qed

theorem confirmed_is_final_witness:
  "phaseOf demoConfirmed 1 = Ended TypeConfirmed \<and>
   typesFor decimalCodec 1 (fst (trackerExec decimalCodec (opPending [demoLeg 1]) demoConfirmed)) = {}"
proof -
  have "roomyRun decimalCodec demoNew demoConfirmed" unfolding demoConfirmed_def
    by (intro roomyRun.intros demo_confirmed(3)) (simp add: demoLeg_def)
  from confirmed_is_final [OF decimalCodec_OK this [unfolded demoNew_new] demo_confirmed(1) _ roomyRun.roomy_start, of "opPending [demoLeg 1]"]
  show ?thesis by (simp add: demo_confirmed demoLeg_def)
qed

text \<open>
  C11: the memory of ended transactions is bounded: in every run at most 8192 tombstones and
  16384 FIFO entries are held, every tombstone has its entry in the FIFO, so that it can be
  evicted, and the entries are in the order of their burial.
\<close>

theorem tombstones_bounded:
  assumes "roomyRun c (NewTracker conf timeout clk) t"
  shows "goLen (trTombstones t) \<le> 8192 \<and> length (trFIFO t) \<le> 16384 \<and>
    (\<forall>h ts. fmlookup (trTombstones t) h = Some ts \<longrightarrow> (h, tsSeq ts) \<in> set (trFIFO t)) \<and>
    sorted_wrt (\<lambda>a b. unat (snd a) < unat (snd b)) (trFIFO t)"
proof -
  have "graveInv t" using roomyRun_inv [OF assms] trackerInv_new graveInv_new by blast
  then show ?thesis by (simp add: graveInv_def fifoInv_def tombstoneCap_def)
qed

theorem tombstones_bounded_witness: "length (trFIFO demoConfirmed) \<le> 16384"
proof -
  have "roomyRun decimalCodec demoNew demoConfirmed" unfolding demoConfirmed_def
    by (intro roomyRun.intros demo_confirmed(3)) (simp add: demoLeg_def)
  from tombstones_bounded [OF this [unfolded demoNew_new]] show ?thesis by blast
qed

text \<open>
  C8: a consumed nonce replaces exactly its other claimants. When a mined transaction consumes a
  slot, precisely the pending transactions that hold this slot under another hash leave the
  tracker, each with one \<open>replaced\<close> event per leg naming the winner, in the order they took the
  slot; every other transaction stays as it is, and nothing but the winner is left in the slot.
\<close>

theorem OnNonceUsed_exact:
  assumes "trackerReach c (NewTracker conf timeout clk) t"
  shows "fst (OnNonceUsed c s n byHash t) =
      concat (map (replacedEvents c byHash t) (filter (\<lambda>h. h \<noteq> byHash) (getSlice (trByNonce t) (s, n)))) \<and>
    (\<forall>h. fmlookup (trTxs (snd (OnNonceUsed c s n byHash t))) h =
      (if h \<noteq> byHash \<and> (\<exists>tx. fmlookup (trTxs t) h = Some tx \<and> tState tx = statePending \<and> tHasNonce tx \<and>
          tSender tx = s \<and> tNonce tx = n) then None else fmlookup (trTxs t) h)) \<and>
    set (getSlice (trByNonce (snd (OnNonceUsed c s n byHash t))) (s, n)) \<subseteq> {byHash}"
  by (rule OnNonceUsed_result [OF trackerReach_inv [OF assms trackerInv_new]])

theorem OnNonceUsed_exact_witness:
  "fst (OnNonceUsed decimalCodec 7 4 1 demoPend) = replacedEvents decimalCodec 1 demoPend 2"
  using OnNonceUsed_exact [OF demo_reach(1) [unfolded demoNew_new], of 7 4 1] by (simp add: demo_slot)

text \<open>
  C9: a reorganisation demotes exactly the transactions mined above the common ancestor. Whatever
  the order the map is walked in, each of them emits one \<open>reorged\<close> event per leg, carrying the
  abandoned block, and becomes pending with its legs, its first-seen data and its authority kept;
  every other record is untouched and none is lost.
\<close>

theorem OnReorg_exact:
  assumes "rangeOrder ord (trTxs t)"
  shows "fst (OnReorg c ord a t) = concat (map (reorgEvents c a t) ord) \<and>
    (\<forall>h. case fmlookup (trTxs t) h of
       None \<Rightarrow> fmlookup (trTxs (snd (OnReorg c ord a t))) h = None
     | Some tx \<Rightarrow> \<exists>tx'. fmlookup (trTxs (snd (OnReorg c ord a t))) h = Some tx' \<and>
         (if tState tx = stateMined \<and> a < tBlockNum tx then demotedTo tx tx' else tx' = tx))"
proof -
  have "case fmlookup (trTxs t) h of
       None \<Rightarrow> fmlookup (trTxs (snd (OnReorg c ord a t))) h = None
     | Some tx \<Rightarrow> \<exists>tx'. fmlookup (trTxs (snd (OnReorg c ord a t))) h = Some tx' \<and>
         (if tState tx = stateMined \<and> a < tBlockNum tx then demotedTo tx tx' else tx' = tx)" for h
    using OnReorg_result [OF assms, of c a h]
    by (cases "fmlookup (trTxs t) h") (auto simp: isReorged_def split: if_splits)
  then show ?thesis using OnReorg_result [OF assms, of c a] by blast
qed

lemma demoPend_txs: "trTxs demoPend = fmupd 2 (pendingTx [demoLeg 2] (demoLeg 2) 1001) (fmupd 1 (pendingTx [demoLeg 1] (demoLeg 1) 1000) fmempty)"
  by (simp add: demoPend_def OnPending_outcome Let_def entersPending_def tracker_simps demoLeg_fields demoNew_fields)
    (simp add: demoNew_def NewTracker_def pendingBase_def indexNonce_def putTx_def)

theorem OnReorg_exact_witness:
  "fst (OnReorg decimalCodec [2, 1] 5 demoPend) = [] \<and>
   (\<exists>tx. fmlookup (trTxs (snd (OnReorg decimalCodec [2, 1] 5 demoPend))) 2 = Some tx \<and> tState tx = statePending)"
proof -
  have "rangeOrder [2, 1] (trTxs demoPend)" by (auto simp: rangeOrder_def demoPend_txs)
  from OnReorg_exact [OF this, of decimalCodec 5] show ?thesis
    by (auto simp: demoPend_txs reorgEvents_def isReorged_def pendingTx_fields dest!: spec [of _ 2])
qed

text \<open>
  C10: what a head proposes to confirm. In depth mode \<open>OnHead\<close> proposes exactly the mined
  transactions that lie at least \<open>Depth\<close> blocks deep counting their own, and in tag mode exactly
  those at or below the finalized number once it is known; it proposes to recheck exactly the
  pending ones older than the timeout. The \<open>uint64\<close> depth arithmetic never wraps, and the scan
  changes no record.
\<close>

theorem OnHead_exact:
  assumes "rangeOrder ord (trTxs t)" and "head \<noteq> - 1" and "0 < cfDepth (trConfirmations t)"
  shows "(h \<in> set (fst (fst (OnHead ord head fin t))) \<longleftrightarrow>
      (\<exists>tx. fmlookup (trTxs t) h = Some tx \<and> tState tx = stateMined \<and>
        (if cfTag (trConfirmations t) = '''' then
           unat (tBlockNum tx) + unat (cfDepth (trConfirmations t)) \<le> unat head + 1
         else 0 < fin \<and> tBlockNum tx \<le> fin))) \<and>
    (h \<in> set (snd (fst (OnHead ord head fin t))) \<longleftrightarrow>
      (\<exists>tx. fmlookup (trTxs t) h = Some tx \<and> tState tx = statePending \<and>
        tPendingSince tx + trTimeout t < trClock t (trTick t))) \<and>
    trTxs (snd (OnHead ord head fin t)) = trTxs t"
proof -
  have s: "h \<in> set ord \<longleftrightarrow> fmlookup (trTxs t) h \<noteq> None"
    using assms(1) by (auto simp: rangeOrder_def fmlookup_dom'_iff)
  have c: "confirmedAt t (tBlockNum tx) (depthAt head tx) fin \<longleftrightarrow>
      (if cfTag (trConfirmations t) = '''' then
           unat (tBlockNum tx) + unat (cfDepth (trConfirmations t)) \<le> unat head + 1
         else 0 < fin \<and> tBlockNum tx \<le> fin)" for tx
    using depth_confirmed [OF _ assms(3,2), of "tBlockNum tx" fin]
    by (cases "cfTag (trConfirmations t) = ''''") (simp_all only: depthAt_def confirmedAt_def if_True if_False simp_thms)
  show ?thesis using s by (cases "fmlookup (trTxs t) h") (auto simp: OnHead_def nowOf_def Let_def c)
qed

theorem OnHead_exact_witness:
  "1 \<notin> set (fst (fst (OnHead [2, 1] 99 0 demoPend)))"
proof -
  have r: "rangeOrder [2, 1] (trTxs demoPend)" by (auto simp: rangeOrder_def demoPend_txs)
  have d: "0 < cfDepth (trConfirmations demoPend)"
    by (simp add: demoPend_def OnPending_outcome Let_def entersPending_def tracker_simps demoLeg_fields demoNew_fields)
      (simp add: pendingBase_def tracker_simps demoNew_fields)
  show ?thesis using OnHead_exact [OF r _ d, of 99 1 0] by (simp add: demoPend_txs pendingTx_fields)
qed

text \<open>
  C12: where a transaction comes from is never rewritten. Over every operation in every reachable
  state, a transaction that stays tracked keeps when it was first seen and its sender and nonce;
  the first block it was seen in and the time of that are set once and then survive
  reorganisations and re-mining; and its legs do not lose their authority.
\<close>

theorem origin_immutable:
  assumes "trackerReach c (NewTracker conf timeout clk) t" and "trackerOpOK op t"
    and "fmlookup (trTxs t) h = Some tx" and "fmlookup (trTxs (snd (trackerExec c op t))) h = Some tx'"
  shows "tFirstSeen tx' = tFirstSeen tx \<and> tSender tx' = tSender tx \<and> tNonce tx' = tNonce tx \<and>
    tHasNonce tx' = tHasNonce tx \<and> (tAuthoritative tx \<longrightarrow> tAuthoritative tx') \<and>
    (tFirstSeenBlock tx \<noteq> 0 \<longrightarrow> tFirstSeenBlock tx' = tFirstSeenBlock tx \<and> tMinedAt tx' = tMinedAt tx)"
  using trackerExec_keepsOrigin [OF trackerReach_inv [OF assms(1) trackerInv_new] assms(2), of h c] assms(3,4)
  by (simp add: keepsOrigin_def sameOrigin_def)

theorem origin_immutable_witness:
  "\<exists>tx'. fmlookup (trTxs (snd (trackerExec decimalCodec (opDemote 1) demoPend))) 2 = Some tx' \<and> tFirstSeen tx' = 1001"
proof -
  have n: "trackerExec decimalCodec (opDemote 1) demoPend = ([], demoPend)"
    by (simp add: Demote_def demoPend_txs pendingTx_fields)
  have l: "fmlookup (trTxs demoPend) 2 = Some (pendingTx [demoLeg 2] (demoLeg 2) 1001)" by (simp add: demoPend_txs)
  show ?thesis
    using origin_immutable [OF demo_reach(1) [unfolded demoNew_new], of "opDemote 1" 2] l n
    by (simp add: pendingTx_fields)
qed

text \<open>
  The discovery of a transaction in a block. A hash the tracker neither tracks nor remembers,
  found mined with legs, gives exactly one event per leg: \<open>failed\<close> when it reverted, a single
  \<open>confirmed\<close> when it is already past the threshold, else \<open>mined\<close>; the depth reported is at least
  1; and it is tracked afterwards only in the last case.
\<close>

theorem OnMined_discovery:
  assumes "fmlookup (trTxs t) h = None" and "fmlookup (trTombstones t) h = None" and "transfers \<noteq> []"
  shows "(let n = (if confs = 0 then 1 else confs);
             ty = (if failed then TypeFailed else if confirmedAt t bn n fin then TypeConfirmed else TypeMined);
             now = trClock t (trTick t)
         in fst (OnMined c h bh bn transfers failed confs fin t) =
              txEvents c (minedRecord bh bn transfers (trClock t (Suc (trTick t))) (freshTx h now)) ty n \<and>
            length (fst (OnMined c h bh bn transfers failed confs fin t)) = length transfers \<and>
            (fmlookup (trTxs (snd (OnMined c h bh bn transfers failed confs fin t))) h \<noteq> None \<longleftrightarrow> ty = TypeMined))"
proof -
  let ?f = "freshTx h (trClock t (trTick t))"
  let ?t = "putTx h ?f (t\<lparr>trTombstones := fmdrop h (trTombstones t), trTick := Suc (trTick t)\<rparr>)"
  have "OnMined c h bh bn transfers failed confs fin t = mineTx c h bh bn transfers failed confs fin ?f ?t"
    using assms(1,2) by (simp add: OnMined_def Let_def nowOf_def)
  moreover have "confirmedAt ?t bn n fin = confirmedAt t bn n fin" for n by (simp add: confirmedAt_def putTx_def)
  moreover have "trClock ?t (trTick ?t) = trClock t (Suc (trTick t))" by (simp add: putTx_def)
  ultimately show ?thesis using assms(3)
    by (simp add: mineTx_outcome Let_def minedRecord_fields tracker_simps txEvents_def type_defs)
qed

theorem OnMined_discovery_witness:
  "length (fst (OnMined decimalCodec 1 77 10 [demoLeg 1] False 5 0 demoNew)) = 1"
proof -
  have "fmlookup (trTxs demoNew) 1 = None" "fmlookup (trTombstones demoNew) 1 = None" "[demoLeg 1] \<noteq> []"
    by (simp_all add: demoNew_fields)
  from OnMined_discovery [OF this, of 5 False 10 0 decimalCodec 77]
  have "length (fst (OnMined decimalCodec 1 77 10 [demoLeg 1] False 5 0 demoNew)) = length [demoLeg 1]"
    unfolding Let_def by blast
  then show ?thesis by simp
qed

text \<open>
  Every event states the exact amount. An operation that emits for a transaction emits one
  event per leg, in order, whose \<open>value_raw\<close> parses back to the leg's amount, whose decimal
  \<open>value\<close> reads as the same amount, and whose transaction hash is the leg's.
\<close>

theorem events_state_amounts:
  "map (\<lambda>e. (SetString10 (evValueRaw e), readUnits (evDecimals e) (evValue e), evTxHash e, evType e))
     (txEvents c tx ty n) =
   map (\<lambda>m. (Some (mValue m), mValue m, hashHex c (mTxHash m), ty)) (tTransfers tx)"
  by (simp add: txEvents_def legEvent_def SetString10_intString readUnits_FormatUnits)

text \<open>
  A restart loses nothing. Exporting every tracked transaction of a reachable tracker in any
  order and importing the records into a new tracker succeeds and restores every transaction
  exactly - legs, amounts, blocks, times and nonce slots - and the nonce index with it.
\<close>

theorem export_import_roundtrip:
  assumes "hexOK c" and "trackerReach c (NewTracker conf timeout clk) t" and "rangeOrder ord (trTxs t)"
  shows "let r = Import c (map (\<lambda>h. the (ExportTx c h t)) ord) (NewTracker conf' timeout' clk') in
    fst r = None \<and> trTxs (snd r) = trTxs t \<and>
    (\<forall>s n. set (getSlice (trByNonce (snd r)) (s, n)) = set (getSlice (trByNonce t) (s, n)))"
proof -
  have inv: "trackerInv t" by (rule trackerReach_inv [OF assms(2) trackerInv_new])
  let ?t0 = "NewTracker conf' timeout' clk'"
  let ?r = "Import c (map (\<lambda>h. the (ExportTx c h t)) ord) ?t0"
  have ord: "distinct ord" "\<And>h. h \<in> set ord \<longleftrightarrow> fmlookup (trTxs t) h \<noteq> None"
    using assms(3) by (auto simp: rangeOrder_def fmlookup_dom'_iff)
  have m: "map (\<lambda>h. the (ExportTx c h t)) ord = map (\<lambda>h. exportTracked c (the (fmlookup (trTxs t) h))) ord"
    using ord(2) by (intro map_cong) (auto simp: ExportTx_def)
  have new: "trTombstones ?t0 = fmempty" "trTxs ?t0 = fmempty" by (simp_all add: NewTracker_def)
  have G: "fst ?r = None \<and> trackerInv (snd ?r) \<and>
      (\<forall>h. fmlookup (trTxs (snd ?r)) h = (if h \<in> set ord then fmlookup (trTxs t) h else fmlookup (trTxs ?t0) h))"
    using Import_gen [OF assms(1) inv ord(1) trackerInv_new new(1)] ord(2) by (simp add: Import_def m new Let_def)
  then have txs: "trTxs (snd ?r) = trTxs t" using ord(2) by (intro fmap_ext) (auto simp: new)
  have "set (getSlice (trByNonce (snd ?r)) (s, n)) = set (getSlice (trByNonce t) (s, n))" for s n
    using slot_pending [of "snd ?r" _ s n] slot_pending [OF inv, of _ s n] G txs by auto
  then show ?thesis using G txs by (simp add: Let_def)
qed

theorem export_import_roundtrip_witness:
  "trTxs (snd (Import decimalCodec (map (\<lambda>h. the (ExportTx decimalCodec h demoPend)) [2, 1]) demoNew)) = trTxs demoPend"
proof -
  have "rangeOrder [2, 1] (trTxs demoPend)" by (auto simp: rangeOrder_def demoPend_txs)
  from export_import_roundtrip [OF decimalCodec_OK demo_reach(1) [unfolded demoNew_new] this]
  show ?thesis by (simp add: demoNew_def Let_def)
qed

end
