(* ===== verification/Effects.thy ===== *)
theory Effects
  imports Prelude
begin

text \<open>
  Go functions that return \<open>(T, error)\<close> and act on some state: state-passing functions whose
  result is a sum. \<open>bindE\<close> is the statement sequence \<open>if err != nil { return err }\<close>, \<open>forEach\<close> a
  loop whose body may return early, \<open>attempt\<close> a call whose error is inspected. A panic (\<open>Panic\<close>)
  unwinds like an error but is never caught: \<open>attempt\<close> lets it through.

  The locale \<open>state_relation\<close> is the interface the proofs about such code use: a relation that
  holds between the state before and after is proved for the primitive steps and follows for
  every composition of them.
\<close>

section \<open>Sequencing\<close>

type_synonym ('s, 'a) goM = "'s \<Rightarrow> (goerr + 'a) \<times> 's"

definition ok :: "'a \<Rightarrow> ('s, 'a) goM" where
  "ok x s = (Inr x, s)"

definition fail :: "goerr \<Rightarrow> ('s, 'a) goM" where
  "fail e s = (Inl e, s)"

definition bindE :: "('s, 'a) goM \<Rightarrow> ('a \<Rightarrow> ('s, 'b) goM) \<Rightarrow> ('s, 'b) goM" where
  "bindE m f s = (case m s of (Inl e, s') \<Rightarrow> (Inl e, s') | (Inr x, s') \<Rightarrow> f x s')"

definition attempt :: "('s, 'a) goM \<Rightarrow> ('s, goerr + 'a) goM" where
  "attempt m s =
     (case m s of
        (Inl e, s') \<Rightarrow> if isPanic e then (Inl e, s') else (Inr (Inl e), s')
      | (Inr x, s') \<Rightarrow> (Inr (Inr x), s'))"

definition modify :: "('s \<Rightarrow> 's) \<Rightarrow> ('s, unit) goM" where
  "modify f s = (Inr (), f s)"

definition gets :: "('s \<Rightarrow> 'a) \<Rightarrow> ('s, 'a) goM" where
  "gets f s = (Inr (f s), s)"

fun forEach :: "('a \<Rightarrow> ('s, unit) goM) \<Rightarrow> 'a list \<Rightarrow> ('s, unit) goM" where
  "forEach f [] s = (Inr (), s)"
| "forEach f (x # xs) s = bindE (f x) (\<lambda>_. forEach f xs) s"

text \<open>A loop over \<open>xs\<close> that reads \<open>rs[i]\<close> and \<open>es[i]\<close> along: too short a slice is an index panic.\<close>

fun forEach3 :: "('a \<Rightarrow> 'b \<Rightarrow> 'c \<Rightarrow> ('s, unit) goM) \<Rightarrow> 'a list \<Rightarrow> 'b list \<Rightarrow> 'c list \<Rightarrow> ('s, unit) goM" where
  "forEach3 f [] rs es s = (Inr (), s)"
| "forEach3 f (x # xs) (r # rs) (e # es) s = bindE (f x r e) (\<lambda>_. forEach3 f xs rs es) s"
| "forEach3 f (x # xs) rs es s = (Inl (Panic ''index out of range''), s)"

text \<open>A loop that carries a value.\<close>

fun foldE :: "('a \<Rightarrow> 'b \<Rightarrow> ('s, 'b) goM) \<Rightarrow> 'a list \<Rightarrow> 'b \<Rightarrow> ('s, 'b) goM" where
  "foldE f [] b s = (Inr b, s)"
| "foldE f (x # xs) b s = bindE (f x b) (foldE f xs) s"

fun foldE3 :: "('a \<Rightarrow> 'c \<Rightarrow> 'd \<Rightarrow> 'b \<Rightarrow> ('s, 'b) goM) \<Rightarrow> 'a list \<Rightarrow> 'c list \<Rightarrow> 'd list \<Rightarrow> 'b \<Rightarrow> ('s, 'b) goM" where
  "foldE3 f [] rs es b s = (Inr b, s)"
| "foldE3 f (x # xs) (r # rs) (e # es) b s = bindE (f x r e b) (foldE3 f xs rs es) s"
| "foldE3 f (x # xs) rs es b s = (Inl (Panic ''index out of range''), s)"

text \<open>Dereferencing a nil pointer is a panic.\<close>

definition deref :: "'a option \<Rightarrow> ('s, 'a) goM" where
  "deref p = (case p of None \<Rightarrow> fail (Panic ''nil pointer dereference'') | Some x \<Rightarrow> ok x)"

named_theorems go_simps \<open>running the state-passing combinators\<close>

lemma run_simps [go_simps, simp]:
  "ok x s = (Inr x, s)" "fail e s = (Inl e, s)" "modify f s = (Inr (), f s)" "gets g s = (Inr (g s), s)"
  by (simp_all add: ok_def fail_def modify_def gets_def)

lemma bindE_result [go_simps]:
  "m s = (Inr x, s') \<Longrightarrow> bindE m f s = f x s'" "m s = (Inl e, s') \<Longrightarrow> bindE m f s = (Inl e, s')"
  by (simp_all add: bindE_def)

lemma bindE_ok [go_simps, simp]: "bindE (ok x) f = f x" "bindE (fail e) f = fail e"
  by (rule ext, simp add: bindE_def)+

lemma deref_simps [go_simps, simp]: "deref (Some x) = ok x" "deref None = fail (Panic ''nil pointer dereference'')"
  by (simp_all add: deref_def)

lemma bindE_Inr: "bindE m f s = (Inr y, s') \<longleftrightarrow> (\<exists>x s1. m s = (Inr x, s1) \<and> f x s1 = (Inr y, s'))"
  by (auto simp: bindE_def split: prod.splits sum.splits)

lemma bindE_Inl:
  "bindE m f s = (Inl e, s') \<longleftrightarrow> m s = (Inl e, s') \<or> (\<exists>x s1. m s = (Inr x, s1) \<and> f x s1 = (Inl e, s'))"
  by (auto simp: bindE_def split: prod.splits sum.splits)

section \<open>Retrying\<close>

text \<open>
  \<open>withRetry\<close> of internal/indexer/blocks.go: seven attempts, between two of them a wait that the
  end of the context cuts short with the context's error. \<open>wait\<close> is that \<open>select\<close>.
\<close>

definition fetchRetries :: nat where
  "fetchRetries = 7"

fun retryLoop :: "('s \<Rightarrow> goerr option \<times> 's) \<Rightarrow> ('s, 'a) goM \<Rightarrow> nat \<Rightarrow> ('s, 'a) goM" where
  "retryLoop wait fn 0 s = fn s"
| "retryLoop wait fn (Suc k) s =
     (case fn s of
        (Inr x, s1) \<Rightarrow> (Inr x, s1)
      | (Inl e, s1) \<Rightarrow>
          if isPanic e then (Inl e, s1)
          else (case wait s1 of
             (Some ctxErr, s2) \<Rightarrow> (Inl ctxErr, s2)
           | (None, s2) \<Rightarrow> retryLoop wait fn k s2))"

definition withRetry :: "('s \<Rightarrow> goerr option \<times> 's) \<Rightarrow> ('s, 'a) goM \<Rightarrow> ('s, 'a) goM" where
  "withRetry wait fn = retryLoop wait fn (fetchRetries - 1)"

text \<open>The state before attempt \<open>n\<close> (counted from 0), if all earlier ones failed and were waited out.\<close>

fun beforeAttempt :: "('s \<Rightarrow> goerr option \<times> 's) \<Rightarrow> ('s, 'a) goM \<Rightarrow> nat \<Rightarrow> 's \<Rightarrow> 's option" where
  "beforeAttempt wait fn 0 s = Some s"
| "beforeAttempt wait fn (Suc n) s =
     (case fn s of
        (Inr x, s1) \<Rightarrow> None
      | (Inl e, s1) \<Rightarrow> if isPanic e then None else
          (case wait s1 of (Some c, s2) \<Rightarrow> None | (None, s2) \<Rightarrow> beforeAttempt wait fn n s2))"

lemma retryLoop_first_success:
  "n \<le> k \<Longrightarrow> beforeAttempt wait fn n s = Some s0 \<Longrightarrow> fn s0 = (Inr x, s1) \<Longrightarrow> retryLoop wait fn k s = (Inr x, s1)"
proof (induction n arbitrary: k s)
  case 0
  then show ?case by (cases k) auto
next
  case (Suc n)
  then show ?case by (cases k) (auto split: prod.splits sum.splits option.splits if_splits)
qed

lemma retryLoop_ends:
  "\<exists>n s0. n \<le> k \<and> beforeAttempt wait fn n s = Some s0 \<and>
     (retryLoop wait fn k s = fn s0 \<and> (n = k \<or> (case fst (fn s0) of Inl e \<Rightarrow> isPanic e | Inr _ \<Rightarrow> True)) \<or>
      n < k \<and> (\<exists>e s1 c s2. fn s0 = (Inl e, s1) \<and> wait s1 = (Some c, s2) \<and> retryLoop wait fn k s = (Inl c, s2)))"
proof (induction k arbitrary: s)
  case 0
  show ?case by (rule exI [of _ 0]) auto
next
  case (Suc k)
  show ?case
  proof (cases "fn s")
    case (Pair r s1)
    consider (stop) "case r of Inl e \<Rightarrow> isPanic e | Inr _ \<Rightarrow> True"
      | (cut) e c s2 where "r = Inl e" "\<not> isPanic e" "wait s1 = (Some c, s2)"
      | (again) e s2 where "r = Inl e" "\<not> isPanic e" "wait s1 = (None, s2)"
      by (cases r; cases "wait s1"; cases "fst (wait s1)") auto
    then show ?thesis
    proof cases
      case stop
      then show ?thesis using Pair by (intro exI [of _ 0]) (auto split: sum.splits)
    next
      case cut
      then show ?thesis using Pair by (intro exI [of _ 0]) auto
    next
      case again
      obtain n s0 where *: "n \<le> k" "beforeAttempt wait fn n s2 = Some s0"
        "retryLoop wait fn k s2 = fn s0 \<and> (n = k \<or> (case fst (fn s0) of Inl e \<Rightarrow> isPanic e | Inr _ \<Rightarrow> True)) \<or>
         n < k \<and> (\<exists>e s1 c s3. fn s0 = (Inl e, s1) \<and> wait s1 = (Some c, s3) \<and> retryLoop wait fn k s2 = (Inl c, s3))"
        using Suc.IH [of s2] by (elim exE conjE) (rule that)
      have l: "retryLoop wait fn (Suc k) s = retryLoop wait fn k s2" and b: "beforeAttempt wait fn (Suc n) s = Some s0"
        using again Pair *(2) by simp_all
      show ?thesis unfolding l using *(1,3) b by (intro exI [of _ "Suc n"] exI [of _ s0]) (simp only: Suc_le_mono Suc_less_eq nat.inject simp_thms)
    qed
  qed
qed

lemma retryLoop_keeps:
  assumes "\<And>s. P s \<Longrightarrow> P (snd (fn s))" and "\<And>s. P s \<Longrightarrow> P (snd (wait s))"
  shows "P s \<Longrightarrow> P (snd (retryLoop wait fn k s))"
proof (induction k arbitrary: s)
  case (Suc k)
  obtain r s1 where f: "fn s = (r, s1)" by (cases "fn s")
  obtain c s2 where w: "wait s1 = (c, s2)" by (cases "wait s1")
  have "P s1" and "P s2" using assms(1) [OF Suc.prems] assms(2) [of s1] f w by auto
  then show ?case using f w Suc.IH [of s2] by (auto split: sum.splits option.splits)
qed (use assms(1) in simp)

section \<open>What a call returns\<close>

definition yields :: "('a \<Rightarrow> bool) \<Rightarrow> ('s, 'a) goM \<Rightarrow> bool" where
  "yields P m \<longleftrightarrow> (\<forall>s x s'. m s = (Inr x, s') \<longrightarrow> P x)"

lemma yields_run: "yields P m \<Longrightarrow> m s = (Inr x, s') \<Longrightarrow> P x"
  unfolding yields_def by blast

lemma yields_ok: "P x \<Longrightarrow> yields P (ok x)" and yields_fail: "yields P (fail e)"
  by (simp_all add: yields_def)

lemma yields_bind: "yields P m \<Longrightarrow> (\<And>x. P x \<Longrightarrow> yields Q (f x)) \<Longrightarrow> yields Q (bindE m f)"
  unfolding yields_def bindE_Inr by blast

lemma yields_after: "(\<And>x. yields Q (f x)) \<Longrightarrow> yields Q (bindE m f)"
  unfolding yields_def bindE_Inr by blast

lemma yields_if: "(b \<Longrightarrow> yields P m) \<Longrightarrow> (\<not> b \<Longrightarrow> yields P n) \<Longrightarrow> yields P (if b then m else n)"
  by simp

lemma yields_sum: "(\<And>e. x = Inl e \<Longrightarrow> yields P (f e)) \<Longrightarrow> (\<And>y. x = Inr y \<Longrightarrow> yields P (g y)) \<Longrightarrow>
    yields P (case x of Inl e \<Rightarrow> f e | Inr y \<Rightarrow> g y)"
  by (cases x) auto

lemma yields_option: "(x = None \<Longrightarrow> yields P m) \<Longrightarrow> (\<And>y. x = Some y \<Longrightarrow> yields P (f y)) \<Longrightarrow>
    yields P (case x of None \<Rightarrow> m | Some y \<Rightarrow> f y)"
  by (cases x) auto

lemma yields_prod: "(\<And>a b. x = (a, b) \<Longrightarrow> yields P (f a b)) \<Longrightarrow> yields P (case x of (a, b) \<Rightarrow> f a b)"
  by (cases x) auto

lemmas yields_rules = yields_ok yields_fail yields_if yields_sum yields_option yields_prod

section \<open>What a call does to the state\<close>

locale state_relation =
  fixes R :: "'s \<Rightarrow> 's \<Rightarrow> bool"
  assumes rel_refl: "R s s" and rel_trans: "R a b \<Longrightarrow> R b c \<Longrightarrow> R a c"
begin

definition within :: "('s, 'a) goM \<Rightarrow> bool" where
  "within m \<longleftrightarrow> (\<forall>s. R s (snd (m s)))"

lemma within_run: "within m \<Longrightarrow> m s = (r, s') \<Longrightarrow> R s s'"
  unfolding within_def by (metis snd_conv)

lemma within_ok: "within (ok x)" and within_fail: "within (fail e)" and within_gets: "within (gets g)"
  by (simp_all add: within_def rel_refl)

lemma within_modify: "(\<And>s. R s (f s)) \<Longrightarrow> within (modify f)"
  by (simp add: within_def)

lemma within_bind: "within m \<Longrightarrow> (\<And>x. within (f x)) \<Longrightarrow> within (bindE m f)"
  unfolding within_def by (auto simp: bindE_def split: prod.splits sum.splits) (metis rel_trans snd_conv)+

lemma within_bind_result:
  "within m \<Longrightarrow> (\<And>s x s'. m s = (Inr x, s') \<Longrightarrow> within (f x)) \<Longrightarrow> within (bindE m f)"
  unfolding within_def by (auto simp: bindE_def split: prod.splits sum.splits) (metis rel_trans snd_conv)+

lemma within_retry:
  assumes "within fn" and "\<And>s. R s (snd (wait s))"
  shows "within (withRetry wait fn)"
proof -
  have "R s (snd (retryLoop wait fn k s'))" if "R s s'" for s s' k
    using that assms by (intro retryLoop_keeps [where P = "R s"]) (auto simp: within_def intro: rel_trans)
  then show ?thesis unfolding within_def withRetry_def using rel_refl by blast
qed

lemma within_gets_bind: "(\<And>s. R s (snd (f (g s) s))) \<Longrightarrow> within (bindE (gets g) f)"
  by (simp add: within_def bindE_def)

lemma within_attempt: "within m \<Longrightarrow> within (attempt m)"
  unfolding within_def by (auto simp: attempt_def split: prod.splits sum.splits) (metis snd_conv)+

lemma within_forEach: "(\<And>x. x \<in> set xs \<Longrightarrow> within (f x)) \<Longrightarrow> within (forEach f xs)"
proof (induction xs)
  case Nil
  then show ?case by (simp add: within_def rel_refl)
next
  case (Cons x xs)
  have "forEach f (x # xs) = bindE (f x) (\<lambda>_. forEach f xs)" by (rule ext) simp
  then show ?case using Cons by (auto intro!: within_bind)
qed

lemma within_forEach3: "(\<And>x r e. within (f x r e)) \<Longrightarrow> within (forEach3 f xs rs es)"
proof (induction xs arbitrary: rs es)
  case Nil
  then show ?case by (simp add: within_def rel_refl)
next
  case (Cons x xs)
  have "within (bindE (f x r e) (\<lambda>_. forEach3 f xs rs' es'))" for r e rs' es'
    using Cons by (intro within_bind) auto
  moreover have "forEach3 f (x # xs) (r # rs') (e # es') = bindE (f x r e) (\<lambda>_. forEach3 f xs rs' es')" for r e rs' es'
    by (rule ext) simp
  ultimately show ?case by (cases rs; cases es) (auto simp: within_def rel_refl)
qed

lemma within_foldE: "(\<And>x b. within (f x b)) \<Longrightarrow> within (foldE f xs b)"
proof (induction xs arbitrary: b)
  case Nil
  then show ?case by (simp add: within_def rel_refl)
next
  case (Cons x xs)
  have "foldE f (x # xs) b = bindE (f x b) (foldE f xs)" by (rule ext) simp
  then show ?case using Cons by (auto intro!: within_bind)
qed

lemma within_foldE3: "(\<And>x r e b. within (f x r e b)) \<Longrightarrow> within (foldE3 f xs rs es b)"
proof (induction xs arbitrary: rs es b)
  case Nil
  then show ?case by (simp add: within_def rel_refl)
next
  case (Cons x xs)
  have "within (bindE (f x r e b) (foldE3 f xs rs' es'))" for r e rs' es'
    using Cons by (intro within_bind) auto
  moreover have "foldE3 f (x # xs) (r # rs') (e # es') b = bindE (f x r e b) (foldE3 f xs rs' es')" for r e rs' es'
    by (rule ext) simp
  ultimately show ?case by (cases rs; cases es) (auto simp: within_def rel_refl)
qed

lemma within_foldE3_zip:
  "(\<And>x r e b. (x, r) \<in> set (zip xs rs) \<Longrightarrow> within (f x r e b)) \<Longrightarrow> within (foldE3 f xs rs es b)"
proof (induction xs arbitrary: rs es b)
  case Nil
  then show ?case by (simp add: within_def rel_refl)
next
  case (Cons x xs)
  show ?case
  proof (cases rs; cases es)
    fix r rs' e es' assume l: "rs = r # rs'" "es = e # es'"
    have "within (bindE (f x r e b) (foldE3 f xs rs' es'))"
      using Cons.prems l by (intro within_bind Cons.IH) auto
    moreover have "foldE3 f (x # xs) rs es b = bindE (f x r e b) (foldE3 f xs rs' es')"
      unfolding l by (rule ext) simp
    ultimately show ?thesis by simp
  qed (auto simp: within_def rel_refl)
qed

lemma within_if: "(b \<Longrightarrow> within m) \<Longrightarrow> (\<not> b \<Longrightarrow> within n) \<Longrightarrow> within (if b then m else n)"
  by simp

lemma within_option: "(x = None \<Longrightarrow> within m) \<Longrightarrow> (\<And>y. x = Some y \<Longrightarrow> within (f y)) \<Longrightarrow> within (case x of None \<Rightarrow> m | Some y \<Rightarrow> f y)"
  by (cases x) auto

lemma within_sum: "(\<And>e. x = Inl e \<Longrightarrow> within (f e)) \<Longrightarrow> (\<And>y. x = Inr y \<Longrightarrow> within (g y)) \<Longrightarrow> within (case x of Inl e \<Rightarrow> f e | Inr y \<Rightarrow> g y)"
  by (cases x) auto

lemma within_prod: "(\<And>a b. x = (a, b) \<Longrightarrow> within (f a b)) \<Longrightarrow> within (case x of (a, b) \<Rightarrow> f a b)"
  by (cases x) auto

lemma within_deref: "within (deref p)"
  by (cases p) (auto intro: within_ok within_fail)

lemmas within_rules = within_ok within_fail within_gets within_bind within_attempt within_forEach
  within_forEach3 within_foldE within_foldE3 within_if within_option within_sum within_prod within_deref

end

end
