(* ===== verification/Metrics.thy ===== *)
theory Metrics
  imports Effects
begin

text \<open>
  internal/metrics/metrics.go: the collectors, their registration behind \<open>Handler\<close>, and the
  recording functions the indexer calls. The Prometheus library is a parameter: a registration, and
  an operation on the series that a vector has under a list of label values. What its documentation
  and its checks say of them is the locale \<open>prom_registry\<close>, where a label value that is not UTF-8 or a
  wrong number of them panics, and a collector has to be well formed. A value is handed over as the
  number the program has; its conversion to a floating point number is the library's side.
\<close>

section \<open>Collectors\<close>

datatype metricKind = CounterVec | GaugeVec | HistogramVec "int list option"

text \<open>The buckets of a histogram are upper bounds in the unit of its observations; \<open>None\<close> are \<open>DefBuckets\<close>.\<close>

record metricVec =
  mvName :: string
  mvKind :: metricKind
  mvLabels :: "string list"

definition transactionsTotal :: metricVec where
  "transactionsTotal = \<lparr>mvName = ''ethindex_transactions_total'', mvKind = CounterVec,
     mvLabels = [''indexer'', ''status'', ''direction'']\<rparr>"

definition confirmationLatency :: metricVec where
  "confirmationLatency = \<lparr>mvName = ''ethindex_confirmation_latency_seconds'',
     mvKind = HistogramVec (Some [1, 5, 15, 30, 60, 120, 300, 600, 1200, 3600]), mvLabels = [''indexer'']\<rparr>"

definition lastProcessedBlock :: metricVec where
  "lastProcessedBlock = \<lparr>mvName = ''ethindex_last_processed_block'', mvKind = GaugeVec, mvLabels = [''indexer'']\<rparr>"

definition chainHeadBlock :: metricVec where
  "chainHeadBlock = \<lparr>mvName = ''ethindex_chain_head_block'', mvKind = GaugeVec, mvLabels = [''indexer'']\<rparr>"

definition finalizedBlock :: metricVec where
  "finalizedBlock = \<lparr>mvName = ''ethindex_finalized_block'', mvKind = GaugeVec, mvLabels = [''indexer'']\<rparr>"

definition trackedTransactions :: metricVec where
  "trackedTransactions = \<lparr>mvName = ''ethindex_tracked_transactions'', mvKind = GaugeVec, mvLabels = [''indexer'']\<rparr>"

definition blocksProcessedTotal :: metricVec where
  "blocksProcessedTotal = \<lparr>mvName = ''ethindex_blocks_processed_total'', mvKind = CounterVec, mvLabels = [''indexer'']\<rparr>"

definition blockProcessDuration :: metricVec where
  "blockProcessDuration = \<lparr>mvName = ''ethindex_block_process_duration_seconds'', mvKind = HistogramVec None,
     mvLabels = [''indexer'']\<rparr>"

definition catchupRemainingBlocks :: metricVec where
  "catchupRemainingBlocks = \<lparr>mvName = ''ethindex_catchup_remaining_blocks'', mvKind = GaugeVec, mvLabels = [''indexer'']\<rparr>"

definition reorgsTotal :: metricVec where
  "reorgsTotal = \<lparr>mvName = ''ethindex_reorgs_total'', mvKind = CounterVec, mvLabels = [''indexer'']\<rparr>"

definition reorgDepth :: metricVec where
  "reorgDepth = \<lparr>mvName = ''ethindex_reorg_depth'', mvKind = HistogramVec (Some [1, 2, 3, 5, 10, 25, 50, 100]),
     mvLabels = [''indexer'']\<rparr>"

definition sessionReconnectsTotal :: metricVec where
  "sessionReconnectsTotal = \<lparr>mvName = ''ethindex_session_reconnects_total'', mvKind = CounterVec, mvLabels = [''indexer'']\<rparr>"

definition pendingDroppedTotal :: metricVec where
  "pendingDroppedTotal = \<lparr>mvName = ''ethindex_pending_notifications_dropped_total'', mvKind = CounterVec,
     mvLabels = [''indexer'']\<rparr>"

lemmas collector_defs = transactionsTotal_def confirmationLatency_def lastProcessedBlock_def chainHeadBlock_def
  finalizedBlock_def trackedTransactions_def blocksProcessedTotal_def blockProcessDuration_def
  catchupRemainingBlocks_def reorgsTotal_def reorgDepth_def sessionReconnectsTotal_def pendingDroppedTotal_def

text \<open>The package's variables.\<close>

definition packageVecs :: "metricVec list" where
  "packageVecs = [transactionsTotal, confirmationLatency, lastProcessedBlock, chainHeadBlock, finalizedBlock,
     trackedTransactions, blocksProcessedTotal, blockProcessDuration, catchupRemainingBlocks, reorgsTotal, reorgDepth,
     sessionReconnectsTotal, pendingDroppedTotal]"

section \<open>The library\<close>

datatype sampleOp = OpInc | OpAdd u64 | OpSet u64 | OpSetInt int | OpObserve u64 | OpSeconds duration

record 'w promLib =
  pmRegister :: "metricVec \<Rightarrow> ('w, unit) goM"
  pmApply :: "metricVec \<Rightarrow> string list \<Rightarrow> sampleOp \<Rightarrow> ('w, unit) goM"

section \<open>Operations\<close>

definition registerOrder :: "metricVec list" where
  "registerOrder = [transactionsTotal, confirmationLatency, lastProcessedBlock, chainHeadBlock, finalizedBlock,
     trackedTransactions, blocksProcessedTotal, blockProcessDuration, catchupRemainingBlocks, reorgsTotal, reorgDepth,
     sessionReconnectsTotal, pendingDroppedTotal]"

definition Handler :: "'w promLib \<Rightarrow> ('w, unit) goM" where
  "Handler P = forEach (pmRegister P) registerOrder"

definition RecordTransaction :: "'w promLib \<Rightarrow> string \<Rightarrow> string \<Rightarrow> string \<Rightarrow> ('w, unit) goM" where
  "RecordTransaction P indexer status direction = pmApply P transactionsTotal [indexer, status, direction] OpInc"

definition RecordConfirmationLatency :: "'w promLib \<Rightarrow> string \<Rightarrow> duration \<Rightarrow> ('w, unit) goM" where
  "RecordConfirmationLatency P indexer d = pmApply P confirmationLatency [indexer] (OpSeconds d)"

definition SetLastProcessedBlock :: "'w promLib \<Rightarrow> string \<Rightarrow> u64 \<Rightarrow> ('w, unit) goM" where
  "SetLastProcessedBlock P indexer number = pmApply P lastProcessedBlock [indexer] (OpSet number)"

definition SetChainHeadBlock :: "'w promLib \<Rightarrow> string \<Rightarrow> u64 \<Rightarrow> ('w, unit) goM" where
  "SetChainHeadBlock P indexer number = pmApply P chainHeadBlock [indexer] (OpSet number)"

definition SetFinalizedBlock :: "'w promLib \<Rightarrow> string \<Rightarrow> u64 \<Rightarrow> ('w, unit) goM" where
  "SetFinalizedBlock P indexer number = pmApply P finalizedBlock [indexer] (OpSet number)"

definition SetTrackedTransactions :: "'w promLib \<Rightarrow> string \<Rightarrow> int \<Rightarrow> ('w, unit) goM" where
  "SetTrackedTransactions P indexer n = pmApply P trackedTransactions [indexer] (OpSetInt n)"

definition RecordBlockProcessed :: "'w promLib \<Rightarrow> string \<Rightarrow> duration \<Rightarrow> ('w, unit) goM" where
  "RecordBlockProcessed P indexer d =
     bindE (pmApply P blocksProcessedTotal [indexer] OpInc) (\<lambda>_. pmApply P blockProcessDuration [indexer] (OpSeconds d))"

definition SetCatchupRemainingBlocks :: "'w promLib \<Rightarrow> string \<Rightarrow> u64 \<Rightarrow> ('w, unit) goM" where
  "SetCatchupRemainingBlocks P indexer n = pmApply P catchupRemainingBlocks [indexer] (OpSet n)"

definition RecordReorg :: "'w promLib \<Rightarrow> string \<Rightarrow> u64 \<Rightarrow> ('w, unit) goM" where
  "RecordReorg P indexer d =
     bindE (pmApply P reorgsTotal [indexer] OpInc) (\<lambda>_. pmApply P reorgDepth [indexer] (OpObserve d))"

definition RecordSessionReconnect :: "'w promLib \<Rightarrow> string \<Rightarrow> ('w, unit) goM" where
  "RecordSessionReconnect P indexer = pmApply P sessionReconnectsTotal [indexer] OpInc"

definition RecordPendingDropped :: "'w promLib \<Rightarrow> string \<Rightarrow> u64 \<Rightarrow> ('w, unit) goM" where
  "RecordPendingDropped P indexer n = pmApply P pendingDroppedTotal [indexer] (OpAdd n)"

text \<open>A call of one of the recording functions.\<close>

datatype metricCall =
    TransactionCall string string string
  | LatencyCall string duration
  | LastProcessedCall string u64
  | ChainHeadCall string u64
  | FinalizedCall string u64
  | TrackedCall string int
  | BlockCall string duration
  | CatchupCall string u64
  | ReorgCall string u64
  | ReconnectCall string
  | DroppedCall string u64

fun callIndexer :: "metricCall \<Rightarrow> string" where
  "callIndexer (TransactionCall ix _ _) = ix"
| "callIndexer (LatencyCall ix _) = ix"
| "callIndexer (LastProcessedCall ix _) = ix"
| "callIndexer (ChainHeadCall ix _) = ix"
| "callIndexer (FinalizedCall ix _) = ix"
| "callIndexer (TrackedCall ix _) = ix"
| "callIndexer (BlockCall ix _) = ix"
| "callIndexer (CatchupCall ix _) = ix"
| "callIndexer (ReorgCall ix _) = ix"
| "callIndexer (ReconnectCall ix) = ix"
| "callIndexer (DroppedCall ix _) = ix"

fun runCall :: "'w promLib \<Rightarrow> metricCall \<Rightarrow> ('w, unit) goM" where
  "runCall P (TransactionCall ix s d) = RecordTransaction P ix s d"
| "runCall P (LatencyCall ix d) = RecordConfirmationLatency P ix d"
| "runCall P (LastProcessedCall ix n) = SetLastProcessedBlock P ix n"
| "runCall P (ChainHeadCall ix n) = SetChainHeadBlock P ix n"
| "runCall P (FinalizedCall ix n) = SetFinalizedBlock P ix n"
| "runCall P (TrackedCall ix n) = SetTrackedTransactions P ix n"
| "runCall P (BlockCall ix d) = RecordBlockProcessed P ix d"
| "runCall P (CatchupCall ix n) = SetCatchupRemainingBlocks P ix n"
| "runCall P (ReorgCall ix n) = RecordReorg P ix n"
| "runCall P (ReconnectCall ix) = RecordSessionReconnect P ix"
| "runCall P (DroppedCall ix n) = RecordPendingDropped P ix n"

lemmas record_defs = RecordTransaction_def RecordConfirmationLatency_def SetLastProcessedBlock_def SetChainHeadBlock_def
  SetFinalizedBlock_def SetTrackedTransactions_def RecordBlockProcessed_def SetCatchupRemainingBlocks_def RecordReorg_def
  RecordSessionReconnect_def RecordPendingDropped_def

definition ofSeries :: "string \<Rightarrow> string list \<Rightarrow> metricVec \<times> string list \<times> sampleOp \<Rightarrow> bool" where
  "ofSeries name ls o1 \<longleftrightarrow> mvName (fst o1) = name \<and> fst (snd o1) = ls"

section \<open>What the library promises\<close>

text \<open>\<open>utf8.ValidString\<close> of Go's library, on the bytes of a string.\<close>

definition contByte :: "nat \<Rightarrow> bool" where
  "contByte b \<longleftrightarrow> 128 \<le> b \<and> b \<le> 191"

definition secondByte :: "nat \<Rightarrow> nat \<Rightarrow> bool" where
  "secondByte a b \<longleftrightarrow> contByte b \<and> (a = 224 \<longrightarrow> 160 \<le> b) \<and> (a = 237 \<longrightarrow> b \<le> 159) \<and> (a = 240 \<longrightarrow> 144 \<le> b) \<and> (a = 244 \<longrightarrow> b \<le> 143)"

fun utf8Valid :: "nat list \<Rightarrow> bool" where
  "utf8Valid [] = True"
| "utf8Valid (a # bs) =
     (if a < 128 then utf8Valid bs
      else if 194 \<le> a \<and> a \<le> 223 then (case bs of b # cs \<Rightarrow> contByte b \<and> utf8Valid cs | _ \<Rightarrow> False)
      else if 224 \<le> a \<and> a \<le> 239 then (case bs of b # c # ds \<Rightarrow> secondByte a b \<and> contByte c \<and> utf8Valid ds | _ \<Rightarrow> False)
      else if 240 \<le> a \<and> a \<le> 244 then
        (case bs of b # c # d # es \<Rightarrow> secondByte a b \<and> contByte c \<and> contByte d \<and> utf8Valid es | _ \<Rightarrow> False)
      else False)"

definition ValidString :: "string \<Rightarrow> bool" where
  "ValidString s \<longleftrightarrow> utf8Valid (map of_char s)"

text \<open>
  What a collector has to satisfy: a name of letters, digits, underscores and colons, labels of letters,
  digits and underscores, distinct and none of them reserved, and increasing buckets.
\<close>

definition nameChar :: "char \<Rightarrow> bool" where
  "nameChar c \<longleftrightarrow> (let n = (of_char c :: nat) in (65 \<le> n \<and> n \<le> 90) \<or> (97 \<le> n \<and> n \<le> 122) \<or> (48 \<le> n \<and> n \<le> 57) \<or> n = 95)"

definition digitByte :: "char \<Rightarrow> bool" where
  "digitByte c \<longleftrightarrow> 48 \<le> (of_char c :: nat) \<and> (of_char c :: nat) \<le> 57"

definition labelName :: "string \<Rightarrow> bool" where
  "labelName s \<longleftrightarrow> s \<noteq> [] \<and> \<not> digitByte (hd s) \<and> list_all nameChar s \<and> take 2 s \<noteq> ''__''"

definition metricName :: "string \<Rightarrow> bool" where
  "metricName s \<longleftrightarrow> s \<noteq> [] \<and> \<not> digitByte (hd s) \<and> list_all (\<lambda>c. nameChar c \<or> c = CHR '':'') s"

definition validVec :: "metricVec \<Rightarrow> bool" where
  "validVec v \<longleftrightarrow> metricName (mvName v) \<and> list_all labelName (mvLabels v) \<and> distinct (mvLabels v) \<and>
     (case mvKind v of
        HistogramVec bs \<Rightarrow> ''le'' \<notin> set (mvLabels v) \<and> (case bs of Some bounds \<Rightarrow> sorted_wrt (<) bounds | None \<Rightarrow> True)
      | _ \<Rightarrow> True)"

definition fits :: "metricVec list \<Rightarrow> metricVec \<times> string list \<times> sampleOp \<Rightarrow> bool" where
  "fits vecs o1 \<longleftrightarrow> fst o1 \<in> set vecs \<and> validVec (fst o1) \<and> length (fst (snd o1)) = length (mvLabels (fst o1)) \<and>
     list_all ValidString (fst (snd o1))"

text \<open>
  \<open>vecs\<close> are the vectors that exist, \<open>regs\<close> the names registered, \<open>series w name labels\<close> the operations a
  series has received, in order. Registering a name twice panics; so does a list of label values of the
  wrong length, or with a value that is not UTF-8.
\<close>

locale prom_registry =
  fixes P :: "'w promLib" and vecs :: "metricVec list" and regs :: "'w \<Rightarrow> string list"
    and series :: "'w \<Rightarrow> string \<Rightarrow> string list \<Rightarrow> sampleOp list"
  assumes register_law: "v \<in> set vecs \<Longrightarrow> validVec v \<Longrightarrow> mvName v \<notin> set (regs w) \<Longrightarrow>
      \<exists>w'. pmRegister P v w = (Inr (), w') \<and> regs w' = regs w @ [mvName v] \<and> series w' = series w"
    and register_again: "mvName v \<in> set (regs w) \<Longrightarrow> \<exists>p w'. pmRegister P v w = (Inl (Panic p), w')"
    and apply_law: "v \<in> set vecs \<Longrightarrow> validVec v \<Longrightarrow> length ls = length (mvLabels v) \<Longrightarrow> list_all ValidString ls \<Longrightarrow>
      \<exists>w'. pmApply P v ls op w = (Inr (), w') \<and> regs w' = regs w \<and>
        series w' = (series w)(mvName v := (series w (mvName v))(ls := series w (mvName v) ls @ [op]))"
    and apply_refused: "length ls \<noteq> length (mvLabels v) \<or> \<not> list_all ValidString ls \<Longrightarrow>
      \<exists>p w'. pmApply P v ls op w = (Inl (Panic p), w')"
begin

lemma register_all:
  "set vs \<subseteq> set vecs \<Longrightarrow> list_all validVec vs \<Longrightarrow> distinct (regs w @ map mvName vs) \<Longrightarrow>
     \<exists>w'. forEach (pmRegister P) vs w = (Inr (), w') \<and> regs w' = regs w @ map mvName vs \<and> series w' = series w"
proof (induction vs arbitrary: w)
  case (Cons v vs)
  then obtain w1 where w1: "pmRegister P v w = (Inr (), w1)" "regs w1 = regs w @ [mvName v]" "series w1 = series w"
    using register_law [of v w] by auto
  have "distinct (regs w1 @ map mvName vs)" using Cons.prems w1(2) by auto
  from Cons.IH [OF _ _ this] show ?case using w1 Cons.prems by (auto simp: bindE_def)
qed simp

lemma apply_series:
  assumes "v \<in> set vecs" and "validVec v" and "length ls = length (mvLabels v)" and "list_all ValidString ls"
  shows "\<exists>w'. pmApply P v ls op w = (Inr (), w') \<and> regs w' = regs w \<and>
    (\<forall>name ls'. series w' name ls' = series w name ls' @ (if name = mvName v \<and> ls' = ls then [op] else []))"
  using apply_law [OF assms, of op w] by auto

lemma apply_ops:
  "\<forall>o1 \<in> set ops. fits vecs o1 \<Longrightarrow>
    \<exists>w'. forEach (\<lambda>(v, ls, op). pmApply P v ls op) ops w = (Inr (), w') \<and> regs w' = regs w \<and>
      (\<forall>name ls'. series w' name ls' =
        series w name ls' @ map (snd \<circ> snd) (filter (ofSeries name ls') ops))"
proof (induction ops arbitrary: w)
  case (Cons o1 ops)
  obtain v ls op where o1: "o1 = (v, ls, op)" by (cases o1)
  obtain w1 where w1: "pmApply P v ls op w = (Inr (), w1)" "regs w1 = regs w"
    "\<forall>name ls'. series w1 name ls' = series w name ls' @ (if name = mvName v \<and> ls' = ls then [op] else [])"
    using apply_series [of v ls op w] Cons.prems o1 by (auto simp: fits_def)
  obtain w2 where "forEach (\<lambda>(v, ls, op). pmApply P v ls op) ops w1 = (Inr (), w2)" "regs w2 = regs w1"
    "\<forall>name ls'. series w2 name ls' =
        series w1 name ls' @ map (snd \<circ> snd) (filter (ofSeries name ls') ops)"
    using Cons.IH [of w1] Cons.prems by auto
  then show ?case using w1 o1 by (intro exI [of _ w2]) (auto simp: bindE_def ofSeries_def [of _ _ "(v, ls, op)"])
qed simp

end

text \<open>The operations a call applies, in order.\<close>

fun callOps :: "metricCall \<Rightarrow> (metricVec \<times> string list \<times> sampleOp) list" where
  "callOps (TransactionCall ix s d) = [(transactionsTotal, [ix, s, d], OpInc)]"
| "callOps (LatencyCall ix d) = [(confirmationLatency, [ix], OpSeconds d)]"
| "callOps (LastProcessedCall ix n) = [(lastProcessedBlock, [ix], OpSet n)]"
| "callOps (ChainHeadCall ix n) = [(chainHeadBlock, [ix], OpSet n)]"
| "callOps (FinalizedCall ix n) = [(finalizedBlock, [ix], OpSet n)]"
| "callOps (TrackedCall ix n) = [(trackedTransactions, [ix], OpSetInt n)]"
| "callOps (BlockCall ix d) = [(blocksProcessedTotal, [ix], OpInc), (blockProcessDuration, [ix], OpSeconds d)]"
| "callOps (CatchupCall ix n) = [(catchupRemainingBlocks, [ix], OpSet n)]"
| "callOps (ReorgCall ix n) = [(reorgsTotal, [ix], OpInc), (reorgDepth, [ix], OpObserve n)]"
| "callOps (ReconnectCall ix) = [(sessionReconnectsTotal, [ix], OpInc)]"
| "callOps (DroppedCall ix n) = [(pendingDroppedTotal, [ix], OpAdd n)]"

lemma runCall_ops: "runCall P call = forEach (\<lambda>(v, ls, op). pmApply P v ls op) (callOps call)"
  by (rule ext, cases call) (simp_all add: record_defs bindE_def split: prod.splits sum.splits)

lemma forEach_concat: "forEach (\<lambda>x. forEach f (g x)) xs = forEach f (concat (map g xs))"
proof -
  have app: "forEach f (ys @ zs) s = bindE (forEach f ys) (\<lambda>_. forEach f zs) s" for ys zs s
    by (induction ys arbitrary: s) (auto simp: bindE_def split: prod.splits sum.splits)
  show ?thesis
    by (rule ext, induction xs) (auto simp: app bindE_def split: prod.splits sum.splits)
qed

text \<open>The strings of a call.\<close>

fun callLabels :: "metricCall \<Rightarrow> string list" where
  "callLabels (TransactionCall ix s d) = [ix, s, d]"
| "callLabels call = [callIndexer call]"

lemma packageVecs_valid: "list_all validVec packageVecs"
  by code_simp

lemma registerOrder_distinct: "distinct (map mvName registerOrder)"
  by (simp add: registerOrder_def collector_defs)

lemma Handler_registers:
  assumes "prom_registry P packageVecs regs series"
    and "set (regs w) \<inter> set (map mvName registerOrder) = {}" and "distinct (regs w)"
  shows "\<exists>w1. Handler P w = (Inr (), w1) \<and> regs w1 = regs w @ map mvName registerOrder \<and> series w1 = series w"
proof -
  have vecs: "set registerOrder \<subseteq> set packageVecs" by (simp add: registerOrder_def packageVecs_def)
  have "distinct (regs w @ map mvName registerOrder)" using assms(2,3) registerOrder_distinct by auto
  moreover have "list_all validVec registerOrder" using packageVecs_valid vecs by (auto simp: list_all_iff)
  ultimately show ?thesis using prom_registry.register_all [OF assms(1) vecs] unfolding Handler_def by blast
qed

lemma callOps_shape:
  "(v, ls, op) \<in> set (callOps call) \<Longrightarrow> v \<in> set packageVecs \<and> length ls = length (mvLabels v) \<and> ls = callLabels call \<and> hd ls = callIndexer call"
  by (cases call) (auto simp: collector_defs packageVecs_def)

lemma runCalls_series:
  assumes "prom_registry P packageVecs regs series" and "\<forall>call \<in> set calls. list_all ValidString (callLabels call)"
  shows "\<exists>w'. forEach (runCall P) calls w = (Inr (), w') \<and> regs w' = regs w \<and>
    (\<forall>name ls. series w' name ls = series w name ls @
       map (snd \<circ> snd) (filter (ofSeries name ls) (concat (map callOps calls))))"
proof -
  have "forEach (runCall P) calls = forEach (\<lambda>(v, ls, op). pmApply P v ls op) (concat (map callOps calls))"
    unfolding runCall_ops forEach_concat ..
  moreover have "\<forall>o1 \<in> set (concat (map callOps calls)). fits packageVecs o1"
  proof
    fix o1 assume "o1 \<in> set (concat (map callOps calls))"
    then obtain call where c: "call \<in> set calls" "o1 \<in> set (callOps call)" by auto
    obtain v ls op where o1: "o1 = (v, ls, op)" by (cases o1)
    show "fits packageVecs o1"
      using callOps_shape [of v ls op call] c assms(2) packageVecs_valid
      by (auto simp: o1 fits_def list_all_iff)
  qed
  ultimately show ?thesis using prom_registry.apply_ops [OF assms(1)] by simp
qed

lemma runCall_refused:
  assumes "prom_registry P packageVecs regs series" and "\<not> list_all ValidString (callLabels call)"
  shows "\<exists>p w'. runCall P call w = (Inl (Panic p), w')"
proof -
  obtain v ls op rest where ops: "callOps call = (v, ls, op) # rest" by (cases call) auto
  then have "ls = callLabels call" using callOps_shape [of v ls op call] by simp
  then obtain p w' where "pmApply P v ls op w = (Inl (Panic p), w')"
    using prom_registry.apply_refused [OF assms(1)] assms(2) by blast
  then show ?thesis by (simp add: runCall_ops ops bindE_def)
qed

text \<open>What the calls of a list give one series.\<close>

definition recorded :: "metricCall list \<Rightarrow> string \<Rightarrow> string list \<Rightarrow> sampleOp list" where
  "recorded calls name ls = map (snd \<circ> snd) (filter (ofSeries name ls) (concat (map callOps calls)))"

lemma recorded_Nil [simp]: "recorded [] name ls = []"
  by (simp add: recorded_def)

lemma recorded_Cons [simp]:
  "recorded (call # calls) name ls = map (snd \<circ> snd) (filter (ofSeries name ls) (callOps call)) @ recorded calls name ls"
  by (simp add: recorded_def)

lemma recorded_counters:
  "recorded calls ''ethindex_transactions_total'' [ix, s, d] = replicate (count_list calls (TransactionCall ix s d)) OpInc"
  "recorded calls ''ethindex_session_reconnects_total'' [ix] = replicate (count_list calls (ReconnectCall ix)) OpInc"
  "recorded calls ''ethindex_pending_notifications_dropped_total'' [ix] = [OpAdd n. DroppedCall i n \<leftarrow> calls, i = ix]"
  "recorded calls ''ethindex_blocks_processed_total'' [ix] = [OpInc. BlockCall i t \<leftarrow> calls, i = ix]"
  "recorded calls ''ethindex_reorgs_total'' [ix] = [OpInc. ReorgCall i n \<leftarrow> calls, i = ix]"
  by (induction calls; simp; rename_tac call calls; case_tac call; auto simp: ofSeries_def collector_defs)+

lemma recorded_gauges:
  "recorded calls ''ethindex_last_processed_block'' [ix] = [OpSet n. LastProcessedCall i n \<leftarrow> calls, i = ix]"
  "recorded calls ''ethindex_chain_head_block'' [ix] = [OpSet n. ChainHeadCall i n \<leftarrow> calls, i = ix]"
  "recorded calls ''ethindex_finalized_block'' [ix] = [OpSet n. FinalizedCall i n \<leftarrow> calls, i = ix]"
  "recorded calls ''ethindex_tracked_transactions'' [ix] = [OpSetInt n. TrackedCall i n \<leftarrow> calls, i = ix]"
  "recorded calls ''ethindex_catchup_remaining_blocks'' [ix] = [OpSet n. CatchupCall i n \<leftarrow> calls, i = ix]"
  by (induction calls; simp; rename_tac call calls; case_tac call; auto simp: ofSeries_def collector_defs)+

lemma recorded_histograms:
  "recorded calls ''ethindex_confirmation_latency_seconds'' [ix] = [OpSeconds t. LatencyCall i t \<leftarrow> calls, i = ix]"
  "recorded calls ''ethindex_block_process_duration_seconds'' [ix] = [OpSeconds t. BlockCall i t \<leftarrow> calls, i = ix]"
  "recorded calls ''ethindex_reorg_depth'' [ix] = [OpObserve n. ReorgCall i n \<leftarrow> calls, i = ix]"
  by (induction calls; simp; rename_tac call calls; case_tac call; auto simp: ofSeries_def collector_defs)+

lemma recorded_none:
  assumes "ix \<notin> callIndexer ` set calls"
  shows "recorded calls name (ix # rest) = []"
proof -
  have "\<not> ofSeries name (ix # rest) o1" if "call \<in> set calls" "o1 \<in> set (callOps call)" for call o1
    using callOps_shape [of "fst o1" "fst (snd o1)" "snd (snd o1)" call] that assms by (auto simp: ofSeries_def)
  then show ?thesis unfolding recorded_def by (auto simp: filter_empty_conv)
qed

section \<open>Property\<close>

text \<open>The names on the metrics endpoint.\<close>

definition endpointNames :: "string list" where
  "endpointNames = [''ethindex_transactions_total'', ''ethindex_confirmation_latency_seconds'', ''ethindex_last_processed_block'',
     ''ethindex_chain_head_block'', ''ethindex_finalized_block'', ''ethindex_tracked_transactions'', ''ethindex_blocks_processed_total'',
     ''ethindex_block_process_duration_seconds'', ''ethindex_catchup_remaining_blocks'', ''ethindex_reorgs_total'', ''ethindex_reorg_depth'',
     ''ethindex_session_reconnects_total'', ''ethindex_pending_notifications_dropped_total'']"

text \<open>
  C39: the metrics endpoint shows what was recorded. On a registry that has none of the thirteen names
  \<open>Handler\<close> registers exactly them, and a second \<open>Handler\<close> panics. Any sequence of recording calls
  whose strings are UTF-8 then succeeds, and each of the thirteen families has received, under the
  label of an indexer, one operation for each call that is about it, in the order of the calls and
  with the value of the call: the counters an increment (or the number dropped), the gauges the value
  to show, the histograms the observation. Nothing reaches a series of an indexer that no call names.
  A call with a string that is not UTF-8 panics.
\<close>

theorem metrics_isolated:
  assumes "prom_registry P packageVecs regs series"
    and "set (regs w) \<inter> set endpointNames = {}" and "distinct (regs w)"
    and "\<forall>call \<in> set calls. list_all ValidString (callLabels call)"
  shows "\<exists>w1 w2. Handler P w = (Inr (), w1) \<and> regs w1 = regs w @ endpointNames \<and> (\<exists>p w3. Handler P w1 = (Inl (Panic p), w3)) \<and>
    forEach (runCall P) calls w1 = (Inr (), w2) \<and>
    (let new = (\<lambda>name ls. drop (length (series w name ls)) (series w2 name ls)) in
      (\<forall>ix s d. new ''ethindex_transactions_total'' [ix, s, d] = replicate (count_list calls (TransactionCall ix s d)) OpInc) \<and>
      (\<forall>ix. new ''ethindex_confirmation_latency_seconds'' [ix] = [OpSeconds t. LatencyCall i t \<leftarrow> calls, i = ix] \<and>
        new ''ethindex_last_processed_block'' [ix] = [OpSet n. LastProcessedCall i n \<leftarrow> calls, i = ix] \<and>
        new ''ethindex_chain_head_block'' [ix] = [OpSet n. ChainHeadCall i n \<leftarrow> calls, i = ix] \<and>
        new ''ethindex_finalized_block'' [ix] = [OpSet n. FinalizedCall i n \<leftarrow> calls, i = ix] \<and>
        new ''ethindex_tracked_transactions'' [ix] = [OpSetInt n. TrackedCall i n \<leftarrow> calls, i = ix] \<and>
        new ''ethindex_blocks_processed_total'' [ix] = [OpInc. BlockCall i t \<leftarrow> calls, i = ix] \<and>
        new ''ethindex_block_process_duration_seconds'' [ix] = [OpSeconds t. BlockCall i t \<leftarrow> calls, i = ix] \<and>
        new ''ethindex_catchup_remaining_blocks'' [ix] = [OpSet n. CatchupCall i n \<leftarrow> calls, i = ix] \<and>
        new ''ethindex_reorgs_total'' [ix] = [OpInc. ReorgCall i n \<leftarrow> calls, i = ix] \<and>
        new ''ethindex_reorg_depth'' [ix] = [OpObserve n. ReorgCall i n \<leftarrow> calls, i = ix] \<and>
        new ''ethindex_session_reconnects_total'' [ix] = replicate (count_list calls (ReconnectCall ix)) OpInc \<and>
        new ''ethindex_pending_notifications_dropped_total'' [ix] = [OpAdd n. DroppedCall i n \<leftarrow> calls, i = ix])) \<and>
    (\<forall>name ix rest. ix \<notin> callIndexer ` set calls \<longrightarrow> series w2 name (ix # rest) = series w name (ix # rest)) \<and>
    (\<forall>bad. \<not> list_all ValidString (callLabels bad) \<longrightarrow> (\<exists>p w3. runCall P bad w2 = (Inl (Panic p), w3)))"
proof -
  have names: "map mvName registerOrder = endpointNames" by (simp add: registerOrder_def collector_defs endpointNames_def)
  obtain w1 where w1: "Handler P w = (Inr (), w1)" "regs w1 = regs w @ endpointNames" "series w1 = series w"
    using Handler_registers [OF assms(1) _ assms(3)] assms(2) unfolding names by blast
  have "mvName transactionsTotal \<in> set (regs w1)" using w1(2) by (simp add: endpointNames_def transactionsTotal_def)
  then obtain p w3 where "pmRegister P transactionsTotal w1 = (Inl (Panic p), w3)"
    using prom_registry.register_again [OF assms(1)] by blast
  then have again: "Handler P w1 = (Inl (Panic p), w3)" by (simp add: Handler_def registerOrder_def bindE_def)
  obtain w2 where w2: "forEach (runCall P) calls w1 = (Inr (), w2)" "\<And>name ls. series w2 name ls = series w name ls @ recorded calls name ls"
    using runCalls_series [OF assms(1,4), of w1] unfolding w1(3) recorded_def by blast
  show ?thesis
    using w1(1,2) again w2(1) runCall_refused [OF assms(1), of _ w2]
    by (intro exI [of _ w1] exI [of _ w2]) (simp add: w2(2) Let_def recorded_counters recorded_gauges recorded_histograms recorded_none)
qed

section \<open>A concrete registry\<close>

record listRegistry =
  lrNames :: "string list"
  lrSeries :: "string \<Rightarrow> string list \<Rightarrow> sampleOp list"

definition listProm :: "listRegistry promLib" where
  "listProm = \<lparr>pmRegister = (\<lambda>v w. if mvName v \<in> set (lrNames w) then (Inl (Panic ''duplicate metrics collector registration''), w)
       else (Inr (), w\<lparr>lrNames := lrNames w @ [mvName v]\<rparr>)),
     pmApply = (\<lambda>v ls op w. if length ls \<noteq> length (mvLabels v) then (Inl (Panic ''inconsistent label cardinality''), w)
       else if \<not> list_all ValidString ls then (Inl (Panic ''label value is not valid UTF-8''), w)
       else (Inr (), w\<lparr>lrSeries := (lrSeries w)(mvName v := (lrSeries w (mvName v))(ls := lrSeries w (mvName v) ls @ [op]))\<rparr>))\<rparr>"

interpretation listProm: prom_registry listProm packageVecs lrNames lrSeries
  by unfold_locales (auto simp: listProm_def)

definition freshRegistry :: listRegistry where
  "freshRegistry = \<lparr>lrNames = [''go_goroutines''], lrSeries = (\<lambda>_ _. [])\<rparr>"

theorem metrics_isolated_witness:
  "\<exists>w1 w2. Handler listProm freshRegistry = (Inr (), w1) \<and>
     forEach (runCall listProm) [BlockCall ''a'' 5, ReorgCall ''b'' 3, BlockCall ''a'' 7] w1 = (Inr (), w2) \<and>
     lrSeries w2 ''ethindex_block_process_duration_seconds'' [''a''] = [OpSeconds 5, OpSeconds 7]"
proof -
  have pre: "set (lrNames freshRegistry) \<inter> set endpointNames = {}" "distinct (lrNames freshRegistry)"
    by (simp_all add: freshRegistry_def endpointNames_def)
  have utf8: "ValidString ''a''" "ValidString ''b''" by code_simp+
  have fresh: "lrSeries freshRegistry = (\<lambda>_ _. [])" by (simp add: freshRegistry_def)
  show ?thesis
    using metrics_isolated [OF listProm.prom_registry_axioms pre, of "[BlockCall ''a'' 5, ReorgCall ''b'' 3, BlockCall ''a'' 7]"]
    by (auto simp: utf8 fresh Let_def)
qed

end
