(* ===== verification/Client.thy ===== *)
theory Client
  imports Matcher Effects
begin

text \<open>
  internal/indexer/client.go: the data fetched from the node, the \<open>ChainClient\<close> interface the
  indexer consumes, and \<open>rpcClient\<close>, which implements it over JSON-RPC. The transport (go-ethereum's
  \<open>rpc.Client\<close> and its JSON decoding) is a parameter: a call answers a request with a decoded value,
  \<open>Null\<close> leaving a nil pointer or slice; a batch call fills the result and the error of every
  element of the batch, and is given as the function from the index of an element to them. The
  subscriptions are channels of the session and not part of the model.
\<close>

section \<open>Data\<close>

record block =
  bkHash :: hash
  bkParentHash :: hash
  bkNumber :: u64
  bkTime :: u64
  bkTransactions :: "blockTx list"

record blockHeader =
  bhHash :: hash
  bhParentHash :: hash
  bhNumber :: u64

record blockReceipt =
  brTxHash :: hash
  brStatus :: u64
  brBlockHash :: hash
  brLogs :: "ethLog list"

text \<open>Of go-ethereum's \<open>types.Receipt\<close> the code reads the status, the block and the logs;
  \<open>rcBlockNumber\<close> is \<open>BlockNumber.Uint64()\<close>.\<close>

record receipt =
  rcStatus :: u64
  rcBlockHash :: hash
  rcBlockNumber :: u64
  rcLogs :: "ethLog list"

record blockBundle =
  bbBlock :: "block option"
  bbReceipts :: "blockReceipt list"
  bbReceiptsErr :: "goerr option"

definition emptyBundle :: blockBundle where
  "emptyBundle = \<lparr>bbBlock = None, bbReceipts = [], bbReceiptsErr = None\<rparr>"

record filterQuery =
  fqFromBlock :: "int option"
  fqToBlock :: "int option"
  fqAddresses :: "address list"
  fqTopics :: "hash list option list"

record 'w chainClient =
  ccChainID :: "('w, int) goM"
  ccBlockByHash :: "hash \<Rightarrow> ('w, block) goM"
  ccBlockByNumber :: "u64 \<Rightarrow> ('w, block) goM"
  ccTransactionReceipt :: "hash \<Rightarrow> ('w, receipt) goM"
  ccTxPoolStatus :: "('w, u64 \<times> u64) goM"
  ccTxPoolContent :: "('w, blockTx list) goM"
  ccBlockReceipts :: "hash \<Rightarrow> ('w, blockReceipt list) goM"
  ccBlockNumberByTag :: "string \<Rightarrow> ('w, u64) goM"
  ccBlockBundleByNumber :: "u64 \<Rightarrow> ('w, blockBundle) goM"
  ccBlockBundleByHash :: "hash \<Rightarrow> ('w, blockBundle) goM"
  ccBlockBundles :: "u64 list \<Rightarrow> bool \<Rightarrow> ('w, blockBundle list \<times> goerr option list) goM"
  ccTransactionReceipts :: "hash list \<Rightarrow> ('w, receipt option list \<times> goerr option list) goM"
  ccTransactionsByHash :: "hash list \<Rightarrow> ('w, blockTx option list \<times> goerr option list) goM"
  ccHeaderRefsByNumbers :: "u64 list \<Rightarrow> ('w, blockHeader option list \<times> goerr option list) goM"
  ccFilterLogsBatch :: "filterQuery list \<Rightarrow> ('w, ethLog list list \<times> goerr option list) goM"

section \<open>The transport\<close>

text \<open>The \<open>eth_getLogs\<close> parameter object; an absent key is \<open>None\<close>.\<close>

record filterObject =
  foTopics :: "hash list option list"
  foAddress :: "address list option"
  foFromBlock :: "int option"
  foToBlock :: "int option"

datatype rpcArg = HashArg hash | NumArg u64 | TagArg string | BoolArg bool | FilterArg filterObject

datatype rpcRequest = Request (rqMethod: string) (rqArgs: "rpcArg list")

type_synonym poolMap = "(address, (string, blockTx) fmap) fmap"

datatype rpcValue =
    Null
  | BlockVal block
  | HeaderVal blockHeader
  | HeadVal u64
  | TxVal blockTx
  | ReceiptVal receipt
  | ReceiptsVal "blockReceipt list"
  | LogsVal "ethLog list"
  | StatusVal u64 u64
  | PoolVal poolMap poolMap

text \<open>What decoding into a variable of each Go type leaves in it.\<close>

fun asBlock :: "rpcValue \<Rightarrow> block option" where
  "asBlock (BlockVal b) = Some b"
| "asBlock _ = None"

fun asHeader :: "rpcValue \<Rightarrow> blockHeader option" where
  "asHeader (HeaderVal h) = Some h"
| "asHeader _ = None"

fun asHead :: "rpcValue \<Rightarrow> u64 option" where
  "asHead (HeadVal n) = Some n"
| "asHead _ = None"

fun asTx :: "rpcValue \<Rightarrow> blockTx option" where
  "asTx (TxVal t) = Some t"
| "asTx _ = None"

fun asReceipt :: "rpcValue \<Rightarrow> receipt option" where
  "asReceipt (ReceiptVal r) = Some r"
| "asReceipt _ = None"

fun asReceipts :: "rpcValue \<Rightarrow> blockReceipt list option" where
  "asReceipts (ReceiptsVal rs) = Some rs"
| "asReceipts _ = None"

fun asLogs :: "rpcValue \<Rightarrow> ethLog list" where
  "asLogs (LogsVal ls) = ls"
| "asLogs _ = []"

fun asStatus :: "rpcValue \<Rightarrow> u64 \<times> u64" where
  "asStatus (StatusVal p q) = (p, q)"
| "asStatus _ = (0, 0)"

fun asPool :: "rpcValue \<Rightarrow> poolMap \<times> poolMap" where
  "asPool (PoolVal p q) = (p, q)"
| "asPool _ = (fmempty, fmempty)"

text \<open>
  An error of the transport is a value that comes back from it: a message, the end of the context
  or go-ethereum's \<open>NotFound\<close>. \<open>rtPoolOrder\<close> and \<open>rtNonceOrder\<close> are the orders in which the loops
  visit the maps of the pool.
\<close>

datatype rpcError = RpcText string | RpcCanceled | RpcNotFound

fun goErr :: "rpcError \<Rightarrow> goerr" where
  "goErr (RpcText m) = ErrText m"
| "goErr RpcCanceled = Canceled"
| "goErr RpcNotFound = NotFound"

type_synonym ('w, 'a) rpcM = "'w \<Rightarrow> (rpcError + 'a) \<times> 'w"

definition wire :: "('w, 'a) rpcM \<Rightarrow> ('w, 'a) goM" where
  "wire m w = (case m w of (Inl e, w') \<Rightarrow> (Inl (goErr e), w') | (Inr x, w') \<Rightarrow> (Inr x, w'))"

record 'w transport =
  rtCall :: "rpcRequest \<Rightarrow> ('w, rpcValue) rpcM"
  rtBatch :: "rpcRequest list \<Rightarrow> ('w, nat \<Rightarrow> rpcValue \<times> rpcError option) rpcM"
  rtChainID :: "('w, int) rpcM"
  rtReceipt :: "hash \<Rightarrow> ('w, receipt) rpcM"
  rtPoolOrder :: "poolMap \<Rightarrow> address list"
  rtNonceOrder :: "(string, blockTx) fmap \<Rightarrow> string list"

section \<open>rpcClient\<close>

definition getBlock :: "'w transport \<Rightarrow> string \<Rightarrow> rpcArg \<Rightarrow> ('w, block) goM" where
  "getBlock T meth arg =
     bindE (wire (rtCall T (Request meth [arg, BoolArg True])))
       (\<lambda>v. case asBlock v of None \<Rightarrow> fail NotFound | Some b \<Rightarrow> ok b)"

definition BlockByHash :: "'w transport \<Rightarrow> hash \<Rightarrow> ('w, block) goM" where
  "BlockByHash T h = getBlock T ''eth_getBlockByHash'' (HashArg h)"

definition BlockByNumber :: "'w transport \<Rightarrow> u64 \<Rightarrow> ('w, block) goM" where
  "BlockByNumber T n = getBlock T ''eth_getBlockByNumber'' (NumArg n)"

definition TxPoolStatus :: "'w transport \<Rightarrow> ('w, u64 \<times> u64) goM" where
  "TxPoolStatus T = bindE (wire (rtCall T (Request ''txpool_status'' []))) (\<lambda>v. ok (asStatus v))"

definition flattenPool :: "'w transport \<Rightarrow> poolMap \<Rightarrow> blockTx list" where
  "flattenPool T pool =
     concat (map (\<lambda>a. case fmlookup pool a of
          None \<Rightarrow> []
        | Some byNonce \<Rightarrow> List.map_filter (fmlookup byNonce) (rtNonceOrder T byNonce))
       (rtPoolOrder T pool))"

definition TxPoolContent :: "'w transport \<Rightarrow> ('w, blockTx list) goM" where
  "TxPoolContent T =
     bindE (wire (rtCall T (Request ''txpool_content'' [])))
       (\<lambda>v. case asPool v of (pending, queued) \<Rightarrow> ok (flattenPool T pending @ flattenPool T queued))"

definition BlockReceipts :: "'w transport \<Rightarrow> hash \<Rightarrow> ('w, blockReceipt list) goM" where
  "BlockReceipts T h =
     bindE (wire (rtCall T (Request ''eth_getBlockReceipts'' [HashArg h])))
       (\<lambda>v. case asReceipts v of None \<Rightarrow> fail NotFound | Some rs \<Rightarrow> ok rs)"

definition BlockNumberByTag :: "'w transport \<Rightarrow> string \<Rightarrow> ('w, u64) goM" where
  "BlockNumberByTag T tag =
     bindE (wire (rtCall T (Request ''eth_getBlockByNumber'' [TagArg tag, BoolArg False])))
       (\<lambda>v. case asHead v of None \<Rightarrow> fail NotFound | Some n \<Rightarrow> ok n)"

text \<open>The bundle of a block that was found and of what came back for its receipts.\<close>

definition bundleWith :: "block \<Rightarrow> blockReceipt list option \<Rightarrow> goerr option \<Rightarrow> blockBundle" where
  "bundleWith b receipts err =
     \<lparr>bbBlock = Some b, bbReceipts = (case receipts of None \<Rightarrow> [] | Some rs \<Rightarrow> rs),
      bbReceiptsErr = (if err = None \<and> receipts = None \<and> bkTransactions b \<noteq> [] then Some NotFound else err)\<rparr>"

definition blockBundleCall :: "'w transport \<Rightarrow> string \<Rightarrow> rpcArg \<Rightarrow> rpcArg \<Rightarrow> ('w, blockBundle) goM" where
  "blockBundleCall T blockMethod blockArg receiptsArg =
     bindE (wire (rtBatch T [Request blockMethod [blockArg, BoolArg True],
                       Request ''eth_getBlockReceipts'' [receiptsArg]]))
       (\<lambda>batch. case snd (batch 0) of
            Some e \<Rightarrow> fail (goErr e)
          | None \<Rightarrow> (case asBlock (fst (batch 0)) of
               None \<Rightarrow> fail NotFound
             | Some b \<Rightarrow> ok (bundleWith b (asReceipts (fst (batch 1))) (map_option goErr (snd (batch 1))))))"

definition BlockBundleByNumber :: "'w transport \<Rightarrow> u64 \<Rightarrow> ('w, blockBundle) goM" where
  "BlockBundleByNumber T n = blockBundleCall T ''eth_getBlockByNumber'' (NumArg n) (NumArg n)"

definition BlockBundleByHash :: "'w transport \<Rightarrow> hash \<Rightarrow> ('w, blockBundle) goM" where
  "BlockBundleByHash T h = blockBundleCall T ''eth_getBlockByHash'' (HashArg h) (HashArg h)"

definition bundleRequests :: "bool \<Rightarrow> u64 \<Rightarrow> rpcRequest list" where
  "bundleRequests withReceipts n =
     Request ''eth_getBlockByNumber'' [NumArg n, BoolArg True] #
     (if withReceipts then [Request ''eth_getBlockReceipts'' [NumArg n]] else [])"

definition bundleAt :: "bool \<Rightarrow> nat \<Rightarrow> (nat \<Rightarrow> rpcValue \<times> rpcError option) \<Rightarrow> nat \<Rightarrow> blockBundle \<times> goerr option" where
  "bundleAt withReceipts per batch i =
     (case snd (batch (per * i)) of
        Some e \<Rightarrow> (emptyBundle, Some (goErr e))
      | None \<Rightarrow>
          (case asBlock (fst (batch (per * i))) of
             None \<Rightarrow> (emptyBundle, Some NotFound)
           | Some b \<Rightarrow>
               (if withReceipts
                then (bundleWith b (asReceipts (fst (batch (per * i + 1)))) (map_option goErr (snd (batch (per * i + 1)))), None)
                else (\<lparr>bbBlock = Some b, bbReceipts = [], bbReceiptsErr = None\<rparr>, None))))"

definition BlockBundles :: "'w transport \<Rightarrow> u64 list \<Rightarrow> bool \<Rightarrow> ('w, blockBundle list \<times> goerr option list) goM" where
  "BlockBundles T numbers withReceipts =
     (let per = (if withReceipts then 2 else 1) in
      bindE (wire (rtBatch T (concat (map (bundleRequests withReceipts) numbers))))
        (\<lambda>batch. let res = map (bundleAt withReceipts per batch) [0..<length numbers]
                 in ok (map fst res, map snd res)))"

text \<open>The error of one element of a batch of pointers: its own, or \<open>NotFound\<close> for null.\<close>

definition elemErr :: "(rpcValue \<Rightarrow> 'a option) \<Rightarrow> rpcValue \<times> rpcError option \<Rightarrow> goerr option" where
  "elemErr decode el =
     (case snd el of Some e \<Rightarrow> Some (goErr e) | None \<Rightarrow> if decode (fst el) = None then Some NotFound else None)"

definition pointerBatch :: "'w transport \<Rightarrow> (rpcValue \<Rightarrow> 'a option) \<Rightarrow> ('k \<Rightarrow> rpcRequest) \<Rightarrow> 'k list \<Rightarrow>
    ('w, 'a option list \<times> goerr option list) goM" where
  "pointerBatch T decode request keys =
     bindE (wire (rtBatch T (map request keys)))
       (\<lambda>batch. ok (map (\<lambda>i. decode (fst (batch i))) [0..<length keys],
                    map (\<lambda>i. elemErr decode (batch i)) [0..<length keys]))"

definition TransactionReceipts :: "'w transport \<Rightarrow> hash list \<Rightarrow> ('w, receipt option list \<times> goerr option list) goM" where
  "TransactionReceipts T = pointerBatch T asReceipt (\<lambda>h. Request ''eth_getTransactionReceipt'' [HashArg h])"

definition TransactionsByHash :: "'w transport \<Rightarrow> hash list \<Rightarrow> ('w, blockTx option list \<times> goerr option list) goM" where
  "TransactionsByHash T = pointerBatch T asTx (\<lambda>h. Request ''eth_getTransactionByHash'' [HashArg h])"

definition HeaderRefsByNumbers :: "'w transport \<Rightarrow> u64 list \<Rightarrow> ('w, blockHeader option list \<times> goerr option list) goM" where
  "HeaderRefsByNumbers T =
     pointerBatch T asHeader (\<lambda>n. Request ''eth_getBlockByNumber'' [NumArg n, BoolArg False])"

definition filterArg :: "filterQuery \<Rightarrow> filterObject" where
  "filterArg q = \<lparr>foTopics = fqTopics q,
     foAddress = (if fqAddresses q \<noteq> [] then Some (fqAddresses q) else None),
     foFromBlock = fqFromBlock q, foToBlock = fqToBlock q\<rparr>"

definition FilterLogsBatch :: "'w transport \<Rightarrow> filterQuery list \<Rightarrow> ('w, ethLog list list \<times> goerr option list) goM" where
  "FilterLogsBatch T queries =
     bindE (wire (rtBatch T (map (\<lambda>q. Request ''eth_getLogs'' [FilterArg (filterArg q)]) queries)))
       (\<lambda>batch. ok (map (\<lambda>i. asLogs (fst (batch i))) [0..<length queries],
                    map (\<lambda>i. map_option goErr (snd (batch i))) [0..<length queries]))"

definition rpcClient :: "'w transport \<Rightarrow> 'w chainClient" where
  "rpcClient T = \<lparr>ccChainID = wire (rtChainID T), ccBlockByHash = BlockByHash T, ccBlockByNumber = BlockByNumber T,
     ccTransactionReceipt = (\<lambda>h. wire (rtReceipt T h)), ccTxPoolStatus = TxPoolStatus T, ccTxPoolContent = TxPoolContent T,
     ccBlockReceipts = BlockReceipts T, ccBlockNumberByTag = BlockNumberByTag T,
     ccBlockBundleByNumber = BlockBundleByNumber T, ccBlockBundleByHash = BlockBundleByHash T,
     ccBlockBundles = BlockBundles T, ccTransactionReceipts = TransactionReceipts T,
     ccTransactionsByHash = TransactionsByHash T, ccHeaderRefsByNumbers = HeaderRefsByNumbers T,
     ccFilterLogsBatch = FilterLogsBatch T\<rparr>"

section \<open>The contract of a chain client\<close>

text \<open>
  What the indexer relies on when it indexes the slices a client returns: they are as long as the
  request, and where the error of an element is nil its value is not. Errors are errors, not panics.
\<close>

definition aligned :: "'k list \<Rightarrow> 'a list \<Rightarrow> goerr option list \<Rightarrow> ('a \<Rightarrow> bool) \<Rightarrow> bool" where
  "aligned ks xs es present \<longleftrightarrow> length xs = length ks \<and> length es = length ks \<and>
     (\<forall>i<length ks. es ! i = None \<longrightarrow> present (xs ! i)) \<and> (\<forall>e. Some e \<in> set es \<longrightarrow> \<not> isPanic e)"

definition calm :: "('s, 'a) goM \<Rightarrow> bool" where
  "calm m \<longleftrightarrow> (\<forall>s e s'. m s = (Inl e, s') \<longrightarrow> \<not> isPanic e)"

locale chain_client =
  fixes C :: "'w chainClient"
  assumes bundles_aligned: "ccBlockBundles C ns wr w = (Inr (bs, es), w') \<Longrightarrow> aligned ns bs es (\<lambda>b. bbBlock b \<noteq> None)"
    and receipts_aligned: "ccTransactionReceipts C hs w = (Inr (rs, es), w') \<Longrightarrow> aligned hs rs es (\<lambda>r. r \<noteq> None)"
    and txs_aligned: "ccTransactionsByHash C hs w = (Inr (txs, es), w') \<Longrightarrow> aligned hs txs es (\<lambda>t. t \<noteq> None)"
    and headers_aligned: "ccHeaderRefsByNumbers C ns w = (Inr (hds, es), w') \<Longrightarrow> aligned ns hds es (\<lambda>b. b \<noteq> None)"
    and logs_aligned: "ccFilterLogsBatch C qs w = (Inr (ls, es), w') \<Longrightarrow> aligned qs ls es (\<lambda>_. True)"
    and bundle_number: "ccBlockBundleByNumber C n w = (Inr b, w') \<Longrightarrow> bbBlock b \<noteq> None"
    and bundle_hash: "ccBlockBundleByHash C h w = (Inr b, w') \<Longrightarrow> bbBlock b \<noteq> None"
    and calls_calm: "calm (ccBlockBundles C ns wr)" "calm (ccTransactionReceipts C hs)" "calm (ccTransactionsByHash C hs)"
      "calm (ccHeaderRefsByNumbers C ns)" "calm (ccFilterLogsBatch C qs)" "calm (ccBlockBundleByNumber C n)"
      "calm (ccBlockBundleByHash C h)" "calm (ccBlockByHash C h)" "calm (ccBlockByNumber C n)"
      "calm (ccTransactionReceipt C h)" "calm (ccBlockReceipts C h)" "calm (ccBlockNumberByTag C tag)"

lemma goErr_calm [simp]: "\<not> isPanic (goErr e)"
  by (cases e) auto

lemma goErr_calm_option: "Some e = map_option goErr x \<Longrightarrow> \<not> isPanic e"
  by (cases x) auto

lemma calm_wire: "calm (wire m)"
  by (auto simp: calm_def wire_def split: prod.splits sum.splits)

lemma calm_rules: "calm (ok x)" "\<not> isPanic e \<Longrightarrow> calm (fail e)"
  by (simp_all add: calm_def)

lemma calm_bind: "calm m \<Longrightarrow> (\<And>s x s'. m s = (Inr x, s') \<Longrightarrow> calm (f x)) \<Longrightarrow> calm (bindE m f)"
  unfolding calm_def bindE_Inl by blast

lemma calm_bind_wire: "(\<And>x. calm (f x)) \<Longrightarrow> calm (bindE (wire m) f)"
  by (rule calm_bind [OF calm_wire])

lemma pointerBatch_aligned:
  assumes "pointerBatch T decode request ks w = (Inr (xs, es), w')"
  shows "aligned ks xs es (\<lambda>x. x \<noteq> None)"
  using assms by (auto simp: pointerBatch_def bindE_Inr aligned_def elemErr_def split: option.splits if_splits)

lemma pointerBatch_calm: "calm (pointerBatch T decode request ks)"
  unfolding pointerBatch_def by (rule calm_bind_wire) (rule calm_rules)

lemma bundleAt_cases:
  "snd (bundleAt wr per batch i) = None \<Longrightarrow> \<exists>b. bbBlock (fst (bundleAt wr per batch i)) = Some b"
  "snd (bundleAt wr per batch i) = Some e \<Longrightarrow> \<not> isPanic e"
  by (auto simp: bundleAt_def bundleWith_def split: option.splits if_splits)

lemma BlockBundles_aligned:
  assumes "BlockBundles T ns wr w = (Inr (bs, es), w')"
  shows "aligned ns bs es (\<lambda>b. bbBlock b \<noteq> None)"
proof -
  obtain batch per where bs: "bs = map (\<lambda>i. fst (bundleAt wr per batch i)) [0..<length ns]"
    and es: "es = map (\<lambda>i. snd (bundleAt wr per batch i)) [0..<length ns]"
    using assms by (auto simp only: BlockBundles_def Let_def bindE_Inr map_map comp_def run_simps prod.inject sum.inject)
  have "\<not> isPanic e" if "Some e = snd (bundleAt wr per batch i)" for i e
    using bundleAt_cases(2) [OF that [symmetric]] .
  then show ?thesis using bundleAt_cases(1) [of wr per batch] by (auto simp: aligned_def bs es)
qed

lemma blockBundleCall_calm: "calm (blockBundleCall T meth a r)"
  unfolding blockBundleCall_def by (rule calm_bind_wire) (auto intro!: calm_rules split: option.splits)

lemma blockBundleCall_present: "blockBundleCall T meth a r w = (Inr b, w') \<Longrightarrow> \<exists>blk. bbBlock b = Some blk"
  by (auto simp: blockBundleCall_def bindE_Inr bundleWith_def split: option.splits)

lemma single_calm: "calm (getBlock T meth a)" "calm (BlockReceipts T h)" "calm (BlockNumberByTag T tag)"
  unfolding getBlock_def BlockReceipts_def BlockNumberByTag_def
  by (auto intro!: calm_bind_wire calm_rules split: option.splits)

interpretation rpc: chain_client "rpcClient T"
proof
  show "aligned qs ls es (\<lambda>_. True)" if "ccFilterLogsBatch (rpcClient T) qs w = (Inr (ls, es), w')" for qs w ls es w'
    using that by (auto simp: rpcClient_def FilterLogsBatch_def bindE_Inr aligned_def dest: goErr_calm_option)
  show "calm (ccBlockBundles (rpcClient T) ns wr)" for ns wr
    unfolding rpcClient_def BlockBundles_def Let_def chainClient.simps by (intro calm_bind_wire calm_rules)
  show "calm (ccFilterLogsBatch (rpcClient T) qs)" for qs
    unfolding rpcClient_def FilterLogsBatch_def chainClient.simps by (intro calm_bind_wire calm_rules)
qed (auto simp del: not_None_eq simp: rpcClient_def TransactionReceipts_def TransactionsByHash_def HeaderRefsByNumbers_def
    BlockBundleByNumber_def BlockBundleByHash_def BlockByHash_def BlockByNumber_def
    intro: BlockBundles_aligned pointerBatch_aligned pointerBatch_calm single_calm blockBundleCall_calm calm_wire
    dest: blockBundleCall_present)

section \<open>Batches and single calls\<close>

text \<open>A node that answers every request on its own, the same in a batch as in a call.\<close>

definition serves :: "(rpcRequest \<Rightarrow> rpcValue \<times> rpcError option) \<Rightarrow> 'w transport \<Rightarrow> 'w \<Rightarrow> bool" where
  "serves ans T w \<longleftrightarrow>
     (\<forall>r. rtCall T r w = ((case snd (ans r) of Some e \<Rightarrow> Inl e | None \<Rightarrow> Inr (fst (ans r))), w)) \<and>
     (\<forall>rs. \<exists>batch. rtBatch T rs w = (Inr batch, w) \<and> (\<forall>i<length rs. batch i = ans (rs ! i)))"

lemma wire_batch:
  assumes "serves ans T w"
  obtains batch where "wire (rtBatch T rs) w = (Inr batch, w)" "\<And>i. i < length rs \<Longrightarrow> batch i = ans (rs ! i)"
proof -
  from assms obtain batch where "rtBatch T rs w = (Inr batch, w)" "\<forall>i<length rs. batch i = ans (rs ! i)"
    unfolding serves_def by blast
  then show ?thesis by (intro that [of batch]) (auto simp: wire_def)
qed

lemma bundle_requests_nth:
  assumes "i < length ns"
  shows "concat (map (bundleRequests True) ns) ! (2 * i) = Request ''eth_getBlockByNumber'' [NumArg (ns ! i), BoolArg True]"
    and "concat (map (bundleRequests True) ns) ! (2 * i + 1) = Request ''eth_getBlockReceipts'' [NumArg (ns ! i)]"
    and "length (concat (map (bundleRequests True) ns)) = 2 * length ns"
    and "concat (map (bundleRequests False) ns) ! i = Request ''eth_getBlockByNumber'' [NumArg (ns ! i), BoolArg True]"
    and "length (concat (map (bundleRequests False) ns)) = length ns"
proof -
  show "length (concat (map (bundleRequests True) ns)) = 2 * length ns"
    by (induction ns) (auto simp: bundleRequests_def)
  show "length (concat (map (bundleRequests False) ns)) = length ns"
    by (induction ns) (auto simp: bundleRequests_def)
  show "concat (map (bundleRequests True) ns) ! (2 * i) = Request ''eth_getBlockByNumber'' [NumArg (ns ! i), BoolArg True]"
    using assms by (induction ns arbitrary: i) (auto simp: bundleRequests_def nth_Cons split: nat.splits)
  show "concat (map (bundleRequests True) ns) ! (2 * i + 1) = Request ''eth_getBlockReceipts'' [NumArg (ns ! i)]"
    using assms by (induction ns arbitrary: i) (auto simp: bundleRequests_def nth_Cons split: nat.splits)
  show "concat (map (bundleRequests False) ns) ! i = Request ''eth_getBlockByNumber'' [NumArg (ns ! i), BoolArg True]"
    using assms by (induction ns arbitrary: i) (auto simp: bundleRequests_def nth_Cons split: nat.splits)
qed

text \<open>The element of the batch for one block, as the single call would have given it.\<close>

definition singleBundle :: "'w transport \<Rightarrow> bool \<Rightarrow> u64 \<Rightarrow> 'w \<Rightarrow> blockBundle \<times> goerr option" where
  "singleBundle T withReceipts n w =
     (if withReceipts
      then (case fst (BlockBundleByNumber T n w) of Inl e \<Rightarrow> (emptyBundle, Some e) | Inr b \<Rightarrow> (b, None))
      else (case fst (BlockByNumber T n w) of Inl e \<Rightarrow> (emptyBundle, Some e)
            | Inr b \<Rightarrow> (\<lparr>bbBlock = Some b, bbReceipts = [], bbReceiptsErr = None\<rparr>, None)))"

lemma bundleAt_single:
  assumes "serves ans T w"
    and "batch (2 * i) = ans (Request ''eth_getBlockByNumber'' [NumArg n, BoolArg True])"
    and "batch (2 * i + 1) = ans (Request ''eth_getBlockReceipts'' [NumArg n])"
  shows "bundleAt True 2 batch i = singleBundle T True n w"
proof -
  obtain b2 where b2: "wire (rtBatch T [Request ''eth_getBlockByNumber'' [NumArg n, BoolArg True],
      Request ''eth_getBlockReceipts'' [NumArg n]]) w = (Inr b2, w)"
    and e: "b2 0 = batch (2 * i)" "b2 1 = batch (2 * i + 1)"
  proof (rule wire_batch [OF assms(1), of "[Request ''eth_getBlockByNumber'' [NumArg n, BoolArg True],
      Request ''eth_getBlockReceipts'' [NumArg n]]"])
    fix b assume "wire (rtBatch T [Request ''eth_getBlockByNumber'' [NumArg n, BoolArg True],
      Request ''eth_getBlockReceipts'' [NumArg n]]) w = (Inr b, w)"
      and *: "\<And>i. i < length [Request ''eth_getBlockByNumber'' [NumArg n, BoolArg True],
      Request ''eth_getBlockReceipts'' [NumArg n]] \<Longrightarrow> b i = ans ([Request ''eth_getBlockByNumber'' [NumArg n, BoolArg True],
      Request ''eth_getBlockReceipts'' [NumArg n]] ! i)"
    then show ?thesis using *[of 0] *[of 1] assms(2,3) that [of b] by simp
  qed
  show ?thesis unfolding bundleAt_def singleBundle_def BlockBundleByNumber_def blockBundleCall_def
    using e by (simp add: bindE_def b2 split: option.splits)
qed

lemma bundleAt_single_plain:
  assumes "serves ans T w" and "batch i = ans (Request ''eth_getBlockByNumber'' [NumArg n, BoolArg True])"
  shows "bundleAt False 1 batch i = singleBundle T False n w"
  using assms
  by (auto simp: bundleAt_def singleBundle_def BlockByNumber_def getBlock_def serves_def wire_def bindE_def
      split: option.splits)

text \<open>
  C21: fetching many blocks in one JSON-RPC batch gives, position by position, what fetching each
  block (with its receipts, or without) on its own gives, errors included: no receipts are paired
  with the wrong block.
\<close>

theorem BlockBundles_positional:
  assumes "serves ans T w"
  shows "BlockBundles T ns wr w =
    (Inr (map (\<lambda>n. fst (singleBundle T wr n w)) ns, map (\<lambda>n. snd (singleBundle T wr n w)) ns), w)"
proof -
  obtain batch where b: "wire (rtBatch T (concat (map (bundleRequests wr) ns))) w = (Inr batch, w)"
    and el: "\<And>i. i < length (concat (map (bundleRequests wr) ns)) \<Longrightarrow> batch i = ans (concat (map (bundleRequests wr) ns) ! i)"
    by (rule wire_batch [OF assms, of "concat (map (bundleRequests wr) ns)"]) blast
  have at: "bundleAt wr (if wr then 2 else 1) batch i = singleBundle T wr (ns ! i) w" if i: "i < length ns" for i
  proof (cases wr)
    case True
    then show ?thesis using el [of "2 * i"] el [of "2 * i + 1"] i bundle_requests_nth [OF i] assms
      by (simp add: bundleAt_single)
  next
    case False
    then show ?thesis using el [of i] i bundle_requests_nth [OF i] assms bundleAt_single_plain [OF assms]
      by simp
  qed
  have "map (bundleAt wr (if wr then 2 else 1) batch) [0..<length ns] = map (\<lambda>n. singleBundle T wr n w) ns"
    by (rule nth_equalityI) (simp_all add: at)
  from arg_cong [OF this, of "map fst"] arg_cong [OF this, of "map snd"] show ?thesis
    unfolding BlockBundles_def Let_def bindE_def b by (simp only: map_map comp_def prod.case sum.case run_simps)
qed

definition demoBlock :: "u64 \<Rightarrow> block" where
  "demoBlock n = \<lparr>bkHash = ucast n + 1000, bkParentHash = ucast n + 999, bkNumber = n, bkTime = 12 * n, bkTransactions = []\<rparr>"

fun demoAnswer :: "rpcRequest \<Rightarrow> rpcValue \<times> rpcError option" where
  "demoAnswer (Request m [NumArg n, BoolArg True]) = (if n < 100 then (BlockVal (demoBlock n), None) else (Null, None))"
| "demoAnswer (Request m [NumArg n]) = (ReceiptsVal [], None)"
| "demoAnswer _ = (Null, Some (RpcText ''method not found''))"

definition demoTransport :: "'w transport" where
  "demoTransport = \<lparr>rtCall = (\<lambda>r w. (case snd (demoAnswer r) of Some e \<Rightarrow> Inl e | None \<Rightarrow> Inr (fst (demoAnswer r)), w)),
     rtBatch = (\<lambda>rs w. (Inr (\<lambda>i. demoAnswer (rs ! i)), w)), rtChainID = (\<lambda>w. (Inr 1, w)),
     rtReceipt = (\<lambda>h w. (Inl RpcNotFound, w)), rtPoolOrder = (\<lambda>_. []), rtNonceOrder = (\<lambda>_. [])\<rparr>"

lemma demoTransport_serves: "serves demoAnswer demoTransport w"
  by (auto simp: serves_def demoTransport_def)

theorem BlockBundles_positional_witness:
  "BlockBundles demoTransport [7, 200] True () =
     (Inr ([bundleWith (demoBlock 7) (Some []) None, emptyBundle], [None, Some NotFound]), ())"
  unfolding BlockBundles_positional [OF demoTransport_serves]
  by (simp add: singleBundle_def BlockBundleByNumber_def blockBundleCall_def bindE_def wire_def demoTransport_def
      bundleWith_def)

end
