(* ===== verification/Config.thy ===== *)
theory Config
  imports Records Effects
begin

text \<open>
  internal/config/config.go: the settings of one indexer. The whole configuration and its
  validation are in Validate.
\<close>

section \<open>Data\<close>

record token =
  tkAddress :: string
  tkSymbol :: string
  tkDecimals :: u8

record indexerConfig =
  icName :: string
  icChainID :: u64
  icRPCURL :: string
  icHTTPRPCURL :: string
  icConfirmations :: confirmations
  icPendingTimeout :: duration
  icNativeSymbol :: string
  icConcurrency :: int
  icBatchBlocks :: int
  icMaxCatchupAge :: duration
  icTokens :: "token list"
  icTokenList :: "parsedToken list"

end
