(* ===== verification/Blocks.thy ===== *)
theory Blocks
  imports Chain Client Tracker Config
begin

text \<open>
  internal/indexer/blocks.go: fetching receipts and logs, scanning a block for watched activity,
  feeding the tracker, emitting and persisting. The indexer (\<open>Indexer\<close> of indexer.go) is its
  mutable fields plus the world \<open>'w\<close> behind its client, store, sink and clock; what never changes
  while it runs is the environment \<open>env\<close>. Of the log lines only that of a transaction event is
  modelled, metrics are left out. Where the code
  iterates over a map, the order is asked of the environment.
\<close>

section \<open>The indexer and its environment\<close>

record 'w store =
  soSaveTransaction :: "string \<Rightarrow> storedTx \<Rightarrow> ('w, unit) goM"
  soUpdateTransactionStatus :: "string \<Rightarrow> string \<Rightarrow> string \<Rightarrow> string \<Rightarrow> ('w, bool) goM"
  soLoadActiveTransactions :: "string \<Rightarrow> ('w, storedTx list) goM"
  soSaveIndexerState :: "string \<Rightarrow> indexerState \<Rightarrow> ('w, unit) goM"
  soLoadIndexerState :: "string \<Rightarrow> ('w, indexerState option) goM"

text \<open>The attributes of a log line.\<close>

datatype logAttr = StrAttr string string | NumAttr string u64 | DurAttr string duration | EventAttr event | ErrAttr string goerr

text \<open>What a select of the dispatch goroutine can receive besides errors.\<close>

datatype liveInput = LiveMatches "transferMatch list" | LiveHead header

text \<open>
  \<open>eWait\<close> is the select between the retry delay and the end of the context, \<open>eCtx\<close> a look at the
  context, \<open>eTxOrder\<close> the order a loop over the tracked transactions takes; \<open>eLive\<close> and \<open>eSchedule\<close>
  are explained where indexer.go uses them.
\<close>

record 'w env =
  eCfg :: indexerConfig
  eCodec :: hexcodec
  eMatcher :: matcher
  eTokenOrder :: "address list"
  eWatchedOrder :: "address list"
  eClient :: "'w chainClient"
  eSink :: "'w sink option"
  eStore :: "'w store option"
  eResume :: bool
  eFullEventLogs :: bool
  eLogLine :: "string \<Rightarrow> logAttr list \<Rightarrow> 'w \<Rightarrow> 'w"
  eNow :: "'w \<Rightarrow> time \<times> 'w"
  eWait :: "'w \<Rightarrow> goerr option \<times> 'w"
  eTxOrder :: "'w \<Rightarrow> tracker \<Rightarrow> hash list"
  eCtx :: "'w \<Rightarrow> goerr option \<times> 'w"
  eLive :: "'w \<Rightarrow> liveInput list \<times> 'w"
  eSchedule :: "'w \<Rightarrow> nat list \<times> 'w"

record 'w indexer =
  ixTracker :: tracker
  ixChain :: chainState
  ixLastProcessed :: u64
  ixLogSource :: string
  ixRestoredPending :: "hash list"
  ixRestoredTx :: "string list"
  ixNoBlockReceipts :: bool
  ixFinalizedNum :: u64
  ixFinalizedAt :: time
  ixTagVerified :: bool
  ixWorld :: 'w

type_synonym ('w, 'a) ixM = "('w indexer, 'a) goM"

definition world :: "('w, 'a) goM \<Rightarrow> ('w, 'a) ixM" where
  "world m s = (case m (ixWorld s) of (r, w) \<Rightarrow> (r, s\<lparr>ixWorld := w\<rparr>))"

definition clock :: "'w env \<Rightarrow> ('w, time) ixM" where
  "clock E s = (case eNow E (ixWorld s) of (t, w) \<Rightarrow> (Inr t, s\<lparr>ixWorld := w\<rparr>))"

definition waitRetry :: "'w env \<Rightarrow> 'w indexer \<Rightarrow> goerr option \<times> 'w indexer" where
  "waitRetry E s = (case eWait E (ixWorld s) of (r, w) \<Rightarrow> (r, s\<lparr>ixWorld := w\<rparr>))"

definition client :: "'w env \<Rightarrow> ('w chainClient \<Rightarrow> ('w, 'a) goM) \<Rightarrow> ('w, 'a) ixM" where
  "client E call = world (call (eClient E))"

text \<open>A tracker operation that returns events.\<close>

definition track :: "(tracker \<Rightarrow> 'a \<times> tracker) \<Rightarrow> ('w, 'a) ixM" where
  "track f s = (case f (ixTracker s) of (x, t) \<Rightarrow> (Inr x, s\<lparr>ixTracker := t\<rparr>))"

section \<open>Receipt statuses\<close>

record minedTx =
  mnHash :: hash
  mnTransfers :: "transferMatch list"
  mnFailed :: bool

record blockData =
  bdBlock :: block
  bdLogs :: "ethLog list"
  bdHaveLogs :: bool
  bdReceipts :: "blockReceipt list"
  bdHaveReceipts :: bool

definition blockOnly :: "block \<Rightarrow> blockData" where
  "blockOnly b = \<lparr>bdBlock = b, bdLogs = [], bdHaveLogs = False, bdReceipts = [], bdHaveReceipts = False\<rparr>"

record receiptStatuses =
  rsBlockHash :: hash
  rsByTx :: "(hash, bool) fmap"
  rsLogs :: "ethLog list"
  rsFetched :: bool
  rsTried :: bool

definition newStatuses :: "hash \<Rightarrow> receiptStatuses" where
  "newStatuses h = \<lparr>rsBlockHash = h, rsByTx = fmempty, rsLogs = [], rsFetched = False, rsTried = False\<rparr>"

definition absorb :: "blockReceipt list \<Rightarrow> receiptStatuses \<Rightarrow> receiptStatuses" where
  "absorb receipts r = r\<lparr>rsFetched := True,
     rsByTx := fold (\<lambda>rc. fmupd (brTxHash rc) (brStatus rc = 0)) receipts fmempty,
     rsLogs := rsLogs r @ concat (map brLogs receipts)\<rparr>"

definition preload :: "blockReceipt list \<Rightarrow> receiptStatuses \<Rightarrow> receiptStatuses" where
  "preload receipts r = absorb receipts (r\<lparr>rsTried := True\<rparr>)"

definition toLowerChar :: "char \<Rightarrow> char" where
  "toLowerChar c = (if CHR ''A'' \<le> c \<and> c \<le> CHR ''Z'' then char_of (of_char c + 32 :: nat) else c)"

text \<open>\<open>strings.Contains\<close>; the messages are ASCII, on which \<open>strings.ToLower\<close> is \<open>toLowerChar\<close>.\<close>

fun containsStr :: "string \<Rightarrow> string \<Rightarrow> bool" where
  "containsStr s [] = True"
| "containsStr [] (m # ms) = False"
| "containsStr (c # cs) (m # ms) = (take (Suc (length ms)) (c # cs) = m # ms \<or> containsStr cs (m # ms))"

definition methodUnsupported :: "goerr option \<Rightarrow> bool" where
  "methodUnsupported err =
     (case err of
        None \<Rightarrow> False
      | Some e \<Rightarrow> list_ex (containsStr (map toLowerChar (errText e)))
          [''does not exist'', ''not supported'', ''unsupported'', ''not available'', ''method not found'', ''not implemented''])"

definition noteBlockReceiptsError :: "goerr \<Rightarrow> ('w, unit) ixM" where
  "noteBlockReceiptsError e =
     modify (\<lambda>s. if methodUnsupported (Some e) then s\<lparr>ixNoBlockReceipts := True\<rparr> else s)"

text \<open>While a block is scanned its \<open>receiptStatuses\<close> change along with the indexer.\<close>

type_synonym ('w, 'a) scanM = "('w indexer \<times> receiptStatuses, 'a) goM"

definition onIx :: "('w, 'a) ixM \<Rightarrow> ('w, 'a) scanM" where
  "onIx m p = (case m (fst p) of (r, s) \<Rightarrow> (r, (s, snd p)))"

definition onStatuses :: "(receiptStatuses \<Rightarrow> receiptStatuses) \<Rightarrow> ('w, unit) scanM" where
  "onStatuses f p = (Inr (), (fst p, f (snd p)))"

definition ensure :: "'w env \<Rightarrow> ('w, unit) scanM" where
  "ensure E =
     bindE (gets (\<lambda>p. rsTried (snd p))) (\<lambda>tried.
       if tried then ok ()
       else bindE (onStatuses (\<lambda>r. r\<lparr>rsTried := True\<rparr>)) (\<lambda>_.
         bindE (gets (\<lambda>p. (ixNoBlockReceipts (fst p), rsBlockHash (snd p)))) (\<lambda>(unsupported, blockHash).
           if unsupported then ok ()
           else bindE (attempt (onIx (client E (\<lambda>c. ccBlockReceipts c blockHash))))
             (\<lambda>res. case res of Inl e \<Rightarrow> onIx (noteBlockReceiptsError e) | Inr receipts \<Rightarrow> onStatuses (absorb receipts)))))"

definition preloadStatuses :: "'w env \<Rightarrow> hash list \<Rightarrow> ('w, unit) scanM" where
  "preloadStatuses E hashes =
     bindE (ensure E) (\<lambda>_. bindE (gets (rsFetched \<circ> snd)) (\<lambda>fetched.
       if fetched \<or> length hashes < 2 then ok ()
       else bindE (attempt (onIx (client E (\<lambda>c. ccTransactionReceipts c hashes))))
         (\<lambda>res. case res of
            Inl _ \<Rightarrow> ok ()
          | Inr (receipts, errs) \<Rightarrow>
              forEach3 (\<lambda>h rc e. if e = None
                  then bindE (deref rc) (\<lambda>rc. onStatuses (\<lambda>r. r\<lparr>rsByTx := fmupd h (rcStatus rc = 0) (rsByTx r)\<rparr>))
                  else ok ())
                hashes receipts errs)))"

definition failed :: "'w env \<Rightarrow> hash \<Rightarrow> ('w, bool) scanM" where
  "failed E h =
     bindE (ensure E) (\<lambda>_. bindE (gets (\<lambda>p. fmlookup (rsByTx (snd p)) h)) (\<lambda>known.
       case known of
         Some reverted \<Rightarrow> ok reverted
       | None \<Rightarrow> bindE (onIx (withRetry (waitRetry E) (client E (\<lambda>c. ccTransactionReceipt c h))))
           (\<lambda>rc. ok (rcStatus rc = 0))))"

definition blockLogs :: "'w env \<Rightarrow> ('w, ethLog list \<times> bool) scanM" where
  "blockLogs E = bindE (ensure E) (\<lambda>_. gets (\<lambda>p. (rsLogs (snd p), rsFetched (snd p))))"

section \<open>Log queries\<close>

definition serverFilterMaxAddresses :: nat where
  "serverFilterMaxAddresses = 1000"

definition transferTopicFilters :: "'w env \<Rightarrow> hash list option list list" where
  "transferTopicFilters E =
     (if serverFilterMaxAddresses < WatchedCount (eMatcher E) then [[Some [transferTopic]]]
      else let watched = WatchedTopics (eWatchedOrder E) (eMatcher E) in
        [[Some [transferTopic], None, Some watched],
         [Some [transferTopic], Some watched]])"

definition transferQuery :: "'w env \<Rightarrow> u64 \<Rightarrow> u64 \<Rightarrow> hash list option list \<Rightarrow> filterQuery" where
  "transferQuery E lo hi topics =
     \<lparr>fqFromBlock = Some (uint lo), fqToBlock = Some (uint hi),
      fqAddresses = TokenAddresses (eTokenOrder E) (eMatcher E), fqTopics = topics\<rparr>"

fun firstErr :: "goerr option list \<Rightarrow> goerr option" where
  "firstErr [] = None"
| "firstErr (Some e # es) = Some e"
| "firstErr (None # es) = firstErr es"

definition batchQuery :: "'w env \<Rightarrow> filterQuery list \<Rightarrow> ('w, ethLog list list) ixM" where
  "batchQuery E queries =
     bindE (client E (\<lambda>c. ccFilterLogsBatch c queries))
       (\<lambda>(results, errs). case firstErr errs of Some e \<Rightarrow> fail e | None \<Rightarrow> ok results)"

definition fetchTopicFilterLogs :: "'w env \<Rightarrow> u64 \<Rightarrow> u64 \<Rightarrow> bool \<Rightarrow> ('w, ethLog list list) ixM" where
  "fetchTopicFilterLogs E lo hi retry =
     (let queries = map (transferQuery E lo hi) (transferTopicFilters E)
      in if retry then withRetry (waitRetry E) (batchQuery E queries) else batchQuery E queries)"

text \<open>The nested loops over the results visit their concatenation; \<open>seen\<close> is the set of keys.\<close>

fun groupLogs :: "ethLog list \<Rightarrow> (u64 \<times> u64) list \<Rightarrow> (u64, ethLog list) fmap \<Rightarrow> (u64, ethLog list) fmap" where
  "groupLogs [] seen out = out"
| "groupLogs (lg # lgs) seen out =
     (if (lgBlockNumber lg, lgIndex lg) \<in> set seen then groupLogs lgs seen out
      else groupLogs lgs ((lgBlockNumber lg, lgIndex lg) # seen)
             (fmupd (lgBlockNumber lg) (getSlice out (lgBlockNumber lg) @ [lg]) out))"

definition fetchLogsRange :: "'w env \<Rightarrow> u64 \<Rightarrow> u64 \<Rightarrow> ('w, (u64, ethLog list) fmap) ixM" where
  "fetchLogsRange E lo hi =
     (if TokenAddresses (eTokenOrder E) (eMatcher E) = [] then ok fmempty
      else bindE (fetchTopicFilterLogs E lo hi False) (\<lambda>results. ok (groupLogs (concat results) [] fmempty)))"

section \<open>Scanning a block\<close>

text \<open>\<open>byTx\<close> and \<open>order\<close> of \<open>scanBlock\<close>; \<open>getMined\<close> is its \<open>get\<close> followed by an update of the record.\<close>

type_synonym scanAcc = "hash list \<times> (hash, minedTx) fmap"

definition getMined :: "hash \<Rightarrow> (minedTx \<Rightarrow> minedTx) \<Rightarrow> scanAcc \<Rightarrow> scanAcc" where
  "getMined h f acc =
     (case acc of (order, byTx) \<Rightarrow>
        (case fmlookup byTx h of
           Some m \<Rightarrow> (order, fmupd h (f m) byTx)
         | None \<Rightarrow> (order @ [h], fmupd h (f \<lparr>mnHash = h, mnTransfers = [], mnFailed = False\<rparr>) byTx)))"

definition addNative :: "bool \<Rightarrow> transferMatch list \<Rightarrow> minedTx \<Rightarrow> minedTx" where
  "addNative reverted matches m =
     (if reverted then m\<lparr>mnFailed := True, mnTransfers := matches\<rparr>
      else m\<lparr>mnTransfers := mnTransfers m @ filter (\<lambda>x. mToken x = None) matches\<rparr>)"

fun scanNative :: "'w env \<Rightarrow> (blockTx \<times> transferMatch list) list \<Rightarrow> scanAcc \<Rightarrow> ('w, scanAcc) scanM" where
  "scanNative E [] acc p = (Inr acc, p)"
| "scanNative E ((tx, matches) # mts) acc p =
     bindE (attempt (failed E (btHash tx)))
       (\<lambda>res. case res of
          Inl e \<Rightarrow> if errIs e NotFound then scanNative E mts acc
                   else fail (Wrap (''receipt '' @ hashHex (eCodec E) (btHash tx)) e)
        | Inr reverted \<Rightarrow> scanNative E mts (getMined (btHash tx) (addNative reverted matches) acc)) p"

definition addLog :: "matcher \<Rightarrow> hash \<Rightarrow> ethLog \<Rightarrow> scanAcc \<Rightarrow> scanAcc" where
  "addLog m blockHash lg acc =
     (if lgRemoved lg \<or> lgBlockHash lg \<noteq> blockHash then acc
      else case MatchLog m lg of
        None \<Rightarrow> acc
      | Some match \<Rightarrow> getMined (lgTxHash lg) (\<lambda>r. r\<lparr>mnTransfers := mnTransfers r @ [match]\<rparr>) acc)"

text \<open>The per-block query drops the logs both filters return.\<close>

fun dedupLogs :: "ethLog list \<Rightarrow> u64 list \<Rightarrow> ethLog list" where
  "dedupLogs [] seen = []"
| "dedupLogs (lg # lgs) seen =
     (if lgIndex lg \<in> set seen then dedupLogs lgs seen else lg # dedupLogs lgs (lgIndex lg # seen))"

definition candidateLogs :: "'w env \<Rightarrow> blockData \<Rightarrow> ('w, ethLog list) scanM" where
  "candidateLogs E d =
     bindE (if bdHaveLogs d then ok (bdLogs d, True)
            else if serverFilterMaxAddresses < WatchedCount (eMatcher E) then blockLogs E
            else ok ([], False))
       (\<lambda>(candidates, gotLogs).
          if gotLogs then ok candidates
          else bindE (attempt (onIx (fetchTopicFilterLogs E (bkNumber (bdBlock d)) (bkNumber (bdBlock d)) True)))
            (\<lambda>res. case res of
               Inl e \<Rightarrow> fail (Wrap (''filter logs for block '' @ hashHex (eCodec E) (bkHash (bdBlock d))) e)
             | Inr results \<Rightarrow> ok (candidates @ dedupLogs (concat results) [])))"

definition matchedTxs :: "matcher \<Rightarrow> block \<Rightarrow> (blockTx \<times> transferMatch list) list" where
  "matchedTxs m b =
     filter (\<lambda>mt. snd mt \<noteq> []) (map (\<lambda>tx. (tx, MatchBlockTx m tx)) (bkTransactions b))"

definition minedList :: "scanAcc \<Rightarrow> minedTx list" where
  "minedList acc = (case acc of (order, byTx) \<Rightarrow> List.map_filter (fmlookup byTx) order)"

definition scanBlock :: "'w env \<Rightarrow> blockData \<Rightarrow> ('w, minedTx list) scanM" where
  "scanBlock E d =
     (let matched = matchedTxs (eMatcher E) (bdBlock d) in
      bindE (if matched = [] then ok () else preloadStatuses E (map (btHash \<circ> fst) matched)) (\<lambda>_.
      bindE (scanNative E matched ([], fmempty)) (\<lambda>acc.
        if TokenAddresses (eTokenOrder E) (eMatcher E) = [] then ok (minedList acc)
        else bindE (candidateLogs E d) (\<lambda>candidates.
          ok (minedList (fold (addLog (eMatcher E) (bkHash (bdBlock d))) candidates acc))))))"

section \<open>Emitting and persisting\<close>

text \<open>
  \<open>emitAll\<close> completes a copy of every event for the sink and persists the batch as the tracker
  returned it. An error of the sink or the store is logged and dropped.
\<close>

definition stamp :: "'w env \<Rightarrow> time \<Rightarrow> string \<Rightarrow> event \<Rightarrow> event" where
  "stamp E now wallet ev = ev\<lparr>evIndexer := icName (eCfg E), evChainID := icChainID (eCfg E),
     evTimestamp := formatNano now, evWallet := wallet\<rparr>"

definition logValue :: "string \<Rightarrow> string" where
  "logValue v =
     (let i = length (takeWhile (\<lambda>ch. ch \<noteq> CHR ''.'') v) in
      if length v \<le> i then v
      else let v1 = (if i + 7 < length v then take (i + 7) v else v);
               v2 = TrimRight0 v1
           in if v2 \<noteq> [] \<and> last v2 = CHR ''.'' then butlast v2 else v2)"

text \<open>\<open>time.Duration.Round\<close>: to the nearest multiple, halves away from zero.\<close>

definition roundDur :: "duration \<Rightarrow> duration \<Rightarrow> duration" where
  "roundDur d m =
     (let a = \<bar>d\<bar>; r = a mod m; a' = (if r + r < m then a - r else a + m - r)
      in if m \<le> 0 then d else if d < 0 then - a' else a')"

definition logAttrs :: "'w env \<Rightarrow> event \<Rightarrow> 'w indexer \<Rightarrow> logAttr list" where
  "logAttrs E ev s =
     (if eFullEventLogs E then [EventAttr ev]
      else [StrAttr ''address'' (if evDirection ev = DirectionOut then evFrom ev else evTo ev)] @
        (if evWallet ev \<noteq> '''' then [StrAttr ''wallet'' (evWallet ev)] else []) @
        [StrAttr ''tx'' (evTxHash ev), StrAttr ''direction'' (evDirection ev),
         StrAttr ''value'' (logValue (evValue ev)), StrAttr ''asset'' (evAsset ev),
         (if evBlockNumber ev \<noteq> 0 then NumAttr ''block'' (evBlockNumber ev) else StrAttr ''block'' ''mempool'')] @
        (if evReplacedBy ev \<noteq> '''' then [StrAttr ''replaced_by'' (evReplacedBy ev)] else [])) @
     (if evTxHash ev \<in> set (ixRestoredTx s) then [StrAttr ''source'' ''resume'']
      else if ixLogSource s \<noteq> '''' then [StrAttr ''source'' (ixLogSource s)] else []) @
     (if evType ev = TypeMined
      then (case MempoolWait (HexToHash (eCodec E) (evTxHash ev)) (ixTracker s) of
              None \<Rightarrow> [] | Some wait \<Rightarrow> [DurAttr ''after'' (roundDur wait 1000000)])
      else [])"

text \<open>The time since a confirmed transaction was mined; reading the clock only when it is logged.\<close>

definition sinceMined :: "'w env \<Rightarrow> event \<Rightarrow> ('w, logAttr list) ixM" where
  "sinceMined E ev =
     (if evType ev = TypeConfirmed \<and> evMinedAt ev \<noteq> ''''
      then (case parseRFC3339 (evMinedAt ev) of
              None \<Rightarrow> ok []
            | Some minedAt \<Rightarrow> bindE (clock E) (\<lambda>now. ok [DurAttr ''after'' (roundDur (now - minedAt) nsPerSec)]))
      else ok [])"

definition logEvent :: "'w env \<Rightarrow> event \<Rightarrow> ('w, unit) ixM" where
  "logEvent E ev =
     bindE (gets (logAttrs E ev)) (\<lambda>attrs. bindE (sinceMined E ev) (\<lambda>after.
       world (\<lambda>w. (Inr (), eLogLine E (''transaction '' @ evType ev) (attrs @ after) w))))"

text \<open>What is done about an error that goes no further: a log line.\<close>

definition logError :: "'w env \<Rightarrow> string \<Rightarrow> logAttr list \<Rightarrow> ('w, unit) ixM" where
  "logError E msg attrs = world (\<lambda>w. (Inr (), eLogLine E msg attrs w))"

definition toSink :: "'w env \<Rightarrow> event \<Rightarrow> ('w, unit) ixM" where
  "toSink E ev =
     (case eSink E of
        None \<Rightarrow> ok ()
      | Some sink \<Rightarrow> bindE (world (\<lambda>w. case sink ev w of (err, w') \<Rightarrow> (Inr err, w')))
          (\<lambda>err. case err of None \<Rightarrow> ok () | Some e \<Rightarrow> logError E ''emitting event'' [ErrAttr ''err'' e]))"

definition emitOne :: "'w env \<Rightarrow> event \<Rightarrow> ('w, unit) ixM" where
  "emitOne E ev =
     bindE (clock E) (\<lambda>now.
       case ForSide (mWatched (eMatcher E)) (HexToAddress (eCodec E) (evFrom ev)) (HexToAddress (eCodec E) (evTo ev))
              (evDirection ev) of
         Inl e \<Rightarrow> fail e
       | Inr wallet \<Rightarrow> bindE (logEvent E (stamp E now wallet ev)) (\<lambda>_. toSink E (stamp E now wallet ev)))"

fun groupEvents :: "event list \<Rightarrow> string list \<Rightarrow> (string, event list) fmap \<Rightarrow> string list \<times> (string, event list) fmap" where
  "groupEvents [] order byHash = (order, byHash)"
| "groupEvents (ev # evs) order byHash =
     groupEvents evs (if fmlookup byHash (evTxHash ev) = None then order @ [evTxHash ev] else order)
       (fmupd (evTxHash ev) (getSlice byHash (evTxHash ev) @ [ev]) byHash)"

definition parseOrZero :: "string \<Rightarrow> time" where
  "parseOrZero s = (case parseRFC3339 s of None \<Rightarrow> 0 | Some t \<Rightarrow> t)"

definition legOfEvent :: "event \<Rightarrow> legRow" where
  "legOfEvent ev =
     \<lparr>lrFrom = evFrom ev, lrTo = evTo ev, lrDirection = evDirection ev, lrAsset = evAsset ev,
      lrTokenAddress = evTokenAddress ev, lrDecimals = evDecimals ev, lrValueRaw = evValueRaw ev,
      lrValue = evValue ev, lrLogIndex = evLogIndex ev, lrTxSender = '''', lrTxNonce = 0\<rparr>"

definition txFromEvents :: "time \<Rightarrow> event list \<Rightarrow> storedTx" where
  "txFromEvents now evs =
     (let first = hd evs; firstSeen = parseOrZero (evFirstSeen first) in
      \<lparr>stHash = evTxHash first, stStatus = evType first, stBlockHash = evBlockHash first,
       stBlockNumber = evBlockNumber first, stFirstSeen = firstSeen, stFirstSeenBlock = evFirstSeenBlock first,
       stMinedAt = (if evMinedAt first \<noteq> '''' then parseOrZero (evMinedAt first)
                    else if evBlockNumber first \<noteq> 0 then now else 0),
       stPendingSince = firstSeen, stSender = '''', stNonce = 0, stHasNonce = False, stAuthoritative = True,
       stTransfers = map legOfEvent evs, stReplacedBy = evReplacedBy first\<rparr>)"

definition persistTx :: "'w env \<Rightarrow> 'w store \<Rightarrow> string \<Rightarrow> event list \<Rightarrow> ('w, unit) ixM" where
  "persistTx E st h evs =
     bindE (gets (\<lambda>s. ExportTx (eCodec E) (HexToHash (eCodec E) h) (ixTracker s))) (\<lambda>snap.
       case snap of
         Some tx \<Rightarrow> world (soSaveTransaction st (icName (eCfg E)) tx)
       | None \<Rightarrow>
           bindE (world (soUpdateTransactionStatus st (icName (eCfg E)) h (evType (last evs)) (evReplacedBy (last evs))))
             (\<lambda>updated. if updated then ok ()
                else bindE (clock E) (\<lambda>now. world (soSaveTransaction st (icName (eCfg E)) (txFromEvents now evs)))))"

definition persistEvents :: "'w env \<Rightarrow> event list \<Rightarrow> ('w, unit) ixM" where
  "persistEvents E evs =
     (case eStore E of
        None \<Rightarrow> ok ()
      | Some st \<Rightarrow>
          (case groupEvents evs [] fmempty of (order, byHash) \<Rightarrow>
             forEach (\<lambda>h. bindE (attempt (persistTx E st h (getSlice byHash h))) (\<lambda>res.
               case res of
                 Inl e \<Rightarrow> logError E ''persisting transaction'' [StrAttr ''tx'' h, ErrAttr ''err'' e]
               | Inr _ \<Rightarrow> ok ())) order))"

definition emitAll :: "'w env \<Rightarrow> event list \<Rightarrow> ('w, unit) ixM" where
  "emitAll E evs = bindE (forEach (emitOne E) evs) (\<lambda>_. persistEvents E evs)"

section \<open>Processing a block\<close>

definition confirmationsFor :: "u64 \<Rightarrow> 'w indexer \<Rightarrow> u64" where
  "confirmationsFor blockNum s =
     (case tip (ixChain s) of
        None \<Rightarrow> 1
      | Some t \<Rightarrow> if blockNum < hrNumber t then hrNumber t - blockNum + 1 else 1)"

text \<open>\<open>tagFinalized\<close> of indexer.go.\<close>

definition tagFinalized :: "'w env \<Rightarrow> 'w indexer \<Rightarrow> u64" where
  "tagFinalized E s = (if cfTag (icConfirmations (eCfg E)) = '''' then 0 else ixFinalizedNum s)"

definition onMinedEmit :: "'w env \<Rightarrow> hash \<Rightarrow> hash \<Rightarrow> u64 \<Rightarrow> transferMatch list \<Rightarrow> bool \<Rightarrow> u64 \<Rightarrow> u64 \<Rightarrow> ('w, unit) ixM" where
  "onMinedEmit E h blockHash num transfers fl conf fin =
     bindE (track (OnMined (eCodec E) h blockHash num transfers fl conf fin)) (emitAll E)"

definition resolvePending :: "'w env \<Rightarrow> block \<Rightarrow> hash list \<Rightarrow> u64 \<Rightarrow> u64 \<Rightarrow> blockTx \<Rightarrow> ('w, unit) scanM" where
  "resolvePending E b scanned conf fin tx =
     bindE (gets (\<lambda>p. IsPending (btHash tx) (ixTracker (fst p)))) (\<lambda>pending.
       if btHash tx \<in> set scanned \<or> \<not> pending then ok ()
       else bindE (attempt (failed E (btHash tx)))
         (\<lambda>res. case res of
            Inl _ \<Rightarrow> ok ()
          | Inr reverted \<Rightarrow> onIx (onMinedEmit E (btHash tx) (bkHash b) (bkNumber b) [] reverted conf fin)))"

definition consumeNonce :: "'w env \<Rightarrow> blockTx \<Rightarrow> ('w, unit) ixM" where
  "consumeNonce E tx = bindE (track (OnNonceUsed (eCodec E) (btFrom tx) (btNonce tx) (btHash tx))) (emitAll E)"

definition recordHead :: "headRef \<Rightarrow> ('w, unit) ixM" where
  "recordHead h = modify (\<lambda>s. s\<lparr>ixChain := record_head (ixChain s) h\<rparr>)"

definition headOfBlock :: "block \<Rightarrow> headRef" where
  "headOfBlock b = \<lparr>hrNumber = bkNumber b, hrHash = bkHash b, hrParentHash = bkParentHash b\<rparr>"

definition processScanned :: "'w env \<Rightarrow> blockData \<Rightarrow> ('w, unit) scanM" where
  "processScanned E d =
     (let b = bdBlock d in
      bindE (scanBlock E d) (\<lambda>mined.
      bindE (gets (\<lambda>p. (confirmationsFor (bkNumber b) (fst p), tagFinalized E (fst p)))) (\<lambda>(conf, fin).
      bindE (forEach (\<lambda>m. onIx (onMinedEmit E (mnHash m) (bkHash b) (bkNumber b) (mnTransfers m) (mnFailed m) conf fin)) mined) (\<lambda>_.
      bindE (forEach (resolvePending E b (map mnHash mined) conf fin) (bkTransactions b)) (\<lambda>_.
      bindE (forEach (\<lambda>tx. onIx (consumeNonce E tx)) (bkTransactions b)) (\<lambda>_.
      onIx (recordHead (headOfBlock b))))))))"

definition processBlock :: "'w env \<Rightarrow> blockData \<Rightarrow> ('w, unit) ixM" where
  "processBlock E d s =
     (let r0 = newStatuses (bkHash (bdBlock d));
          r = (if bdHaveReceipts d then preload (bdReceipts d) r0 else r0)
      in case processScanned E d (s, r) of (res, p) \<Rightarrow> (res, fst p))"

text \<open>A persistence failure is logged, never returned; a snapshot that does not end never returns.\<close>

definition saveState :: "'w env \<Rightarrow> ('w, unit) ixM" where
  "saveState E s =
     (case eStore E of
        None \<Rightarrow> (Inr (), s)
      | Some st \<Rightarrow>
          if ixLastProcessed s = 0 then (Inr (), s)
          else case snapshot (ixChain s) of
            None \<Rightarrow> (Inl (Panic ''snapshot does not return''), s)
          | Some hs \<Rightarrow>
              bindE (attempt (world (soSaveIndexerState st (icName (eCfg E))
                  \<lparr>isLastProcessed = ixLastProcessed s,
                   isRecentHeaders = map (\<lambda>h. \<lparr>shNumber = hrNumber h, shHash = hashHex (eCodec E) (hrHash h),
                     shParentHash = hashHex (eCodec E) (hrParentHash h)\<rparr>) hs\<rparr>)))
                (\<lambda>res. case res of
                   Inl e \<Rightarrow> logError E ''persisting indexer state'' [ErrAttr ''err'' e]
                 | Inr _ \<Rightarrow> ok ()) s)"

end
