(* ===== verification/BlockScan.thy ===== *)
theory BlockScan
  imports Blocks TrackerProps
begin

text \<open>
  What blocks.go finds in a block: the log queries return every log once, the scan groups the legs
  of a block by transaction, and every leg it hands to the tracker belongs to its transaction.
\<close>

section \<open>Duplicates\<close>

text \<open>The first element of every key, in order.\<close>

fun firstBy :: "('a \<Rightarrow> 'k) \<Rightarrow> 'a list \<Rightarrow> 'a list" where
  "firstBy f [] = []"
| "firstBy f (x # xs) = x # firstBy f (filter (\<lambda>y. f y \<noteq> f x) xs)"

lemma firstBy_set: "set (firstBy f xs) \<subseteq> set xs"
  by (induction f xs rule: firstBy.induct) auto

lemma firstBy_keys: "f ` set (firstBy f xs) = f ` set xs"
proof (induction f xs rule: firstBy.induct)
  case (2 f x xs)
  then have "f ` set (firstBy f (filter (\<lambda>y. f y \<noteq> f x) xs)) = f ` {y \<in> set xs. f y \<noteq> f x}" by simp
  then show ?case by auto
qed simp

lemma firstBy_distinct: "distinct (map f (firstBy f xs))"
proof (induction f xs rule: firstBy.induct)
  case (2 f x xs)
  have "f x \<notin> f ` set (firstBy f (filter (\<lambda>y. f y \<noteq> f x) xs))" by (auto simp: firstBy_keys)
  then show ?case using 2 by simp
qed simp

lemma firstBy_snoc: "firstBy f (xs @ [x]) = (if f x \<in> f ` set xs then firstBy f xs else firstBy f xs @ [x])"
proof (induction f xs rule: firstBy.induct)
  case (2 f y ys)
  then show ?case by (cases "f x = f y") auto
qed simp

lemma dedupLogs_firstBy: "dedupLogs lgs seen = firstBy lgIndex (filter (\<lambda>l. lgIndex l \<notin> set seen) lgs)"
proof (induction lgs seen rule: dedupLogs.induct)
  case (2 lg lgs seen)
  have "filter (\<lambda>l. lgIndex l \<notin> set (lgIndex lg # seen)) lgs
      = filter (\<lambda>y. lgIndex y \<noteq> lgIndex lg) (filter (\<lambda>l. lgIndex l \<notin> set seen) lgs)"
    by (induction lgs) auto
  then show ?case using 2 by simp
qed simp

lemma groupLogs_gen:
  "getSlice (groupLogs lgs seen out) n =
     getSlice out n @ firstBy lgIndex (filter (\<lambda>l. lgBlockNumber l = n \<and> (n, lgIndex l) \<notin> set seen) lgs)"
proof (induction lgs seen out rule: groupLogs.induct)
  case (2 lg lgs seen out)
  show ?case
  proof (cases "(lgBlockNumber lg, lgIndex lg) \<in> set seen")
    case True
    then show ?thesis using 2 by auto
  next
    case False
    have "filter (\<lambda>l. lgBlockNumber l = lgBlockNumber lg \<and>
          (lgBlockNumber lg, lgIndex l) \<notin> set ((lgBlockNumber lg, lgIndex lg) # seen)) lgs
      = filter (\<lambda>y. lgIndex y \<noteq> lgIndex lg)
          (filter (\<lambda>l. lgBlockNumber l = lgBlockNumber lg \<and> (lgBlockNumber lg, lgIndex l) \<notin> set seen) lgs)"
      by (induction lgs) auto
    then show ?thesis using 2(2) [OF False] False by (auto simp: getSlice_upd)
  qed
qed simp

lemma groupLogs_dom: "fmlookup (groupLogs lgs seen out) n \<noteq> None \<Longrightarrow> fmlookup out n \<noteq> None \<or> n \<in> lgBlockNumber ` set lgs"
  by (induction lgs seen out rule: groupLogs.induct) (auto split: if_splits)

section \<open>Grouping by transaction\<close>

text \<open>A scan is a sequence of updates of the entries of transactions.\<close>

type_synonym scanOp = "hash \<times> (minedTx \<Rightarrow> minedTx)"

definition runOps :: "scanOp list \<Rightarrow> scanAcc \<Rightarrow> scanAcc" where
  "runOps ops acc = fold (\<lambda>op. getMined (fst op) (snd op)) ops acc"

definition newMined :: "hash \<Rightarrow> minedTx" where
  "newMined h = \<lparr>mnHash = h, mnTransfers = [], mnFailed = False\<rparr>"

lemma runOps_append: "runOps (ops @ ops') acc = runOps ops' (runOps ops acc)"
  by (simp add: runOps_def)

lemma runOps_result:
  "fst (runOps ops ([], fmempty)) = firstBy (\<lambda>x. x) (map fst ops) \<and>
   fmlookup (snd (runOps ops ([], fmempty))) h =
     (if h \<in> fst ` set ops then Some (fold snd (filter (\<lambda>op. fst op = h) ops) (newMined h)) else None)"
proof (induction ops arbitrary: h rule: rev_induct)
  case (snoc op ops)
  obtain order byTx where acc: "runOps ops ([], fmempty) = (order, byTx)" by (cases "runOps ops ([], fmempty)")
  have ind: "order = firstBy (\<lambda>x. x) (map fst ops)"
    "\<And>k. fmlookup byTx k = (if k \<in> fst ` set ops then Some (fold snd (filter (\<lambda>op. fst op = k) ops) (newMined k)) else None)"
    using snoc acc unfolding runOps_def by auto
  have none: "filter (\<lambda>x. fst x = fst op) ops = []" if "\<forall>x\<in>set ops. fst op \<noteq> fst x"
    using that by (metis (mono_tags, lifting) filter_False)
  have mem: "fst op \<in> (\<lambda>x. x) ` set (map fst ops) \<longleftrightarrow> fst op \<in> fst ` set ops" by auto
  show ?case
    unfolding runOps_append acc
    using ind(1) ind(2) [of h] ind(2) [of "fst op"] mem
    by (auto simp: runOps_def getMined_def firstBy_snoc newMined_def image_iff none split: option.splits)
qed (simp add: runOps_def)

lemma minedList_runOps:
  "minedList (runOps ops ([], fmempty)) =
     map (\<lambda>h. fold snd (filter (\<lambda>op. fst op = h) ops) (newMined h)) (firstBy (\<lambda>x. x) (map fst ops))"
proof -
  obtain order byTx where acc: "runOps ops ([], fmempty) = (order, byTx)" by (cases "runOps ops ([], fmempty)")
  have l: "fmlookup byTx k = (if k \<in> fst ` set ops then Some (fold snd (filter (\<lambda>op. fst op = k) ops) (newMined k)) else None)" for k
    using runOps_result [of ops k] acc by simp
  have o: "order = firstBy (\<lambda>x. x) (map fst ops)" using runOps_result [of ops] acc by simp
  have "set order \<subseteq> fst ` set ops" using firstBy_set [of "\<lambda>x. x" "map fst ops"] o by auto
  then have "List.map_filter (fmlookup byTx) order =
      map (\<lambda>h. fold snd (filter (\<lambda>op. fst op = h) ops) (newMined h)) order"
    by (induction order) (auto simp: List.map_filter_def l)
  then show ?thesis by (simp add: minedList_def acc o)
qed

text \<open>The updates the logs and the matched transactions of a block make.\<close>

definition logOps :: "matcher \<Rightarrow> hash \<Rightarrow> ethLog list \<Rightarrow> scanOp list" where
  "logOps m blockHash lgs = List.map_filter (\<lambda>lg.
     if lgRemoved lg \<or> lgBlockHash lg \<noteq> blockHash then None
     else map_option (\<lambda>x. (lgTxHash lg, \<lambda>r. r\<lparr>mnTransfers := mnTransfers r @ [x]\<rparr>)) (MatchLog m lg)) lgs"

lemma fold_addLog: "fold (addLog m bh) lgs acc = runOps (logOps m bh lgs) acc"
  by (induction lgs arbitrary: acc) (auto simp: logOps_def runOps_def addLog_def List.map_filter_simps split: option.splits)

definition nativeOps :: "(hash \<Rightarrow> bool) \<Rightarrow> (blockTx \<times> transferMatch list) list \<Rightarrow> scanOp list" where
  "nativeOps reverted = map (\<lambda>(tx, ms). (btHash tx, addNative (reverted (btHash tx)) ms))"

text \<open>Whatever the receipts say, a scan runs the updates of a subset of the matched transactions.\<close>

lemma scanNative_ops:
  "scanNative E mts acc p = (Inr acc', p') \<Longrightarrow>
     \<exists>ops. acc' = runOps ops acc \<and>
       (\<forall>op \<in> set ops. \<exists>(tx, ms) \<in> set mts. \<exists>rv. op = (btHash tx, addNative rv ms))"
proof (induction E mts acc p rule: scanNative.induct)
  case (1 E acc p)
  then show ?case by (auto simp: runOps_def intro!: exI [of _ "[]"])
next
  case (2 E tx ms mts acc p)
  show ?case
  proof -
    obtain r p1 where Pair: "attempt (failed E (btHash tx)) p = (r, p1)" by (cases "attempt (failed E (btHash tx)) p")
    show ?thesis
    proof (cases r)
      case (Inl e)
      then show ?thesis using 2 Pair by (simp add: bindE_def)
    next
      case (Inr res)
      show ?thesis
      proof (cases res)
        case (Inl e)
        then have "scanNative E mts acc p1 = (Inr acc', p')" and "errIs e NotFound"
          using 2(3) Pair Inr by (auto simp: bindE_def split: if_splits)
        then show ?thesis using 2(1) by (meson list.set_intros(2))
      next
        case rvb: (Inr b)
        then have "scanNative E mts (getMined (btHash tx) (addNative b ms) acc) p1 = (Inr acc', p')"
          using 2(3) Pair Inr by (auto simp: bindE_def split: if_splits)
        from 2(2) [OF this] obtain ops where ops:
          "acc' = runOps ops (getMined (btHash tx) (addNative b ms) acc)"
          "\<forall>op \<in> set ops. \<exists>(tx, ms) \<in> set mts. \<exists>rv. op = (btHash tx, addNative rv ms)" by blast
        show ?thesis
          by (rule exI [of _ "(btHash tx, addNative b ms) # ops"])
            (use ops in \<open>force simp: runOps_def\<close>)
      qed
    qed
  qed
qed

section \<open>Every leg belongs to its transaction\<close>

definition ownLegs :: "minedTx \<Rightarrow> bool" where
  "ownLegs m \<longleftrightarrow> (\<forall>x \<in> set (mnTransfers m). mTxHash x = mnHash m)"

definition ownOp :: "scanOp \<Rightarrow> bool" where
  "ownOp op \<longleftrightarrow> (\<forall>r. mnHash r = fst op \<and> ownLegs r \<longrightarrow> mnHash (snd op r) = fst op \<and> ownLegs (snd op r))"

lemma MatchLog_hash: "MatchLog m lg = Some x \<Longrightarrow> mTxHash x = lgTxHash lg"
  by (auto simp: MatchLog_def Let_def split: option.splits if_splits)

lemma matched_hash: "x \<in> set (MatchBlockTx m tx) \<Longrightarrow> mTxHash x = btHash tx"
  using MatchBlockTx_iff by blast

lemma ownOp_log: "op \<in> set (logOps m bh lgs) \<Longrightarrow> ownOp op"
  by (auto simp: logOps_def List.map_filter_def ownOp_def ownLegs_def dest: MatchLog_hash split: if_splits)

lemma ownOp_native: "\<forall>x \<in> set ms. mTxHash x = h \<Longrightarrow> ownOp (h, addNative rv ms)"
  by (auto simp: ownOp_def ownLegs_def addNative_def)

lemma fold_ownOp:
  assumes "\<forall>op \<in> set ops. ownOp op"
  shows "mnHash (fold snd (filter (\<lambda>op. fst op = h) ops) (newMined h)) = h \<and>
    ownLegs (fold snd (filter (\<lambda>op. fst op = h) ops) (newMined h))"
  using assms
proof (induction ops rule: rev_induct)
  case (snoc op ops)
  then show ?case by (auto simp: ownOp_def)
qed (simp add: newMined_def ownLegs_def)

lemma matchedTxs_hash: "(tx, ms) \<in> set (matchedTxs m b) \<Longrightarrow> x \<in> set ms \<Longrightarrow> mTxHash x = btHash tx"
  by (auto simp: matchedTxs_def dest: matched_hash)

lemma scanBlock_legs:
  assumes "scanBlock E d p = (Inr mined, p')"
  shows "distinct (map mnHash mined) \<and> (\<forall>m \<in> set mined. ownLegs m)"
proof -
  have "\<exists>ops. mined = minedList (runOps ops ([], fmempty)) \<and> (\<forall>op \<in> set ops. ownOp op)"
  proof -
    from assms have "\<exists>p1 p2 acc. scanNative E (matchedTxs (eMatcher E) (bdBlock d)) ([], fmempty) p1 = (Inr acc, p2) \<and>
        (mined = minedList acc \<or> (\<exists>cs. mined = minedList (fold (addLog (eMatcher E) (bkHash (bdBlock d))) cs acc)))"
      unfolding scanBlock_def Let_def bindE_Inr by (auto split: if_splits simp del: split_paired_Ex simp: bindE_Inr; blast)
    then obtain p1 p2 acc where n: "scanNative E (matchedTxs (eMatcher E) (bdBlock d)) ([], fmempty) p1 = (Inr acc, p2)"
      and m: "mined = minedList acc \<or> (\<exists>cs. mined = minedList (fold (addLog (eMatcher E) (bkHash (bdBlock d))) cs acc))"
      by blast
    obtain ops where ops: "acc = runOps ops ([], fmempty)"
      "\<forall>op \<in> set ops. \<exists>(tx, ms) \<in> set (matchedTxs (eMatcher E) (bdBlock d)). \<exists>rv. op = (btHash tx, addNative rv ms)"
      using scanNative_ops [OF n] by blast
    have own: "\<forall>op \<in> set ops. ownOp op"
      using ops(2) matchedTxs_hash by (fastforce intro!: ownOp_native)
    from m show ?thesis
    proof
      assume "mined = minedList acc"
      then show ?thesis using ops(1) own by blast
    next
      assume "\<exists>cs. mined = minedList (fold (addLog (eMatcher E) (bkHash (bdBlock d))) cs acc)"
      then obtain cs where "mined = minedList (runOps (ops @ logOps (eMatcher E) (bkHash (bdBlock d)) cs) ([], fmempty))"
        by (auto simp: fold_addLog ops(1) runOps_append)
      then show ?thesis using own ownOp_log by (metis Un_iff set_append)
    qed
  qed
  then obtain ops where ops: "mined = minedList (runOps ops ([], fmempty))" "\<forall>op \<in> set ops. ownOp op" by blast
  have "map mnHash mined = firstBy (\<lambda>x. x) (map fst ops)"
    using fold_ownOp [OF ops(2)] by (simp add: ops(1) minedList_runOps comp_def)
  moreover have "distinct (firstBy (\<lambda>x. x) (map fst ops))"
    using firstBy_distinct [of "\<lambda>x. x"] by (simp add: map_idI)
  moreover have "\<forall>m \<in> set mined. ownLegs m"
    using fold_ownOp [OF ops(2)] by (auto simp: ops(1) minedList_runOps)
  ultimately show ?thesis by simp
qed

end
