(* ===== verification/Drive.thy ===== *)
theory Drive
  imports BlockScan
begin

text \<open>
  How the code of blocks.go drives the tracker: whatever the store and the sink answer, and the node
  beside its receipts (of which IndexerRun asks that they carry the logs of their transaction),
  the tracker changes only by its own operations, called as they require, and the header ring
  keeps its invariant. So everything proved of reachable trackers holds while blocks are processed.
\<close>

section \<open>What the world leaves alone\<close>

text \<open>
  \<open>same\<close> relates two states of the world between which nothing has happened that a reader cares
  about. A quiet environment has such a relation kept by everything it offers but the sink and the saving of transactions.
\<close>

definition keeps :: "('w \<Rightarrow> 'w \<Rightarrow> bool) \<Rightarrow> ('w, 'a) goM \<Rightarrow> bool" where
  "keeps same m \<longleftrightarrow> (\<forall>w. same w (snd (m w)))"

definition quietClient :: "('w \<Rightarrow> 'w \<Rightarrow> bool) \<Rightarrow> 'w chainClient \<Rightarrow> bool" where
  "quietClient same C \<longleftrightarrow> keeps same (ccChainID C) \<and> (\<forall>h. keeps same (ccBlockByHash C h)) \<and>
     (\<forall>n. keeps same (ccBlockByNumber C n)) \<and> (\<forall>h. keeps same (ccTransactionReceipt C h)) \<and>
     (\<forall>h. keeps same (ccBlockReceipts C h)) \<and> (\<forall>tag. keeps same (ccBlockNumberByTag C tag)) \<and>
     (\<forall>n. keeps same (ccBlockBundleByNumber C n)) \<and> (\<forall>h. keeps same (ccBlockBundleByHash C h)) \<and>
     (\<forall>ns wr. keeps same (ccBlockBundles C ns wr)) \<and> (\<forall>hs. keeps same (ccTransactionReceipts C hs)) \<and>
     (\<forall>hs. keeps same (ccTransactionsByHash C hs)) \<and> (\<forall>ns. keeps same (ccHeaderRefsByNumbers C ns)) \<and>
     (\<forall>qs. keeps same (ccFilterLogsBatch C qs))"

definition quietSaves :: "('w \<Rightarrow> 'w \<Rightarrow> bool) \<Rightarrow> 'w env \<Rightarrow> bool" where
  "quietSaves same E \<longleftrightarrow> (\<forall>st. eStore E = Some st \<longrightarrow> (\<forall>n tx. keeps same (soSaveTransaction st n tx)) \<and>
     (\<forall>n h ty r. keeps same (soUpdateTransactionStatus st n h ty r)))"

definition quietSink :: "('w \<Rightarrow> 'w \<Rightarrow> bool) \<Rightarrow> 'w env \<Rightarrow> bool" where
  "quietSink same E \<longleftrightarrow> (\<forall>sink ev w. eSink E = Some sink \<longrightarrow> same w (snd (sink ev w)))"

definition quietWorld :: "('w \<Rightarrow> 'w \<Rightarrow> bool) \<Rightarrow> 'w env \<Rightarrow> bool" where
  "quietWorld same E \<longleftrightarrow> (\<forall>w. same w w) \<and> (\<forall>a b c. same a b \<longrightarrow> same b c \<longrightarrow> same a c) \<and>
     (\<forall>w. same w (snd (eNow E w))) \<and> (\<forall>w. same w (snd (eWait E w))) \<and> (\<forall>w. same w (snd (eCtx E w))) \<and>
     (\<forall>w. same w (snd (eLive E w))) \<and> (\<forall>w. same w (snd (eSchedule E w))) \<and>
     (\<forall>msg attrs w. same w (eLogLine E msg attrs w)) \<and> quietClient same (eClient E) \<and>
     (\<forall>st n x. eStore E = Some st \<longrightarrow> keeps same (soSaveIndexerState st n x))"

lemma quiet_any: "quietWorld (\<lambda>_ _. True) E" "quietSaves (\<lambda>_ _. True) E" "quietSink (\<lambda>_ _. True) E"
  by (simp_all add: quietWorld_def quietClient_def quietSaves_def quietSink_def keeps_def)

definition steady :: "('w \<Rightarrow> 'w \<Rightarrow> bool) \<Rightarrow> 'w indexer \<Rightarrow> 'w indexer \<Rightarrow> bool" where
  "steady same s s' \<longleftrightarrow> ixTracker s' = ixTracker s \<and> ixChain s' = ixChain s \<and> same (ixWorld s) (ixWorld s')"

locale quiet_world =
  fixes E :: "'w env" and same :: "'w \<Rightarrow> 'w \<Rightarrow> bool"
  assumes quiet: "quietWorld same E"
begin

lemma same_refl: "same w w" and same_trans: "same a b \<Longrightarrow> same b c \<Longrightarrow> same a c"
  using quiet unfolding quietWorld_def by blast+

lemma quiet_steps: "same w (snd (eNow E w))" "same w (snd (eWait E w))" "same w (snd (eCtx E w))"
    "same w (snd (eLive E w))" "same w (snd (eSchedule E w))" "same w (eLogLine E msg attrs w)"
  using quiet unfolding quietWorld_def by blast+

lemma quiet_client: "quietClient same (eClient E)"
  using quiet unfolding quietWorld_def by blast

lemma quiet_progress: "eStore E = Some st \<Longrightarrow> keeps same (soSaveIndexerState st n x)"
  using quiet unfolding quietWorld_def by blast

end

sublocale quiet_world < frame: state_relation "steady same"
  by unfold_locales (auto simp: steady_def intro: same_refl same_trans)

lemma bindE_assoc: "bindE (bindE m f) g = bindE m (\<lambda>x. bindE (f x) g)"
  by (rule ext) (simp add: bindE_def split: prod.split sum.split)

lemma clock_world: "clock E = world (\<lambda>w. (Inr (fst (eNow E w)), snd (eNow E w)))"
  by (rule ext) (simp add: clock_def world_def split_def)

context quiet_world
begin

lemma frame_world: "keeps same m \<Longrightarrow> frame.within (world m)"
  by (auto simp: frame.within_def world_def steady_def keeps_def split: prod.splits) (metis snd_conv)

lemma frame_clock: "frame.within (clock E)"
  unfolding clock_world by (rule frame_world) (simp add: keeps_def quiet_steps)

lemma frame_wait: "steady same s (snd (waitRetry E s))"
  using quiet_steps(2) [of "ixWorld s"] by (simp add: waitRetry_def steady_def split_def)

lemma frame_note: "frame.within (noteBlockReceiptsError e)"
  by (auto simp: frame.within_def noteBlockReceiptsError_def steady_def same_refl split: prod.splits)

lemma frame_client: "keeps same (call (eClient E)) \<Longrightarrow> frame.within (client E call)"
  unfolding client_def by (rule frame_world)

lemma frame_clients: "frame.within (client E ccChainID)" "frame.within (client E (\<lambda>c. ccBlockByNumber c n))"
    "frame.within (client E (\<lambda>c. ccTransactionReceipt c h))" "frame.within (client E (\<lambda>c. ccBlockReceipts c h))"
    "frame.within (client E (\<lambda>c. ccBlockNumberByTag c tag))" "frame.within (client E (\<lambda>c. ccBlockBundles c ns wr))"
    "frame.within (client E (\<lambda>c. ccTransactionReceipts c hs))" "frame.within (client E (\<lambda>c. ccTransactionsByHash c hs))"
    "frame.within (client E (\<lambda>c. ccFilterLogsBatch c qs))"
    "frame.within (client E (\<lambda>c. case key of Inl h \<Rightarrow> ccBlockBundleByHash c h | Inr n \<Rightarrow> ccBlockBundleByNumber c n))"
    "frame.within (client E (\<lambda>c. case key of Inl h \<Rightarrow> ccBlockByHash c h | Inr n \<Rightarrow> ccBlockByNumber c n))"
  using quiet_client by (auto simp: quietClient_def intro!: frame_client split: sum.split)

lemma frame_log: "frame.within (logEvent E ev)"
  unfolding logEvent_def sinceMined_def
  by (intro frame.within_rules frame_clock frame_world) (simp add: keeps_def quiet_steps)

lemma frame_error: "frame.within (logError E msg attrs)"
  unfolding logError_def by (rule frame_world) (simp add: keeps_def quiet_steps)

lemma frame_persist:
  assumes "quietSaves same E"
  shows "frame.within (persistEvents E evs)"
proof (cases "eStore E")
  case None
  then show ?thesis by (simp add: persistEvents_def frame.within_ok)
next
  case (Some st)
  have "frame.within (persistTx E st h xs)" for h xs
    using assms Some unfolding persistTx_def quietSaves_def by (intro frame.within_rules frame_clock frame_world) blast+
  then show ?thesis unfolding persistEvents_def Some option.case by (intro frame.within_rules frame_error)
qed

lemma frame_emits:
  assumes "quietSink same E"
  shows "frame.within (forEach (emitOne E) evs)"
proof -
  have "frame.within (toSink E ev)" for ev
    unfolding toSink_def using assms
    by (auto intro!: frame.within_rules frame_world frame_error simp: keeps_def quietSink_def split_def split: option.split)
  then show ?thesis unfolding emitOne_def by (intro frame.within_rules frame_clock frame_log)
qed

lemma steady_emitAll:
  assumes "quietSink same E" and "quietSaves same E"
  shows "steady same s (snd (emitAll E evs s))"
proof -
  have "frame.within (emitAll E evs)" unfolding emitAll_def
    by (intro frame.within_bind frame_emits [OF assms(1)] frame_persist [OF assms(2)])
  then show ?thesis by (simp add: frame.within_def)
qed

end

section \<open>The relation a run keeps\<close>

text \<open>
  What a relation between indexers must allow for every piece of the code to stay within it: quiet
  steps of the world, header rings that stay well formed, and the operations of the tracker, called
  as they require, each together with the emission of its events.
\<close>

locale indexer_relation = quiet_world E same + state_relation R
  for E :: "'w env" and same :: "'w \<Rightarrow> 'w \<Rightarrow> bool" and R :: "'w indexer \<Rightarrow> 'w indexer \<Rightarrow> bool" +
  assumes steady_rel: "steady same s s' \<Longrightarrow> R s s'"
    and chain_rel: "(chainInv (ixChain s) \<Longrightarrow> chainInv ch) \<Longrightarrow> R s (s\<lparr>ixChain := ch\<rparr>)"
    and silent_rel: "trackerOpOK op (ixTracker s) \<Longrightarrow> fst (trackerExec (eCodec E) op (ixTracker s)) = [] \<Longrightarrow>
      R s (s\<lparr>ixTracker := snd (trackerExec (eCodec E) op (ixTracker s))\<rparr>)"
    and emitted_rel: "trackerOpOK op (ixTracker s) \<Longrightarrow>
      R s (snd (bindE (track (trackerExec (eCodec E) op)) (emitAll E) s))"
    and inv_rel: "(trackerInv (ixTracker s) \<Longrightarrow> R s s') \<Longrightarrow> R s s'"
begin

lemma within_frame: "frame.within m \<Longrightarrow> within m"
  unfolding frame.within_def within_def using steady_rel by blast

lemmas within_world = frame_world [THEN within_frame]

lemmas within_calls = frame_clock [THEN within_frame] frame_note [THEN within_frame] frame_clients [THEN within_frame]

lemma within_steady: "(\<And>s. ixTracker (f s) = ixTracker s \<and> ixChain (f s) = ixChain s \<and> ixWorld (f s) = ixWorld s) \<Longrightarrow>
    within (modify f)"
  by (intro within_modify steady_rel) (simp add: steady_def same_refl)

lemma within_emitted:
  assumes "\<And>t. trackerOpOK op t" and "\<And>t. f t = trackerExec (eCodec E) op t"
  shows "within (bindE (track f) (emitAll E))"
proof -
  have "f = trackerExec (eCodec E) op" by (rule ext) (rule assms(2))
  then show ?thesis using emitted_rel assms(1) by (simp add: within_def)
qed

lemma within_mined: "\<forall>x \<in> set ms. mTxHash x = h \<Longrightarrow>
    within (bindE (track (OnMined (eCodec E) h bh bn ms fl conf fin)) (emitAll E))"
  by (rule within_emitted [of "opMined h bh bn ms fl conf fin"]) auto

lemma within_nonce: "within (bindE (track (OnNonceUsed (eCodec E) sd n h)) (emitAll E))"
  by (rule within_emitted [of "opNonceUsed sd n h"]) auto

lemma within_record: "within (recordHead h)"
  unfolding recordHead_def by (intro within_modify chain_rel chainInv_record)

lemma within_retried: "within fn \<Longrightarrow> within (withRetry (waitRetry E) fn)"
  by (rule within_retry) (auto intro: steady_rel frame_wait)

lemmas step0_rules = within_rules within_calls within_retried within_record

end

sublocale indexer_relation < scan: state_relation "\<lambda>p p' :: 'w indexer \<times> receiptStatuses. R (fst p) (fst p')"
  by unfold_locales (auto intro: rel_refl rel_trans)

context indexer_relation
begin

lemma scan_onIx: "within m \<Longrightarrow> scan.within (onIx m)"
  by (auto simp: within_def scan.within_def onIx_def split: prod.splits) (metis snd_conv)

lemma scan_onStatuses: "scan.within (onStatuses f)"
  by (auto simp: scan.within_def onStatuses_def rel_refl)

lemmas scan_rules = scan.within_rules scan_onIx scan_onStatuses

section \<open>Scanning\<close>

lemma scan_ensure: "scan.within (ensure E)"
  unfolding ensure_def by (intro scan_rules step0_rules)

lemma scan_preload: "scan.within (preloadStatuses E hs)"
  unfolding preloadStatuses_def by (intro scan_rules step0_rules scan_ensure)

lemma scan_failed: "scan.within (failed E h)"
  unfolding failed_def by (intro scan_rules step0_rules scan_ensure)

lemma within_filter: "within (fetchTopicFilterLogs E lo hi retry)"
  unfolding fetchTopicFilterLogs_def batchQuery_def Let_def by (intro step0_rules)

lemma scan_native: "scan.within (scanNative E mts acc)"
proof (induction mts arbitrary: acc)
  case Nil
  then show ?case by (simp add: scan.within_def rel_refl)
next
  case (Cons mt mts)
  obtain tx ms where mt: "mt = (tx, ms)" by (cases mt)
  have "scanNative E (mt # mts) acc = bindE (attempt (failed E (btHash tx)))
       (\<lambda>res. case res of
          Inl e \<Rightarrow> if errIs e NotFound then scanNative E mts acc
                   else fail (Wrap (''receipt '' @ hashHex (eCodec E) (btHash tx)) e)
        | Inr reverted \<Rightarrow> scanNative E mts (getMined (btHash tx) (addNative reverted ms) acc))"
    by (rule ext) (simp add: mt)
  moreover have "scan.within \<dots>" by (intro scan_rules scan_failed Cons)
  ultimately show ?case by simp
qed

lemma scan_candidates: "scan.within (candidateLogs E d)"
  unfolding candidateLogs_def blockLogs_def by (intro scan_rules scan_ensure within_filter)

lemma scan_scanBlock: "scan.within (scanBlock E d)"
  unfolding scanBlock_def Let_def by (intro scan_rules scan_preload scan_native scan_candidates)

section \<open>Emitting\<close>

lemma within_onMinedEmit: "\<forall>x \<in> set ms. mTxHash x = h \<Longrightarrow> within (onMinedEmit E h bh bn ms fl conf fin)"
  unfolding onMinedEmit_def by (rule within_mined)

lemma scan_resolvePending: "scan.within (resolvePending E b done conf fin tx)"
  unfolding resolvePending_def by (intro scan_rules scan_failed within_onMinedEmit) simp

lemma scan_processScanned: "scan.within (processScanned E d)"
  unfolding processScanned_def Let_def
proof (intro scan.within_bind_result scan_scanBlock scan.within_prod scan_rules scan_resolvePending within_onMinedEmit)
  fix p :: "'w indexer \<times> receiptStatuses" and mined p' m
  assume "scanBlock E d p = (Inr mined, p')" and "m \<in> set mined"
  then show "\<forall>x \<in> set (mnTransfers m). mTxHash x = mnHash m"
    using scanBlock_legs [of E d p mined p'] by (auto simp: ownLegs_def)
qed (simp_all add: consumeNonce_def within_nonce within_record)

lemma within_processBlock: "within (processBlock E d)"
  unfolding within_def processBlock_def Let_def
  using scan_processScanned [of d, unfolded scan.within_def] by (auto split: prod.splits) (metis fst_conv snd_conv)+

end

section \<open>The tracker's own steps\<close>

definition ixStep :: "hexcodec \<Rightarrow> 'w indexer \<Rightarrow> 'w indexer \<Rightarrow> bool" where
  "ixStep c s s' \<longleftrightarrow> (trackerInv (ixTracker s) \<and> chainInv (ixChain s) \<longrightarrow>
     trackerReach c (ixTracker s) (ixTracker s') \<and> chainInv (ixChain s'))"

lemma trackerReach_trans: "trackerReach c t1 t2 \<Longrightarrow> trackerReach c t0 t1 \<Longrightarrow> trackerReach c t0 t2"
  by (induction rule: trackerReach.induct) (auto intro: trackerReach.step)

lemma ixStep_refl: "ixStep c s s"
  by (simp add: ixStep_def trackerReach.start)

lemma ixStep_trans: "ixStep c s0 s1 \<Longrightarrow> ixStep c s1 s2 \<Longrightarrow> ixStep c s0 s2"
  by (auto simp: ixStep_def intro: trackerReach_trans trackerReach_inv)

lemma ixStep_op: "trackerOpOK op (ixTracker s) \<Longrightarrow> ixStep c s (s\<lparr>ixTracker := snd (trackerExec c op (ixTracker s))\<rparr>)"
  by (simp add: ixStep_def trackerReach.start trackerReach.step)

interpretation drive: indexer_relation E "\<lambda>_ _. True" "ixStep (eCodec E)" for E :: "'w env"
proof -
  have *: "quiet_world E (\<lambda>_ _. True)" by (simp add: quiet_world_def quiet_any)
  have emitted: "ixStep (eCodec E) s (snd (bindE (track (trackerExec (eCodec E) op)) (emitAll E) s))"
    if "trackerOpOK op (ixTracker s)" for op and s :: "'w indexer"
  proof -
    let ?s = "s\<lparr>ixTracker := snd (trackerExec (eCodec E) op (ixTracker s))\<rparr>"
    let ?evs = "fst (trackerExec (eCodec E) op (ixTracker s))"
    have "steady (\<lambda>_ _. True) ?s (snd (emitAll E ?evs ?s))"
      by (rule quiet_world.steady_emitAll [OF * quiet_any(3,2)])
    then have "ixStep (eCodec E) s (snd (emitAll E ?evs ?s))"
      using ixStep_op [OF that, of "eCodec E"] by (simp add: ixStep_def steady_def)
    then show ?thesis by (simp add: bindE_def track_def split_def)
  qed
  show "indexer_relation E (\<lambda>_ _. True) (ixStep (eCodec E))"
  proof unfold_locales
    show "ixStep (eCodec E) s s'" if "steady (\<lambda>_ _. True) s s'" for s s' :: "'w indexer"
      using that by (simp add: ixStep_def steady_def trackerReach.start)
    show "ixStep (eCodec E) s (s\<lparr>ixChain := ch\<rparr>)" if "chainInv (ixChain s) \<Longrightarrow> chainInv ch" for ch and s :: "'w indexer"
      using that by (simp add: ixStep_def trackerReach.start)
    show "ixStep (eCodec E) s s'" if "trackerInv (ixTracker s) \<Longrightarrow> ixStep (eCodec E) s s'" for s s' :: "'w indexer"
      using that by (simp add: ixStep_def)
  qed (auto intro: quiet_any(1) ixStep_refl ixStep_trans ixStep_op emitted)
qed

end
