(* ===== verification/Indexer.thy ===== *)
theory Indexer
  imports Drive
begin

text \<open>
  internal/indexer/indexer.go: fetching blocks, catching up, following reorganisations and moving
  the tracked transactions along. The dispatch goroutine is sequential; the prefetch workers, which
  run beside it, fetch whole spans of blocks, each fetch one step, interleaved with the consumer in
  an order the environment chooses.
\<close>

section \<open>Configuration of a scan\<close>

definition initialLogChunk :: "'w env \<Rightarrow> u64" where
  "initialLogChunk E = (if serverFilterMaxAddresses < WatchedCount (eMatcher E) then 100 else 500)"

definition withSource :: "string \<Rightarrow> ('w, 'a) ixM \<Rightarrow> ('w, 'a) ixM" where
  "withSource src fn s =
     (case fn (s\<lparr>ixLogSource := src\<rparr>) of (r, s') \<Rightarrow> (r, s'\<lparr>ixLogSource := ixLogSource s\<rparr>))"

definition pollCtx :: "'w env \<Rightarrow> ('w, unit) ixM" where
  "pollCtx E s = (case eCtx E (ixWorld s) of
     (None, w) \<Rightarrow> (Inr (), s\<lparr>ixWorld := w\<rparr>) | (Some e, w) \<Rightarrow> (Inl e, s\<lparr>ixWorld := w\<rparr>))"

definition finalizedTTL :: duration where
  "finalizedTTL = 10 * nsPerSec"

text \<open>The number comes back with the error.\<close>

definition finalizedNumber :: "'w env \<Rightarrow> ('w, u64 \<times> goerr option) ixM" where
  "finalizedNumber E =
     (let refresh = bindE (attempt (client E (\<lambda>c. ccBlockNumberByTag c (cfTag (icConfirmations (eCfg E))))))
            (\<lambda>res. case res of
               Inl e \<Rightarrow> gets (\<lambda>s. (ixFinalizedNum s, Some e))
             | Inr num \<Rightarrow> bindE (modify (\<lambda>s. s\<lparr>ixFinalizedNum := num\<rparr>)) (\<lambda>_.
                 bindE (clock E) (\<lambda>now. bindE (modify (\<lambda>s. s\<lparr>ixFinalizedAt := now\<rparr>)) (\<lambda>_. ok (num, None)))))
      in bindE (gets ixFinalizedAt) (\<lambda>at.
        if isZero at then refresh
        else bindE (clock E) (\<lambda>now.
          if now - at < finalizedTTL then gets (\<lambda>s. (ixFinalizedNum s, None)) else refresh)))"

section \<open>Restoring\<close>

definition headOfStored :: "hexcodec \<Rightarrow> storedHeader \<Rightarrow> headRef" where
  "headOfStored c h = \<lparr>hrNumber = shNumber h, hrHash = HexToHash c (shHash h), hrParentHash = HexToHash c (shParentHash h)\<rparr>"

definition restoreProgress :: "'w env \<Rightarrow> indexerState option \<Rightarrow> ('w, unit) ixM" where
  "restoreProgress E st =
     (case st of
        None \<Rightarrow> ok ()
      | Some st \<Rightarrow>
          if eResume E
          then bindE (modify (\<lambda>s. s\<lparr>ixLastProcessed := isLastProcessed st\<rparr>)) (\<lambda>_.
            forEach (\<lambda>h. recordHead (headOfStored (eCodec E) h)) (isRecentHeaders st))
          else ok ())"

definition markRestored :: "hexcodec \<Rightarrow> storedTx \<Rightarrow> 'w indexer \<Rightarrow> 'w indexer" where
  "markRestored c tx s =
     (let h = HexToHash c (stHash tx);
          s1 = s\<lparr>ixRestoredTx := hashHex c h # ixRestoredTx s\<rparr>
      in if IsPending h (ixTracker s1) then s1\<lparr>ixRestoredPending := ixRestoredPending s1 @ [h]\<rparr> else s1)"

definition restore :: "'w env \<Rightarrow> ('w, unit) ixM" where
  "restore E =
     (case eStore E of
        None \<Rightarrow> ok ()
      | Some st \<Rightarrow>
          bindE (attempt (world (soLoadIndexerState st (icName (eCfg E))))) (\<lambda>loaded.
          case loaded of
            Inl e \<Rightarrow> fail (Wrap ''loading indexer state'' e)
          | Inr state \<Rightarrow>
          bindE (restoreProgress E state) (\<lambda>_.
          bindE (attempt (world (soLoadActiveTransactions st (icName (eCfg E))))) (\<lambda>active.
          case active of
            Inl e \<Rightarrow> fail (Wrap ''loading active transactions'' e)
          | Inr txs \<Rightarrow>
          bindE (track (Import (eCodec E) txs)) (\<lambda>_.
          bindE (modify (\<lambda>s. s\<lparr>ixRestoredTx := []\<rparr>)) (\<lambda>_.
            forEach (\<lambda>tx. modify (markRestored (eCodec E) tx)) txs))))))"

section \<open>Fetching blocks\<close>

definition clientFilterReceipts :: "'w env \<Rightarrow> 'w indexer \<Rightarrow> bool" where
  "clientFilterReceipts E s \<longleftrightarrow> serverFilterMaxAddresses < WatchedCount (eMatcher E) \<and> \<not> ixNoBlockReceipts s"

definition bundleData :: "'w env \<Rightarrow> blockBundle \<Rightarrow> ('w, blockData) ixM" where
  "bundleData E bundle =
     bindE (deref (bbBlock bundle)) (\<lambda>b.
       case bbReceiptsErr bundle of
         Some e \<Rightarrow> bindE (noteBlockReceiptsError e) (\<lambda>_. ok (blockOnly b))
       | None \<Rightarrow>
           if bbReceipts bundle \<noteq> [] \<and> brBlockHash (hd (bbReceipts bundle)) \<noteq> bkHash b
           then bindE (attempt (client E (\<lambda>c. ccBlockReceipts c (bkHash b))))
             (\<lambda>res. case res of
                Inl e \<Rightarrow> bindE (noteBlockReceiptsError e) (\<lambda>_. ok (blockOnly b))
              | Inr receipts \<Rightarrow> ok ((blockOnly b)\<lparr>bdReceipts := receipts, bdHaveReceipts := True\<rparr>))
           else ok ((blockOnly b)\<lparr>bdReceipts := bbReceipts bundle, bdHaveReceipts := True\<rparr>))"

text \<open>A block is asked for by its hash or by its number.\<close>

definition fetchBundle :: "'w env \<Rightarrow> hash + u64 \<Rightarrow> ('w, blockData) ixM" where
  "fetchBundle E key =
     bindE (gets (clientFilterReceipts E)) (\<lambda>withReceipts.
       if withReceipts
       then bindE (withRetry (waitRetry E) (client E (\<lambda>c. case key of
              Inl h \<Rightarrow> ccBlockBundleByHash c h | Inr n \<Rightarrow> ccBlockBundleByNumber c n)))
            (bundleData E)
       else bindE (withRetry (waitRetry E) (client E (\<lambda>c. case key of
              Inl h \<Rightarrow> ccBlockByHash c h | Inr n \<Rightarrow> ccBlockByNumber c n)))
            (\<lambda>b. ok (blockOnly b)))"

definition fetchBlockData :: "'w env \<Rightarrow> hash \<Rightarrow> ('w, blockData) ixM" where
  "fetchBlockData E h = fetchBundle E (Inl h)"

text \<open>Wrapping the error of a call, as \<open>fmt.Errorf("...: %w", err)\<close> does.\<close>

definition wrapErr :: "string \<Rightarrow> ('s, 'a) goM \<Rightarrow> ('s, 'a) goM" where
  "wrapErr msg m = bindE (attempt m) (\<lambda>res. case res of Inl e \<Rightarrow> fail (Wrap msg e) | Inr x \<Rightarrow> ok x)"

definition fetchingBlock :: "u64 \<Rightarrow> string" where
  "fetchingBlock n = ''fetching block '' @ natString (unat n)"

section \<open>Block numbers and batches\<close>

text \<open>
  The loops over block numbers. \<open>for n := lo; n <= hi; n++\<close> does not end when \<open>hi\<close> is the largest
  \<open>uint64\<close>, and stepping by a batch may wrap, so these are partial: \<open>None\<close> is "does not return".
\<close>

partial_function (option) numbersUp :: "u64 \<Rightarrow> u64 \<Rightarrow> u64 list option" where
  "numbersUp n hi = (if n \<le> hi then Option.bind (numbersUp (n + 1) hi) (\<lambda>ns. Some (n # ns)) else Some [])"

function numbersDown :: "u64 \<Rightarrow> u64 \<Rightarrow> u64 list" where
  "numbersDown n lo = (if lo \<le> n then n # (if n = lo then [] else numbersDown (n - 1) lo) else [])"
  by pat_completeness auto
termination
  by (relation "measure (\<lambda>(n, lo). unat n)") (auto simp: u64_pred [of lo n for lo n] word_less_nat_alt dest!: le_neq_trans)

declare numbersDown.simps [simp del]

definition batchBlocks :: "'w env \<Rightarrow> nat" where
  "batchBlocks E = nat (max 1 (icBatchBlocks (eCfg E)))"

partial_function (option) gapChunks :: "u64 \<Rightarrow> u64 \<Rightarrow> u64 \<Rightarrow> u64 list list option" where
  "gapChunks b lo hi =
     (if lo \<le> hi
      then Option.bind (numbersUp lo (min (lo + b - 1) hi)) (\<lambda>ns.
           Option.bind (gapChunks b (lo + b) hi) (\<lambda>rest. Some (ns # rest)))
      else Some [])"

definition returning :: "'a option \<Rightarrow> ('s, 'a) goM" where
  "returning r = (case r of None \<Rightarrow> fail (Panic ''does not return'') | Some x \<Rightarrow> ok x)"

text \<open>One block of a batch: from the bundle when the batch served it, else fetched on its own.\<close>

definition gapBlock :: "'w env \<Rightarrow> bool \<Rightarrow> u64 \<Rightarrow> blockBundle \<Rightarrow> goerr option \<Rightarrow> ('w, unit) ixM" where
  "gapBlock E withReceipts n bundle err =
     bindE (if err = None
            then (if withReceipts then bundleData E bundle
                  else bindE (deref (bbBlock bundle)) (\<lambda>b. ok (blockOnly b)))
            else wrapErr (fetchingBlock n) (fetchBundle E (Inr n)))
       (processBlock E)"

definition gapBatch :: "'w env \<Rightarrow> bool \<Rightarrow> u64 list \<Rightarrow> ('w, unit) ixM" where
  "gapBatch E withReceipts numbers =
     (if 1 < length numbers
      then bindE (wrapErr (''fetching blocks '' @ natString (unat (hd numbers)) @ ''-'' @ natString (unat (last numbers)))
             (withRetry (waitRetry E) (client E (\<lambda>c. ccBlockBundles c numbers withReceipts))))
           (\<lambda>(bundles, errs). forEach3 (gapBlock E withReceipts) numbers bundles errs)
      else forEach (\<lambda>n. bindE (wrapErr (fetchingBlock n) (fetchBundle E (Inr n))) (processBlock E)) numbers)"

definition processGap :: "'w env \<Rightarrow> u64 \<Rightarrow> u64 \<Rightarrow> ('w, unit) ixM" where
  "processGap E from to =
     bindE (gets (clientFilterReceipts E)) (\<lambda>withReceipts.
     bindE (returning (gapChunks (of_nat (batchBlocks E)) from to)) (\<lambda>chunks.
       forEach (gapBatch E withReceipts) chunks))"

section \<open>Prefetching\<close>

text \<open>The result that goes into the slot of a block: its data, or the error fetching it.\<close>

type_synonym fetchResult = "goerr + blockData"

definition spanBlock :: "'w env \<Rightarrow> bool \<Rightarrow> u64 \<Rightarrow> ('w, fetchResult) ixM" where
  "spanBlock E withReceipts n =
     attempt (wrapErr (fetchingBlock n)
       (if withReceipts then fetchBundle E (Inr n)
        else bindE (withRetry (waitRetry E) (client E (\<lambda>c. ccBlockByNumber c n))) (\<lambda>b. ok (blockOnly b))))"

definition spanBundle :: "'w env \<Rightarrow> bool \<Rightarrow> u64 \<Rightarrow> blockBundle \<Rightarrow> goerr option \<Rightarrow>
    (u64 \<times> fetchResult option) list \<Rightarrow> ('w, (u64 \<times> fetchResult option) list) ixM" where
  "spanBundle E wantReceipts n bundle err acc =
     (if err \<noteq> None then ok (acc @ [(n, None)])
      else bindE (if wantReceipts then bundleData E bundle
                  else bindE (deref (bbBlock bundle)) (\<lambda>b. ok (blockOnly b)))
        (\<lambda>d. ok (acc @ [(n, Some (Inr d))])))"

text \<open>The second loop: the blocks the batch did not serve.\<close>

definition spanRest :: "'w env \<Rightarrow> bool \<Rightarrow> u64 \<times> fetchResult option \<Rightarrow> fetchResult list \<Rightarrow> ('w, fetchResult list) ixM" where
  "spanRest E withReceipts slot acc =
     (case snd slot of
        Some r \<Rightarrow> ok (acc @ [r])
      | None \<Rightarrow> bindE (spanBlock E withReceipts (fst slot)) (\<lambda>r. ok (acc @ [r])))"

definition fetchSpan :: "'w env \<Rightarrow> bool \<Rightarrow> u64 list \<Rightarrow> ('w, fetchResult list) ixM" where
  "fetchSpan E withReceipts numbers =
     bindE (gets (\<lambda>s. withReceipts \<and> \<not> ixNoBlockReceipts s)) (\<lambda>wantReceipts.
       if 1 < length numbers
       then bindE (attempt (withRetry (waitRetry E) (client E (\<lambda>c. ccBlockBundles c numbers wantReceipts))))
         (\<lambda>res. case res of
            Inl e \<Rightarrow> ok (map (\<lambda>n. Inl (Wrap (fetchingBlock n) e)) numbers)
          | Inr (bundles, errs) \<Rightarrow>
              bindE (foldE3 (spanBundle E wantReceipts) numbers bundles errs []) (\<lambda>slots.
                foldE (spanRest E withReceipts) slots []))
       else foldE (spanRest E withReceipts) (map (\<lambda>n. (n, None)) numbers) [])"

fun chunksOf :: "nat \<Rightarrow> 'a list \<Rightarrow> 'a list list" where
  "chunksOf b [] = []"
| "chunksOf b (x # xs) = take (Suc (b - 1)) (x # xs) # chunksOf b (drop (b - 1) xs)"

text \<open>
  The slots of a scan in order, each the position in its span. Before the consumer receives slot
  number \<open>taken\<close> (counted from 1), the workers have completed some of the spans the feeder could
  hand out by then: those whose last slot fits the channel of capacity \<open>2 * workers * batch\<close> beyond
  the slots already taken. \<open>eSchedule\<close> says which; the span of the slot itself is always completed.
\<close>

definition workerCount :: "'w env \<Rightarrow> nat" where
  "workerCount E = nat (max 1 (icConcurrency (eCfg E)))"

definition dispatched :: "'w env \<Rightarrow> u64 list list \<Rightarrow> nat \<Rightarrow> nat \<Rightarrow> bool" where
  "dispatched E spans taken k \<longleftrightarrow> k < length spans \<and>
     length (concat (take (Suc k) spans)) \<le> taken + 2 * workerCount E * batchBlocks E"

type_synonym spanTable = "(nat, fetchResult list) fmap"

definition resolveSpan :: "'w env \<Rightarrow> bool \<Rightarrow> u64 list list \<Rightarrow> nat \<Rightarrow> spanTable \<Rightarrow> ('w, spanTable) ixM" where
  "resolveSpan E withReceipts spans k tab =
     (if k < length spans \<and> fmlookup tab k = None
      then bindE (fetchSpan E withReceipts (spans ! k)) (\<lambda>rs. ok (fmupd k rs tab))
      else ok tab)"

definition schedule :: "'w env \<Rightarrow> ('w, nat list) ixM" where
  "schedule E s = (case eSchedule E (ixWorld s) of (ks, w) \<Rightarrow> (Inr ks, s\<lparr>ixWorld := w\<rparr>))"

definition runWorkers :: "'w env \<Rightarrow> bool \<Rightarrow> u64 list list \<Rightarrow> nat \<Rightarrow> spanTable \<Rightarrow> ('w, spanTable) ixM" where
  "runWorkers E withReceipts spans taken tab =
     bindE (schedule E) (\<lambda>ks. foldE (resolveSpan E withReceipts spans) (filter (dispatched E spans taken) ks) tab)"

definition slotsOf :: "u64 list list \<Rightarrow> (nat \<times> nat) list" where
  "slotsOf spans = concat (map (\<lambda>k. map (Pair k) [0..<length (spans ! k)]) [0..<length spans])"

definition slotResult :: "spanTable \<Rightarrow> nat \<Rightarrow> nat \<Rightarrow> ('s, fetchResult) goM" where
  "slotResult tab k i =
     (case fmlookup tab k of
        None \<Rightarrow> fail (Panic ''empty slot'')
      | Some rs \<Rightarrow> if i < length rs then ok (rs ! i) else fail (Panic ''empty slot''))"

text \<open>The consumer: \<open>body\<close> is handed every result in order, and may stop the loop.\<close>

fun consumeSlots :: "'w env \<Rightarrow> bool \<Rightarrow> u64 list list \<Rightarrow> (fetchResult \<Rightarrow> 'a \<Rightarrow> ('w, 'a \<times> bool) ixM) \<Rightarrow>
    (nat \<times> nat) list \<Rightarrow> nat \<Rightarrow> spanTable \<Rightarrow> 'a \<Rightarrow> ('w, 'a) ixM" where
  "consumeSlots E withReceipts spans body [] taken tab acc s = (Inr acc, s)"
| "consumeSlots E withReceipts spans body ((k, i) # slots) taken tab acc s =
     bindE (runWorkers E withReceipts spans (Suc taken) tab) (\<lambda>tab1.
     bindE (resolveSpan E withReceipts spans k tab1) (\<lambda>tab2.
     bindE (pollCtx E) (\<lambda>_.
     bindE (slotResult tab2 k i) (\<lambda>r.
     bindE (body r acc) (\<lambda>(acc', stop).
       if stop then ok acc' else consumeSlots E withReceipts spans body slots (Suc taken) tab2 acc'))))) s"

definition prefetchBlocks :: "'w env \<Rightarrow> u64 list \<Rightarrow> bool \<Rightarrow> (fetchResult \<Rightarrow> 'a \<Rightarrow> ('w, 'a \<times> bool) ixM) \<Rightarrow> 'a \<Rightarrow> ('w, 'a) ixM" where
  "prefetchBlocks E numbers withReceipts body acc =
     (let spans = chunksOf (batchBlocks E) numbers
      in consumeSlots E withReceipts spans body (slotsOf spans) 0 fmempty acc)"

definition setLastProcessed :: "'w env \<Rightarrow> u64 \<Rightarrow> ('w, unit) ixM" where
  "setLastProcessed E n = bindE (modify (\<lambda>s. s\<lparr>ixLastProcessed := n\<rparr>)) (\<lambda>_. saveState E)"

definition processRange :: "'w env \<Rightarrow> u64 \<Rightarrow> u64 \<Rightarrow> ('w, unit) ixM" where
  "processRange E from to =
     bindE (gets (clientFilterReceipts E)) (\<lambda>withReceipts.
     bindE (returning (numbersUp from to)) (\<lambda>numbers.
     bindE (prefetchBlocks E numbers withReceipts
        (\<lambda>r _. case r of Inl e \<Rightarrow> fail e | Inr d \<Rightarrow> bindE (processBlock E d) (\<lambda>_. ok ((), False))) ()) (\<lambda>_.
     bindE (pollCtx E) (\<lambda>_. setLastProcessed E to))))"

section \<open>Lifecycles\<close>

text \<open>A tracker operation that ranges over the tracked transactions.\<close>

definition trackRange :: "'w env \<Rightarrow> (hash list \<Rightarrow> tracker \<Rightarrow> 'a \<times> tracker) \<Rightarrow> ('w, 'a) ixM" where
  "trackRange E f s = track (f (eTxOrder E (ixWorld s) (ixTracker s))) s"

definition onReorgEmit :: "'w env \<Rightarrow> u64 \<Rightarrow> ('w, unit) ixM" where
  "onReorgEmit E ancestor = bindE (trackRange E (\<lambda>ord. OnReorg (eCodec E) ord ancestor)) (emitAll E)"

record confirmCheck =
  ckHash :: hash
  ckTracked :: hash
  ckReceipt :: "receipt option"
  ckErr :: "goerr option"

fun fillChecks :: "confirmCheck list \<Rightarrow> receipt option list \<Rightarrow> goerr option list \<Rightarrow> ('s, confirmCheck list) goM" where
  "fillChecks [] rs es s = (Inr [], s)"
| "fillChecks (c # cs) (r # rs) (e # es) s =
     bindE (fillChecks cs rs es) (\<lambda>rest. ok (c\<lparr>ckReceipt := r, ckErr := e\<rparr> # rest)) s"
| "fillChecks (c # cs) rs es s = (Inl (Panic ''index out of range''), s)"

definition fetchConfirmReceipts :: "'w env \<Rightarrow> confirmCheck list \<Rightarrow> ('w, confirmCheck list) ixM" where
  "fetchConfirmReceipts E checks =
     (if checks = [] then ok []
      else bindE (attempt (client E (\<lambda>c. ccTransactionReceipts c (map ckHash checks))))
        (\<lambda>res. case res of
           Inl e \<Rightarrow> ok (map (\<lambda>c. c\<lparr>ckErr := Some e\<rparr>) checks)
         | Inr (receipts, errs) \<Rightarrow> fillChecks checks receipts errs))"

definition demoteEmit :: "'w env \<Rightarrow> hash \<Rightarrow> ('w, unit) ixM" where
  "demoteEmit E h = bindE (track (Demote (eCodec E) h)) (emitAll E)"

definition minedAtReceipt :: "'w env \<Rightarrow> hash \<Rightarrow> transferMatch list \<Rightarrow> receipt \<Rightarrow> ('w, unit) ixM" where
  "minedAtReceipt E h transfers rc =
     bindE (gets (\<lambda>s. (confirmationsFor (rcBlockNumber rc) s, tagFinalized E s))) (\<lambda>(conf, fin).
       onMinedEmit E h (rcBlockHash rc) (rcBlockNumber rc) transfers (rcStatus rc = 0) conf fin)"

definition applyCheck :: "'w env \<Rightarrow> u64 \<Rightarrow> confirmCheck \<Rightarrow> ('w, unit) ixM" where
  "applyCheck E headNumber ck =
     (case ckErr ck of
        Some e \<Rightarrow>
          if errIs e NotFound then demoteEmit E (ckHash ck)
          else fail (Wrap (''receipt check for '' @ hashHex (eCodec E) (ckHash ck)) e)
      | None \<Rightarrow>
          bindE (deref (ckReceipt ck)) (\<lambda>rc.
            if rcBlockHash rc \<noteq> ckTracked ck
            then bindE (demoteEmit E (ckHash ck)) (\<lambda>_. minedAtReceipt E (ckHash ck) [] rc)
            else bindE (track (Confirm (eCodec E) (ckHash ck) headNumber)) (emitAll E)))"

definition promotePendingTx :: "'w env \<Rightarrow> hash \<Rightarrow> receipt \<Rightarrow> ('w, unit) ixM" where
  "promotePendingTx E h rc =
     bindE (gets (\<lambda>s. NativeLegs h (ixTracker s))) (\<lambda>native.
       minedAtReceipt E h (native @ List.map_filter (MatchLog (eMatcher E)) (rcLogs rc)) rc)"

definition recheckReceipt :: "'w env \<Rightarrow> hash \<Rightarrow> receipt option \<Rightarrow> goerr option \<Rightarrow> hash list \<Rightarrow> ('w, hash list) ixM" where
  "recheckReceipt E h rc err unmined =
     (case err of
        None \<Rightarrow> bindE (deref rc) (\<lambda>rc. bindE (promotePendingTx E h rc) (\<lambda>_. ok unmined))
      | Some e \<Rightarrow>
          if errIs e NotFound then ok (unmined @ [h])
          else fail (Wrap (''receipt check for pending '' @ hashHex (eCodec E) h) e))"

definition dropStaleEmit :: "'w env \<Rightarrow> hash \<Rightarrow> bool \<Rightarrow> ('w, unit) ixM" where
  "dropStaleEmit E h stillKnown = bindE (track (OnDropStale (eCodec E) h stillKnown)) (emitAll E)"

definition resolveUnmined :: "'w env \<Rightarrow> hash \<Rightarrow> blockTx option \<Rightarrow> goerr option \<Rightarrow> ('w, unit) ixM" where
  "resolveUnmined E h tx err =
     (case err of
        Some e \<Rightarrow>
          if errIs e NotFound then dropStaleEmit E h False
          else fail (Wrap (''stale pending check for '' @ hashHex (eCodec E) h) e)
      | None \<Rightarrow> dropStaleEmit E h True)"

definition recheckPendingTxs :: "'w env \<Rightarrow> hash list \<Rightarrow> ('w, unit) ixM" where
  "recheckPendingTxs E hashes =
     (if hashes = [] then ok ()
      else bindE (wrapErr ''pending recheck batch'' (client E (\<lambda>c. ccTransactionReceipts c hashes))) (\<lambda>(receipts, rerrs).
        bindE (foldE3 (recheckReceipt E) hashes receipts rerrs []) (\<lambda>unmined.
          if unmined = [] then ok ()
          else bindE (wrapErr ''stale pending batch check'' (client E (\<lambda>c. ccTransactionsByHash c unmined)))
            (\<lambda>(txs, terrs). forEach3 (resolveUnmined E) unmined txs terrs))))"

definition checksFor :: "u64 \<Rightarrow> hash list \<Rightarrow> tracker \<Rightarrow> confirmCheck list" where
  "checksFor scanFloor hs t = List.map_filter (\<lambda>h.
     case MinedBlock h t of
       None \<Rightarrow> None
     | Some (trackedBlock, minedAt) \<Rightarrow>
         if minedAt < scanFloor then None
         else Some \<lparr>ckHash = h, ckTracked = trackedBlock, ckReceipt = None, ckErr = None\<rparr>) hs"

definition headFinality :: "'w env \<Rightarrow> ('w, u64) ixM" where
  "headFinality E =
     (if cfTag (icConfirmations (eCfg E)) \<noteq> ''''
      then bindE (finalizedNumber E) (\<lambda>(f, _). ok f) else ok 0)"

definition updateLifecycles :: "'w env \<Rightarrow> u64 \<Rightarrow> u64 \<Rightarrow> ('w, unit) ixM" where
  "updateLifecycles E headNumber scanFloor =
     bindE (headFinality E) (\<lambda>finalized.
     bindE (trackRange E (\<lambda>ord. OnHead ord headNumber finalized)) (\<lambda>(confirm, stale).
     bindE (gets ixRestoredPending) (\<lambda>restored.
     bindE (gets (\<lambda>s. checksFor scanFloor confirm (ixTracker s))) (\<lambda>checks0.
     bindE (fetchConfirmReceipts E checks0) (\<lambda>checks.
     bindE (forEach (applyCheck E headNumber) checks) (\<lambda>_.
     bindE (recheckPendingTxs E (stale @ filter (\<lambda>h. h \<notin> set stale) restored)) (\<lambda>_.
       if restored \<noteq> [] then modify (\<lambda>s. s\<lparr>ixRestoredPending := []\<rparr>) else ok ())))))))"

section \<open>Catching up\<close>

text \<open>
  \<open>eLive\<close> is what the non-blocking select of \<open>drainLiveInner\<close> receives until it finds both
  channels empty.
\<close>

definition drainOne :: "'w env \<Rightarrow> liveInput \<Rightarrow> u64 \<Rightarrow> ('w, u64) ixM" where
  "drainOne E inp highest =
     (case inp of
        LiveMatches ms \<Rightarrow> bindE (track (OnPending (eCodec E) ms)) (\<lambda>evs. bindE (emitAll E evs) (\<lambda>_. ok highest))
      | LiveHead h \<Rightarrow>
          if hdrNumber h \<le> highest then ok highest
          else bindE (processGap E (highest + 1) (hdrNumber h)) (\<lambda>_. ok (hdrNumber h)))"

definition liveInputs :: "'w env \<Rightarrow> ('w, liveInput list) ixM" where
  "liveInputs E s = (case eLive E (ixWorld s) of (is, w) \<Rightarrow> (Inr is, s\<lparr>ixWorld := w\<rparr>))"

definition drainLive :: "'w env \<Rightarrow> u64 \<Rightarrow> ('w, u64) ixM" where
  "drainLive E highest =
     withSource '''' (bindE (liveInputs E) (\<lambda>is. foldE (drainOne E) is highest))"

record catchUpState =
  cuHighest :: u64
  cuLogs :: "(u64, ethLog list) fmap option"
  cuLo :: u64
  cuSize :: u64

text \<open>\<open>time.Unix(int64(t), 0)\<close>, counted from Go's zero time.\<close>

definition unixTime :: "u64 \<Rightarrow> time" where
  "unixTime t = (sint t + 62135596800) * nsPerSec"

text \<open>The range of logs a block without receipts needs, shrinking when the provider rejects it.\<close>

definition refreshChunk :: "'w env \<Rightarrow> u64 \<Rightarrow> u64 \<Rightarrow> blockData \<Rightarrow> catchUpState \<Rightarrow> ('w, catchUpState) ixM" where
  "refreshChunk E from n d cu =
     (if \<not> bdHaveReceipts d \<and> 0 < cuSize cu \<and> (cuLogs cu = None \<or> n < cuLo cu)
      then
        (let lo = (if cuSize cu \<le> n \<and> from < n - cuSize cu + 1 then n - cuSize cu + 1 else from) in
         bindE (attempt (fetchLogsRange E lo n)) (\<lambda>res.
           case res of
             Inl _ \<Rightarrow> ok (cu\<lparr>cuLogs := None, cuSize := (if cuSize cu div 2 < 8 then 0 else cuSize cu div 2)\<rparr>)
           | Inr logs \<Rightarrow> ok (cu\<lparr>cuLogs := Some logs, cuLo := lo\<rparr>)))
      else ok cu)"

definition withChunkLogs :: "catchUpState \<Rightarrow> u64 \<Rightarrow> blockData \<Rightarrow> blockData" where
  "withChunkLogs cu n d =
     (if \<not> bdHaveReceipts d \<and> 0 < cuSize cu
      then (case cuLogs cu of None \<Rightarrow> d | Some logs \<Rightarrow> d\<lparr>bdLogs := getSlice logs n, bdHaveLogs := True\<rparr>)
      else d)"

definition catchUpBlock :: "'w env \<Rightarrow> u64 \<Rightarrow> time \<Rightarrow> fetchResult \<Rightarrow> catchUpState \<Rightarrow> ('w, catchUpState \<times> bool) ixM" where
  "catchUpBlock E from cutoff r cu =
     (case r of
        Inl e \<Rightarrow> fail e
      | Inr d \<Rightarrow>
          let n = bkNumber (bdBlock d) in
          if \<not> isZero cutoff \<and> unixTime (bkTime (bdBlock d)) < cutoff then ok (cu, True)
          else
            bindE (drainLive E (cuHighest cu)) (\<lambda>highest.
            bindE (refreshChunk E from n d (cu\<lparr>cuHighest := highest\<rparr>)) (\<lambda>cu'.
            bindE (processBlock E (withChunkLogs cu' n d)) (\<lambda>_.
            bindE (updateLifecycles E highest n) (\<lambda>_. ok (cu', False))))))"

definition catchUpCutoff :: "'w env \<Rightarrow> ('w, time) ixM" where
  "catchUpCutoff E =
     (if 0 < icMaxCatchupAge (eCfg E) then bindE (clock E) (\<lambda>now. ok (now - icMaxCatchupAge (eCfg E))) else ok 0)"

definition catchUpScan :: "'w env \<Rightarrow> u64 \<Rightarrow> header \<Rightarrow> ('w, u64) ixM" where
  "catchUpScan E from head =
     (let to = hdrNumber head in
      bindE (wrapErr (fetchingBlock to) (fetchBlockData E (hdrHash head))) (\<lambda>headData.
      bindE (processBlock E headData) (\<lambda>_.
      bindE (gets (clientFilterReceipts E)) (\<lambda>withReceipts.
      bindE (catchUpCutoff E) (\<lambda>cutoff.
      bindE (prefetchBlocks E (numbersDown (to - 1) from) withReceipts (catchUpBlock E from cutoff)
           \<lparr>cuHighest = to, cuLogs = None, cuLo = 0, cuSize = initialLogChunk E\<rparr>) (\<lambda>cu.
      bindE (pollCtx E) (\<lambda>_.
      bindE (setLastProcessed E (cuHighest cu)) (\<lambda>_. ok (cuHighest cu)))))))))"

definition catchUp :: "'w env \<Rightarrow> u64 \<Rightarrow> header \<Rightarrow> ('w, u64) ixM" where
  "catchUp E from head = withSource ''catchup'' (catchUpScan E from head)"

section \<open>Reorganisations and new heads\<close>

fun fillRefs :: "u64 list \<Rightarrow> blockHeader option list \<Rightarrow> goerr option list \<Rightarrow> goerr + headRef list" where
  "fillRefs ns [] es = Inr (map (\<lambda>_. noHead) ns)"
| "fillRefs (n # ns) (b # bs) (e # es) =
     (case (if e \<noteq> None then Inr noHead
            else case b of
              None \<Rightarrow> Inl (Panic ''nil pointer dereference'')
            | Some h \<Rightarrow> Inr \<lparr>hrNumber = bhNumber h, hrHash = bhHash h, hrParentHash = bhParentHash h\<rparr>) of
        Inl p \<Rightarrow> Inl p
      | Inr r \<Rightarrow> (case fillRefs ns bs es of Inl p \<Rightarrow> Inl p | Inr rs \<Rightarrow> Inr (r # rs)))"
| "fillRefs ns (b # bs) es = Inl (Panic ''index out of range'')"

definition headerRefsByNumbers :: "'w chainClient \<Rightarrow> 'w headerFetcher" where
  "headerRefsByNumbers c numbers w =
     (case ccHeaderRefsByNumbers c numbers w of
        (Inl e, w') \<Rightarrow> (Inl e, w')
      | (Inr (blocks, berrs), w') \<Rightarrow>
          (case fillRefs numbers blocks berrs of Inl p \<Rightarrow> Inl p | Inr hs \<Rightarrow> Inr (hs, berrs), w'))"

definition handleReorg :: "'w env \<Rightarrow> u64 \<Rightarrow> ('w, unit) ixM" where
  "handleReorg E headNumber =
     bindE (gets ixChain) (\<lambda>chain.
     bindE (wrapErr ''walking back reorg'' (world (findAncestor (headerRefsByNumbers (eClient E)) chain
         (case tip chain of None \<Rightarrow> headNumber
          | Some t \<Rightarrow> if hrNumber t < headNumber then hrNumber t else headNumber)))) (\<lambda>(ancestor, deep).
     bindE (onReorgEmit E ancestor) (\<lambda>_.
     bindE (modify (\<lambda>s. s\<lparr>ixLastProcessed := ancestor\<rparr>)) (\<lambda>_.
     bindE (processRange E (ancestor + 1) headNumber) (\<lambda>_.
       modify (\<lambda>s. s\<lparr>ixChain := resetTip (ixChain s) headNumber\<rparr>))))))"

definition headKindOf :: "header \<Rightarrow> 'w indexer \<Rightarrow> headKind" where
  "headKindOf head s =
     (let kind = classify (ixChain s) head in
      if kind = headExtend \<and> 0 < ixLastProcessed s \<and> ixLastProcessed s + 1 < hdrNumber head then headGap else kind)"

definition onHead :: "'w env \<Rightarrow> header \<Rightarrow> ('w, unit) ixM" where
  "onHead E head =
     (let num = hdrNumber head in
      bindE (gets (headKindOf head)) (\<lambda>kind.
        case kind of
          headStale \<Rightarrow> ok ()
        | headExtend \<Rightarrow>
            bindE (wrapErr (fetchingBlock num) (fetchBlockData E (hdrHash head))) (\<lambda>d.
            bindE (processBlock E d) (\<lambda>_.
            bindE (setLastProcessed E num) (\<lambda>_. updateLifecycles E num 0)))
        | headGap \<Rightarrow>
            bindE (gets (\<lambda>s. ixLastProcessed s + 1)) (\<lambda>from.
            bindE (catchUp E from head) (\<lambda>highest. updateLifecycles E highest 0))
        | headReorg \<Rightarrow>
            bindE (handleReorg E num) (\<lambda>_. updateLifecycles E num 0)))"

end
