(* ===== verification/IndexerRun.thy ===== *)
theory IndexerRun
  imports Indexer
begin

text \<open>
  The whole indexer drives the tracker as the tracker requires. What is asked of the outside: a
  loop over a map visits every key once (\<open>ordersOK\<close>), the receipt of a transaction carries the logs
  of that transaction (\<open>receiptsOK\<close>), and the pending watcher hands over the legs of one
  transaction at a time (\<open>liveOK\<close>). Nothing is asked of what the node, the store or the sink answer
  otherwise, nor of the order in which the prefetch workers complete.
\<close>

definition ordersOK :: "'w env \<Rightarrow> bool" where
  "ordersOK E \<longleftrightarrow> (\<forall>w t. rangeOrder (eTxOrder E w t) (trTxs t))"

definition receiptsOK :: "'w env \<Rightarrow> bool" where
  "receiptsOK E \<longleftrightarrow> (\<forall>hs w rs es w' h rc. ccTransactionReceipts (eClient E) hs w = (Inr (rs, es), w') \<and>
     (h, Some rc) \<in> set (zip hs rs) \<longrightarrow> (\<forall>lg \<in> set (rcLogs rc). lgTxHash lg = h))"

definition oneTx :: "transferMatch list \<Rightarrow> bool" where
  "oneTx ms \<longleftrightarrow> (\<forall>m \<in> set ms. mTxHash m = mTxHash (hd ms))"

definition liveOK :: "'w env \<Rightarrow> bool" where
  "liveOK E \<longleftrightarrow> (\<forall>w ms. LiveMatches ms \<in> set (fst (eLive E w)) \<longrightarrow> oneTx ms)"

lemma wrapped_result:
  "wrapErr msg (client E call) s = (Inr x, s') \<Longrightarrow> \<exists>w'. call (eClient E) (ixWorld s) = (Inr x, w')"
  by (cases "call (eClient E) (ixWorld s)"; cases "fst (call (eClient E) (ixWorld s))")
    (auto simp: wrapErr_def attempt_def bindE_def client_def world_def split: if_splits)

lemma NativeLegs_own: "trackerInv t \<Longrightarrow> x \<in> set (NativeLegs h t) \<Longrightarrow> mTxHash x = h"
  using trackerInv_tx [of t h] by (cases "fmlookup (trTxs t) h") (auto simp: NativeLegs_def txOK_def)

section \<open>Steps of indexer.go\<close>

context indexer_relation
begin

lemma frame_poll: "frame.within (pollCtx E)" and frame_live: "frame.within (liveInputs E)"
    and frame_schedule: "frame.within (schedule E)"
proof -
  have "steady same s (snd (pollCtx E s))" for s
    using quiet_steps(3) [of "ixWorld s"] by (simp add: pollCtx_def steady_def split_def split: option.split)
  moreover have "steady same s (snd (liveInputs E s))" "steady same s (snd (schedule E s))" for s
    using quiet_steps(4,5) [of "ixWorld s"] by (simp_all add: liveInputs_def schedule_def steady_def split_def)
  ultimately show "frame.within (pollCtx E)" "frame.within (liveInputs E)" "frame.within (schedule E)"
    by (simp_all add: frame.within_def)
qed

lemma frame_saveState: "frame.within (saveState E)"
proof -
  have "steady same s (snd (saveState E s))" for s
  proof (cases "eStore E")
    case None
    then show ?thesis by (simp add: saveState_def frame.rel_refl)
  next
    case (Some st)
    have "frame.within (bindE (attempt (world (soSaveIndexerState st n x))) (\<lambda>res.
        case res of Inl e \<Rightarrow> logError E msg (as e) | Inr _ \<Rightarrow> ok ()))" for n x msg as
      by (intro frame.within_rules frame_world frame_error quiet_progress [OF Some])
    then show ?thesis by (auto simp: saveState_def Some frame.within_def frame.rel_refl split: option.split)
  qed
  then show ?thesis by (simp add: frame.within_def)
qed

lemma walkBack_keeps:
  assumes "\<And>ns w. same w (snd (fetch ns w))"
  shows "same w (snd (walkBack fetch c fl n chunk locals w))"
proof -
  have chunk: "same w w'" if "checkChunk fetch ns ls w = (r, w')" for ns ls w r w'
    using that assms [of w ns] by (auto simp: checkChunk_def split: prod.splits sum.splits)
  show ?thesis
  proof (induction "unat n" arbitrary: n chunk locals w rule: less_induct)
    case less
    have IH: "same w' (snd (walkBack fetch c fl (n - 1) ns ls w'))" if "fl < n" for ns ls w'
      using that by (intro less) (auto simp: u64_pred word_less_nat_alt)
    have step: "same w (snd (case checkChunk fetch ns ls w of (Inl e, w') \<Rightarrow> (Inl e, w')
        | (Inr (Some a), w') \<Rightarrow> (Inr (a, False), w') | (Inr None, w') \<Rightarrow> k w'))"
      if "\<And>w'. same w' (snd (k w'))" for ns ls k and w :: 'w
    proof -
      obtain r w' where r: "checkChunk fetch ns ls w = (r, w')" by (cases "checkChunk fetch ns ls w")
      from same_trans [OF chunk [OF r] that] show ?thesis using r chunk [OF r]
        by (auto split: sum.split option.split)
    qed
    show ?case by (subst walkBack.simps) (simp add: Let_def same_refl IH step)
  qed
qed

lemma within_walk: "within (world (findAncestor (headerRefsByNumbers (eClient E)) c n))"
proof -
  have "same w (snd (headerRefsByNumbers (eClient E) ns w))" for ns w
  proof -
    have "same w (snd (ccHeaderRefsByNumbers (eClient E) ns w))"
      using quiet_client by (simp add: quietClient_def keeps_def)
    then show ?thesis by (auto simp: headerRefsByNumbers_def split: prod.splits sum.splits)
  qed
  from walkBack_keeps [OF this] show ?thesis
    by (intro within_world) (simp add: keeps_def findAncestor_def)
qed

lemma within_source: "within fn \<Longrightarrow> within (withSource src fn)"
proof -
  assume fn: "within fn"
  have "R s (snd (withSource src fn s))" for s
  proof -
    obtain r s' where f: "fn (s\<lparr>ixLogSource := src\<rparr>) = (r, s')" by (cases "fn (s\<lparr>ixLogSource := src\<rparr>)")
    have mark: "R s0 (s0\<lparr>ixLogSource := src\<rparr>)" for s0 src
      by (rule steady_rel) (simp add: steady_def same_refl)
    from rel_trans [OF rel_trans [OF mark within_run [OF fn f]] mark] show ?thesis by (simp add: withSource_def f)
  qed
  then show ?thesis by (simp add: within_def)
qed

lemma within_wrap: "within m \<Longrightarrow> within (wrapErr msg m)"
  unfolding wrapErr_def by (intro step0_rules)

lemma within_returning: "within (returning r)"
  unfolding returning_def by (intro step0_rules)

lemma within_finalized: "within (finalizedNumber E)"
  unfolding finalizedNumber_def Let_def by (intro step0_rules within_steady) simp_all

lemma within_bundleData: "within (bundleData E b)"
  unfolding bundleData_def by (intro step0_rules)

lemma within_fetchBundle: "within (fetchBundle E key)"
  unfolding fetchBundle_def by (intro step0_rules within_bundleData)

lemma within_setLast: "within (setLastProcessed E n)"
  unfolding setLastProcessed_def by (intro step0_rules within_steady frame_saveState [THEN within_frame]) simp_all

lemmas step_rules = step0_rules frame_poll [THEN within_frame] frame_schedule [THEN within_frame]
  frame_live [THEN within_frame] within_source within_wrap within_returning
  within_finalized within_bundleData within_fetchBundle frame_saveState [THEN within_frame] within_setLast within_processBlock within_nonce

section \<open>Prefetching\<close>

lemma within_fetchSpan: "within (fetchSpan E wr ns)"
  unfolding fetchSpan_def spanBundle_def spanRest_def spanBlock_def by (intro step_rules)

lemma within_resolveSpan: "within (resolveSpan E wr spans k tab)"
  unfolding resolveSpan_def by (intro step_rules within_fetchSpan)

lemma within_consume:
  assumes "\<And>r acc. within (body r acc)"
  shows "within (consumeSlots E wr spans body slots taken tab acc)"
proof (induction slots arbitrary: taken tab acc)
  case Nil
  then show ?case by (simp add: within_def rel_refl)
next
  case (Cons sl slots)
  obtain k i where sl: "sl = (k, i)" by (cases sl)
  have "consumeSlots E wr spans body (sl # slots) taken tab acc =
     bindE (runWorkers E wr spans (Suc taken) tab) (\<lambda>tab1.
     bindE (resolveSpan E wr spans k tab1) (\<lambda>tab2.
     bindE (pollCtx E) (\<lambda>_.
     bindE (slotResult tab2 k i) (\<lambda>r.
     bindE (body r acc) (\<lambda>(acc', stop).
       if stop then ok acc' else consumeSlots E wr spans body slots (Suc taken) tab2 acc')))))"
    by (rule ext) (simp add: sl)
  moreover have "within \<dots>"
    unfolding runWorkers_def slotResult_def by (intro step_rules within_resolveSpan assms Cons)
  ultimately show ?case by simp
qed

lemma within_prefetch: "(\<And>r acc. within (body r acc)) \<Longrightarrow> within (prefetchBlocks E ns wr body acc)"
  unfolding prefetchBlocks_def Let_def by (rule within_consume)

lemma within_processGap: "within (processGap E lo hi)"
  unfolding processGap_def gapBatch_def gapBlock_def by (intro step_rules)

lemma within_processRange: "within (processRange E lo hi)"
  unfolding processRange_def by (intro step_rules within_prefetch)

section \<open>Lifecycles\<close>

lemma within_ranged:
  assumes "ordersOK E" and "\<And>ord t. trackerOpOK (op ord) t \<longleftrightarrow> rangeOrder ord (trTxs t)"
    and "\<And>ord t. f ord t = trackerExec (eCodec E) (op ord) t"
  shows "within (bindE (trackRange E f) (emitAll E))"
proof -
  have "R s (snd (bindE (trackRange E f) (emitAll E) s))" for s
  proof -
    let ?ord = "eTxOrder E (ixWorld s) (ixTracker s)"
    have "f ?ord = trackerExec (eCodec E) (op ?ord)" by (rule ext) (rule assms(3))
    moreover have "trackerOpOK (op ?ord) (ixTracker s)" using assms(1,2) by (simp add: ordersOK_def)
    ultimately show ?thesis using emitted_rel [of "op ?ord" s] by (simp add: bindE_def trackRange_def)
  qed
  then show ?thesis by (simp add: within_def)
qed

lemma within_OnReorg: "ordersOK E \<Longrightarrow> within (onReorgEmit E a)"
  unfolding onReorgEmit_def by (rule within_ranged [where op = "\<lambda>ord. opReorg ord a"]) simp_all

lemma within_OnHead: "ordersOK E \<Longrightarrow> within (trackRange E (\<lambda>ord. OnHead ord n fin))"
  using silent_rel [of "opHead (eTxOrder E (ixWorld s) (ixTracker s)) n fin" s for s]
  by (simp add: within_def trackRange_def track_def split_def ordersOK_def)

lemma within_ops: "within (bindE (track (Demote (eCodec E) h)) (emitAll E))"
  "within (bindE (track (Confirm (eCodec E) h n)) (emitAll E))"
  "within (bindE (track (OnDropStale (eCodec E) h b)) (emitAll E))"
  by (rule within_emitted [of "opDemote h"] within_emitted [of "opConfirm h n"] within_emitted [of "opDropStale h b"]; simp)+

lemma within_minedAt: "\<forall>x \<in> set ms. mTxHash x = h \<Longrightarrow> within (minedAtReceipt E h ms rc)"
  unfolding minedAtReceipt_def by (intro step_rules within_onMinedEmit)

lemma within_applyCheck: "within (applyCheck E n ck)"
  unfolding applyCheck_def demoteEmit_def by (intro step_rules within_ops within_minedAt) simp

lemma within_promote:
  assumes "\<forall>lg \<in> set (rcLogs rc). lgTxHash lg = h"
  shows "within (promotePendingTx E h rc)"
  unfolding promotePendingTx_def
proof (rule within_gets_bind)
  fix s :: "'w indexer"
  let ?legs = "NativeLegs h (ixTracker s) @ List.map_filter (MatchLog (eMatcher E)) (rcLogs rc)"
  have log: "x \<in> set (List.map_filter (MatchLog (eMatcher E)) (rcLogs rc)) \<Longrightarrow> mTxHash x = h" for x
    using assms MatchLog_hash [of "eMatcher E"] by (fastforce simp: List.map_filter_def)
  have "R s (snd (minedAtReceipt E h ?legs rc s))" if "trackerInv (ixTracker s)"
    using within_minedAt [of ?legs h rc] NativeLegs_own [OF that] log unfolding within_def by auto
  then show "R s (snd (minedAtReceipt E h ?legs rc s))"
    by (rule inv_rel)
qed

lemma within_recheck:
  assumes "receiptsOK E"
  shows "within (recheckPendingTxs E hs)"
proof -
  let ?rest = "\<lambda>(receipts, rerrs). bindE (foldE3 (recheckReceipt E) hs receipts rerrs []) (\<lambda>unmined.
      if unmined = [] then ok ()
      else bindE (wrapErr ''stale pending batch check'' (client E (\<lambda>c. ccTransactionsByHash c unmined)))
        (\<lambda>(txs, terrs). forEach3 (resolveUnmined E) unmined txs terrs))"
  have rest: "within (?rest (rs, es))"
    if logs: "\<And>h rc. (h, Some rc) \<in> set (zip hs rs) \<Longrightarrow> \<forall>lg \<in> set (rcLogs rc). lgTxHash lg = h" for rs es
  proof -
    have "within (recheckReceipt E h r e b)" if r: "(h, r) \<in> set (zip hs rs)" for h r e b
    proof (cases r)
      case None
      then show ?thesis unfolding recheckReceipt_def by (auto intro!: step_rules split: option.splits)
    next
      case (Some rc)
      then show ?thesis using logs [of h rc] r unfolding recheckReceipt_def
        by (auto intro!: step_rules within_promote split: option.splits)
    qed
    then show ?thesis unfolding prod.case resolveUnmined_def dropStaleEmit_def
      by (intro step_rules within_ops within_foldE3_zip)
  qed
  have "within (?rest x)"
    if run: "wrapErr ''pending recheck batch'' (client E (\<lambda>c. ccTransactionReceipts c hs)) s = (Inr x, s')" for s x s'
  proof -
    obtain rs es where x: "x = (rs, es)" by (cases x)
    obtain w' where "ccTransactionReceipts (eClient E) hs (ixWorld s) = (Inr (rs, es), w')"
      using wrapped_result [OF run] x by blast
    then show ?thesis unfolding x using assms by (intro rest) (auto simp: receiptsOK_def)
  qed
  then have "within (bindE (wrapErr ''pending recheck batch'' (client E (\<lambda>c. ccTransactionReceipts c hs))) ?rest)"
    by (rule within_bind_result [OF within_wrap [OF within_frame [OF frame_clients(7)]]])
  then show ?thesis unfolding recheckPendingTxs_def by (intro within_if within_ok)
qed

lemma within_fillChecks: "within (fillChecks cs rs es :: ('w, confirmCheck list) ixM)"
proof (induction cs arbitrary: rs es)
  case Nil
  then show ?case by (simp add: within_def rel_refl)
next
  case (Cons ck cs)
  have "within (bindE (fillChecks cs rs' es') (\<lambda>rest. ok (ck\<lparr>ckReceipt := r, ckErr := e\<rparr> # rest)) :: ('w, confirmCheck list) ixM)" for r e rs' es'
    by (rule within_bind, rule Cons, rule within_ok)
  moreover have "fillChecks (ck # cs) (r # rs') (e # es') =
      bindE (fillChecks cs rs' es') (\<lambda>rest. ok (ck\<lparr>ckReceipt := r, ckErr := e\<rparr> # rest))" for r e rs' es'
    by (rule ext) simp
  ultimately show ?case by (cases rs; cases es) (auto simp: within_def rel_refl)
qed

lemma within_updateLifecycles:
  assumes "ordersOK E" and "receiptsOK E"
  shows "within (updateLifecycles E n fl)"
  unfolding updateLifecycles_def headFinality_def fetchConfirmReceipts_def
  by (intro step_rules within_OnHead within_applyCheck within_recheck within_fillChecks within_steady assms) simp_all

section \<open>Heads\<close>

lemma within_OnPending: "oneTx ms \<Longrightarrow> within (bindE (track (OnPending (eCodec E) ms)) (emitAll E))"
  by (rule within_emitted [of "opPending ms"]) (simp_all add: oneTx_def)

lemma within_drainLive:
  assumes "liveOK E"
  shows "within (drainLive E highest)"
  unfolding drainLive_def
proof (intro within_source within_bind_result frame_live [THEN within_frame])
  fix s and inps :: "liveInput list" and s'
  assume "liveInputs E s = (Inr inps, s')"
  then have ms: "\<forall>ms. LiveMatches ms \<in> set inps \<longrightarrow> oneTx ms"
    using assms by (auto simp: liveInputs_def liveOK_def split: prod.splits) (metis fst_conv)
  then show "within (foldE (drainOne E) inps highest)"
  proof (induction inps arbitrary: highest)
    case Nil
    then show ?case by (simp add: within_def rel_refl)
  next
    case (Cons inp inps)
    have "within (drainOne E inp b)" for b
      using Cons.prems unfolding drainOne_def
      by (cases inp) (auto simp: bindE_assoc [symmetric] intro!: step_rules within_OnPending within_processGap)
    moreover have "foldE (drainOne E) (inp # inps) highest = bindE (drainOne E inp highest) (foldE (drainOne E) inps)"
      by (rule ext) simp
    ultimately show ?case using Cons by (auto intro!: within_bind)
  qed
qed

lemma within_catchUp:
  assumes "ordersOK E" and "receiptsOK E" and "liveOK E"
  shows "within (catchUp E from head)"
proof -
  have log: "within (fetchLogsRange E lo n)" for lo n
    unfolding fetchLogsRange_def by (intro step_rules within_filter)
  have "within (catchUpBlock E from cut r cu)" for cut r cu
    unfolding catchUpBlock_def refreshChunk_def Let_def
    by (intro step_rules within_drainLive within_updateLifecycles log assms)
  then show ?thesis
    unfolding catchUp_def catchUpScan_def catchUpCutoff_def Let_def fetchBlockData_def
    by (intro step_rules within_prefetch)
qed

lemma within_handleReorg:
  assumes "ordersOK E"
  shows "within (handleReorg E n)"
proof -
  have "within (modify (\<lambda>s. s\<lparr>ixChain := resetTip (ixChain s) n\<rparr>))"
    by (intro within_modify chain_rel chainInv_resetTip)
  then show ?thesis unfolding handleReorg_def
    by (intro step_rules within_walk within_OnReorg within_processRange assms) (assumption | rule within_steady, simp)+
qed

lemma within_onHead:
  assumes "ordersOK E" and "receiptsOK E" and "liveOK E"
  shows "within (onHead E h)"
  unfolding onHead_def Let_def fetchBlockData_def
proof (rule within_bind [OF within_gets])
  fix kind
  show "within (case kind of
      headExtend \<Rightarrow> bindE (wrapErr (fetchingBlock (hdrNumber h)) (fetchBundle E (Inl (hdrHash h)))) (\<lambda>d.
        bindE (processBlock E d) (\<lambda>_. bindE (setLastProcessed E (hdrNumber h)) (\<lambda>_. updateLifecycles E (hdrNumber h) 0)))
    | headGap \<Rightarrow> bindE (gets (\<lambda>s. ixLastProcessed s + 1)) (\<lambda>from. bindE (catchUp E from h) (\<lambda>highest. updateLifecycles E highest 0))
    | headReorg \<Rightarrow> bindE (handleReorg E (hdrNumber h)) (\<lambda>_. updateLifecycles E (hdrNumber h) 0)
    | headStale \<Rightarrow> ok ())"
    by (cases kind) (auto intro!: step_rules within_updateLifecycles within_catchUp within_handleReorg assms)
qed

end

end
