(* ===== verification/Session.thy ===== *)
theory Session
  imports IndexerRun
begin

text \<open>
  The connection lifecycle of internal/indexer/indexer.go: \<open>runSession\<close> checks the node and
  dispatches what the subscriptions deliver, \<open>Run\<close> restarts sessions with exponential backoff. What
  the selects of a session receive, in order, is a script; a script that ends leaves the session
  running.
\<close>

section \<open>A session\<close>

datatype sessionInput =
    InLive liveInput
  | InHeadErr goerr
  | InPendingDone "goerr option"
  | InCtxDone goerr

record sessionScript =
  snDialErr :: "goerr option"
  snSubscribeErr :: "goerr option"
  snInputs :: "sessionInput list"

definition onInput :: "'w env \<Rightarrow> sessionInput \<Rightarrow> ('w, unit) ixM" where
  "onInput E inp =
     (case inp of
        InCtxDone e \<Rightarrow> fail e
      | InHeadErr e \<Rightarrow> fail (Wrap ''head subscription'' e)
      | InPendingDone None \<Rightarrow> ok ()
      | InPendingDone (Some e) \<Rightarrow> fail (Wrap ''pending subscription'' e)
      | InLive (LiveMatches ms) \<Rightarrow> bindE (track (OnPending (eCodec E) ms)) (emitAll E)
      | InLive (LiveHead h) \<Rightarrow> onHead E h)"

definition checkChain :: "'w env \<Rightarrow> ('w, unit) ixM" where
  "checkChain E =
     bindE (wrapErr ''fetching chain id'' (client E ccChainID)) (\<lambda>chainID.
       if 0 \<le> chainID \<and> chainID < 2 ^ 64 \<and> word_of_int chainID = icChainID (eCfg E) then ok ()
       else fail (Wrap ''config and node disagree'' ChainMismatch))"

definition verifyTag :: "'w env \<Rightarrow> ('w, unit) ixM" where
  "verifyTag E =
     bindE (gets ixTagVerified) (\<lambda>verified.
       if cfTag (icConfirmations (eCfg E)) = '''' \<or> verified then ok ()
       else bindE (attempt (client E (\<lambda>c. ccBlockNumberByTag c (cfTag (icConfirmations (eCfg E)))))) (\<lambda>res.
         case res of
           Inl _ \<Rightarrow> fail (Wrap ''node cannot resolve the tag'' FinalityTag)
         | Inr num \<Rightarrow>
             bindE (modify (\<lambda>s. s\<lparr>ixTagVerified := True, ixFinalizedNum := num\<rparr>)) (\<lambda>_.
             bindE (clock E) (\<lambda>now. modify (\<lambda>s. s\<lparr>ixFinalizedAt := now\<rparr>)))))"

definition checkScript :: "string \<Rightarrow> goerr option \<Rightarrow> ('w, unit) ixM" where
  "checkScript msg err = (case err of None \<Rightarrow> ok () | Some e \<Rightarrow> fail (Wrap msg e))"

definition dispatch :: "'w env \<Rightarrow> sessionInput list \<Rightarrow> ('w, unit) ixM" where
  "dispatch E inputs = forEach (onInput E) inputs"

definition runSession :: "'w env \<Rightarrow> sessionScript \<Rightarrow> ('w, unit) ixM" where
  "runSession E sn =
     bindE (checkScript ''dialing'' (snDialErr sn)) (\<lambda>_.
     bindE (checkChain E) (\<lambda>_.
     bindE (verifyTag E) (\<lambda>_.
     bindE (checkScript ''subscribing to new heads'' (snSubscribeErr sn)) (\<lambda>_.
       dispatch E (snInputs sn)))))"

section \<open>Run\<close>

definition backoffMin :: duration where
  "backoffMin = nsPerSec"

definition backoffMax :: duration where
  "backoffMax = 30 * nsPerSec"

definition healthyUptime :: duration where
  "healthyUptime = 60 * nsPerSec"

definition configError :: "goerr \<Rightarrow> bool" where
  "configError e \<longleftrightarrow> errIs e ChainMismatch \<or> errIs e FinalityTag"

definition ctxErr :: "'w env \<Rightarrow> ('w, goerr option) ixM" where
  "ctxErr E s = (case eCtx E (ixWorld s) of (r, w) \<Rightarrow> (Inr r, s\<lparr>ixWorld := w\<rparr>))"

definition shutdown :: "'w env \<Rightarrow> ('w, unit) ixM" where
  "shutdown E = saveState E"

text \<open>
  The result is whether \<open>Run\<close> has returned nil; an error is the error it returns. The last line of
  a round waits out the backoff, or the end of the context.
\<close>

fun runLoop :: "'w env \<Rightarrow> sessionScript list \<Rightarrow> duration \<Rightarrow> ('w, bool) ixM" where
  "runLoop E [] backoff s = (Inr False, s)"
| "runLoop E (sn # sns) backoff s =
     bindE (clock E) (\<lambda>start.
     bindE (attempt (runSession E sn)) (\<lambda>res.
       case res of
         Inr _ \<Rightarrow> ok False
       | Inl err \<Rightarrow>
           bindE (ctxErr E) (\<lambda>stopped.
             if stopped \<noteq> None then bindE (shutdown E) (\<lambda>_. ok True)
             else if configError err then fail (Wrap (''indexer '' @ icName (eCfg E)) err)
             else bindE (clock E) (\<lambda>now.
               let b = (if healthyUptime \<le> now - start then backoffMin else backoff) in
               bindE (ctxErr E) (\<lambda>ended.
                 if ended \<noteq> None then bindE (shutdown E) (\<lambda>_. ok True)
                 else runLoop E sns (min (b * 2) backoffMax)))))) s"

definition runIndexer :: "'w env \<Rightarrow> sessionScript list \<Rightarrow> ('w, bool) ixM" where
  "runIndexer E sns =
     bindE (wrapErr (''indexer '' @ icName (eCfg E) @ '': restoring state'') (restore E)) (\<lambda>_. runLoop E sns backoffMin)"

definition newIndexer :: "'w env \<Rightarrow> (nat \<Rightarrow> time) \<Rightarrow> 'w \<Rightarrow> 'w indexer" where
  "newIndexer E clk w =
     \<lparr>ixTracker = NewTracker (icConfirmations (eCfg E)) (icPendingTimeout (eCfg E)) clk,
      ixChain = newChainState (RingDepth (icConfirmations (eCfg E))), ixLastProcessed = 0, ixLogSource = '''',
      ixRestoredPending = [], ixRestoredTx = [], ixNoBlockReceipts = False, ixFinalizedNum = 0, ixFinalizedAt = 0,
      ixTagVerified = False, ixWorld = w\<rparr>"

section \<open>Sessions drive the tracker\<close>

definition scriptOK :: "sessionScript \<Rightarrow> bool" where
  "scriptOK sn \<longleftrightarrow> (\<forall>ms. InLive (LiveMatches ms) \<in> set (snInputs sn) \<longrightarrow> oneTx ms)"

context indexer_relation
begin

lemma within_ctxErr: "within (ctxErr E)"
proof -
  have "frame.within (ctxErr E)"
    using quiet_steps(3) by (simp add: frame.within_def ctxErr_def steady_def split_def)
  then show ?thesis by (rule within_frame)
qed

lemma within_onInput:
  assumes "ordersOK E" and "receiptsOK E" and "liveOK E" and "\<forall>ms. inp = InLive (LiveMatches ms) \<longrightarrow> oneTx ms"
  shows "within (onInput E inp)"
  using assms unfolding onInput_def
  by (auto intro!: step_rules within_OnPending within_onHead split: sessionInput.splits liveInput.splits option.splits)

lemma within_runSession:
  assumes "ordersOK E" and "receiptsOK E" and "liveOK E" and "scriptOK sn"
  shows "within (runSession E sn)"
proof -
  have "within (dispatch E (snInputs sn))"
    unfolding dispatch_def using assms by (intro within_forEach within_onInput) (auto simp: scriptOK_def)
  then show ?thesis
    unfolding runSession_def checkScript_def checkChain_def verifyTag_def
    by (intro step_rules) (assumption | rule within_steady, simp)+
qed

lemma within_runLoop:
  assumes "ordersOK E" and "receiptsOK E" and "liveOK E" and "\<forall>sn \<in> set sns. scriptOK sn"
  shows "within (runLoop E sns backoff)"
  using assms(4)
proof (induction sns arbitrary: backoff)
  case Nil
  then show ?case by (simp add: within_def rel_refl)
next
  case (Cons sn sns)
  have "runLoop E (sn # sns) backoff =
     bindE (clock E) (\<lambda>start.
     bindE (attempt (runSession E sn)) (\<lambda>res.
       case res of
         Inr _ \<Rightarrow> ok False
       | Inl err \<Rightarrow>
           bindE (ctxErr E) (\<lambda>stopped.
             if stopped \<noteq> None then bindE (shutdown E) (\<lambda>_. ok True)
             else if configError err then fail (Wrap (''indexer '' @ icName (eCfg E)) err)
             else bindE (clock E) (\<lambda>now.
               let b = (if healthyUptime \<le> now - start then backoffMin else backoff) in
               bindE (ctxErr E) (\<lambda>ended.
                 if ended \<noteq> None then bindE (shutdown E) (\<lambda>_. ok True)
                 else runLoop E sns (min (b * 2) backoffMax))))))"
    by (rule ext) (simp only: runLoop.simps)
  moreover have "within \<dots>"
    unfolding Let_def shutdown_def using Cons by (intro step_rules within_ctxErr within_runSession assms) auto
  ultimately show ?case by simp
qed

end

section \<open>A concrete environment\<close>

text \<open>For the witnesses: a small node, a sink that keeps the events, no store.\<close>

definition demoConfig :: indexerConfig where
  "demoConfig = \<lparr>icName = ''demo'', icChainID = 1, icRPCURL = ''ws://node'', icHTTPRPCURL = ''http://node'',
     icConfirmations = \<lparr>cfDepth = 2, cfTag = ''''\<rparr>, icPendingTimeout = 100, icNativeSymbol = ''ETH'',
     icConcurrency = 2, icBatchBlocks = 3, icMaxCatchupAge = 0, icTokens = [], icTokenList = []\<rparr>"

definition demoEnv :: "event list env" where
  "demoEnv = \<lparr>eCfg = demoConfig, eCodec = decimalCodec, eMatcher = demoMatcher, eTokenOrder = [], eWatchedOrder = [],
     eClient = rpcClient demoTransport, eSink = Some (\<lambda>ev w. (None, w @ [ev])), eStore = None, eResume = False,
     eFullEventLogs = False, eLogLine = (\<lambda>_ _ w. w), eNow = (\<lambda>w. (1000, w)), eWait = (\<lambda>w. (None, w)),
     eTxOrder = (\<lambda>_ t. sorted_list_of_fset (fmdom (trTxs t))), eCtx = (\<lambda>w. (None, w)), eLive = (\<lambda>w. ([], w)),
     eSchedule = (\<lambda>w. ([1, 0], w))\<rparr>"

lemma sorted_orders: "(\<And>w t. eTxOrder E w t = sorted_list_of_fset (fmdom (trTxs t))) \<Longrightarrow> ordersOK E"
  by (simp add: ordersOK_def rangeOrder_def fmdom'_alt_def sorted_list_of_fset.rep_eq)

lemma demoTransport_receipts:
  assumes "eClient E = rpcClient demoTransport"
  shows "receiptsOK E"
  unfolding receiptsOK_def
proof (intro allI impI, elim conjE)
  fix hs w rs es w' h rc
  assume "ccTransactionReceipts (eClient E) hs w = (Inr (rs, es), w')"
  then have "set rs \<subseteq> {None}"
    by (auto simp: assms rpcClient_def TransactionReceipts_def pointerBatch_def bindE_def wire_def demoTransport_def)
  moreover assume "(h, Some rc) \<in> set (zip hs rs)"
  ultimately have False by (auto dest: set_zip_rightD)
  then show "\<forall>lg \<in> set (rcLogs rc). lgTxHash lg = h" ..
qed

lemma demoEnv_orders: "ordersOK demoEnv" and demoEnv_receipts: "receiptsOK demoEnv"
  by (simp_all add: sorted_orders demoTransport_receipts demoEnv_def)

lemma demoEnv_live: "liveOK demoEnv"
  by (simp add: liveOK_def demoEnv_def)

end
