(* ===== verification/Pending.thy ===== *)
theory Pending
  imports Session "HOL-Library.Sublist" "HOL-Library.Multiset"
begin

text \<open>
  internal/indexer/pending.go: the watcher of pending transactions. It runs beside the dispatch
  goroutine and only sends lists of matches to it; what a function sends is its result. Whether a
  send or the end of the context wins a select is asked of the environment. The worker pool behind
  the hash subscription is a step relation, in which the workers interleave: a hash arrives, a worker
  takes a hash, takes one more, looks its burst up, sends what it found, the drop counter is reported.
\<close>

section \<open>The mempool snapshot\<close>

fun sendAll :: "'w env \<Rightarrow> transferMatch list list \<Rightarrow> ('w, transferMatch list list) goM" where
  "sendAll E [] w = (Inr [], w)"
| "sendAll E (ms # mss) w =
     (case eCtx E w of
        (Some e, w') \<Rightarrow> (Inr [], w')
      | (None, w') \<Rightarrow> bindE (sendAll E mss) (\<lambda>rest. ok (ms # rest)) w')"

definition matchesOf :: "matcher \<Rightarrow> blockTx list \<Rightarrow> transferMatch list list" where
  "matchesOf m txs = filter (\<lambda>ms. ms \<noteq> []) (map (MatchBlockTx m) txs)"

text \<open>The flag is \<open>mempoolSnapshot\<close>; it is set before anything else happens.\<close>

definition loadMempool :: "'w env \<Rightarrow> bool \<Rightarrow> ('w, transferMatch list list \<times> bool) goM" where
  "loadMempool E loaded =
     (if loaded then ok ([], True)
      else bindE (attempt (ccTxPoolStatus (eClient E))) (\<lambda>status.
        case status of
          Inl _ \<Rightarrow> ok ([], True)
        | Inr _ \<Rightarrow> bindE (attempt (ccTxPoolContent (eClient E))) (\<lambda>content.
            case content of
              Inl _ \<Rightarrow> ok ([], True)
            | Inr txs \<Rightarrow> bindE (sendAll E (matchesOf (eMatcher E) txs)) (\<lambda>sent. ok (sent, True)))))"

section \<open>Full transactions\<close>

text \<open>What the select receives: a transaction (with whether its matches could still be sent), the
  error of the subscription, the end of the context.\<close>

datatype txInput = TxIn "ethTx option" bool | TxSubErr "goerr option" | TxCtxDone

text \<open>The matches sent, and what the function returned if it did.\<close>

fun consumePendingTxs :: "(ethTx \<Rightarrow> goerr + address) \<Rightarrow> matcher \<Rightarrow> txInput list \<Rightarrow>
    transferMatch list list \<times> goerr option option" where
  "consumePendingTxs Sender m [] = ([], None)"
| "consumePendingTxs Sender m (TxCtxDone # is) = ([], Some None)"
| "consumePendingTxs Sender m (TxSubErr e # is) = ([], Some e)"
| "consumePendingTxs Sender m (TxIn None sent # is) = consumePendingTxs Sender m is"
| "consumePendingTxs Sender m (TxIn (Some tx) sent # is) =
     (let ms = MatchTx Sender m tx in
      if ms = [] then consumePendingTxs Sender m is
      else if sent then (case consumePendingTxs Sender m is of (out, r) \<Rightarrow> (ms # out, r))
      else ([], Some None))"

section \<open>Hashes\<close>

definition pendingHashBuffer :: nat where
  "pendingHashBuffer = 4096"

definition pendingLookupBatch :: nat where
  "pendingLookupBatch = 16"

text \<open>The loop of \<open>lookupBatch\<close>: which matches it emits.\<close>

fun lookupMatches :: "matcher \<Rightarrow> hash list \<Rightarrow> blockTx option list \<Rightarrow> goerr option list \<Rightarrow> ('s, transferMatch list list) goM" where
  "lookupMatches m [] txs errs s = (Inr [], s)"
| "lookupMatches m (h # hs) (tx # txs) (e # errs) s =
     (if e \<noteq> None then lookupMatches m hs txs errs s
      else bindE (deref tx) (\<lambda>tx. bindE (lookupMatches m hs txs errs) (\<lambda>rest.
        ok (if MatchBlockTx m tx \<noteq> [] then MatchBlockTx m tx # rest else rest))) s)"
| "lookupMatches m (h # hs) txs errs s = (Inl (Panic ''index out of range''), s)"

text \<open>What a lookup has to emit; the sends are steps of their own.\<close>

definition lookupBatch :: "'w env \<Rightarrow> hash list \<Rightarrow> ('w, transferMatch list list) goM" where
  "lookupBatch E hashes =
     bindE (attempt (ccTransactionsByHash (eClient E) hashes)) (\<lambda>res.
       case res of
         Inl _ \<Rightarrow> ok []
       | Inr (txs, errs) \<Rightarrow> lookupMatches (eMatcher E) hashes txs errs)"

text \<open>
  A worker waits for a hash, drains the queue into its burst, looks the burst up, sends the matches one by
  one, or has returned.
\<close>

datatype hashWorker = HashIdle | Draining "hash list" | Looking "hash list" | Sending "transferMatch list list" | HashGone

record hashWatch =
  hwQueue :: "hash list"
  hwDropped :: u64
  hwReported :: nat
  hwWorkers :: "hashWorker list"
  hwOut :: "transferMatch list list"

definition hashStart :: "'w env \<Rightarrow> hashWatch" where
  "hashStart E = \<lparr>hwQueue = [], hwDropped = 0, hwReported = 0, hwWorkers = replicate (workerCount E) HashIdle, hwOut = []\<rparr>"

definition hashArrives :: "hash \<Rightarrow> hashWatch \<Rightarrow> hashWatch" where
  "hashArrives h hw =
     (if length (hwQueue hw) < pendingHashBuffer then hw\<lparr>hwQueue := hwQueue hw @ [h]\<rparr>
      else hw\<lparr>hwDropped := hwDropped hw + 1\<rparr>)"

definition reportDropped :: "hashWatch \<Rightarrow> hashWatch" where
  "reportDropped hw =
     (if 0 < hwDropped hw then hw\<lparr>hwReported := hwReported hw + unat (hwDropped hw), hwDropped := 0\<rparr> else hw)"

definition setWorker :: "nat \<Rightarrow> hashWorker \<Rightarrow> hashWatch \<Rightarrow> hashWatch" where
  "setWorker i st hw = hw\<lparr>hwWorkers := (hwWorkers hw)[i := st]\<rparr>"

text \<open>
  Worker \<open>i\<close> moves. The drain goes on as long as the queue has a hash and the burst has room; a worker that
  waits or sends may see the end of the context instead.
\<close>

inductive hashStep :: "nat \<Rightarrow> hashWatch \<Rightarrow> hashWatch \<Rightarrow> bool" where
  takes: "hwWorkers hw ! i = HashIdle \<Longrightarrow> hwQueue hw = h # q \<Longrightarrow>
     hashStep i hw (setWorker i (Draining [h]) (hw\<lparr>hwQueue := q\<rparr>))"
| more: "hwWorkers hw ! i = Draining hs \<Longrightarrow> length hs < pendingLookupBatch \<Longrightarrow> hwQueue hw = h # q \<Longrightarrow>
     hashStep i hw (setWorker i (Draining (hs @ [h])) (hw\<lparr>hwQueue := q\<rparr>))"
| drained: "hwWorkers hw ! i = Draining hs \<Longrightarrow> pendingLookupBatch \<le> length hs \<or> hwQueue hw = [] \<Longrightarrow>
     hashStep i hw (setWorker i (Looking hs) hw)"
| sends: "hwWorkers hw ! i = Sending (ms # mss) \<Longrightarrow>
     hashStep i hw (setWorker i (Sending mss) (hw\<lparr>hwOut := hwOut hw @ [ms]\<rparr>))"
| sentAll: "hwWorkers hw ! i = Sending [] \<Longrightarrow> hashStep i hw (setWorker i HashIdle hw)"
| stops: "hwWorkers hw ! i = HashIdle \<or> hwWorkers hw ! i = Sending (ms # mss) \<Longrightarrow> hashStep i hw (setWorker i HashGone hw)"

text \<open>
  The runs of the watcher, with the hashes that have arrived and the lookups its workers have made, as
  an observer of the world sees them: \<open>seen\<close> are the requests answered so far, each with its
  hashes and its answer. Everything else in the world may change at any time.
\<close>

type_synonym lookups = "(hash list \<times> (goerr + blockTx option list \<times> goerr option list)) list"

inductive hashRun :: "'w env \<Rightarrow> ('w \<Rightarrow> lookups) \<Rightarrow> hash list \<Rightarrow> lookups \<Rightarrow> hashWatch \<Rightarrow> 'w \<Rightarrow> bool" for E seen where
  start: "hashRun E seen [] [] (hashStart E) w"
| arrive: "hashRun E seen arrived asked hw w \<Longrightarrow> hashRun E seen (arrived @ [h]) asked (hashArrives h hw) w"
| report: "hashRun E seen arrived asked hw w \<Longrightarrow> hashRun E seen arrived asked (reportDropped hw) w"
| worker: "hashRun E seen arrived asked hw w \<Longrightarrow> i < length (hwWorkers hw) \<Longrightarrow> hashStep i hw hw' \<Longrightarrow>
     hashRun E seen arrived asked hw' w"
| look: "hashRun E seen arrived asked hw w \<Longrightarrow> i < length (hwWorkers hw) \<Longrightarrow> hwWorkers hw ! i = Looking hs \<Longrightarrow>
     lookupBatch E hs w = (Inr mss, w') \<Longrightarrow>
     hashRun E seen arrived (asked @ drop (length (seen w)) (seen w')) (setWorker i (Sending mss) hw) w'"
| other: "hashRun E seen arrived asked hw w \<Longrightarrow> hashRun E seen arrived asked hw w'"

section \<open>What reaches the dispatcher\<close>

lemma MatchBlockTx_oneTx: "oneTx (MatchBlockTx m tx)"
proof (cases "MatchBlockTx m tx")
  case (Cons x xs)
  then have "mTxHash (hd (MatchBlockTx m tx)) = btHash tx" by (intro matched_hash [of _ m]) simp
  then show ?thesis using matched_hash by (simp add: oneTx_def)
qed (simp add: oneTx_def)

lemma MatchTx_oneTx: "oneTx (MatchTx Sender m tx)"
proof (cases "etTo tx")
  case (Some a)
  show ?thesis
  proof (cases "Sender tx")
    case (Inr s)
    have "MatchTx Sender m tx = MatchBlockTx m \<lparr>btHash = etHash tx, btFrom = s, btTo = etTo tx,
        btValue = Some (etValue tx), btInput = etData tx, btNonce = etNonce tx\<rparr>"
      using Inr by (simp add: MatchTx_def MatchBlockTx_def Let_def split: option.splits)
    then show ?thesis by (simp add: MatchBlockTx_oneTx)
  qed (simp add: MatchTx_def Some oneTx_def)
qed (simp add: MatchTx_def oneTx_def)

definition goodBatch :: "transferMatch list \<Rightarrow> bool" where
  "goodBatch ms \<longleftrightarrow> ms \<noteq> [] \<and> oneTx ms"

lemma sendAll_prefix: "sendAll E mss w = (Inr out, w') \<Longrightarrow> prefix out mss"
proof (induction mss arbitrary: w out w')
  case (Cons ms mss)
  then show ?case by (auto simp: bindE_Inr split: prod.splits option.splits)
qed simp

lemma sendAll_ok: "\<exists>out w'. sendAll E mss w = (Inr out, w')"
proof (induction mss arbitrary: w)
  case (Cons ms mss)
  show ?case
  proof (cases "eCtx E w")
    case (Pair c w1)
    obtain out w' where "sendAll E mss w1 = (Inr out, w')" using Cons by blast
    then show ?thesis using Pair by (cases c) (auto simp: bindE_def)
  qed
qed simp

lemma sendAll_good: "\<forall>ms \<in> set mss. goodBatch ms \<Longrightarrow> yields (\<lambda>out. \<forall>ms \<in> set out. goodBatch ms) (sendAll E mss)"
  using sendAll_prefix unfolding yields_def by (meson set_mono_prefix subsetD)

lemma lookupMatches_good:
  "yields (\<lambda>out. \<forall>ms \<in> set out. goodBatch ms) (lookupMatches m hs txs errs :: ('s, transferMatch list list) goM)"
proof (induction hs arbitrary: txs errs)
  case (Cons h hs)
  have step: "yields (\<lambda>out. \<forall>ms \<in> set out. goodBatch ms) (bindE (deref tx) (\<lambda>tx. bindE (lookupMatches m hs txs errs) (\<lambda>rest.
        ok (if MatchBlockTx m tx \<noteq> [] then MatchBlockTx m tx # rest else rest))) :: ('s, transferMatch list list) goM)" for tx txs errs
    by (rule yields_after, rule yields_bind [OF Cons]) (auto intro!: yields_ok simp: goodBatch_def MatchBlockTx_oneTx)
  show ?case
    using Cons step unfolding yields_def by (cases txs; cases errs) auto
qed (simp add: yields_def)

lemma lookupBatch_good: "yields (\<lambda>out. \<forall>ms \<in> set out. goodBatch ms) (lookupBatch E hs)"
  unfolding lookupBatch_def
  by (intro yields_after yields_sum yields_prod yields_ok lookupMatches_good) auto

fun workerGood :: "hashWorker \<Rightarrow> bool" where
  "workerGood (Sending mss) \<longleftrightarrow> (\<forall>ms \<in> set mss. goodBatch ms)"
| "workerGood st \<longleftrightarrow> True"

lemma setWorker_fields [simp]:
  "hwWorkers (setWorker i st hw) = (hwWorkers hw)[i := st]" "hwQueue (setWorker i st hw) = hwQueue hw"
  "hwOut (setWorker i st hw) = hwOut hw" "hwDropped (setWorker i st hw) = hwDropped hw" "hwReported (setWorker i st hw) = hwReported hw"
  by (simp_all add: setWorker_def)

lemma all_update: "\<forall>x \<in> set xs. P x \<Longrightarrow> P y \<Longrightarrow> \<forall>x \<in> set (xs[i := y]). P x"
  using set_update_subset_insert [of xs i y] by blast

lemma hashRun_good:
  "hashRun E seen arrived asked hw w \<Longrightarrow> (\<forall>ms \<in> set (hwOut hw). goodBatch ms) \<and> (\<forall>st \<in> set (hwWorkers hw). workerGood st)"
proof (induction rule: hashRun.induct)
  case (worker arrived asked hw w i hw')
  note out = conjunct1 [OF worker.IH] and all = conjunct2 [OF worker.IH]
  have at: "workerGood (hwWorkers hw ! i)" using all worker.hyps(2) by simp
  from worker.hyps(3) have "\<exists>st. hwWorkers hw' = (hwWorkers hw)[i := st] \<and> workerGood st \<and> (\<forall>ms \<in> set (hwOut hw'). goodBatch ms)"
    using at out by cases auto
  then show ?case using all_update [OF all] by metis
next
  case (look arrived asked hw w i hs mss w')
  have "workerGood (Sending mss)" using yields_run [OF lookupBatch_good look.hyps(4)] by simp
  then show ?case using look.IH all_update [of "hwWorkers hw" workerGood "Sending mss" i] by simp
qed (auto simp: hashStart_def hashArrives_def reportDropped_def)

section \<open>Accounting\<close>

text \<open>The hashes and the matches a worker has in hand.\<close>

fun burst :: "hashWorker \<Rightarrow> hash list" where
  "burst (Draining hs) = hs"
| "burst (Looking hs) = hs"
| "burst st = []"

fun unsent :: "hashWorker \<Rightarrow> transferMatch list list" where
  "unsent (Sending mss) = mss"
| "unsent st = []"

text \<open>What a lookup is to give, by its answer: the matches of the transactions that the node knows.\<close>

definition answered :: "matcher \<Rightarrow> hash list \<times> (goerr + blockTx option list \<times> goerr option list) \<Rightarrow> transferMatch list list" where
  "answered m lookup =
     (case snd lookup of
        Inl _ \<Rightarrow> []
      | Inr (txs, errs) \<Rightarrow> filter (\<lambda>ms. ms \<noteq> []) (map (\<lambda>(h, tx, e). MatchBlockTx m (the tx))
          (filter (\<lambda>(h, tx, e). e = None) (zip (fst lookup) (zip txs errs)))))"

definition observes :: "'w chainClient \<Rightarrow> ('w \<Rightarrow> lookups) \<Rightarrow> bool" where
  "observes c seen \<longleftrightarrow> (\<forall>hs w r w'. ccTransactionsByHash c hs w = (r, w') \<longrightarrow> seen w' = seen w @ [(hs, r)])"

lemma lookupMatches_answered: "lookupMatches m hs txs errs s = (Inr mss, s') \<Longrightarrow> mss = answered m (hs, Inr (txs, errs)) \<and> s' = s"
proof (induction m hs txs errs s arbitrary: mss s' rule: lookupMatches.induct)
  case (2 m h hs tx txs e errs s)
  show ?case
  proof (cases e)
    case None
    then obtain t rest where t: "tx = Some t" "lookupMatches m hs txs errs s = (Inr rest, s')"
      "mss = (if MatchBlockTx m t \<noteq> [] then MatchBlockTx m t # rest else rest)"
      using "2.prems" by (cases tx) (auto simp: bindE_Inr)
    then have "rest = answered m (hs, Inr (txs, errs)) \<and> s' = s" using "2.IH"(2) None by simp
    then show ?thesis using t None by (simp add: answered_def)
  next
    case (Some err)
    then show ?thesis using 2 by (simp add: answered_def)
  qed
qed (simp_all add: answered_def)

lemma lookupBatch_answered:
  assumes "observes (eClient E) seen" and "lookupBatch E hs w = (Inr mss, w')"
  shows "\<exists>r. seen w' = seen w @ [(hs, r)] \<and> mss = answered (eMatcher E) (hs, r)"
proof -
  obtain r w1 where call: "ccTransactionsByHash (eClient E) hs w = (r, w1)" by (cases "ccTransactionsByHash (eClient E) hs w")
  have seen: "seen w1 = seen w @ [(hs, r)]" using assms(1) call unfolding observes_def by blast
  show ?thesis
  proof (cases r)
    case (Inl e)
    then have "mss = []" "w' = w1" using assms(2) call by (auto simp: lookupBatch_def bindE_def attempt_def split: if_splits)
    then show ?thesis using seen Inl by (simp add: answered_def)
  next
    case (Inr y)
    obtain txs errs where y: "y = (txs, errs)" by (cases y)
    have "lookupMatches (eMatcher E) hs txs errs w1 = (Inr mss, w')"
      using assms(2) call Inr y by (simp add: lookupBatch_def bindE_def attempt_def)
    then have "mss = answered (eMatcher E) (hs, r) \<and> w' = w1" unfolding Inr y by (rule lookupMatches_answered)
    then show ?thesis using seen by simp
  qed
qed

definition inHand :: "hashWatch \<Rightarrow> hash list" where
  "inHand hw = hwQueue hw @ concat (map burst (hwWorkers hw))"

definition accounted :: "hash list \<Rightarrow> lookups \<Rightarrow> hashWatch \<Rightarrow> bool" where
  "accounted arrived asked hw \<longleftrightarrow>
     mset (inHand hw @ concat (map fst asked)) \<subseteq># mset arrived \<and>
     length arrived = length (inHand hw @ concat (map fst asked)) + unat (hwDropped hw) + hwReported hw \<and>
     length (hwQueue hw) \<le> pendingHashBuffer"

definition burstsOK :: "lookups \<Rightarrow> hashWatch \<Rightarrow> bool" where
  "burstsOK asked hw \<longleftrightarrow> (\<forall>hs \<in> set (map fst asked). hs \<noteq> [] \<and> length hs \<le> pendingLookupBatch) \<and>
     (\<forall>hs. Draining hs \<in> set (hwWorkers hw) \<or> Looking hs \<in> set (hwWorkers hw) \<longrightarrow> hs \<noteq> [] \<and> length hs \<le> pendingLookupBatch)"

definition matched :: "matcher \<Rightarrow> lookups \<Rightarrow> hashWatch \<Rightarrow> bool" where
  "matched m asked hw \<longleftrightarrow>
     mset (hwOut hw @ concat (map unsent (hwWorkers hw))) \<subseteq># mset (concat (map (answered m) asked)) \<and>
     (HashGone \<notin> set (hwWorkers hw) \<longrightarrow>
        mset (hwOut hw @ concat (map unsent (hwWorkers hw))) = mset (concat (map (answered m) asked)))"

lemma concat_update:
  "i < length ws \<Longrightarrow> mset (concat (map f (ws[i := st]))) + mset (f (ws ! i)) = mset (concat (map f ws)) + mset (f st)"
  by (induction ws arbitrary: i) (auto simp: ac_simps nth_Cons split: nat.splits)

lemma consumePendingTxs_good: "ms \<in> set (fst (consumePendingTxs Sender m is)) \<Longrightarrow> goodBatch ms"
  by (induction Sender m "is" rule: consumePendingTxs.induct)
    (auto simp: Let_def goodBatch_def MatchTx_oneTx split: if_splits prod.splits)

lemma loadMempool_good:
  "yields (\<lambda>(out, flag). flag \<and> (loaded \<longrightarrow> out = []) \<and> (\<forall>ms \<in> set out. goodBatch ms)) (loadMempool E loaded)"
  unfolding loadMempool_def
  by (intro yields_if yields_after yields_sum yields_ok yields_bind [OF sendAll_good])
    (auto simp: matchesOf_def goodBatch_def MatchBlockTx_oneTx)

lemma accounted_step:
  assumes "hashStep i hw hw'" and "i < length (hwWorkers hw)" and "accounted arrived asked hw"
  shows "accounted arrived asked hw'"
proof -
  have cons: "mset (inHand hw') = mset (inHand hw)"
    using assms(1)
  proof cases
    case (takes h q)
    then show ?thesis using concat_update [OF assms(2), of burst "Draining [h]"] by (simp add: inHand_def)
  next
    case (more hs h q)
    have "mset (concat (map burst ((hwWorkers hw)[i := Draining (hs @ [h])]))) + mset hs =
        mset (concat (map burst (hwWorkers hw))) + {#h#} + mset hs"
      using concat_update [OF assms(2), of burst "Draining (hs @ [h])"] more(2) by (simp add: ac_simps)
    then have "mset (concat (map burst ((hwWorkers hw)[i := Draining (hs @ [h])]))) = mset (concat (map burst (hwWorkers hw))) + {#h#}"
      by (rule add_right_imp_eq)
    then show ?thesis using more(1,4) by (simp add: inHand_def)
  next
    case (drained hs)
    then show ?thesis using concat_update [OF assms(2), of burst "Looking hs"] by (simp add: inHand_def)
  next
    case (sends ms mss)
    then show ?thesis using concat_update [OF assms(2), of burst "Sending mss"] by (simp add: inHand_def)
  next
    case sentAll
    then show ?thesis using concat_update [OF assms(2), of burst HashIdle] by (simp add: inHand_def)
  next
    case (stops ms mss)
    then show ?thesis using concat_update [OF assms(2), of burst HashGone] by (auto simp: inHand_def)
  qed
  moreover have "length (hwQueue hw') \<le> length (hwQueue hw)" "hwDropped hw' = hwDropped hw" "hwReported hw' = hwReported hw"
    using assms(1) by (auto elim!: hashStep.cases)
  moreover have "length (inHand hw') = length (inHand hw)" using cons by (metis size_mset)
  ultimately show ?thesis using assms(3) unfolding accounted_def by simp
qed

lemma accounted_look:
  assumes "hwWorkers hw ! i = Looking hs" and "i < length (hwWorkers hw)" and "accounted arrived asked hw"
  shows "accounted arrived (asked @ [(hs, r)]) (setWorker i (Sending mss) hw)"
proof -
  have cons: "mset (inHand (setWorker i (Sending mss) hw)) + mset hs = mset (inHand hw)"
    using concat_update [OF assms(2), of burst "Sending mss"] assms(1) by (simp add: inHand_def)
  then have "length (inHand (setWorker i (Sending mss) hw)) + length hs = length (inHand hw)" by (metis size_mset size_union)
  then show ?thesis using assms(3) cons [symmetric] unfolding accounted_def by (simp add: ac_simps)
qed

lemma accounted_arrive:
  assumes "accounted arrived asked hw" and "unat (hwDropped hw + 1) = unat (hwDropped hw) + 1"
  shows "accounted (arrived @ [h]) asked (hashArrives h hw)"
proof (cases "length (hwQueue hw) < pendingHashBuffer")
  case True
  then show ?thesis using assms(1) by (simp add: accounted_def hashArrives_def inHand_def)
next
  case False
  have "mset (inHand hw @ concat (map fst asked)) \<subseteq># mset arrived + {#h#}"
    using assms(1) unfolding accounted_def by (meson mset_subset_eq_add_left subset_mset.order_trans)
  then show ?thesis using False assms by (simp add: accounted_def hashArrives_def inHand_def)
qed

lemma bursts_step: "hashStep i hw hw' \<Longrightarrow> i < length (hwWorkers hw) \<Longrightarrow> burstsOK asked hw \<Longrightarrow> burstsOK asked hw'"
proof -
  assume st: "hashStep i hw hw'" and i: "i < length (hwWorkers hw)" and B: "burstsOK asked hw"
  have at: "hwWorkers hw ! i = Draining hs \<or> hwWorkers hw ! i = Looking hs \<Longrightarrow> hs \<noteq> [] \<and> length hs \<le> pendingLookupBatch" for hs
    using B i nth_mem [OF i] unfolding burstsOK_def by metis
  have upd: "st \<in> set ((hwWorkers hw)[i := st']) \<Longrightarrow> st = st' \<or> st \<in> set (hwWorkers hw)" for st st'
    using set_update_subset_insert [of "hwWorkers hw" i st'] by blast
  show "burstsOK asked hw'" using st
  proof cases
    case (takes h q)
    then show ?thesis using B upd by (fastforce simp: burstsOK_def pendingLookupBatch_def)
  next
    case (more hs h q)
    then show ?thesis using B upd at [of hs] by (fastforce simp: burstsOK_def)
  next
    case (drained hs)
    then show ?thesis using B upd at [of hs] by (fastforce simp: burstsOK_def)
  qed (use B upd in \<open>fastforce simp: burstsOK_def\<close>)+
qed

lemma bursts_look:
  assumes "hwWorkers hw ! i = Looking hs" and "i < length (hwWorkers hw)" and "burstsOK asked hw"
  shows "burstsOK (asked @ [(hs, r)]) (setWorker i (Sending mss) hw)"
proof -
  have "Looking hs \<in> set (hwWorkers hw)" using assms(1,2) nth_mem by metis
  then show ?thesis using assms(3) set_update_subset_insert [of "hwWorkers hw" i "Sending mss"]
    by (fastforce simp: burstsOK_def)
qed

lemma gone_stays:
  assumes "ws ! i \<noteq> HashGone" and "HashGone \<in> set ws"
  shows "HashGone \<in> set (ws[i := st])"
proof -
  obtain j where j: "j < length ws" "ws ! j = HashGone" using assms(2) by (auto simp: in_set_conv_nth)
  then have "ws[i := st] ! j = HashGone" using assms(1) by (cases "j = i") simp_all
  then show ?thesis using j(1) by (metis length_list_update nth_mem)
qed

lemma matched_move:
  assumes "mset (hwOut hw' @ concat (map unsent (hwWorkers hw'))) = mset (hwOut hw @ concat (map unsent (hwWorkers hw)))"
    and "hwWorkers hw' = (hwWorkers hw)[i := st]" and "hwWorkers hw ! i \<noteq> HashGone" and "matched m asked hw"
  shows "matched m asked hw'"
  using assms(1,4) gone_stays [OF assms(3)] unfolding matched_def assms(2) by metis

lemma unsent_same: "unsent st = unsent (ws ! i) \<Longrightarrow> map unsent (ws[i := st]) = map unsent ws"
  by (cases "i < length ws") (simp_all add: map_update list_update_same_conv list_update_beyond)

lemma matched_quiet:
  assumes "hwWorkers hw' = (hwWorkers hw)[i := st]" and "hwOut hw' = hwOut hw" and "unsent st = unsent (hwWorkers hw ! i)"
    and "hwWorkers hw ! i \<noteq> HashGone" and "matched m asked hw"
  shows "matched m asked hw'"
  using assms(1,4,5) by (intro matched_move [of hw' hw i st]) (simp_all add: assms(1,2) unsent_same [OF assms(3)])

lemma matched_step:
  assumes "hashStep i hw hw'" and "i < length (hwWorkers hw)" and "matched m asked hw"
  shows "matched m asked hw'"
  using assms(1)
proof cases
  case (stops ms mss)
  have "mset (concat (map unsent ((hwWorkers hw)[i := HashGone]))) \<subseteq># mset (concat (map unsent (hwWorkers hw)))"
    using concat_update [OF assms(2), of unsent HashGone] by (metis add.right_neutral mset.simps(1) mset_subset_eq_add_left unsent.simps(5))
  then have "mset (hwOut hw' @ concat (map unsent (hwWorkers hw'))) \<subseteq># mset (hwOut hw @ concat (map unsent (hwWorkers hw)))"
    using stops(1) by simp
  moreover have "HashGone \<in> set (hwWorkers hw')" using stops(1) assms(2) by (simp add: set_update_memI)
  ultimately show ?thesis using assms(3) by (auto simp: matched_def intro: subset_mset.order_trans)
next
  case (sends ms mss)
  have "mset (concat (map unsent ((hwWorkers hw)[i := Sending mss]))) + {#ms#} + mset mss = mset (concat (map unsent (hwWorkers hw))) + mset mss"
    using concat_update [OF assms(2), of unsent "Sending mss"] sends(2) by (simp add: ac_simps)
  then have "mset (concat (map unsent ((hwWorkers hw)[i := Sending mss]))) + {#ms#} = mset (concat (map unsent (hwWorkers hw)))"
    by (rule add_right_imp_eq)
  then have "mset (hwOut hw' @ concat (map unsent (hwWorkers hw'))) = mset (hwOut hw @ concat (map unsent (hwWorkers hw)))"
    using sends(1) by (simp add: ac_simps)
  then show ?thesis by (rule matched_move [of _ _ i "Sending mss"]) (simp_all add: sends(1,2) assms(3))
next
  case (takes h q)
  show ?thesis by (rule matched_quiet [of _ hw i "Draining [h]"]) (use takes assms(3) in simp_all)
next
  case (more hs h q)
  show ?thesis by (rule matched_quiet [of _ hw i "Draining (hs @ [h])"]) (use more assms(3) in simp_all)
next
  case (drained hs)
  show ?thesis by (rule matched_quiet [of _ hw i "Looking hs"]) (use drained assms(3) in simp_all)
next
  case sentAll
  show ?thesis by (rule matched_quiet [of _ hw i HashIdle]) (use sentAll assms(3) in simp_all)
qed

lemma matched_look:
  assumes "hwWorkers hw ! i = Looking hs" and "i < length (hwWorkers hw)" and "matched m asked hw" and "mss = answered m (hs, r)"
  shows "matched m (asked @ [(hs, r)]) (setWorker i (Sending mss) hw)"
proof -
  have "mset (concat (map unsent ((hwWorkers hw)[i := Sending mss]))) = mset (concat (map unsent (hwWorkers hw))) + mset mss"
    using concat_update [OF assms(2), of unsent "Sending mss"] assms(1) by simp
  moreover have "HashGone \<in> set (hwWorkers hw) \<Longrightarrow> HashGone \<in> set ((hwWorkers hw)[i := Sending mss])"
    using gone_stays [of "hwWorkers hw" i] assms(1) by simp
  ultimately show ?thesis using assms(3,4) unfolding matched_def by (auto simp: add.assoc [symmetric])
qed

lemma hashRun_accounted:
  assumes "hashRun E seen arrived asked hw w" and "length arrived < 2 ^ 64" and "observes (eClient E) seen"
  shows "accounted arrived asked hw \<and> burstsOK asked hw \<and> matched (eMatcher E) asked hw"
  using assms(1,2)
proof (induction rule: hashRun.induct)
  case (start w)
  have "concat (map f (replicate k HashIdle)) = []" if "f HashIdle = []" for f :: "hashWorker \<Rightarrow> 'x list" and k
    using that by (induction k) simp_all
  then show ?case by (auto simp: accounted_def inHand_def burstsOK_def matched_def hashStart_def)
next
  case (arrive arrived asked hw w h)
  then have IH: "accounted arrived asked hw" "burstsOK asked hw" "matched (eMatcher E) asked hw" by simp_all
  have "unat (hwDropped hw + 1) = unat (hwDropped hw) + 1"
  proof -
    have "unat (hwDropped hw) + unat (1 :: u64) < 18446744073709551616" using IH(1) arrive.prems by (simp add: accounted_def)
    then show ?thesis by (simp add: u64_add)
  qed
  then have "accounted (arrived @ [h]) asked (hashArrives h hw)" by (rule accounted_arrive [OF IH(1)])
  then show ?case using IH by (auto simp: hashArrives_def burstsOK_def matched_def)
next
  case (report arrived asked hw w)
  then show ?case by (auto simp: reportDropped_def accounted_def inHand_def burstsOK_def matched_def)
next
  case (worker arrived asked hw w i hw')
  then show ?case using accounted_step bursts_step matched_step by blast
next
  case (look arrived asked hw w i hs mss w')
  obtain r where "seen w' = seen w @ [(hs, r)]" "mss = answered (eMatcher E) (hs, r)"
    using lookupBatch_answered [OF assms(3) look.hyps(4)] by blast
  then show ?case
    using look.IH [OF look.prems] accounted_look [OF look.hyps(3,2)] bursts_look [OF look.hyps(3,2)] matched_look [OF look.hyps(3,2)]
    by simp
qed

section \<open>Property\<close>

text \<open>
  C22: every hash notification is accounted for, in every run of the hash watcher with any interleaving
  of its workers. Of the hashes that arrived, as many times as they arrived, each is still queued, in
  the burst of a worker, or was asked of the node, once; the rest is exactly what the drop counter and
  the reported metric count. The queue holds at most 4096 hashes and a request asks for one to 16. What
  reaches the dispatcher, with what the workers still have to send, are matches that the answers of
  the node gave, each once, and all of them as long as no worker has seen the context end; a request
  that fails gives none, so the hashes of its burst are given up, which no counter shows. Everything sent is a
  non-empty list of legs of one transaction, which is what the tracker's \<open>OnPending\<close> asks for.
\<close>

theorem pending_hashes_accounted:
  assumes "hashRun E seen arrived asked hw w" and "length arrived < 2 ^ 64" and "observes (eClient E) seen"
  shows "let held = hwQueue hw @ concat (map burst (hwWorkers hw)) @ concat (map fst asked);
      sent = hwOut hw @ concat (map unsent (hwWorkers hw)); found = concat (map (answered (eMatcher E)) asked) in
    mset held \<subseteq># mset arrived \<and> length arrived = length held + unat (hwDropped hw) + hwReported hw \<and>
    length (hwQueue hw) \<le> 4096 \<and> (\<forall>hs \<in> set (map fst asked). 1 \<le> length hs \<and> length hs \<le> 16) \<and>
    mset sent \<subseteq># mset found \<and> (HashGone \<notin> set (hwWorkers hw) \<longrightarrow> mset sent = mset found) \<and>
    (\<forall>ms \<in> set (hwOut hw). ms \<noteq> [] \<and> (\<forall>m \<in> set ms. mTxHash m = mTxHash (hd ms)))"
proof -
  note inv = hashRun_accounted [OF assms]
  have "\<forall>ms \<in> set (hwOut hw). ms \<noteq> [] \<and> (\<forall>m \<in> set ms. mTxHash m = mTxHash (hd ms))"
    using hashRun_good [OF assms(1)] unfolding goodBatch_def oneTx_def by blast
  moreover have "\<forall>hs \<in> set (map fst asked). 1 \<le> length hs \<and> length hs \<le> 16"
    using inv unfolding burstsOK_def pendingLookupBatch_def by (metis One_nat_def Suc_leI length_greater_0_conv)
  ultimately show ?thesis
    using inv unfolding Let_def accounted_def inHand_def matched_def pendingHashBuffer_def append_assoc by blast
qed

text \<open>
  Two hashes arrive, one worker takes both and looks them up at a node that knows the first; the node
  keeps the requests it has answered.
\<close>

definition knownTx :: blockTx where
  "knownTx = \<lparr>btHash = 5, btFrom = 7, btTo = Some 8, btValue = Some 3, btInput = [], btNonce = 0\<rparr>"

definition lookupAnswer :: "hash list \<Rightarrow> goerr + blockTx option list \<times> goerr option list" where
  "lookupAnswer hs = Inr (map (\<lambda>h. if h = 5 then Some knownTx else None) hs, map (\<lambda>h. if h = 5 then None else Some NotFound) hs)"

definition watchEnv :: "lookups env" where
  "watchEnv = \<lparr>eCfg = demoConfig, eCodec = decimalCodec, eMatcher = demoMatcher, eTokenOrder = [], eWatchedOrder = [],
     eClient = (rpcClient demoTransport)\<lparr>ccTransactionsByHash := (\<lambda>hs w. (lookupAnswer hs, w @ [(hs, lookupAnswer hs)]))\<rparr>,
     eSink = None, eStore = None, eResume = False, eFullEventLogs = False, eLogLine = (\<lambda>_ _ w. w), eNow = (\<lambda>w. (1000, w)),
     eWait = (\<lambda>w. (None, w)), eTxOrder = (\<lambda>_ t. sorted_list_of_fset (fmdom (trTxs t))), eCtx = (\<lambda>w. (None, w)),
     eLive = (\<lambda>w. ([], w)), eSchedule = (\<lambda>w. ([], w))\<rparr>"

lemma known_matches: "MatchBlockTx demoMatcher knownTx \<noteq> []"
  by code_simp

lemma known_lookup:
  "lookupBatch watchEnv [5, 6] w = (Inr [MatchBlockTx demoMatcher knownTx], w @ [([5, 6], lookupAnswer [5, 6])])"
  using known_matches
  by (simp add: lookupBatch_def watchEnv_def lookupAnswer_def attempt_def bindE_def ok_def)

lemma watch_run:
  "\<exists>hw. hashRun watchEnv id [5, 6] [([5, 6], lookupAnswer [5, 6])] hw [([5, 6], lookupAnswer [5, 6])] \<and>
     hwOut hw = [MatchBlockTx demoMatcher knownTx] \<and> hwWorkers hw = [Sending [], HashIdle]"
proof -
  have two: "workerCount watchEnv = 2" by (simp add: workerCount_def watchEnv_def demoConfig_def)
  let ?hw = "\<lambda>q st out. \<lparr>hwQueue = q, hwDropped = 0, hwReported = 0, hwWorkers = [st, HashIdle], hwOut = out\<rparr>"
  let ?ms = "MatchBlockTx demoMatcher knownTx"
  have "hashRun watchEnv id [] [] (?hw [] HashIdle []) []"
    using hashRun.start [of watchEnv id "[]"] by (simp add: hashStart_def two numeral_2_eq_2)
  from hashRun.arrive [OF hashRun.arrive [OF this, of 5], of 6]
  have "hashRun watchEnv id [5, 6] [] (?hw [5, 6] HashIdle []) []" by (simp add: hashArrives_def pendingHashBuffer_def)
  from hashRun.worker [OF this, of 0, OF _ hashStep.takes]
  have "hashRun watchEnv id [5, 6] [] (?hw [6] (Draining [5]) []) []" by (simp add: setWorker_def)
  from hashRun.worker [OF this, of 0, OF _ hashStep.more [where hs = "[5]" and h = 6 and q = "[]"]]
  have "hashRun watchEnv id [5, 6] [] (?hw [] (Draining [5, 6]) []) []" by (simp add: setWorker_def pendingLookupBatch_def)
  from hashRun.worker [OF this, of 0, OF _ hashStep.drained]
  have "hashRun watchEnv id [5, 6] [] (?hw [] (Looking [5, 6]) []) []" by (simp add: setWorker_def)
  from hashRun.look [OF this, of 0, OF _ _ known_lookup]
  have "hashRun watchEnv id [5, 6] [([5, 6], lookupAnswer [5, 6])] (?hw [] (Sending [?ms]) []) [([5, 6], lookupAnswer [5, 6])]"
    by (simp add: setWorker_def)
  from hashRun.worker [OF this, of 0, OF _ hashStep.sends]
  show ?thesis by (intro exI [of _ "?hw [] (Sending []) [?ms]"]) (simp add: setWorker_def)
qed

theorem pending_hashes_accounted_witness:
  "\<exists>hw. hashRun watchEnv id [5, 6] [([5, 6], lookupAnswer [5, 6])] hw [([5, 6], lookupAnswer [5, 6])] \<and>
     hwOut hw = [MatchBlockTx demoMatcher knownTx] \<and> hwDropped hw = 0 \<and> hwReported hw = 0 \<and>
     mset (hwOut hw @ concat (map unsent (hwWorkers hw))) = mset (concat (map (answered demoMatcher) [([5, 6], lookupAnswer [5, 6])]))"
proof -
  obtain hw where run: "hashRun watchEnv id [5, 6] [([5, 6], lookupAnswer [5, 6])] hw [([5, 6], lookupAnswer [5, 6])]"
    and out: "hwOut hw = [MatchBlockTx demoMatcher knownTx]" and ws: "hwWorkers hw = [Sending [], HashIdle]"
    using watch_run by blast
  have obs: "observes (eClient watchEnv) id" by (auto simp: observes_def watchEnv_def)
  have m: "eMatcher watchEnv = demoMatcher" by (simp add: watchEnv_def)
  have "2 = length (hwQueue hw) + 2 + unat (hwDropped hw) + hwReported hw \<and>
      mset (hwOut hw @ concat (map unsent (hwWorkers hw))) = mset (concat (map (answered demoMatcher) [([5, 6], lookupAnswer [5, 6])]))"
    using pending_hashes_accounted [OF run _ obs] by (simp add: Let_def ws m)
  then have "unat (hwDropped hw) = 0" "hwReported hw = 0"
    "mset (hwOut hw @ concat (map unsent (hwWorkers hw))) = mset (concat (map (answered demoMatcher) [([5, 6], lookupAnswer [5, 6])]))"
    by simp_all
  then show ?thesis using run out by (auto simp: unat_eq_zero)
qed

end
