(* ===== verification/Calm.thy ===== *)
theory Calm
  imports Pending
begin

text \<open>
  No panics. Where the code indexes the slices a client returned or follows a pointer in them, it
  relies on the client's contract (locale \<open>chain_client\<close>); with it, and with a watched set built from
  the configuration, processing a block and moving the lifecycles along return errors, never panic.
  The reorg walk gets its contract (locale \<open>header_fetcher\<close>) from the client's.
\<close>

section \<open>Rules\<close>

lemma calm_fail_iff: "\<not> isPanic e \<Longrightarrow> calm (fail e)"
  by (rule calm_rules)

lemma calm_any: "calm (ok x)" "calm (gets g)" "calm (modify f)" "calm (track op)"
  by (auto simp: calm_def track_def split: prod.splits)

lemma calm_pure: "(\<And>s. isl (fst (m s)) = False) \<Longrightarrow> calm m"
  unfolding calm_def by (metis fst_conv sum.disc(1))

lemma calm_seq: "calm m \<Longrightarrow> (\<And>x. calm (f x)) \<Longrightarrow> calm (bindE m f)"
  by (rule calm_bind)

lemma calm_attempt: "calm m \<Longrightarrow> calm (attempt m)"
  unfolding calm_def attempt_def by (auto split: prod.splits sum.splits if_splits)

lemma attempt_error: "attempt m s = (Inr (Inl e), s') \<Longrightarrow> \<not> isPanic e"
  by (auto simp: attempt_def split: prod.splits sum.splits if_splits)

text \<open>A caught error is never a panic, so passing it on is calm.\<close>

lemma calm_caught:
  assumes "calm m" and "\<And>e. \<not> isPanic e \<Longrightarrow> calm (g e)" and "\<And>x. calm (h x)"
  shows "calm (bindE (attempt m) (\<lambda>res. case res of Inl e \<Rightarrow> g e | Inr x \<Rightarrow> h x))"
proof (rule calm_bind [OF calm_attempt [OF assms(1)]])
  fix s res s' assume res: "attempt m s = (Inr res, s')"
  show "calm (case res of Inl e \<Rightarrow> g e | Inr x \<Rightarrow> h x)"
  proof (cases res)
    case (Inl e)
    then have "\<not> isPanic e" using res by (intro attempt_error [of m s e s']) simp
    then show ?thesis using assms(2) Inl by simp
  qed (simp add: assms(3))
qed

lemma calm_if: "(b \<Longrightarrow> calm m) \<Longrightarrow> (\<not> b \<Longrightarrow> calm n) \<Longrightarrow> calm (if b then m else n)"
  by simp

lemma calm_option: "(x = None \<Longrightarrow> calm m) \<Longrightarrow> (\<And>y. x = Some y \<Longrightarrow> calm (f y)) \<Longrightarrow> calm (case x of None \<Rightarrow> m | Some y \<Rightarrow> f y)"
  by (cases x) auto

lemma calm_prod: "(\<And>a b. x = (a, b) \<Longrightarrow> calm (f a b)) \<Longrightarrow> calm (case x of (a, b) \<Rightarrow> f a b)"
  by (cases x) auto

lemma calm_world: "calm m \<Longrightarrow> calm (world m)" and calm_clock: "calm (clock E)"
  by (auto simp: calm_def world_def clock_def split: prod.splits)

lemma calm_onIx: "calm m \<Longrightarrow> calm (onIx m)" and calm_onStatuses: "calm (onStatuses f)"
  by (auto simp: calm_def onIx_def onStatuses_def split: prod.splits)

lemma calm_wrap: "calm m \<Longrightarrow> calm (wrapErr msg m)"
  unfolding wrapErr_def by (rule calm_caught) (auto intro: calm_rules)

lemma calm_forEach: "(\<And>x. x \<in> set xs \<Longrightarrow> calm (f x)) \<Longrightarrow> calm (forEach f xs)"
proof (induction xs)
  case (Cons x xs)
  have "forEach f (x # xs) = bindE (f x) (\<lambda>_. forEach f xs)" by (rule ext) simp
  then show ?case using Cons by (auto intro!: calm_seq)
qed (simp add: calm_def)

lemma calm_foldE: "(\<And>x b. x \<in> set xs \<Longrightarrow> calm (f x b)) \<Longrightarrow> calm (foldE f xs b)"
proof (induction xs arbitrary: b)
  case (Cons x xs)
  have "foldE f (x # xs) b = bindE (f x b) (foldE f xs)" by (rule ext) simp
  then show ?case using Cons by (auto intro!: calm_seq)
qed (simp add: calm_def)

text \<open>The elements of an aligned answer.\<close>

definition answers :: "('a \<Rightarrow> bool) \<Rightarrow> 'k list \<Rightarrow> 'a list \<Rightarrow> goerr option list \<Rightarrow> bool" where
  "answers present ks xs es \<longleftrightarrow> list_all2 (\<lambda>x e. (e = None \<longrightarrow> present x) \<and> (\<forall>err. e = Some err \<longrightarrow> \<not> isPanic err)) xs es \<and>
     length xs = length ks"

lemma answers_aligned: "aligned ks xs es present \<Longrightarrow> answers present ks xs es"
  by (auto simp: aligned_def answers_def list_all2_conv_all_nth) (metis nth_mem)

lemma answers_Cons:
  assumes "answers present (k # ks) xs es"
  obtains x xs' e es' where "xs = x # xs'" "es = e # es'" "answers present ks xs' es'"
    "e = None \<Longrightarrow> present x" "\<And>err. e = Some err \<Longrightarrow> \<not> isPanic err"
  using assms by (cases xs; cases es) (auto simp: answers_def)

lemma calm_forEach3:
  assumes "answers present ks xs es"
    and "\<And>k x e. (e = None \<longrightarrow> present x) \<Longrightarrow> (\<forall>err. e = Some err \<longrightarrow> \<not> isPanic err) \<Longrightarrow> calm (f k x e)"
  shows "calm (forEach3 f ks xs es)"
  using assms(1)
proof (induction ks arbitrary: xs es)
  case (Cons k ks)
  obtain x xs' e es' where l: "xs = x # xs'" "es = e # es'" and a: "answers present ks xs' es'"
    and e: "e = None \<Longrightarrow> present x" "\<And>err. e = Some err \<Longrightarrow> \<not> isPanic err"
    by (rule answers_Cons [OF Cons.prems]) blast
  have "forEach3 f (k # ks) xs es = bindE (f k x e) (\<lambda>_. forEach3 f ks xs' es')"
    unfolding l by (rule ext) simp
  then show ?case using Cons.IH [OF a] assms(2) e by (auto intro!: calm_seq)
qed (simp add: calm_def)

lemma calm_foldE3:
  assumes "answers present ks xs es"
    and "\<And>k x e b. (e = None \<longrightarrow> present x) \<Longrightarrow> (\<forall>err. e = Some err \<longrightarrow> \<not> isPanic err) \<Longrightarrow> calm (f k x e b)"
  shows "calm (foldE3 f ks xs es b)"
  using assms(1)
proof (induction ks arbitrary: xs es b)
  case (Cons k ks)
  obtain x xs' e es' where l: "xs = x # xs'" "es = e # es'" and a: "answers present ks xs' es'"
    and e: "e = None \<Longrightarrow> present x" "\<And>err. e = Some err \<Longrightarrow> \<not> isPanic err"
    by (rule answers_Cons [OF Cons.prems]) blast
  have "foldE3 f (k # ks) xs es b = bindE (f k x e b) (foldE3 f ks xs' es')"
    unfolding l by (rule ext) simp
  then show ?case using Cons.IH [OF a] assms(2) e by (auto intro!: calm_seq)
qed (simp add: calm_def)

lemma calm_deref: "p \<noteq> None \<Longrightarrow> calm (deref p)"
  by (auto simp: calm_def)

section \<open>A safe environment\<close>

text \<open>
  The client keeps its contract, the context and the store fail with errors, and no wallet label is
  looked up outside its table.
\<close>

definition safeEnv :: "'w env \<Rightarrow> bool" where
  "safeEnv E \<longleftrightarrow> chain_client (eClient E) \<and> (\<forall>w e w'. eWait E w = (Some e, w') \<longrightarrow> \<not> isPanic e) \<and>
     (\<forall>a b dir. \<exists>name. ForSide (mWatched (eMatcher E)) a b dir = Inr name) \<and>
     (\<forall>st. eStore E = Some st \<longrightarrow> (\<forall>n tx. calm (soSaveTransaction st n tx)) \<and>
        (\<forall>n h t r. calm (soUpdateTransactionStatus st n h t r)))"

lemma safe_client: "safeEnv E \<Longrightarrow> chain_client (eClient E)"
  by (simp add: safeEnv_def)

lemma calm_retry:
  assumes "safeEnv E" and "calm m"
  shows "calm (withRetry (waitRetry E) m)"
proof -
  have wait: "\<not> isPanic e" if "waitRetry E s = (Some e, s')" for s e s'
    using that assms(1) by (auto simp: waitRetry_def safeEnv_def split: prod.splits)
  have "\<not> isPanic e" if "retryLoop (waitRetry E) m k s = (Inl e, s')" for k s e s'
    using that
  proof (induction k arbitrary: s)
    case 0
    then show ?case using assms(2) by (auto simp: calm_def)
  next
    case (Suc k)
    obtain r s1 where f: "m s = (r, s1)" by (cases "m s")
    obtain c s2 where w: "waitRetry E s1 = (c, s2)" by (cases "waitRetry E s1")
    show ?case
    proof (cases r)
      case (Inr x)
      then show ?thesis using Suc.prems f by simp
    next
      case (Inl e0)
      have "\<not> isPanic e0" using assms(2) f Inl unfolding calm_def by blast
      then show ?thesis using Suc f w Inl wait by (cases c) auto
    qed
  qed
  then show ?thesis unfolding calm_def withRetry_def by blast
qed

lemma calm_client: "calm (call (eClient E)) \<Longrightarrow> calm (client E call)"
  unfolding client_def by (rule calm_world)

lemmas calm_intros = calm_any calm_if calm_option calm_prod calm_clock calm_onStatuses

section \<open>Receipts and logs\<close>

lemma calm_ensure:
  assumes "safeEnv E"
  shows "calm (ensure E)"
  unfolding ensure_def
  by (intro calm_seq calm_intros calm_caught calm_onIx calm_client chain_client.calls_calm [OF safe_client [OF assms]])
    (auto simp: noteBlockReceiptsError_def intro!: calm_onIx calm_any)

lemma client_batch:
  "client E call s = (Inr x, s') \<Longrightarrow> \<exists>w'. call (eClient E) (ixWorld s) = (Inr x, w')"
  by (auto simp: client_def world_def split: prod.splits)

lemma attempt_result: "attempt m s = (Inr (Inr x), s') \<Longrightarrow> m s = (Inr x, s')"
  by (auto simp: attempt_def split: prod.splits sum.splits if_splits)

lemma attempted_client:
  "attempt (client E call) s = (Inr (Inr x), s') \<Longrightarrow> \<exists>w'. call (eClient E) (ixWorld s) = (Inr x, w')"
  by (rule client_batch) (rule attempt_result)

lemma attempted_onIx_client:
  assumes "attempt (onIx (client E call)) p = (Inr (Inr x), p')"
  shows "\<exists>w'. call (eClient E) (ixWorld (fst p)) = (Inr x, w')"
  using attempt_result [OF assms] by (auto simp: onIx_def client_def world_def split: prod.splits)

lemma calm_preload:
  assumes "safeEnv E"
  shows "calm (preloadStatuses E hs)"
proof -
  note cc = safe_client [OF assms]
  have batch: "calm (bindE (attempt (onIx (client E (\<lambda>c. ccTransactionReceipts c hs)))) (\<lambda>res. case res of
       Inl _ \<Rightarrow> ok ()
     | Inr (receipts, errs) \<Rightarrow> forEach3 (\<lambda>h rc e. if e = None
         then bindE (deref rc) (\<lambda>rc. onStatuses (\<lambda>r. r\<lparr>rsByTx := fmupd h (rcStatus rc = 0) (rsByTx r)\<rparr>)) else ok ())
         hs receipts errs))"
  proof (rule calm_bind)
    show "calm (attempt (onIx (client E (\<lambda>c. ccTransactionReceipts c hs))))"
      by (intro calm_attempt calm_onIx calm_client chain_client.calls_calm [OF cc])
    fix p :: "'a indexer \<times> receiptStatuses" and res p'
    assume res: "attempt (onIx (client E (\<lambda>c. ccTransactionReceipts c hs))) p = (Inr res, p')"
    show "calm (case res of Inl _ \<Rightarrow> ok ()
     | Inr (receipts, errs) \<Rightarrow> forEach3 (\<lambda>h rc e. if e = None
         then bindE (deref rc) (\<lambda>rc. onStatuses (\<lambda>r. r\<lparr>rsByTx := fmupd h (rcStatus rc = 0) (rsByTx r)\<rparr>)) else ok ())
         hs receipts errs)"
    proof (cases res)
      case (Inr y)
      obtain rs es where y: "y = (rs, es)" by (cases y)
      have "attempt (onIx (client E (\<lambda>c. ccTransactionReceipts c hs))) p = (Inr (Inr (rs, es)), p')"
        using res Inr y by simp
      from attempted_onIx_client [OF this]
      obtain w' where "ccTransactionReceipts (eClient E) hs (ixWorld (fst p)) = (Inr (rs, es), w')" ..
      then have "answers (\<lambda>r. r \<noteq> None) hs rs es"
        by (intro answers_aligned chain_client.receipts_aligned [OF cc])
      then show ?thesis using Inr y
        by (auto intro!: calm_forEach3 calm_seq calm_deref calm_intros)
    qed (simp add: calm_any)
  qed
  then show ?thesis unfolding preloadStatuses_def
    by (intro calm_seq [OF calm_ensure [OF assms]] calm_seq [OF calm_any(2)] calm_if calm_any(1)) assumption
qed

lemma calm_failed:
  assumes "safeEnv E"
  shows "calm (failed E h)"
  unfolding failed_def
  by (intro calm_seq calm_intros calm_ensure calm_onIx calm_retry calm_client assms
      chain_client.calls_calm [OF safe_client [OF assms]])

lemma firstErr_mem: "firstErr es = Some e \<Longrightarrow> Some e \<in> set es"
  by (induction es rule: firstErr.induct) auto

lemma calm_batchQuery:
  assumes "safeEnv E"
  shows "calm (batchQuery E qs)"
  unfolding batchQuery_def
proof (rule calm_bind [OF calm_client])
  note cc = safe_client [OF assms]
  show "calm (ccFilterLogsBatch (eClient E) qs)" by (rule chain_client.calls_calm [OF cc])
  fix s x s' assume "client E (\<lambda>c. ccFilterLogsBatch c qs) s = (Inr x, s')"
  then obtain w' where w: "ccFilterLogsBatch (eClient E) qs (ixWorld s) = (Inr x, w')"
    using client_batch [where call = "\<lambda>c. ccFilterLogsBatch c qs"] by blast
  obtain ls es where x: "x = (ls, es)" by (cases x)
  have "\<forall>e. Some e \<in> set es \<longrightarrow> \<not> isPanic e"
    using w chain_client.logs_aligned [OF cc] unfolding x aligned_def by blast
  then show "calm (case x of (results, errs) \<Rightarrow> case firstErr errs of None \<Rightarrow> ok results | Some e \<Rightarrow> fail e)"
    by (auto simp: x intro!: calm_rules dest: firstErr_mem split: option.splits)
qed

lemma calm_filter:
  assumes "safeEnv E"
  shows "calm (fetchTopicFilterLogs E lo hi retry)"
  unfolding fetchTopicFilterLogs_def Let_def
  by (intro calm_if calm_retry calm_batchQuery assms)

section \<open>Blocks\<close>

lemma calm_scanNative:
  assumes "safeEnv E"
  shows "calm (scanNative E mts acc)"
proof (induction mts arbitrary: acc)
  case (Cons mt mts)
  obtain tx ms where mt: "mt = (tx, ms)" by (cases mt)
  have "scanNative E (mt # mts) acc = bindE (attempt (failed E (btHash tx)))
       (\<lambda>res. case res of
          Inl e \<Rightarrow> if errIs e NotFound then scanNative E mts acc
                   else fail (Wrap (''receipt '' @ hashHex (eCodec E) (btHash tx)) e)
        | Inr reverted \<Rightarrow> scanNative E mts (getMined (btHash tx) (addNative reverted ms) acc))"
    by (rule ext) (simp add: mt)
  moreover have "calm \<dots>"
    by (intro calm_caught calm_failed assms calm_if Cons calm_rules) simp
  ultimately show ?case by simp
qed (simp add: calm_def)

lemma calm_scanBlock:
  assumes "safeEnv E"
  shows "calm (scanBlock E d)"
proof -
  have "calm (candidateLogs E d)"
    unfolding candidateLogs_def blockLogs_def
    by (intro calm_seq calm_intros calm_ensure calm_caught calm_onIx calm_filter assms calm_rules) simp_all
  then show ?thesis
    unfolding scanBlock_def Let_def by (intro calm_seq calm_intros calm_preload calm_scanNative assms)
qed

lemma calm_logError: "calm (logError E msg attrs)"
  unfolding logError_def by (intro calm_world calm_pure) simp

lemma calm_persistTx:
  assumes "safeEnv E" and "eStore E = Some st"
  shows "calm (persistTx E st h es)"
  using assms unfolding persistTx_def safeEnv_def by (intro calm_seq calm_intros calm_world) auto

lemma calm_emitAll:
  assumes "safeEnv E"
  shows "calm (emitAll E evs)"
proof -
  have emit: "calm (emitOne E ev)" for ev
  proof -
    obtain name where "ForSide (mWatched (eMatcher E)) (HexToAddress (eCodec E) (evFrom ev))
        (HexToAddress (eCodec E) (evTo ev)) (evDirection ev) = Inr name"
      using assms unfolding safeEnv_def by blast
    moreover have "calm (logEvent E ev')" "calm (toSink E ev')" for ev'
      unfolding logEvent_def sinceMined_def toSink_def
      by (intro calm_seq calm_intros calm_logError calm_world calm_pure; simp split: prod.splits)+
    ultimately show ?thesis unfolding emitOne_def by (auto intro!: calm_seq calm_clock)
  qed
  have "calm (persistEvents E evs)"
  proof (cases "eStore E")
    case (Some st)
    then show ?thesis unfolding persistEvents_def Some option.case
      by (auto intro!: calm_persistTx [OF assms Some] calm_forEach calm_seq calm_attempt calm_any calm_logError split: prod.splits sum.splits)
  qed (simp add: persistEvents_def calm_any)
  then show ?thesis unfolding emitAll_def by (intro calm_seq calm_forEach emit)
qed

lemma calm_onMinedEmit: "safeEnv E \<Longrightarrow> calm (onMinedEmit E h bh bn ms fl conf fin)"
  unfolding onMinedEmit_def by (intro calm_seq calm_any calm_emitAll)

lemma calm_processBlock:
  assumes "safeEnv E"
  shows "calm (processBlock E d)"
proof -
  have "calm (processScanned E d)"
    unfolding processScanned_def Let_def resolvePending_def consumeNonce_def recordHead_def
    by (intro calm_seq calm_intros calm_scanBlock calm_forEach calm_onIx calm_onMinedEmit calm_emitAll calm_caught
        calm_failed assms)
  then have "\<not> isPanic e" if "processScanned E d p = (Inl e, p')" for p e p'
    using that unfolding calm_def by blast
  then show ?thesis unfolding processBlock_def calm_def Let_def by (auto split: prod.splits)
qed

section \<open>Lifecycles\<close>

lemma calm_fillChecks:
  assumes "answers present cs rs es"
  shows "calm (fillChecks cs rs es :: ('w, confirmCheck list) ixM)"
  using assms
proof (induction cs arbitrary: rs es)
  case (Cons c cs)
  obtain r rs' e es' where l: "rs = r # rs'" "es = e # es'" and a: "answers present cs rs' es'"
    by (rule answers_Cons [OF Cons.prems]) blast
  have "(fillChecks (c # cs) rs es :: ('w, confirmCheck list) ixM) =
      bindE (fillChecks cs rs' es') (\<lambda>rest. ok (c\<lparr>ckReceipt := r, ckErr := e\<rparr> # rest))"
    unfolding l by (rule ext) simp
  then show ?case using Cons.IH [OF a] by (auto intro!: calm_seq calm_any)
qed (simp add: calm_def)

definition checkOK :: "confirmCheck \<Rightarrow> bool" where
  "checkOK c \<longleftrightarrow> (ckErr c = None \<longrightarrow> ckReceipt c \<noteq> None) \<and> (\<forall>e. ckErr c = Some e \<longrightarrow> \<not> isPanic e)"

lemma fillChecks_OK:
  assumes "answers (\<lambda>r. r \<noteq> None) cs rs es"
  shows "yields (\<lambda>out. \<forall>c \<in> set out. checkOK c) (fillChecks cs rs es :: ('w, confirmCheck list) ixM)"
  using assms
proof (induction cs arbitrary: rs es)
  case (Cons c cs)
  obtain r rs' e es' where l: "rs = r # rs'" "es = e # es'" and a: "answers (\<lambda>r. r \<noteq> None) cs rs' es'"
    and e: "e = None \<Longrightarrow> r \<noteq> None" "\<And>err. e = Some err \<Longrightarrow> \<not> isPanic err"
    by (rule answers_Cons [OF Cons.prems]) blast
  have "(fillChecks (c # cs) rs es :: ('w, confirmCheck list) ixM) =
      bindE (fillChecks cs rs' es') (\<lambda>rest. ok (c\<lparr>ckReceipt := r, ckErr := e\<rparr> # rest))"
    unfolding l by (rule ext) simp
  moreover have "yields (\<lambda>out. \<forall>c \<in> set out. checkOK c)
      (bindE (fillChecks cs rs' es') (\<lambda>rest. ok (c\<lparr>ckReceipt := r, ckErr := e\<rparr> # rest)) :: ('w, confirmCheck list) ixM)"
    using e by (intro yields_bind [OF Cons.IH [OF a]] yields_ok) (auto simp: checkOK_def)
  ultimately show ?case by simp
qed (simp add: yields_def)

lemma answers_map: "answers present (map f ks) xs es \<longleftrightarrow> answers present ks xs es"
  by (simp add: answers_def)

lemma confirm_receipts:
  assumes "safeEnv E"
  shows "calm (fetchConfirmReceipts E cs)" and "yields (\<lambda>out. \<forall>c \<in> set out. checkOK c) (fetchConfirmReceipts E cs)"
proof -
  note cc = safe_client [OF assms]
  let ?call = "attempt (client E (\<lambda>c. ccTransactionReceipts c (map ckHash cs)))"
  have fill: "answers (\<lambda>r. r \<noteq> None) cs rs es" if res: "?call s = (Inr (Inr (rs, es)), s')" for s rs es s'
  proof -
    obtain w' where "ccTransactionReceipts (eClient E) (map ckHash cs) (ixWorld s) = (Inr (rs, es), w')"
      using attempted_client [OF res] ..
    then have "answers (\<lambda>r. r \<noteq> None) (map ckHash cs) rs es"
      by (rule answers_aligned [OF chain_client.receipts_aligned [OF cc]])
    then show ?thesis by (simp only: answers_map)
  qed
  show "calm (fetchConfirmReceipts E cs)"
    unfolding fetchConfirmReceipts_def
  proof (intro calm_if calm_any, rule calm_bind)
    show "calm ?call" by (intro calm_attempt calm_client chain_client.calls_calm [OF cc])
    fix s res s' assume res: "?call s = (Inr res, s')"
    have "calm (fillChecks cs rs es :: ('a, confirmCheck list) ixM)" if "res = Inr (rs, es)" for rs es
      by (rule calm_fillChecks) (rule fill [OF res [unfolded that]])
    then show "calm ((case res of Inl e \<Rightarrow> ok (map (\<lambda>c. c\<lparr>ckErr := Some e\<rparr>) cs)
        | Inr (receipts, errs) \<Rightarrow> fillChecks cs receipts errs) :: ('a, confirmCheck list) ixM)"
      by (auto intro: calm_any split: sum.splits prod.splits)
  qed
  show "yields (\<lambda>out. \<forall>c \<in> set out. checkOK c) (fetchConfirmReceipts E cs)"
    unfolding fetchConfirmReceipts_def
  proof (intro yields_if)
    let ?k = "\<lambda>res. case res of Inl e \<Rightarrow> ok (map (\<lambda>c. c\<lparr>ckErr := Some e\<rparr>) cs)
      | Inr (receipts, errs) \<Rightarrow> fillChecks cs receipts errs"
    show "yields (\<lambda>out. \<forall>c \<in> set out. checkOK c) (bindE ?call ?k)"
      unfolding yields_def bindE_Inr
    proof (intro allI impI, elim exE conjE)
      fix s out s' res s1
      assume res: "?call s = (Inr res, s1)" and k: "?k res s1 = (Inr out, s')"
      show "\<forall>c \<in> set out. checkOK c"
      proof (cases res)
        case (Inl e)
        have "\<not> isPanic e" by (rule attempt_error [OF res [unfolded Inl]])
        moreover have "out = map (\<lambda>c. c\<lparr>ckErr := Some e\<rparr>) cs" using k Inl by simp
        ultimately show ?thesis by (auto simp: checkOK_def)
      next
        case (Inr y)
        obtain rs es where y: "y = (rs, es)" by (cases y)
        have "fillChecks cs rs es s1 = (Inr out, s')" using k Inr y by simp
        then show ?thesis by (rule yields_run [OF fillChecks_OK [OF fill [OF res [unfolded Inr y]]]])
      qed
    qed
  qed (simp add: yields_ok)
qed

lemma calm_minedAt: "safeEnv E \<Longrightarrow> calm (minedAtReceipt E h ms rc)"
  unfolding minedAtReceipt_def by (intro calm_seq calm_intros calm_onMinedEmit)

lemma calm_applyCheck:
  assumes "safeEnv E" and "checkOK ck"
  shows "calm (applyCheck E n ck)"
  using assms unfolding applyCheck_def demoteEmit_def checkOK_def
  by (auto intro!: calm_intros calm_seq calm_emitAll calm_rules calm_deref calm_minedAt split: option.splits)

lemma calm_recheck:
  assumes "safeEnv E"
  shows "calm (recheckPendingTxs E hs)"
proof -
  note cc = safe_client [OF assms]
  have wrapped: "calm (bindE (wrapErr msg (client E call)) k)"
    if "calm (call (eClient E))" and "\<And>w rs es w'. call (eClient E) w = (Inr (rs, es), w') \<Longrightarrow> calm (k (rs, es))"
    for msg and call :: "'a chainClient \<Rightarrow> ('a, 'b list \<times> goerr option list) goM" and k :: "_ \<Rightarrow> ('a, unit) ixM"
  proof (rule calm_bind [OF calm_wrap [OF calm_client [of call, OF that(1)]]])
    fix s x s' assume "wrapErr msg (client E call) s = (Inr x, s')"
    then obtain w' where "call (eClient E) (ixWorld s) = (Inr x, w')" using wrapped_result [of msg E call] by blast
    then show "calm (k x)" using that(2) by (cases x) simp
  qed
  have unmined: "calm (bindE (wrapErr msg (client E (\<lambda>c. ccTransactionsByHash c us)))
      (\<lambda>(txs, terrs). forEach3 (resolveUnmined E) us txs terrs))" for msg us
  proof (rule wrapped, rule chain_client.calls_calm [OF cc])
    fix w rs es w' assume "ccTransactionsByHash (eClient E) us w = (Inr (rs, es), w')"
    from answers_aligned [OF chain_client.txs_aligned [OF cc this]]
    show "calm (case (rs, es) of (txs, terrs) \<Rightarrow> forEach3 (resolveUnmined E) us txs terrs)"
      by (auto simp: resolveUnmined_def dropStaleEmit_def
          intro!: calm_forEach3 calm_intros calm_seq calm_emitAll calm_rules assms split: option.splits)
  qed
  show ?thesis unfolding recheckPendingTxs_def
  proof (intro calm_if calm_any, rule wrapped, rule chain_client.calls_calm [OF cc])
    fix w rs es w' assume "ccTransactionReceipts (eClient E) hs w = (Inr (rs, es), w')"
    from answers_aligned [OF chain_client.receipts_aligned [OF cc this]]
    have "calm (foldE3 (recheckReceipt E) hs rs es [])"
      by (auto simp: recheckReceipt_def promotePendingTx_def
          intro!: calm_foldE3 calm_intros calm_seq calm_deref calm_minedAt calm_rules assms split: option.splits)
    then show "calm (case (rs, es) of (receipts, rerrs) \<Rightarrow>
        bindE (foldE3 (recheckReceipt E) hs receipts rerrs []) (\<lambda>unmined. if unmined = [] then ok ()
          else bindE (wrapErr ''stale pending batch check'' (client E (\<lambda>c. ccTransactionsByHash c unmined)))
            (\<lambda>(txs, terrs). forEach3 (resolveUnmined E) unmined txs terrs)))"
      unfolding prod.case by (intro calm_seq calm_if calm_any unmined)
  qed
qed

lemma calm_finality:
  assumes "safeEnv E"
  shows "calm (headFinality E)"
proof -
  have refresh: "calm (bindE (attempt (client E (\<lambda>c. ccBlockNumberByTag c tag)))
      (\<lambda>res. case res of Inl e \<Rightarrow> gets (\<lambda>s. (ixFinalizedNum s, Some e)) | Inr num \<Rightarrow> g num))"
    if "\<And>num. calm (g num)" for g tag
    by (intro calm_caught calm_client calm_any that chain_client.calls_calm [OF safe_client [OF assms]])
  show ?thesis unfolding headFinality_def finalizedNumber_def Let_def
    by (intro calm_intros calm_seq refresh)
qed

lemma calm_updateLifecycles:
  assumes "safeEnv E"
  shows "calm (updateLifecycles E n fl)"
proof -
  have range: "calm (trackRange E f)" for f :: "hash list \<Rightarrow> tracker \<Rightarrow> 'b \<times> tracker"
    by (auto simp: calm_def trackRange_def track_def split: prod.splits)
  have checks: "calm (bindE (fetchConfirmReceipts E cs) (\<lambda>checks. bindE (forEach (applyCheck E n) checks) k))"
    if "\<And>x. calm (k x)" for cs k
  proof (rule calm_bind [OF confirm_receipts(1) [OF assms]])
    fix s out s' assume "fetchConfirmReceipts E cs s = (Inr out, s')"
    then have "\<forall>c \<in> set out. checkOK c" by (rule yields_run [OF confirm_receipts(2) [OF assms]])
    then show "calm (bindE (forEach (applyCheck E n) out) k)"
      using assms that by (auto intro!: calm_seq calm_forEach calm_applyCheck)
  qed
  show ?thesis unfolding updateLifecycles_def
    by (intro calm_seq [OF calm_finality [OF assms]] calm_seq [OF range] calm_prod calm_seq [OF calm_any(2)] checks
        calm_seq [OF calm_recheck [OF assms]] calm_if calm_any)
qed

section \<open>The reorg walk\<close>

lemma fillRefs_ok:
  "answers (\<lambda>b. b \<noteq> None) ns bs es \<Longrightarrow> \<exists>rs. fillRefs ns bs es = Inr rs \<and> length rs = length ns"
proof (induction ns arbitrary: bs es)
  case Nil
  then show ?case by (simp add: answers_def)
next
  case (Cons n ns)
  obtain b bs' e es' where l: "bs = b # bs'" "es = e # es'" and a: "answers (\<lambda>b. b \<noteq> None) ns bs' es'"
    and e: "e = None \<Longrightarrow> b \<noteq> None"
    by (rule answers_Cons [OF Cons.prems]) blast
  from Cons.IH [OF a] show ?case using e by (cases e; cases b) (auto simp: l)
qed

lemma client_refs:
  assumes "chain_client C"
  shows "header_fetcher (headerRefsByNumbers C)"
proof
  fix ns w
  have ok: "(\<exists>e. \<not> isPanic e \<and> headerRefsByNumbers C ns w = (Inl e, w')) \<or>
      (\<exists>rs es. headerRefsByNumbers C ns w = (Inr (rs, es), w') \<and> length rs = length ns \<and> length es = length ns \<and>
        (\<forall>e. Some e \<in> set es \<longrightarrow> \<not> isPanic e))" if "snd (headerRefsByNumbers C ns w) = w'" for w'
  proof (cases "ccHeaderRefsByNumbers C ns w")
    case (Pair r v)
    show ?thesis
    proof (cases r)
      case (Inl e)
      have "\<not> isPanic e" using chain_client.calls_calm(4) [OF assms, of ns] Pair Inl unfolding calm_def by blast
      then show ?thesis using Pair Inl that by (auto simp: headerRefsByNumbers_def)
    next
      case (Inr y)
      obtain bs es where y: "y = (bs, es)" by (cases y)
      have al: "aligned ns bs es (\<lambda>b. b \<noteq> None)"
        using chain_client.headers_aligned [OF assms] Pair Inr y by blast
      obtain rs where "fillRefs ns bs es = Inr rs" "length rs = length ns"
        using fillRefs_ok [OF answers_aligned [OF al]] by blast
      then show ?thesis using Pair Inr y that al by (auto simp: headerRefsByNumbers_def aligned_def)
    qed
  qed
  show "length rs = length ns \<and> length es = length ns" if "headerRefsByNumbers C ns w = (Inr (rs, es), w')" for rs es w'
    using ok [of w'] that by auto
  show "\<not> isPanic e" if "headerRefsByNumbers C ns w = (Inl e, w')" for e w'
    using ok [of w'] that by auto
  show "\<not> isPanic e" if "headerRefsByNumbers C ns w = (Inr (rs, es), w')" "Some e \<in> set es" for rs es e w'
    using ok [of w'] that by auto
qed

interpretation rpcRefs: header_fetcher "headerRefsByNumbers (rpcClient T)"
  by (rule client_refs) (rule rpc.chain_client_axioms)

sublocale chain_client < nodeRefs: header_fetcher "headerRefsByNumbers C"
  by (rule client_refs) (rule chain_client_axioms)

lemma findAncestor_calm: "calm (findAncestor (headerRefsByNumbers (rpcClient T)) c n)"
  unfolding calm_def findAncestor_def by (intro allI impI) (rule rpcRefs.walkBack_no_panic [where ls = "[]" and chunk = "[]"], simp_all)

end
