(* ===== verification/Fetching.thy ===== *)
theory Fetching
  imports Calm
begin

text \<open>
  What the loops over block numbers and the prefetcher of internal/indexer/indexer.go do: the
  ranges they cover, the order in which the consumer receives the blocks, and why fetching does
  not panic.
\<close>

section \<open>Block numbers\<close>

lemma numbersUp_all:
  assumes "hi \<noteq> - 1"
  shows "numbersUp n hi = Some (u64_upto n hi)"
proof (induction "Suc (unat hi) - unat n" arbitrary: n)
  case 0
  then have "hi < n" by (simp add: word_less_nat_alt)
  then show ?case by (subst numbersUp.simps) (simp add: u64_upto_Nil not_le [symmetric])
next
  case (Suc k)
  then have le: "n \<le> hi" by (simp add: word_le_nat_alt)
  have "unat (n + 1) = Suc (unat n)" using le assms by (metis u64_less_max u64_Suc_max)
  then have "k = Suc (unat hi) - unat (n + 1)" using Suc.hyps(2) by simp
  note IH = Suc.hyps(1) [OF this]
  then show ?case using le by (subst numbersUp.simps) (simp add: u64_upto_Cons [OF le assms])
qed

lemma length_u64_upto: "length (u64_upto lo hi) = Suc (unat hi) - unat lo"
  by (simp add: u64_upto_def del: upt_Suc)

lemma u64_upto_split:
  assumes "lo \<le> mid" and "mid \<le> hi" and "mid \<noteq> - 1"
  shows "u64_upto lo hi = u64_upto lo mid @ u64_upto (mid + 1) hi"
proof -
  have "unat (mid + 1) = Suc (unat mid)" using assms(3) by (rule u64_Suc_max)
  moreover have "[unat lo ..< Suc (unat hi)] = [unat lo ..< Suc (unat mid)] @ [Suc (unat mid) ..< Suc (unat hi)]"
    using assms(1,2) upt_add_eq_append [of "unat lo" "Suc (unat mid)" "unat hi - unat mid"]
    by (simp add: word_le_nat_alt del: upt_Suc)
  ultimately show ?thesis by (simp add: u64_upto_def del: upt_Suc)
qed

lemma gapChunks_cover:
  assumes b: "0 < b" and room: "unat hi + b < 2 ^ 64"
  shows "\<exists>chunks. gapChunks (of_nat b) lo hi = Some chunks \<and> concat chunks = u64_upto lo hi \<and>
    (\<forall>c \<in> set chunks. c \<noteq> [] \<and> length c \<le> b)"
proof (induction "Suc (unat hi) - unat lo" arbitrary: lo rule: less_induct)
  case less
  show ?case
  proof (cases "lo \<le> hi")
    case False
    then show ?thesis by (subst gapChunks.simps) (simp add: u64_upto_Nil)
  next
    case True
    have ub: "unat (of_nat b :: u64) = b" using room by (simp add: unat_of_nat take_bit_nat_eq_self)
    have top: "hi \<noteq> - 1" using room b u64_max by auto
    have lob: "unat (lo + of_nat b) = unat lo + b"
      using True room ub by (subst unat_add_lem [THEN iffD1]) (simp_all add: word_le_nat_alt)
    have e: "unat (lo + of_nat b - 1) = unat lo + b - 1"
      using lob b by (subst u64_pred [of 0]) (auto simp: word_less_nat_alt)
    let ?m = "min (lo + of_nat b - 1) hi"
    have m: "unat ?m = min (unat lo + b - 1) (unat hi)"
      using e by (simp add: min_def word_le_nat_alt)
    have mtop: "?m \<noteq> - 1" using top by (metis min.cobounded2 u64_less_max)
    have less': "Suc (unat hi) - unat (lo + of_nat b) < Suc (unat hi) - unat lo"
      using True b lob by (simp add: word_le_nat_alt)
    from less [OF less'] obtain rest where rest: "gapChunks (of_nat b) (lo + of_nat b) hi = Some rest"
      "concat rest = u64_upto (lo + of_nat b) hi" "\<forall>c \<in> set rest. c \<noteq> [] \<and> length c \<le> b" by blast
    have first: "numbersUp lo ?m = Some (u64_upto lo ?m)" using mtop by (rule numbersUp_all)
    have "lo \<le> ?m" using True m b by (simp add: word_le_nat_alt)
    have cat: "u64_upto lo ?m @ u64_upto (lo + of_nat b) hi = u64_upto lo hi"
    proof (cases "unat lo + b - 1 < unat hi")
      case True
      then have "?m = lo + of_nat b - 1" using m e by (simp add: u64_eq_nat)
      then show ?thesis using u64_upto_split [of lo ?m hi] \<open>lo \<le> ?m\<close> mtop by (simp add: min_def split: if_splits)
    next
      case False
      then have "?m = hi" and "hi < lo + of_nat b" using m lob b by (auto simp: u64_eq_nat word_less_nat_alt)
      then show ?thesis by (simp add: u64_upto_Nil)
    qed
    have "u64_upto lo ?m \<noteq> []" "length (u64_upto lo ?m) \<le> b"
      using \<open>lo \<le> ?m\<close> m b by (auto simp: u64_upto_def word_le_nat_alt)
    then show ?thesis using True rest cat first
      by (subst gapChunks.simps) auto
  qed
qed

lemma numbersDown_all: "numbersDown n lo = rev (u64_upto lo n)"
proof (induction "unat n" arbitrary: n rule: less_induct)
  case less
  show ?case
  proof (cases "lo \<le> n")
    case False
    then show ?thesis by (subst numbersDown.simps) (simp add: u64_upto_Nil)
  next
    case True
    show ?thesis
    proof (cases "n = lo")
      case True
      then show ?thesis by (subst numbersDown.simps) (simp add: u64_upto_def)
    next
      case False
      then have lt: "lo < n" using True by simp
      have p: "unat (n - 1) = unat n - 1" using lt by (rule u64_pred)
      have p': "n - 1 \<noteq> - 1" and "lo \<le> n - 1" using lt p by (auto simp: word_le_nat_alt word_less_nat_alt)
      have "u64_upto lo n = u64_upto lo (n - 1) @ u64_upto n n"
        using u64_upto_split [of lo "n - 1" n] p' \<open>lo \<le> n - 1\<close> p lt by (simp add: word_le_nat_alt)
      moreover have "u64_upto n n = [n]" by (simp add: u64_upto_def)
      moreover have "unat (n - 1) < unat n" using p lt by (simp add: word_less_nat_alt)
      ultimately show ?thesis using less True False by (subst numbersDown.simps) simp
    qed
  qed
qed

section \<open>Spans and slots\<close>

lemma chunksOf_concat: "concat (chunksOf b xs) = xs"
  by (induction b xs rule: chunksOf.induct) simp_all

lemma chunksOf_size: "0 < b \<Longrightarrow> c \<in> set (chunksOf b xs) \<Longrightarrow> c \<noteq> [] \<and> length c \<le> b"
  by (induction b xs rule: chunksOf.induct) auto

lemma chunksOf_full: "0 < b \<Longrightarrow> c \<in> set (butlast (chunksOf b xs)) \<Longrightarrow> length c = b"
proof (induction b xs rule: chunksOf.induct)
  case (2 b x xs)
  show ?case
  proof (cases "drop (b - 1) xs")
    case Nil
    then show ?thesis using 2 by simp
  next
    case (Cons y ys)
    then have "b - 1 \<le> length xs" by (metis drop_all linorder_not_le list.distinct(1) order_less_imp_le)
    then show ?thesis using 2 Cons by (auto split: if_splits)
  qed
qed simp

lemma slotsOf_snoc: "slotsOf (spans @ [c]) = slotsOf spans @ map (Pair (length spans)) [0..<length c]"
proof -
  have "map (\<lambda>k. map (Pair k) [0..<length ((spans @ [c]) ! k)]) [0..<length spans] =
      map (\<lambda>k. map (Pair k) [0..<length (spans ! k)]) [0..<length spans]"
    by (rule map_cong) (simp_all add: nth_append)
  then have "concat (map (\<lambda>k. map (Pair k) [0..<length ((spans @ [c]) ! k)]) [0..<length spans]) = slotsOf spans"
    unfolding slotsOf_def by (rule arg_cong)
  then show ?thesis by (simp add: slotsOf_def)
qed

lemma slotsOf_in_order: "map (\<lambda>(k, i). spans ! k ! i) (slotsOf spans) = concat spans"
proof (induction spans rule: rev_induct)
  case (snoc c spans)
  have "map (\<lambda>(k, i). (spans @ [c]) ! k ! i) (slotsOf spans) = map (\<lambda>(k, i). spans ! k ! i) (slotsOf spans)"
    by (rule map_cong) (auto simp: slotsOf_def nth_append)
  then show ?case using snoc by (simp add: slotsOf_snoc comp_def map_nth)
qed (simp add: slotsOf_def)

lemma slotsOf_mem: "(k, i) \<in> set (slotsOf spans) \<longleftrightarrow> k < length spans \<and> i < length (spans ! k)"
  unfolding slotsOf_def by force

lemma slotsOf_length: "length (slotsOf spans) = length (concat spans)"
  using slotsOf_in_order [of spans] by (metis length_map)

text \<open>Slot number \<open>t\<close> lies in a span that starts at or before it.\<close>

lemma slotsOf_position:
  assumes "t < length (slotsOf spans)" and "slotsOf spans ! t = (k, i)"
  shows "k < length spans \<and> i < length (spans ! k) \<and> t = length (concat (take k spans)) + i"
  using assms
proof (induction spans arbitrary: t rule: rev_induct)
  case (snoc c spans)
  show ?case
  proof (cases "t < length (slotsOf spans)")
    case True
    then show ?thesis using snoc.IH [OF True] snoc.prems by (auto simp: slotsOf_snoc nth_append)
  next
    case False
    then have "t - length (slotsOf spans) < length c" using snoc.prems(1) by (simp add: slotsOf_snoc)
    then show ?thesis using False snoc.prems by (auto simp: slotsOf_snoc nth_append slotsOf_length)
  qed
qed (simp add: slotsOf_def)


section \<open>What the prefetcher hands the consumer\<close>

text \<open>One slot: the result of a span of blocks at the position of the block.\<close>

definition spanResult :: "'w env \<Rightarrow> bool \<Rightarrow> u64 list \<Rightarrow> fetchResult list \<Rightarrow> bool" where
  "spanResult E wr ns rs \<longleftrightarrow> (\<exists>s s'. fetchSpan E wr ns s = (Inr rs, s'))"

definition tableOK :: "'w env \<Rightarrow> bool \<Rightarrow> u64 list list \<Rightarrow> spanTable \<Rightarrow> bool" where
  "tableOK E wr spans tab \<longleftrightarrow> (\<forall>k rs. fmlookup tab k = Some rs \<longrightarrow> k < length spans \<and> spanResult E wr (spans ! k) rs)"

lemma resolveSpan_table:
  assumes "tableOK E wr spans tab"
  shows "yields (tableOK E wr spans) (resolveSpan E wr spans k tab)"
    and "k < length spans \<Longrightarrow> yields (\<lambda>tab'. fmlookup tab' k \<noteq> None) (resolveSpan E wr spans k tab)"
proof -
  have "tableOK E wr spans (fmupd k rs tab)" if "k < length spans" "fetchSpan E wr (spans ! k) s = (Inr rs, s')" for rs s s'
    using assms that by (auto simp: tableOK_def spanResult_def)
  then show "yields (tableOK E wr spans) (resolveSpan E wr spans k tab)"
    using assms by (auto simp: yields_def resolveSpan_def bindE_Inr split: if_splits)
  show "k < length spans \<Longrightarrow> yields (\<lambda>tab'. fmlookup tab' k \<noteq> None) (resolveSpan E wr spans k tab)"
    by (auto simp: yields_def resolveSpan_def bindE_Inr split: if_splits)
qed

lemma foldE_yields:
  assumes "\<And>x b. P b \<Longrightarrow> yields P (f x b)" and "P b"
  shows "yields P (foldE f xs b)"
  using assms(2)
proof (induction xs arbitrary: b)
  case (Cons x xs)
  have "foldE f (x # xs) b = bindE (f x b) (foldE f xs)" by (rule ext) simp
  then show ?case using assms(1) [OF Cons.prems] Cons.IH by (auto intro: yields_bind)
qed (simp add: yields_def)

lemma runWorkers_table: "tableOK E wr spans tab \<Longrightarrow> yields (tableOK E wr spans) (runWorkers E wr spans taken tab)"
  unfolding runWorkers_def by (intro yields_after foldE_yields resolveSpan_table(1))

text \<open>
  A consumer that collects what it receives: one result per block, in the order of the numbers,
  each the one its span was fetched with.
\<close>

definition collect :: "fetchResult \<Rightarrow> fetchResult list \<Rightarrow> ('w, fetchResult list \<times> bool) ixM" where
  "collect r acc = ok (acc @ [r], False)"

definition slotHolds :: "'w env \<Rightarrow> bool \<Rightarrow> u64 list list \<Rightarrow> nat \<times> nat \<Rightarrow> fetchResult \<Rightarrow> bool" where
  "slotHolds E wr spans slot r \<longleftrightarrow>
     (\<exists>rs. spanResult E wr (spans ! fst slot) rs \<and> snd slot < length rs \<and> rs ! snd slot = r)"

lemma consumeSlots_collect:
  assumes "tableOK E wr spans tab"
    and "consumeSlots E wr spans collect slots taken tab acc s = (Inr out, s')"
  shows "\<exists>rs. out = acc @ rs \<and> list_all2 (slotHolds E wr spans) slots rs"
  using assms
proof (induction slots arbitrary: taken tab acc s)
  case Nil
  then show ?case by simp
next
  case (Cons slot slots)
  obtain k i where slot: "slot = (k, i)" by (cases slot)
  from Cons.prems(2) obtain tab1 s1 tab2 s2 s3 r s4 where
    tab1: "runWorkers E wr spans (Suc taken) tab s = (Inr tab1, s1)"
    and tab2: "resolveSpan E wr spans k tab1 s1 = (Inr tab2, s2)"
    and r: "slotResult tab2 k i s3 = (Inr r, s4)"
    and rest: "consumeSlots E wr spans collect slots (Suc taken) tab2 (acc @ [r]) s4 = (Inr out, s')"
    by (auto simp: slot bindE_Inr collect_def [abs_def] ok_def [abs_def])
  have t1: "tableOK E wr spans tab1" using yields_run [OF runWorkers_table [OF Cons.prems(1)] tab1] .
  have t2: "tableOK E wr spans tab2" using yields_run [OF resolveSpan_table(1) [OF t1] tab2] .
  have "slotHolds E wr spans slot r"
    using r t2 by (auto simp: slot slotResult_def slotHolds_def tableOK_def split: option.splits if_splits)
  moreover obtain rs where "out = (acc @ [r]) @ rs" "list_all2 (slotHolds E wr spans) slots rs"
    using Cons.IH [OF t2 rest] by blast
  ultimately show ?case by (intro exI [of _ "r # rs"]) simp
qed

lemma tableOK_empty: "tableOK E wr spans fmempty"
  by (simp add: tableOK_def)

lemma prefetch_collect:
  assumes "prefetchBlocks E ns wr collect [] s = (Inr out, s')"
  shows "list_all2 (slotHolds E wr (chunksOf (batchBlocks E) ns)) (slotsOf (chunksOf (batchBlocks E) ns)) out"
  using consumeSlots_collect [OF tableOK_empty assms [unfolded prefetchBlocks_def Let_def]] by simp

section \<open>Fetching without panics\<close>

lemma calm_bundleData:
  assumes "safeEnv E" and "bbBlock b \<noteq> None"
  shows "calm (bundleData E b)"
  unfolding bundleData_def noteBlockReceiptsError_def using assms(2)
  by (intro calm_seq calm_deref calm_intros calm_caught calm_client chain_client.calls_calm [OF safe_client [OF assms(1)]])

lemma retryLoop_result:
  "retryLoop wait m k s = (Inr x, s') \<Longrightarrow> \<exists>s0. m s0 = (Inr x, s')"
  by (induction k arbitrary: s) (auto split: prod.splits sum.splits option.splits if_splits)

lemma retried_client:
  assumes "withRetry (waitRetry E) (client E call) s = (Inr x, s')"
  shows "\<exists>w w'. call (eClient E) w = (Inr x, w')"
proof -
  obtain s0 where "client E call s0 = (Inr x, s')"
    using retryLoop_result [OF assms [unfolded withRetry_def]] by (elim exE)
  from client_batch [OF this] show ?thesis by blast
qed

lemma wrapErr_result: "wrapErr msg m s = (Inr x, s') \<Longrightarrow> \<exists>s1. m s = (Inr x, s1)"
  by (cases "m s"; cases "fst (m s)") (auto simp: wrapErr_def attempt_def bindE_def split: if_splits)

lemma calm_fetchBundle:
  assumes "safeEnv E"
  shows "calm (fetchBundle E key)"
proof -
  note cc = safe_client [OF assms]
  let ?b = "\<lambda>c. case key of Inl h \<Rightarrow> ccBlockBundleByHash c h | Inr n \<Rightarrow> ccBlockBundleByNumber c n"
  have "calm (bindE (withRetry (waitRetry E) (client E ?b)) (bundleData E))"
  proof (rule calm_bind)
    show "calm (withRetry (waitRetry E) (client E ?b))"
      by (cases key) (auto intro!: calm_retry calm_client chain_client.calls_calm [OF cc] assms)
    fix s b s' assume "withRetry (waitRetry E) (client E ?b) s = (Inr b, s')"
    then obtain w w' where "?b (eClient E) w = (Inr b, w')" using retried_client [of E ?b] by blast
    then have "bbBlock b \<noteq> None"
      by (cases key) (use chain_client.bundle_number [OF cc] chain_client.bundle_hash [OF cc] in auto)
    then show "calm (bundleData E b)" by (rule calm_bundleData [OF assms])
  qed
  moreover have "calm (withRetry (waitRetry E) (client E (\<lambda>c. case key of
      Inl h \<Rightarrow> ccBlockByHash c h | Inr n \<Rightarrow> ccBlockByNumber c n)))"
    by (cases key) (auto intro!: calm_retry calm_client chain_client.calls_calm [OF cc] assms)
  then have "calm (bindE (withRetry (waitRetry E) (client E (\<lambda>c. case key of
      Inl h \<Rightarrow> ccBlockByHash c h | Inr n \<Rightarrow> ccBlockByNumber c n))) (\<lambda>b. ok (blockOnly b)))"
    by (rule calm_seq) (rule calm_any)
  ultimately show ?thesis unfolding fetchBundle_def by (intro calm_seq [OF calm_any(2)] calm_if)
qed

lemma calm_gapBatch:
  assumes "safeEnv E"
  shows "calm (gapBatch E wr ns)"
proof -
  note cc = safe_client [OF assms]
  let ?call = "\<lambda>c. ccBlockBundles c ns wr"
  have single: "calm (bindE (wrapErr m (fetchBundle E (Inr n))) (processBlock E))" for m n
    by (intro calm_seq calm_wrap calm_fetchBundle calm_processBlock assms)
  have block: "calm (gapBlock E wr n b e)" if "e = None \<longrightarrow> bbBlock b \<noteq> None" for n b e
    unfolding gapBlock_def using that
    by (intro calm_seq calm_processBlock calm_if calm_bundleData calm_deref calm_any calm_wrap calm_fetchBundle assms) simp_all
  have "calm (bindE (wrapErr m (withRetry (waitRetry E) (client E ?call)))
      (\<lambda>(bundles, errs). forEach3 (gapBlock E wr) ns bundles errs))" for m
  proof (rule calm_bind)
    show "calm (wrapErr m (withRetry (waitRetry E) (client E ?call)))"
      by (intro calm_wrap calm_retry calm_client chain_client.calls_calm [OF cc] assms)
    fix s x s' assume x: "wrapErr m (withRetry (waitRetry E) (client E ?call)) s = (Inr x, s')"
    obtain bs es where p: "x = (bs, es)" by (cases x)
    from x obtain s1 where "withRetry (waitRetry E) (client E ?call) s = (Inr x, s1)"
      using wrapErr_result [OF x] by (elim exE)
    then obtain w w' where "ccBlockBundles (eClient E) ns wr w = (Inr (bs, es), w')"
      unfolding p using retried_client [of E ?call] by blast
    then have "answers (\<lambda>b. bbBlock b \<noteq> None) ns bs es"
      by (intro answers_aligned chain_client.bundles_aligned [OF cc])
    then show "calm (case x of (bundles, errs) \<Rightarrow> forEach3 (gapBlock E wr) ns bundles errs)"
      unfolding p prod.case by (rule calm_forEach3) (simp add: block)
  qed
  then show ?thesis unfolding gapBatch_def by (intro calm_if calm_forEach single)
qed

lemma calm_processGap:
  assumes "safeEnv E" and "unat hi + batchBlocks E < 2 ^ 64"
  shows "calm (processGap E lo hi)"
proof -
  have "0 < batchBlocks E" by (simp add: batchBlocks_def)
  then obtain chunks where "gapChunks (of_nat (batchBlocks E)) lo hi = Some chunks"
    using gapChunks_cover [OF _ assms(2)] by blast
  then show ?thesis unfolding processGap_def returning_def
    by (simp add: calm_seq calm_forEach calm_gapBatch assms(1) calm_any)
qed

section \<open>Every block in its place\<close>

text \<open>
  A node that answers a request for a block number with that block or an error. The hypothesis is
  about the client; the workers may still complete in any order.
\<close>

definition numbersHonest :: "'w env \<Rightarrow> bool" where
  "numbersHonest E \<longleftrightarrow>
     (\<forall>n w b w'. ccBlockByNumber (eClient E) n w = (Inr b, w') \<longrightarrow> bkNumber b = n) \<and>
     (\<forall>n w bd b w'. ccBlockBundleByNumber (eClient E) n w = (Inr bd, w') \<longrightarrow> bbBlock bd = Some b \<longrightarrow> bkNumber b = n) \<and>
     (\<forall>ns wr w bs es w'. ccBlockBundles (eClient E) ns wr w = (Inr (bs, es), w') \<longrightarrow>
        length bs = length ns \<and> length es = length ns \<and>
        (\<forall>i<length ns. \<forall>b. es ! i = None \<longrightarrow> bbBlock (bs ! i) = Some b \<longrightarrow> bkNumber b = ns ! i))"

definition blockAt :: "u64 \<Rightarrow> fetchResult \<Rightarrow> bool" where
  "blockAt n r \<longleftrightarrow> (case r of Inl _ \<Rightarrow> True | Inr d \<Rightarrow> bkNumber (bdBlock d) = n)"

definition slotAt :: "u64 \<times> fetchResult option \<Rightarrow> bool" where
  "slotAt slot \<longleftrightarrow> (case snd slot of None \<Rightarrow> True | Some r \<Rightarrow> blockAt (fst slot) r)"

lemma bundleData_block: "yields (\<lambda>d. bbBlock bd = Some (bdBlock d)) (bundleData E bd)"
  unfolding bundleData_def
proof (rule yields_bind)
  show "yields (\<lambda>b. bbBlock bd = Some b) (deref (bbBlock bd))"
    by (cases "bbBlock bd") (simp_all add: yields_def)
qed (auto intro!: yields_rules yields_after simp: blockOnly_def)

lemma fetchBundle_number:
  assumes "numbersHonest E"
  shows "yields (\<lambda>d. bkNumber (bdBlock d) = n) (fetchBundle E (Inr n))"
proof -
  have b: "bkNumber b = n" if "withRetry (waitRetry E) (client E (\<lambda>c. ccBlockByNumber c n)) s = (Inr b, s')" for b s s'
    using retried_client [OF that] assms by (auto simp: numbersHonest_def)
  have bd: "bkNumber b = n" if "withRetry (waitRetry E) (client E (\<lambda>c. ccBlockBundleByNumber c n)) s = (Inr bd, s')"
    "bbBlock bd = Some b" for bd b s s'
    using retried_client [OF that(1)] that(2) assms unfolding numbersHonest_def by blast
  have "yields (\<lambda>d. bkNumber (bdBlock d) = n)
      (bindE (withRetry (waitRetry E) (client E (\<lambda>c. ccBlockBundleByNumber c n))) (bundleData E))"
    unfolding yields_def bindE_Inr using bd yields_run [OF bundleData_block] by blast
  moreover have "yields (\<lambda>d. bkNumber (bdBlock d) = n)
      (bindE (withRetry (waitRetry E) (client E (\<lambda>c. ccBlockByNumber c n))) (\<lambda>b. ok (blockOnly b)))"
    unfolding yields_def bindE_Inr using b by (auto simp: blockOnly_def)
  ultimately show ?thesis unfolding fetchBundle_def sum.case
    by - (rule yields_after, simp)
qed

lemma attempt_yields: "yields P m \<Longrightarrow> yields (\<lambda>r. \<forall>x. r = Inr x \<longrightarrow> P x) (attempt m)"
  unfolding yields_def attempt_def by (auto split: prod.splits sum.splits if_splits)

lemma spanBlock_number:
  assumes "numbersHonest E"
  shows "yields (blockAt n) (spanBlock E wr n)"
proof -
  let ?m = "if wr then fetchBundle E (Inr n)
        else bindE (withRetry (waitRetry E) (client E (\<lambda>c. ccBlockByNumber c n))) (\<lambda>b. ok (blockOnly b))"
  have b: "bkNumber b = n" if "withRetry (waitRetry E) (client E (\<lambda>c. ccBlockByNumber c n)) s = (Inr b, s')" for b s s'
    using retried_client [OF that] assms by (auto simp: numbersHonest_def)
  have "yields (\<lambda>d. bkNumber (bdBlock d) = n) ?m"
    by (intro yields_if fetchBundle_number [OF assms]) (use b in \<open>auto simp: yields_def bindE_Inr blockOnly_def\<close>)
  then have "yields (\<lambda>d. bkNumber (bdBlock d) = n) (wrapErr (fetchingBlock n) ?m)"
    unfolding yields_def using wrapErr_result by fast
  from attempt_yields [OF this] show ?thesis
    unfolding spanBlock_def by (auto simp: yields_def blockAt_def split: sum.splits)
qed

lemma spanBundle_number:
  assumes "\<And>b. e = None \<Longrightarrow> bbBlock bd = Some b \<Longrightarrow> bkNumber b = n"
  shows "yields (\<lambda>acc'. \<exists>slot. acc' = acc @ [slot] \<and> fst slot = n \<and> slotAt slot) (spanBundle E wr n bd e acc)"
proof -
  have data: "bkNumber (bdBlock d) = n" if "bundleData E bd s = (Inr d, s')" "e = None" for d s s'
    using yields_run [OF bundleData_block that(1)] assms that(2) by blast
  show ?thesis unfolding spanBundle_def yields_def using data assms
    by (auto simp: bindE_Inr slotAt_def blockAt_def blockOnly_def deref_def split: if_splits option.splits)
qed

lemma foldE3_spanBundle:
  assumes "length bs = length ns" "length es = length ns"
    and "\<forall>i<length ns. \<forall>b. es ! i = None \<longrightarrow> bbBlock (bs ! i) = Some b \<longrightarrow> bkNumber b = ns ! i"
  shows "yields (\<lambda>slots. \<exists>more. slots = acc @ more \<and> map fst more = ns \<and> (\<forall>slot \<in> set more. slotAt slot))
    (foldE3 (spanBundle E wr) ns bs es acc)"
  using assms
proof (induction ns arbitrary: bs es acc)
  case (Cons n ns)
  obtain b bs' e es' where l: "bs = b # bs'" "es = e # es'" using Cons.prems by (cases bs; cases es) auto
  have eq: "foldE3 (spanBundle E wr) (n # ns) bs es acc = bindE (spanBundle E wr n b e acc) (foldE3 (spanBundle E wr) ns bs' es')"
    unfolding l by (rule ext) simp
  have "e = None \<Longrightarrow> bbBlock b = Some x \<Longrightarrow> bkNumber x = n" for x
    using Cons.prems(3) l by force
  note first = spanBundle_number [of e b n acc E wr, OF this]
  have rest: "\<forall>i<length ns. \<forall>b. es' ! i = None \<longrightarrow> bbBlock (bs' ! i) = Some b \<longrightarrow> bkNumber b = ns ! i"
    using Cons.prems(3) l by force
  show ?case unfolding eq
  proof (rule yields_bind [OF first])
    fix acc' assume "\<exists>slot. acc' = acc @ [slot] \<and> fst slot = n \<and> slotAt slot"
    then obtain slot where slot: "acc' = acc @ [slot]" "fst slot = n" "slotAt slot" by blast
    have "yields (\<lambda>slots. \<exists>more. slots = acc' @ more \<and> map fst more = ns \<and> (\<forall>slot \<in> set more. slotAt slot))
        (foldE3 (spanBundle E wr) ns bs' es' acc')"
      using Cons.IH [OF _ _ rest, of acc'] Cons.prems(1,2) l by simp
    then show "yields (\<lambda>slots. \<exists>more. slots = acc @ more \<and> map fst more = n # ns \<and> (\<forall>slot \<in> set more. slotAt slot))
        (foldE3 (spanBundle E wr) ns bs' es' acc')"
      unfolding yields_def slot(1) using slot(2,3)
      by (metis (no_types, lifting) append.assoc append_Cons append_Nil list.simps(9) set_ConsD)
  qed
qed (simp add: yields_def)

lemma foldE_spanRest:
  assumes "numbersHonest E" and "\<forall>slot \<in> set slots. slotAt slot"
  shows "yields (\<lambda>rs. \<exists>more. rs = acc @ more \<and> list_all2 blockAt (map fst slots) more) (foldE (spanRest E wr) slots acc)"
  using assms(2)
proof (induction slots arbitrary: acc)
  case (Cons slot slots)
  have eq: "foldE (spanRest E wr) (slot # slots) acc = bindE (spanRest E wr slot acc) (foldE (spanRest E wr) slots)"
    by (rule ext) simp
  have first: "yields (\<lambda>acc'. \<exists>r. acc' = acc @ [r] \<and> blockAt (fst slot) r) (spanRest E wr slot acc)"
  proof (cases "snd slot")
    case None
    then show ?thesis unfolding spanRest_def option.case None
      by (intro yields_bind [OF spanBlock_number [OF assms(1)]] yields_ok) simp
  next
    case (Some r)
    then show ?thesis using Cons.prems by (simp add: spanRest_def yields_def slotAt_def)
  qed
  show ?case unfolding eq
  proof (rule yields_bind [OF first])
    fix acc' assume "\<exists>r. acc' = acc @ [r] \<and> blockAt (fst slot) r"
    then obtain r where r: "acc' = acc @ [r]" "blockAt (fst slot) r" by blast
    have "yields (\<lambda>rs. \<exists>more. rs = acc' @ more \<and> list_all2 blockAt (map fst slots) more) (foldE (spanRest E wr) slots acc')"
      using Cons by simp
    then show "yields (\<lambda>rs. \<exists>more. rs = acc @ more \<and> list_all2 blockAt (map fst (slot # slots)) more) (foldE (spanRest E wr) slots acc')"
      unfolding yields_def r(1) using r(2)
      by (metis (no_types, lifting) append.assoc append_Cons append_Nil list.simps(9) list_all2_Cons)
  qed
qed (simp add: yields_def)

lemma fetchSpan_blocks:
  assumes "numbersHonest E"
  shows "yields (list_all2 blockAt ns) (fetchSpan E wr ns)"
proof -
  have fail: "list_all2 blockAt ns (map (\<lambda>n. Inl (Wrap (fetchingBlock n) e)) ns)" for e
    by (simp add: list_all2_conv_all_nth blockAt_def)
  have rest: "yields (list_all2 blockAt (map fst slots)) (foldE (spanRest E wr) slots [])"
    if "\<forall>slot \<in> set slots. slotAt slot" for slots
    using foldE_spanRest [OF assms that, of "[]"] by (simp add: yields_def)
  have batch: "yields (list_all2 blockAt ns) (bindE (foldE3 (spanBundle E wa) ns bs es []) (\<lambda>slots. foldE (spanRest E wr) slots []))"
    if "length bs = length ns" "length es = length ns"
      "\<forall>i<length ns. \<forall>b. es ! i = None \<longrightarrow> bbBlock (bs ! i) = Some b \<longrightarrow> bkNumber b = ns ! i" for bs es wa
    by (rule yields_bind [OF foldE3_spanBundle [OF that, of "[]"]]) (use rest in auto)
  show ?thesis unfolding fetchSpan_def
  proof (rule yields_after, rule yields_if)
    fix wa
    show "yields (list_all2 blockAt ns) (foldE (spanRest E wr) (map (\<lambda>n. (n, None)) ns) [])"
      using rest [of "map (\<lambda>n. (n, None)) ns"] by (simp add: comp_def slotAt_def)
    let ?call = "withRetry (waitRetry E) (client E (\<lambda>c. ccBlockBundles c ns wa))"
    show "yields (list_all2 blockAt ns) (bindE (attempt ?call) (\<lambda>res. case res of
            Inl e \<Rightarrow> ok (map (\<lambda>n. Inl (Wrap (fetchingBlock n) e)) ns)
          | Inr (bundles, errs) \<Rightarrow>
              bindE (foldE3 (spanBundle E wa) ns bundles errs []) (\<lambda>slots. foldE (spanRest E wr) slots [])))"
      unfolding yields_def [of _ "bindE (attempt ?call) _"] bindE_Inr
    proof (intro allI impI, elim exE conjE)
      fix s x s' res s1
      assume res: "attempt ?call s = (Inr res, s1)"
        and x: "(case res of
            Inl e \<Rightarrow> ok (map (\<lambda>n. Inl (Wrap (fetchingBlock n) e)) ns)
          | Inr (bundles, errs) \<Rightarrow>
              bindE (foldE3 (spanBundle E wa) ns bundles errs []) (\<lambda>slots. foldE (spanRest E wr) slots [])) s1 = (Inr x, s')"
      show "list_all2 blockAt ns x"
      proof (cases res)
        case (Inl e)
        then show ?thesis using x fail [of e] by auto
      next
        case (Inr y)
        obtain bs es where y: "y = (bs, es)" by (cases y)
        obtain w w' where "ccBlockBundles (eClient E) ns wa w = (Inr (bs, es), w')"
          using retried_client [OF attempt_result [OF res [unfolded Inr y]]] by blast
        then have "length bs = length ns \<and> length es = length ns \<and>
            (\<forall>i<length ns. \<forall>b. es ! i = None \<longrightarrow> bbBlock (bs ! i) = Some b \<longrightarrow> bkNumber b = ns ! i)"
          using assms unfolding numbersHonest_def by blast
        then have "yields (list_all2 blockAt ns)
            (bindE (foldE3 (spanBundle E wa) ns bs es []) (\<lambda>slots. foldE (spanRest E wr) slots []))"
          by (intro batch) auto
        then show ?thesis by (rule yields_run) (use x Inr y in simp)
      qed
    qed
  qed
qed

lemma slotHolds_blocks:
  assumes "numbersHonest E" and "list_all2 (slotHolds E wr spans) slots out" and "set slots \<subseteq> set (slotsOf spans)"
  shows "list_all2 blockAt (map (\<lambda>(k, i). spans ! k ! i) slots) out"
  using assms(2,3)
proof (induction rule: list_all2_induct)
  case (Cons slot slots r out)
  obtain k i where slot: "slot = (k, i)" by (cases slot)
  obtain rs where rs: "spanResult E wr (spans ! k) rs" "i < length rs" "rs ! i = r"
    using Cons.hyps slot by (auto simp: slotHolds_def)
  have "list_all2 blockAt (spans ! k) rs"
    using rs(1) yields_run [OF fetchSpan_blocks [OF assms(1)]] unfolding spanResult_def by blast
  then have "blockAt (spans ! k ! i) r" using rs(2,3) by (auto simp: list_all2_conv_all_nth)
  then show ?case using Cons slot by simp
qed simp

section \<open>Properties\<close>

text \<open>
  C26: termination and coverage of the loops over block numbers. As long as the announced head is
  not within a batch of the largest \<open>uint64\<close>, the loops return; the ascending one visits every
  number from \<open>lo\<close> to \<open>hi\<close> once, in order, the newest-first scan visits them in reverse, and the
  batches of a gap and the spans that the prefetcher cuts either sequence into are that same sequence
  in pieces of one to \<open>b\<close> numbers, all but the last of the spans full.
\<close>

theorem block_ranges_covered:
  assumes "0 < b" and "unat hi + b < 2 ^ 64"
  shows "\<exists>ns chunks. numbersUp lo hi = Some ns \<and> set ns = {lo..hi} \<and> distinct ns \<and> sorted ns \<and>
    gapChunks (of_nat b) lo hi = Some chunks \<and> concat chunks = ns \<and> (\<forall>c \<in> set chunks. 1 \<le> length c \<and> length c \<le> b) \<and>
    numbersDown hi lo = rev ns \<and>
    (\<forall>scan \<in> {ns, numbersDown hi lo}. concat (chunksOf b scan) = scan \<and>
       (\<forall>c \<in> set (chunksOf b scan). 1 \<le> length c \<and> length c \<le> b) \<and> (\<forall>c \<in> set (butlast (chunksOf b scan)). length c = b))"
proof -
  have top: "hi \<noteq> - 1" using assms u64_max by auto
  have inj: "unat (of_nat k :: u64) = k" if "k < Suc (unat hi)" for k
    using that by (intro u64_of_nat_inverse) (metis less_Suc_eq_le order_le_less_trans u64_bound)
  have "inj_on (of_nat :: nat \<Rightarrow> u64) {unat lo ..< Suc (unat hi)}"
    by (rule inj_on_inverseI [where g = unat]) (simp add: inj)
  then have d: "distinct (u64_upto lo hi)" by (simp add: u64_upto_def distinct_map del: upt_Suc)
  have s: "sorted (u64_upto lo hi)"
    unfolding u64_upto_def sorted_map
    by (rule sorted_wrt_mono_rel [OF _ sorted_upt]) (auto simp: word_le_nat_alt inj simp del: upt_Suc)
  have spans: "concat (chunksOf b scan) = scan \<and> (\<forall>c \<in> set (chunksOf b scan). 1 \<le> length c \<and> length c \<le> b) \<and>
      (\<forall>c \<in> set (butlast (chunksOf b scan)). length c = b)" for scan :: "u64 list"
    using chunksOf_concat chunksOf_size [OF assms(1)] chunksOf_full [OF assms(1)] by (auto simp: Suc_le_eq)
  obtain chunks where "gapChunks (of_nat b) lo hi = Some chunks" "concat chunks = u64_upto lo hi"
    "\<forall>c \<in> set chunks. 1 \<le> length c \<and> length c \<le> b"
    using gapChunks_cover [OF assms, of lo] by (auto simp: Suc_le_eq)
  then show ?thesis
    using numbersUp_all [OF top, of lo] numbersDown_all [of hi lo] d s set_u64_upto [of lo hi] spans by auto
qed

theorem block_ranges_covered_witness:
  "\<exists>ns chunks. numbersUp 5 12 = Some ns \<and> set ns = {5..12} \<and> gapChunks (of_nat 3) 5 12 = Some chunks \<and> concat chunks = ns \<and>
    numbersDown 12 5 = rev ns \<and> concat (chunksOf 3 (numbersDown 12 5)) = rev ns"
proof -
  have "0 < (3 :: nat)" "unat (12 :: u64) + 3 < 2 ^ 64" by simp_all
  from block_ranges_covered [OF this, of 5] show ?thesis by auto
qed

text \<open>
  C25: whatever spans the workers complete in whatever order, the consumer of a scan receives one
  result per block number, in the order of the scan, and with a node that answers for the number it
  was asked the result at each place is that block or the error fetching it: batching and
  concurrency never reorder, lose or mix up blocks.
\<close>

theorem prefetch_in_order:
  assumes "numbersHonest E" and "prefetchBlocks E ns wr collect [] s = (Inr out, s')"
  shows "list_all2 (\<lambda>n r. case r of Inl _ \<Rightarrow> True | Inr d \<Rightarrow> bkNumber (bdBlock d) = n) ns out"
proof -
  let ?spans = "chunksOf (batchBlocks E) ns"
  have "list_all2 blockAt (map (\<lambda>(k, i). ?spans ! k ! i) (slotsOf ?spans)) out"
    by (rule slotHolds_blocks [OF assms(1) prefetch_collect [OF assms(2)]]) simp
  then have "list_all2 blockAt ns out" by (simp only: slotsOf_in_order chunksOf_concat)
  then show ?thesis unfolding blockAt_def [abs_def] .
qed

lemma demo_block_answer:
  "demoAnswer (Request ''eth_getBlockByNumber'' [NumArg n, BoolArg True]) =
    (if n < 100 then (BlockVal (demoBlock n), None) else (Null, None))"
  by simp

lemma demo_client: "eClient demoEnv = rpcClient demoTransport"
  by (simp add: demoEnv_def)

lemma demoEnv_honest: "numbersHonest demoEnv"
  unfolding numbersHonest_def demo_client
proof (intro conjI allI impI)
  fix n w b and w' :: "event list" assume "ccBlockByNumber (rpcClient demoTransport) n w = (Inr b, w')"
  then show "bkNumber b = n"
    by (auto simp: rpcClient_def BlockByNumber_def getBlock_def bindE_def wire_def demoTransport_def demoBlock_def split: if_splits)
next
  fix n w bd b and w' :: "event list" assume "ccBlockBundleByNumber (rpcClient demoTransport) n w = (Inr bd, w')" "bbBlock bd = Some b"
  then show "bkNumber b = n"
    by (auto simp: rpcClient_def BlockBundleByNumber_def blockBundleCall_def bindE_def wire_def demoTransport_def demoBlock_def
        bundleWith_def split: if_splits)
next
  fix ns wr w bs es and w' :: "event list" assume r: "ccBlockBundles (rpcClient demoTransport) ns wr w = (Inr (bs, es), w')"
  let ?batch = "\<lambda>i. demoAnswer (concat (map (bundleRequests wr) ns) ! i)"
  have res: "bs = map fst (map (bundleAt wr (if wr then 2 else 1) ?batch) [0..<length ns])"
    "es = map snd (map (bundleAt wr (if wr then 2 else 1) ?batch) [0..<length ns])"
    using r by (auto simp: rpcClient_def BlockBundles_def bindE_def wire_def demoTransport_def Let_def)
  then show "length bs = length ns" "length es = length ns" by simp_all
  fix i b assume i: "i < length ns" and e: "es ! i = None" and b: "bbBlock (bs ! i) = Some b"
  have q: "concat (map (bundleRequests wr) ns) ! ((if wr then 2 else 1) * i) = Request ''eth_getBlockByNumber'' [NumArg (ns ! i), BoolArg True]"
    using bundle_requests_nth [OF i] by (cases wr) simp_all
  have at: "bundleAt wr (if wr then 2 else 1) ?batch i =
      (if ns ! i < 100 then (if wr then (bundleWith (demoBlock (ns ! i)) (asReceipts (fst (?batch ((if wr then 2 else 1) * i + 1))))
          (map_option goErr (snd (?batch ((if wr then 2 else 1) * i + 1)))), None)
        else (\<lparr>bbBlock = Some (demoBlock (ns ! i)), bbReceipts = [], bbReceiptsErr = None\<rparr>, None))
       else (emptyBundle, Some NotFound))"
    unfolding bundleAt_def q demo_block_answer by simp
  have "es ! i = snd (bundleAt wr (if wr then 2 else 1) ?batch i)" "bs ! i = fst (bundleAt wr (if wr then 2 else 1) ?batch i)"
    using i by (simp_all add: res)
  then show "bkNumber b = ns ! i"
    using e b unfolding at by (auto simp: demoBlock_def bundleWith_def split: if_splits)
qed

lemma demo_prefetch:
  "fst (prefetchBlocks demoEnv [5, 6, 7, 8] False collect [] (newIndexer demoEnv (\<lambda>n. int n) [])) =
    Inr [Inr (blockOnly (demoBlock 5)), Inr (blockOnly (demoBlock 6)), Inr (blockOnly (demoBlock 7)),
      Inr (blockOnly (demoBlock 8))]"
  by code_simp

theorem prefetch_in_order_witness:
  "list_all2 (\<lambda>n r. case r of Inl _ \<Rightarrow> True | Inr d \<Rightarrow> bkNumber (bdBlock d) = n) [5, 6, 7, 8]
    ([Inr (blockOnly (demoBlock 5)), Inr (blockOnly (demoBlock 6)), Inr (blockOnly (demoBlock 7)),
      Inr (blockOnly (demoBlock 8))] :: fetchResult list)"
proof -
  obtain s' where "prefetchBlocks demoEnv [5, 6, 7, 8] False collect [] (newIndexer demoEnv (\<lambda>n. int n) []) =
      (Inr [Inr (blockOnly (demoBlock 5)), Inr (blockOnly (demoBlock 6)), Inr (blockOnly (demoBlock 7)),
        Inr (blockOnly (demoBlock 8))], s')"
    using demo_prefetch by (metis prod.collapse)
  then show ?thesis by (rule prefetch_in_order [OF demoEnv_honest])
qed

lemma demo_name: "\<exists>name. Name (NewWatchedSet [7, 8] (fmupd 7 ''hot'' (fmupd 8 ''cold'' fmempty))) a = Inr name"
  using NewWatchedSet_correct [of "[7, 8]" "fmupd 7 ''hot'' (fmupd 8 ''cold'' fmempty)" a]
  by (simp add: rangeOrder_def)

lemma ForSide_total:
  assumes "\<And>a. \<exists>name. Name ws a = Inr name"
  shows "\<exists>name. ForSide ws src dst dir = Inr name"
proof -
  obtain x y where "Name ws src = Inr x" "Name ws dst = Inr y" using assms by blast
  then show ?thesis by (simp add: ForSide_def)
qed

lemma demoEnv_safe: "safeEnv demoEnv"
proof -
  have "\<exists>name. ForSide (mWatched demoMatcher) a b dir = Inr name" for a b dir
    by (rule ForSide_total) (simp add: demoMatcher_def NewMatcher_def demo_name)
  moreover have "chain_client (eClient demoEnv)"
    by (simp add: demoEnv_def rpc.chain_client_axioms)
  ultimately show ?thesis by (simp add: safeEnv_def demoEnv_def)
qed

end
