(* ===== verification/Delivered.thy ===== *)
theory Delivered
  imports Fetching
begin

text \<open>
  What reaches the sink. A run of the dispatch loop hands the sink every event the tracker returns,
  in order and unchanged but for the fields \<open>emitAll\<close> fills in; so the events delivered for a
  transaction are a walk through its lifecycle.
\<close>

section \<open>Traces of the tracker\<close>

inductive trackerTrace :: "hexcodec \<Rightarrow> tracker \<Rightarrow> event list \<Rightarrow> tracker \<Rightarrow> bool" for c t0 where
  start: "trackerTrace c t0 [] t0"
| step: "trackerTrace c t0 evs t \<Longrightarrow> trackerOpOK op t \<Longrightarrow>
    trackerTrace c t0 (evs @ fst (trackerExec c op t)) (snd (trackerExec c op t))"

lemma trackerTrace_trans: "trackerTrace c t1 evs' t2 \<Longrightarrow> trackerTrace c t0 evs t1 \<Longrightarrow> trackerTrace c t0 (evs @ evs') t2"
  by (induction rule: trackerTrace.induct) (auto simp: append_assoc [symmetric] simp del: append_assoc intro: trackerTrace.step)

lemma trackerTrace_op: "trackerOpOK op t \<Longrightarrow> trackerTrace c t (fst (trackerExec c op t)) (snd (trackerExec c op t))"
  using trackerTrace.step [OF trackerTrace.start] by simp

lemma trackerTrace_inv: "trackerTrace c t0 evs t \<Longrightarrow> trackerInv t0 \<Longrightarrow> trackerInv t"
  by (induction rule: trackerTrace.induct) (auto intro: trackerExec_inv)

text \<open>
  A walk through the lifecycle of one transaction, with the types of the events on the way: an edge
  with an event type delivers one event per leg, an edge without delivers none.
\<close>

inductive lifeWalk :: "phase \<Rightarrow> string list \<Rightarrow> phase \<Rightarrow> bool" for p where
  here: "lifeWalk p [] p"
| silent: "lifeWalk p tys q \<Longrightarrow> lifecycle q None r \<Longrightarrow> decays r r' \<Longrightarrow> lifeWalk p tys r'"
| event: "lifeWalk p tys q \<Longrightarrow> lifecycle q (Some ty) r \<Longrightarrow> decays r r' \<Longrightarrow> lifeWalk p (tys @ replicate (Suc legs) ty) r'"

definition typesOf :: "hexcodec \<Rightarrow> hash \<Rightarrow> event list \<Rightarrow> string list" where
  "typesOf c h evs = map evType (filter (\<lambda>e. evTxHash e = hashHex c h) evs)"

lemma typesOf_append: "typesOf c h (xs @ ys) = typesOf c h xs @ typesOf c h ys"
  by (simp add: typesOf_def)

lemma typesOf_set: "set (typesOf c h evs) = typesFor c h evs"
  by (auto simp: typesOf_def typesFor_def)

lemma trace_walks:
  assumes hex: "hexOK c"
  shows "trackerTrace c t0 evs t \<Longrightarrow> trackerInv t0 \<Longrightarrow> lifeWalk (phaseOf t0 h) (typesOf c h evs) (phaseOf t h)"
proof (induction rule: trackerTrace.induct)
  case start
  show ?case by (simp add: typesOf_def lifeWalk.here)
next
  case (step evs t op)
  let ?r = "trackerExec c op t"
  have walk: "lifeWalk (phaseOf t0 h) (typesOf c h evs) (phaseOf t h)" and inv: "trackerInv t"
    using step trackerTrace_inv by auto
  obtain e p where e: "lifecycle (phaseOf t h) e p" "decays p (phaseOf (snd ?r) h)" "set (typesOf c h (fst ?r)) = set_option e"
    using trackerExec_conforms [OF hex inv step.hyps(2), of h] unfolding conforms_def typesOf_set by blast
  show ?case
  proof (cases e)
    case None
    then show ?thesis using lifeWalk.silent [OF walk] e by (simp add: typesOf_append)
  next
    case (Some ty)
    obtain k where "length (typesOf c h (fst ?r)) = Suc k" using e(3) Some by (cases "typesOf c h (fst ?r)") auto
    moreover have "typesOf c h (fst ?r) = replicate (length (typesOf c h (fst ?r))) ty"
      using e(3) Some by (intro replicate_eqI) auto
    ultimately show ?thesis using lifeWalk.event [OF walk _ e(2), of ty k] e(1) Some by (simp add: typesOf_append)
  qed
qed

section \<open>Emitting\<close>

text \<open>What is left of an event without the fields \<open>emitAll\<close> fills in.\<close>

definition unstamped :: "event \<Rightarrow> event" where
  "unstamped ev = ev\<lparr>evIndexer := '''', evChainID := 0, evTimestamp := '''', evWallet := ''''\<rparr>"

text \<open>
  \<open>acts w evs w'\<close> says that the world went from \<open>w\<close> to \<open>w'\<close> while the sink was handed the events
  \<open>evs\<close> of this indexer. An environment delivers so when its sink, called with an event that bears
  the indexer's name, does just that, whatever it returns, and nothing else it offers does.
\<close>

definition delivering :: "('w \<Rightarrow> event list \<Rightarrow> 'w \<Rightarrow> bool) \<Rightarrow> 'w env \<Rightarrow> bool" where
  "delivering acts E \<longleftrightarrow> (\<forall>a xs b ys c. acts a xs b \<longrightarrow> acts b ys c \<longrightarrow> acts a (xs @ ys) c) \<and>
     quietWorld (\<lambda>w w'. acts w [] w') E \<and> quietSaves (\<lambda>w w'. acts w [] w') E \<and>
     (\<exists>sink. eSink E = Some sink \<and> (\<forall>ev w. evIndexer ev = icName (eCfg E) \<longrightarrow> acts w [ev] (snd (sink ev w))))"

definition labelled :: "'w env \<Rightarrow> bool" where
  "labelled E \<longleftrightarrow> (\<forall>src dst dir. \<exists>name. ForSide (mWatched (eMatcher E)) src dst dir = Inr name)"

text \<open>Events handed over, up to the fields that are filled in.\<close>

definition handsOver :: "('w \<Rightarrow> event list \<Rightarrow> 'w \<Rightarrow> bool) \<Rightarrow> event list \<Rightarrow> 'w \<Rightarrow> 'w \<Rightarrow> bool" where
  "handsOver acts evs w w' \<longleftrightarrow> (\<exists>new. acts w new w' \<and> map unstamped new = map unstamped evs)"

lemma handsOver_append:
  "delivering acts E \<Longrightarrow> handsOver acts xs a b \<Longrightarrow> handsOver acts ys b c \<Longrightarrow> handsOver acts (xs @ ys) a c"
  unfolding handsOver_def delivering_def by (metis map_append)

lemma handsOver_one: "acts w [ev'] w' \<Longrightarrow> unstamped ev' = unstamped ev \<Longrightarrow> handsOver acts [ev] w w'"
  unfolding handsOver_def by (intro exI [of _ "[ev']"]) simp

lemma handsOver_none: "acts w [] w' \<Longrightarrow> handsOver acts [] w w'"
  unfolding handsOver_def by (intro exI [of _ "[]"]) simp

lemma delivering_quiet: "delivering acts E \<Longrightarrow> quiet_world E (\<lambda>w w'. acts w [] w')"
  by (simp add: delivering_def quiet_world_def)

lemma delivering_trans: "delivering acts E \<Longrightarrow> acts a xs b \<Longrightarrow> acts b ys c \<Longrightarrow> acts a (xs @ ys) c"
  unfolding delivering_def by blast

context quiet_world
begin

lemma steady_clock: "clock E s = (r, s') \<Longrightarrow> steady same s s'" and steady_log: "logEvent E ev s = (r', s') \<Longrightarrow> steady same s s'"
  and steady_persist: "quietSaves same E \<Longrightarrow> persistEvents E evs s = (r', s') \<Longrightarrow> steady same s s'"
  using frame.within_run frame_clock frame_log frame_persist by blast+

lemma steady_reported:
  assumes "(case err of None \<Rightarrow> ok () | Some e \<Rightarrow> logError E msg (attrs e)) s = (r, s')"
  shows "steady same s s'"
proof -
  have "frame.within (case err of None \<Rightarrow> ok () | Some e \<Rightarrow> logError E msg (attrs e))"
    by (intro frame.within_rules frame_error)
  then show ?thesis using assms by (rule frame.within_run)
qed

end

lemma logEvent_returns: "\<exists>s'. logEvent E ev s = (Inr (), s')"
proof -
  have "\<exists>as s'. sinceMined E ev s = (Inr as, s')"
    by (cases "eNow E (ixWorld s)") (auto simp: sinceMined_def bindE_def clock_def split: option.split)
  then show ?thesis by (auto simp: logEvent_def bindE_def world_def)
qed

lemma emitOne_hands:
  assumes del: "delivering acts E" and lab: "labelled E"
  shows "\<exists>s'. emitOne E ev s = (Inr (), s') \<and> ixTracker s' = ixTracker s \<and> handsOver acts [ev] (ixWorld s) (ixWorld s')"
proof -
  note q = delivering_quiet [OF del]
  obtain name where name: "ForSide (mWatched (eMatcher E)) (HexToAddress (eCodec E) (evFrom ev))
      (HexToAddress (eCodec E) (evTo ev)) (evDirection ev) = Inr name" using lab unfolding labelled_def by blast
  obtain sink where sink: "eSink E = Some sink" "\<And>ev w. evIndexer ev = icName (eCfg E) \<Longrightarrow> acts w [ev] (snd (sink ev w))"
    using del unfolding delivering_def by blast
  obtain now s1 where s1: "clock E s = (Inr now, s1)" by (cases "eNow E (ixWorld s)") (simp add: clock_def)
  let ?ev = "stamp E now name ev"
  obtain s2 where s2: "logEvent E ?ev s1 = (Inr (), s2)" using logEvent_returns by blast
  note st = quiet_world.steady_clock [OF q s1] quiet_world.steady_log [OF q s2]
  let ?s3 = "s2\<lparr>ixWorld := snd (sink ?ev (ixWorld s2))\<rparr>"
  obtain s4 where s4: "(case fst (sink ?ev (ixWorld s2)) of None \<Rightarrow> ok () | Some e \<Rightarrow> logError E ''emitting event'' [ErrAttr ''err'' e]) ?s3 = (Inr (), s4)"
    by (cases "fst (sink ?ev (ixWorld s2))") (simp_all add: logError_def world_def)
  have run: "emitOne E ev s = (Inr (), s4)"
    using s4 by (simp add: emitOne_def bindE_def s1 name s2 toSink_def sink world_def split_def)
  have "steady (\<lambda>w w'. acts w [] w') ?s3 s4"
    by (rule quiet_world.steady_reported [OF q s4])
  moreover have "acts (ixWorld s2) [?ev] (ixWorld ?s3)" by (simp add: sink stamp_def)
  ultimately have "acts (ixWorld s) ([] @ [] @ [?ev] @ []) (ixWorld s4)"
    using st by (intro delivering_trans [OF del]) (auto simp: steady_def)
  moreover have "unstamped ?ev = unstamped ev" by (simp add: unstamped_def stamp_def)
  ultimately show ?thesis using run st \<open>steady _ ?s3 s4\<close> by (auto simp: steady_def intro: handsOver_one)
qed

lemma emitAll_hands:
  assumes del: "delivering acts E" and lab: "labelled E"
  shows "ixTracker (snd (emitAll E evs s)) = ixTracker s \<and> handsOver acts evs (ixWorld s) (ixWorld (snd (emitAll E evs s)))"
proof -
  note q = delivering_quiet [OF del]
  have "\<exists>s'. forEach (emitOne E) evs s = (Inr (), s') \<and> ixTracker s' = ixTracker s \<and> handsOver acts evs (ixWorld s) (ixWorld s')" for s
  proof (induction evs arbitrary: s)
    case Nil
    show ?case using quiet_world.same_refl [OF q] by (simp add: handsOver_none)
  next
    case (Cons ev evs)
    obtain s1 where s1: "emitOne E ev s = (Inr (), s1)" "ixTracker s1 = ixTracker s" "handsOver acts [ev] (ixWorld s) (ixWorld s1)"
      using emitOne_hands [OF assms] by blast
    then show ?case using Cons.IH [of s1] handsOver_append [OF del s1(3)] by (auto simp: bindE_def)
  qed
  then obtain s1 where s1: "forEach (emitOne E) evs s = (Inr (), s1)" "ixTracker s1 = ixTracker s"
    "handsOver acts evs (ixWorld s) (ixWorld s1)" by blast
  obtain r s2 where s2: "persistEvents E evs s1 = (r, s2)" by (cases "persistEvents E evs s1")
  have st: "steady (\<lambda>w w'. acts w [] w') s1 s2" using del s2 by (intro quiet_world.steady_persist [OF q]) (simp_all add: delivering_def)
  then have "handsOver acts (evs @ []) (ixWorld s) (ixWorld s2)"
    by (intro handsOver_append [OF del s1(3)] handsOver_none) (simp add: steady_def)
  moreover have "emitAll E evs s = (r, s2)" by (simp add: emitAll_def bindE_def s1 s2)
  ultimately show ?thesis using s1 st by (simp add: steady_def)
qed

section \<open>Runs\<close>

text \<open>What a piece of code may do: move the tracker along a trace whose events the sink is handed.\<close>

definition delivers :: "('w \<Rightarrow> event list \<Rightarrow> 'w \<Rightarrow> bool) \<Rightarrow> hexcodec \<Rightarrow> 'w indexer \<Rightarrow> 'w indexer \<Rightarrow> bool" where
  "delivers acts c s s' \<longleftrightarrow> (trackerInv (ixTracker s) \<longrightarrow>
     (\<exists>evs. trackerTrace c (ixTracker s) evs (ixTracker s') \<and> handsOver acts evs (ixWorld s) (ixWorld s')))"

lemma deliversI: "trackerTrace c (ixTracker s) evs (ixTracker s') \<Longrightarrow> handsOver acts evs (ixWorld s) (ixWorld s') \<Longrightarrow>
    delivers acts c s s'"
  unfolding delivers_def by blast

lemma delivers_silent: "trackerTrace c (ixTracker s) [] (ixTracker s') \<Longrightarrow> acts (ixWorld s) [] (ixWorld s') \<Longrightarrow>
    delivers acts c s s'"
  by (rule deliversI [OF _ handsOver_none])

lemma delivers_trans:
  assumes "delivering acts E" and "delivers acts c s0 s1" and "delivers acts c s1 s2"
  shows "delivers acts c s0 s2"
  unfolding delivers_def
proof
  assume inv: "trackerInv (ixTracker s0)"
  obtain evs where 1: "trackerTrace c (ixTracker s0) evs (ixTracker s1)" "handsOver acts evs (ixWorld s0) (ixWorld s1)"
    using assms(2) inv unfolding delivers_def by blast
  obtain evs' where 2: "trackerTrace c (ixTracker s1) evs' (ixTracker s2)" "handsOver acts evs' (ixWorld s1) (ixWorld s2)"
    using assms(3) trackerTrace_inv [OF 1(1) inv] unfolding delivers_def by blast
  show "\<exists>evs. trackerTrace c (ixTracker s0) evs (ixTracker s2) \<and> handsOver acts evs (ixWorld s0) (ixWorld s2)"
    using trackerTrace_trans [OF 2(1) 1(1)] handsOver_append [OF assms(1) 1(2) 2(2)] by blast
qed

lemma delivers_relation:
  fixes E :: "'w env"
  assumes del: "delivering acts E" and lab: "labelled E"
  shows "indexer_relation E (\<lambda>w w'. acts w [] w') (delivers acts (eCodec E))"
proof -
  have refl: "acts w [] w" for w using quiet_world.same_refl [OF delivering_quiet [OF del]] .
  show ?thesis
  proof unfold_locales
    show "quietWorld (\<lambda>w w'. acts w [] w') E" using del by (simp add: delivering_def)
    show "delivers acts (eCodec E) s s" for s :: "'w indexer"
      by (intro delivers_silent refl trackerTrace.start)
    show "delivers acts (eCodec E) s s'" if "steady (\<lambda>w w'. acts w [] w') s s'" for s s' :: "'w indexer"
      using that by (intro delivers_silent) (simp_all add: steady_def trackerTrace.start)
    show "delivers acts (eCodec E) s (s\<lparr>ixChain := ch\<rparr>)" for ch and s :: "'w indexer"
      by (intro delivers_silent) (simp_all add: trackerTrace.start refl)
    show "delivers acts (eCodec E) s (snd (bindE (track (trackerExec (eCodec E) op)) (emitAll E) s))"
      if "trackerOpOK op (ixTracker s)" for op and s :: "'w indexer"
      using emitAll_hands [OF assms, of "fst (trackerExec (eCodec E) op (ixTracker s))"
          "s\<lparr>ixTracker := snd (trackerExec (eCodec E) op (ixTracker s))\<rparr>"] trackerTrace_op [OF that, of "eCodec E"]
      by (auto simp: bindE_def track_def split_def intro: deliversI)
    show "delivers acts (eCodec E) s (s\<lparr>ixTracker := snd (trackerExec (eCodec E) op (ixTracker s))\<rparr>)"
      if "trackerOpOK op (ixTracker s)" and "fst (trackerExec (eCodec E) op (ixTracker s)) = []" for op and s :: "'w indexer"
      using trackerTrace_op [OF that(1), of "eCodec E"] that(2) by (intro delivers_silent) (simp_all add: refl)
    show "delivers acts (eCodec E) s s'" if "trackerInv (ixTracker s) \<Longrightarrow> delivers acts (eCodec E) s s'" for s s' :: "'w indexer"
      using that unfolding delivers_def by blast
  qed (rule delivers_trans [OF del])
qed

lemma typesOf_unstamped:
  assumes "map unstamped xs = map unstamped ys"
  shows "typesOf c h xs = typesOf c h ys"
proof -
  have "map (\<lambda>e. (evTxHash e, evType e)) zs = map (\<lambda>e. (evTxHash e, evType e)) (map unstamped zs)" for zs
    by (simp add: unstamped_def)
  then have "map (\<lambda>e. (evTxHash e, evType e)) xs = map (\<lambda>e. (evTxHash e, evType e)) ys" using assms by metis
  moreover have "typesOf c h zs = map snd (filter (\<lambda>p. fst p = hashHex c h) (map (\<lambda>e. (evTxHash e, evType e)) zs))" for zs
    by (simp add: typesOf_def filter_map o_def)
  ultimately show ?thesis by simp
qed

lemma run_delivers:
  assumes "ordersOK E" and "receiptsOK E" and "liveOK E" and "\<forall>sn \<in> set sns. scriptOK sn"
    and "delivering acts E" and "labelled E" and "hexOK (eCodec E)" and "trackerInv (ixTracker s)"
    and s': "s' = snd (runLoop E sns backoff s)"
  obtains evs new where "trackerTrace (eCodec E) (ixTracker s) evs (ixTracker s')" and "acts (ixWorld s) new (ixWorld s')"
    and "map unstamped new = map unstamped evs"
    and "\<And>h. lifeWalk (phaseOf (ixTracker s) h) (typesOf (eCodec E) h new) (phaseOf (ixTracker s') h)"
proof -
  note rel = delivers_relation [OF assms(5,6)]
  have "delivers acts (eCodec E) s s'"
    using indexer_relation.within_runLoop [OF rel assms(1-4)] indexer_relation.axioms(2) [OF rel]
    by (simp add: state_relation.within_def s')
  then obtain evs new where *: "trackerTrace (eCodec E) (ixTracker s) evs (ixTracker s')"
      "acts (ixWorld s) new (ixWorld s')" "map unstamped new = map unstamped evs"
    using assms(8) unfolding delivers_def handsOver_def by blast
  have "lifeWalk (phaseOf (ixTracker s) h) (typesOf (eCodec E) h new) (phaseOf (ixTracker s') h)" for h
    using trace_walks [OF assms(7) *(1) assms(8)] typesOf_unstamped [OF *(3)] by simp
  then show thesis using * that by blast
qed

section \<open>A quiet client\<close>

text \<open>The indexer's own client leaves alone whatever its transport leaves alone.\<close>

definition quietTransport :: "('w \<Rightarrow> 'w \<Rightarrow> bool) \<Rightarrow> 'w transport \<Rightarrow> bool" where
  "quietTransport same T \<longleftrightarrow> (\<forall>r w. same w (snd (rtCall T r w))) \<and> (\<forall>rs w. same w (snd (rtBatch T rs w))) \<and>
     (\<forall>w. same w (snd (rtChainID T w))) \<and> (\<forall>h w. same w (snd (rtReceipt T h w)))"

context state_relation
begin

lemma within_wire: "(\<And>w. R w (snd (m w))) \<Longrightarrow> within (wire m)"
  by (simp add: within_def wire_def split_def split: sum.split)

lemma within_batch: "quietTransport R T \<Longrightarrow> (\<And>b. within (f b)) \<Longrightarrow> within (bindE (wire (rtBatch T rs)) f)"
  by (intro within_bind within_wire) (simp add: quietTransport_def)

lemma within_call: "quietTransport R T \<Longrightarrow> (\<And>v. within (f v)) \<Longrightarrow> within (bindE (wire (rtCall T r)) f)"
  by (intro within_bind within_wire) (simp add: quietTransport_def)

lemma rpcClient_quiet:
  assumes T: "quietTransport R T"
  shows "quietClient R (rpcClient T)"
proof -
  note rules = within_rules within_call [OF T] within_batch [OF T]
  have pointers: "within (TransactionReceipts T hs)" "within (TransactionsByHash T hs)" "within (HeaderRefsByNumbers T ns)" for hs ns
    unfolding TransactionReceipts_def TransactionsByHash_def HeaderRefsByNumbers_def pointerBatch_def by (intro rules)+
  have "within (wire (rtChainID T))" "within (wire (rtReceipt T h))" for h
    using T by (auto intro!: within_wire simp: quietTransport_def)
  moreover have "within (getBlock T meth arg)" "within (blockBundleCall T meth arg arg)" "within (BlockReceipts T h)"
      "within (BlockNumberByTag T tag)" "within (BlockBundles T ns wr)" "within (FilterLogsBatch T qs)" for meth arg h tag ns wr qs
    unfolding getBlock_def blockBundleCall_def BlockReceipts_def BlockNumberByTag_def BlockBundles_def FilterLogsBatch_def Let_def
    by (intro rules)+
  ultimately show ?thesis
    using pointers by (simp add: quietClient_def rpcClient_def keeps_def within_def BlockByHash_def BlockByNumber_def
        BlockBundleByNumber_def BlockBundleByHash_def)
qed

end

section \<open>Sinks\<close>

text \<open>A sink that appends to a record of what it was handed, which nothing else writes.\<close>

definition recordingSink :: "('w \<Rightarrow> event list) \<Rightarrow> 'w env \<Rightarrow> bool" where
  "recordingSink delivered E \<longleftrightarrow> quietWorld (\<lambda>w w'. delivered w' = delivered w) E \<and>
     quietSaves (\<lambda>w w'. delivered w' = delivered w) E \<and>
     (\<exists>sink. eSink E = Some sink \<and>
        (\<forall>ev w. evIndexer ev = icName (eCfg E) \<longrightarrow> delivered (snd (sink ev w)) = delivered w @ [ev]))"

lemma recording_delivers: "recordingSink delivered E \<Longrightarrow> delivering (\<lambda>w evs w'. delivered w' = delivered w @ evs) E"
  by (auto simp: recordingSink_def delivering_def)

text \<open>
  A hub: the sink is its \<open>Emit\<close>, perhaps with operations of other goroutines around it, and between
  two events of this indexer the hub changes only by its operations (new subscribers, receives,
  events of other indexers).
\<close>

definition ownEvents :: "string \<Rightarrow> hubOp list \<Rightarrow> event list" where
  "ownEvents name ops = filter (\<lambda>ev. evIndexer ev = name) (emittedIn ops)"

definition hubActs :: "string \<Rightarrow> ('w \<Rightarrow> hub) \<Rightarrow> 'w \<Rightarrow> event list \<Rightarrow> 'w \<Rightarrow> bool" where
  "hubActs name hubOf w evs w' \<longleftrightarrow> (\<exists>ops. hubRun ops (hubOf w) = Some (hubOf w') \<and> ownEvents name ops = evs)"

definition hubSink :: "('w \<Rightarrow> hub) \<Rightarrow> 'w env \<Rightarrow> bool" where
  "hubSink hubOf E \<longleftrightarrow> quietWorld (\<lambda>w w'. hubActs (icName (eCfg E)) hubOf w [] w') E \<and>
     quietSaves (\<lambda>w w'. hubActs (icName (eCfg E)) hubOf w [] w') E \<and>
     (\<exists>sink. eSink E = Some sink \<and>
        (\<forall>ev w. evIndexer ev = icName (eCfg E) \<longrightarrow> hubActs (icName (eCfg E)) hubOf w [ev] (snd (sink ev w))))"

lemma hubActs_trans:
  assumes "hubActs name hubOf a xs b" and "hubActs name hubOf b ys c"
  shows "hubActs name hubOf a (xs @ ys) c"
proof -
  obtain o1 o2 where "hubRun o1 (hubOf a) = Some (hubOf b)" "ownEvents name o1 = xs"
    "hubRun o2 (hubOf b) = Some (hubOf c)" "ownEvents name o2 = ys" using assms unfolding hubActs_def by blast
  then show ?thesis unfolding hubActs_def
    by (intro exI [of _ "o1 @ o2"]) (simp add: hubRun_append ownEvents_def emittedIn_def)
qed

lemma hub_delivers: "hubSink hubOf E \<Longrightarrow> delivering (hubActs (icName (eCfg E)) hubOf) E"
  by (auto simp: hubSink_def delivering_def intro: hubActs_trans)

section \<open>Property\<close>

text \<open>
  C2: from the node to the sink. Over any run of the dispatch loop, with live matches that come one
  transaction at a time, a node that answers with anything but whose receipts carry only logs of the
  transaction asked for, a store that answers with anything and a sink that may fail, the sink is handed every event of the tracker's
  operations, once, in order, and changed only in the indexer's name, its chain id, the
  timestamp and the wallet label. For each transaction, the types of the delivered events spell a walk
  through its lifecycle, from the phase the tracker had it in to the phase it has it in now, one
  event per leg and edge: only a mined transaction is reported reorged, only a pending one dropped or
  replaced, and nothing follows a confirmation while the tracker remembers it.
\<close>

theorem delivered_lifecycle:
  assumes "ordersOK E" and "receiptsOK E" and "liveOK E" and "\<forall>sn \<in> set sns. scriptOK sn"
    and "recordingSink delivered E" and "labelled E" and "hexOK (eCodec E)" and "trackerInv (ixTracker s)"
  shows "let s' = snd (runLoop E sns backoff s) in
    \<exists>evs new. trackerTrace (eCodec E) (ixTracker s) evs (ixTracker s') \<and>
      delivered (ixWorld s') = delivered (ixWorld s) @ new \<and> map unstamped new = map unstamped evs \<and>
      (\<forall>h. lifeWalk (phaseOf (ixTracker s) h) (typesOf (eCodec E) h new) (phaseOf (ixTracker s') h))"
proof -
  obtain evs new where "trackerTrace (eCodec E) (ixTracker s) evs (ixTracker (snd (runLoop E sns backoff s)))"
    "delivered (ixWorld (snd (runLoop E sns backoff s))) = delivered (ixWorld s) @ new" "map unstamped new = map unstamped evs"
    "\<And>h. lifeWalk (phaseOf (ixTracker s) h) (typesOf (eCodec E) h new) (phaseOf (ixTracker (snd (runLoop E sns backoff s))) h)"
    using run_delivers [OF assms(1-4) recording_delivers [OF assms(5)] assms(6-8) refl] by blast
  then show ?thesis unfolding Let_def by blast
qed

lemma demoEnv_recording: "recordingSink (\<lambda>w. w) demoEnv"
proof -
  have "state_relation (\<lambda>w w' :: event list. w' = w)" by unfold_locales auto
  moreover have "quietTransport (\<lambda>w w'. w' = w) demoTransport" by (simp add: quietTransport_def demoTransport_def)
  ultimately have "quietClient (\<lambda>w w' :: event list. w' = w) (eClient demoEnv)"
    using state_relation.rpcClient_quiet by (simp add: demoEnv_def)
  then show ?thesis by (simp add: recordingSink_def quietWorld_def quietSaves_def demoEnv_def)
qed

lemma demoEnv_labelled: "labelled demoEnv"
  using demoEnv_safe by (simp add: labelled_def safeEnv_def)

theorem delivered_lifecycle_witness:
  "let s' = snd (runLoop demoEnv
     [\<lparr>snDialErr = None, snSubscribeErr = None, snInputs = [InLive (LiveMatches [demoLeg 1]), InHeadErr (ErrText ''gone'')]\<rparr>]
     backoffMin (newIndexer demoEnv (\<lambda>n. int n) []))
   in lifeWalk Unknown (typesOf decimalCodec (mTxHash (demoLeg 1)) (ixWorld s')) (phaseOf (ixTracker s') (mTxHash (demoLeg 1)))"
proof -
  let ?sn = "\<lparr>snDialErr = None, snSubscribeErr = None, snInputs = [InLive (LiveMatches [demoLeg 1]), InHeadErr (ErrText ''gone'')]\<rparr>"
  let ?s = "newIndexer demoEnv (\<lambda>n. int n) []"
  have s: "ixTracker ?s = NewTracker (icConfirmations (eCfg demoEnv)) (icPendingTimeout (eCfg demoEnv)) (\<lambda>n. int n)" "ixWorld ?s = []"
    by (simp_all add: newIndexer_def)
  have "scriptOK ?sn" by (simp add: scriptOK_def oneTx_def)
  moreover have "hexOK (eCodec demoEnv)" "eCodec demoEnv = decimalCodec" using decimalCodec_OK by (simp_all add: demoEnv_def)
  moreover have "phaseOf (ixTracker ?s) h = Unknown" for h by (simp add: s phaseOf_def NewTracker_def)
  ultimately show ?thesis
    using delivered_lifecycle [OF demoEnv_orders demoEnv_receipts demoEnv_live _ demoEnv_recording demoEnv_labelled, of "[?sn]" ?s backoffMin]
      trackerInv_new s by (auto simp: Let_def)
qed

text \<open>
  C3: from the node to a subscriber of the hub. Take a subscriber just registered, with any
  others, and run the dispatch loop of an indexer that emits into the hub (its receipts carry only
  logs of the transaction asked for, its live matches come one transaction at a time) while other goroutines
  subscribe, cancel, receive and emit the events of other indexers in between. Of the events of this
  indexer, what the subscriber has received or has waiting spells, for each transaction, a beginning
  of a walk through its lifecycle; and as long as it is registered the whole walk, up to the phase
  in which the tracker has the transaction now.
\<close>

theorem subscriber_follows_lifecycle:
  assumes "ordersOK E" and "receiptsOK E" and "liveOK E" and "\<forall>sn \<in> set sns. scriptOK sn"
    and "hubSink hubOf E" and "labelled E" and "hexOK (eCodec E)" and "trackerInv (ixTracker s)"
    and "hubRun before NewHub = Some h0" and "length (hubChans h0) + 1 < 2 ^ 64"
    and "Subscribe buffer h0 = ((ch, i), hubOf (ixWorld s))"
  shows "let s' = snd (runLoop E sns backoff s); hub' = hubOf (ixWorld s') in
    \<exists>ops. hubRun ops (hubOf (ixWorld s)) = Some hub' \<and>
      (let own = filter (\<lambda>ev. evIndexer ev = icName (eCfg E));
           got = own (receivedBy ch ops (hubOf (ixWorld s)) @ subQueue (subscriberOf ch hub'))
       in \<forall>h. \<exists>walk. lifeWalk (phaseOf (ixTracker s) h) walk (phaseOf (ixTracker s') h) \<and>
            prefix (typesOf (eCodec E) h got) walk \<and>
            (fmlookup (hubSubs hub') i = Some ch \<longrightarrow> typesOf (eCodec E) h got = walk))"
proof -
  let ?s' = "snd (runLoop E sns backoff s)" and ?own = "filter (\<lambda>ev. evIndexer ev = icName (eCfg E))"
  obtain evs new where "hubActs (icName (eCfg E)) hubOf (ixWorld s) new (ixWorld ?s')"
    and walk: "\<And>h. lifeWalk (phaseOf (ixTracker s) h) (typesOf (eCodec E) h new) (phaseOf (ixTracker ?s') h)"
    using run_delivers [OF assms(1-4) hub_delivers [OF assms(5)] assms(6-8) refl] by blast
  then obtain ops where ops: "hubRun ops (hubOf (ixWorld s)) = Some (hubOf (ixWorld ?s'))" "?own (emittedIn ops) = new"
    unfolding hubActs_def ownEvents_def by blast
  let ?got = "receivedBy ch ops (hubOf (ixWorld s)) @ subQueue (subscriberOf ch (hubOf (ixWorld ?s')))"
  have stream: "prefix ?got (emittedIn ops)" "fmlookup (hubSubs (hubOf (ixWorld ?s'))) i = Some ch \<longrightarrow> ?got = emittedIn ops"
    using subscriber_stream [OF assms(9-11) ops(1)] by blast+
  have "prefix (typesOf (eCodec E) h (?own ?got)) (typesOf (eCodec E) h new)" for h
    using stream(1) unfolding ops(2) [symmetric] by (auto simp: prefix_def typesOf_def)
  moreover have "fmlookup (hubSubs (hubOf (ixWorld ?s'))) i = Some ch \<longrightarrow> typesOf (eCodec E) h (?own ?got) = typesOf (eCodec E) h new" for h
    using stream(2) unfolding ops(2) [symmetric] by metis
  ultimately show ?thesis using ops(1) walk unfolding Let_def by blast
qed

text \<open>The demo environment with a hub as its sink, and one subscriber with room for four events.\<close>

definition hubEnv :: "hub env" where
  "hubEnv = \<lparr>eCfg = demoConfig, eCodec = decimalCodec, eMatcher = demoMatcher, eTokenOrder = [], eWatchedOrder = [],
     eClient = rpcClient demoTransport, eSink = Some (\<lambda>ev h. hubEmit (sorted_list_of_fset (fmdom (hubSubs h))) ev h),
     eStore = None, eResume = False, eFullEventLogs = False, eLogLine = (\<lambda>_ _ w. w), eNow = (\<lambda>w. (1000, w)),
     eWait = (\<lambda>w. (None, w)), eTxOrder = (\<lambda>_ t. sorted_list_of_fset (fmdom (trTxs t))), eCtx = (\<lambda>w. (None, w)),
     eLive = (\<lambda>w. ([], w)), eSchedule = (\<lambda>w. ([1, 0], w))\<rparr>"

lemma hubEnv_sink: "hubSink (\<lambda>h. h) hubEnv"
proof -
  let ?name = "icName (eCfg hubEnv)"
  have none: "hubActs ?name (\<lambda>h. h) h [] h" for h
    unfolding hubActs_def by (intro exI [of _ "[]"]) (simp add: ownEvents_def emittedIn_def)
  have emit: "hubActs ?name (\<lambda>h. h) h [ev] (snd (hubEmit (sorted_list_of_fset (fmdom (hubSubs h))) ev h))" if "evIndexer ev = ?name" for ev h
    unfolding hubActs_def using that
    by (intro exI [of _ "[OpEmit (sorted_list_of_fset (fmdom (hubSubs h))) ev]"])
      (simp add: ownEvents_def emittedIn_def rangeOrder_def fmdom'_alt_def sorted_list_of_fset.rep_eq)
  have rel: "state_relation (\<lambda>w w'. hubActs ?name (\<lambda>h. h) w [] w')"
  proof unfold_locales
    fix a b c :: hub
    assume "hubActs ?name (\<lambda>h. h) a [] b" "hubActs ?name (\<lambda>h. h) b [] c"
    then show "hubActs ?name (\<lambda>h. h) a [] c" using hubActs_trans [of ?name "\<lambda>h. h" a "[]" b "[]" c] by simp
  qed (rule none)
  moreover have "quietTransport (\<lambda>w w'. hubActs ?name (\<lambda>h. h) w [] w') demoTransport"
    by (simp add: quietTransport_def demoTransport_def none)
  ultimately have "quietClient (\<lambda>w w'. hubActs ?name (\<lambda>h. h) w [] w') (eClient hubEnv)"
    using state_relation.rpcClient_quiet by (simp add: hubEnv_def)
  then have "quietWorld (\<lambda>w w'. hubActs ?name (\<lambda>h. h) w [] w') hubEnv"
    using state_relation.rel_trans [OF rel] none unfolding quietWorld_def by (simp add: hubEnv_def) 
  then show ?thesis using emit unfolding hubSink_def by (simp add: hubEnv_def quietSaves_def)
qed

lemma hubEnv_labelled: "labelled hubEnv"
  using demoEnv_labelled by (simp add: labelled_def hubEnv_def demoEnv_def)

theorem subscriber_follows_lifecycle_witness:
  "let hub0 = snd (Subscribe 4 NewHub);
       s' = snd (runLoop hubEnv
         [\<lparr>snDialErr = None, snSubscribeErr = None, snInputs = [InLive (LiveMatches [demoLeg 1]), InHeadErr (ErrText ''gone'')]\<rparr>]
         backoffMin (newIndexer hubEnv (\<lambda>n. int n) hub0))
   in \<exists>ops walk. hubRun ops hub0 = Some (ixWorld s') \<and> lifeWalk Unknown walk (phaseOf (ixTracker s') (mTxHash (demoLeg 1))) \<and>
     prefix (typesOf decimalCodec (mTxHash (demoLeg 1))
       (filter (\<lambda>ev. evIndexer ev = ''demo'') (receivedBy 0 ops hub0 @ subQueue (subscriberOf 0 (ixWorld s'))))) walk"
proof -
  let ?sn = "\<lparr>snDialErr = None, snSubscribeErr = None, snInputs = [InLive (LiveMatches [demoLeg 1]), InHeadErr (ErrText ''gone'')]\<rparr>"
  let ?hub = "snd (Subscribe 4 NewHub)"
  let ?s = "newIndexer hubEnv (\<lambda>n. int n) ?hub"
  have s: "ixTracker ?s = NewTracker (icConfirmations (eCfg hubEnv)) (icPendingTimeout (eCfg hubEnv)) (\<lambda>n. int n)" "ixWorld ?s = ?hub"
    by (simp_all add: newIndexer_def)
  have E: "eCodec hubEnv = decimalCodec" "icName (eCfg hubEnv) = ''demo''" by (simp_all add: hubEnv_def demoConfig_def)
  have "ordersOK hubEnv" "receiptsOK hubEnv" "liveOK hubEnv"
    by (simp_all add: sorted_orders demoTransport_receipts liveOK_def hubEnv_def)
  moreover have "\<forall>sn \<in> set [?sn]. scriptOK sn" by (simp add: scriptOK_def oneTx_def)
  moreover have "hexOK (eCodec hubEnv)" "trackerInv (ixTracker ?s)" using decimalCodec_OK trackerInv_new by (simp_all add: E s)
  moreover have "hubRun [] NewHub = Some NewHub" "length (hubChans NewHub) + 1 < 2 ^ 64" "Subscribe 4 NewHub = ((0, 0), ixWorld ?s)"
    unfolding s(2) by (simp_all add: NewHub_def Subscribe_def)
  moreover have "phaseOf (ixTracker ?s) h = Unknown" for h by (simp add: s phaseOf_def NewTracker_def)
  ultimately show ?thesis
    using subscriber_follows_lifecycle [OF _ _ _ _ hubEnv_sink hubEnv_labelled, of "[?sn]" ?s "[]" NewHub 4 0 0 backoffMin]
    unfolding Let_def E s(2) by metis
qed

end
