(* ===== verification/Silent.thy ===== *)
theory Silent
  imports Lifecycle
begin

text \<open>
  What the tracker does without saying so. An operation of internal/indexer/tracker.go that returns
  no event of a transaction leaves its record alone, but for two changes to a pending record: its
  staleness timer may start anew, and it may go when its block has no transfer in it.
\<close>

section \<open>Silent changes\<close>

definition silentChange :: "trackedTx option \<Rightarrow> trackedTx option \<Rightarrow> bool" where
  "silentChange old new \<longleftrightarrow> new = old \<or>
     (\<exists>tx. old = Some tx \<and> tState tx = statePending \<and> (new = None \<or> (\<exists>since. new = Some (tx\<lparr>tPendingSince := since\<rparr>))))"

definition quietly :: "hexcodec \<Rightarrow> hash \<Rightarrow> tracker \<Rightarrow> event list \<times> tracker \<Rightarrow> bool" where
  "quietly c h t r \<longleftrightarrow> (typesFor c h (fst r) = {} \<longrightarrow> silentChange (fmlookup (trTxs t) h) (fmlookup (trTxs (snd r)) h))"

lemma silent_refl: "silentChange old old"
  by (simp add: silentChange_def)

lemma quietly_same: "fmlookup (trTxs (snd r)) h = fmlookup (trTxs t) h \<Longrightarrow> quietly c h t r"
  by (simp add: quietly_def silent_refl)

lemma quietly_told: "typesFor c h (fst r) \<noteq> {} \<Longrightarrow> quietly c h t r"
  by (simp add: quietly_def)

text \<open>An operation that says something of every transaction it changes.\<close>

lemma quietly_told_own:
  assumes "typesFor c h0 (fst r) \<noteq> {}" and "\<And>x. x \<noteq> h0 \<Longrightarrow> fmlookup (trTxs (snd r)) x = fmlookup (trTxs t) x"
  shows "quietly c h t r"
  using assms by (cases "h = h0") (auto intro: quietly_told quietly_same)

section \<open>Operation by operation\<close>

lemma told_txEvents:
  "hexOK c \<Longrightarrow> \<forall>m \<in> set (tTransfers tx). mTxHash m = h \<Longrightarrow> tTransfers tx \<noteq> [] \<Longrightarrow> typesFor c h (txEvents c tx ty k) \<noteq> {}"
  using typesFor_txEvents [of c tx h h ty k] by simp

lemma told_tracked: "hexOK c \<Longrightarrow> txOK h tx \<Longrightarrow> typesFor c h (txEvents c tx ty k) \<noteq> {}"
  by (rule told_txEvents) (simp_all add: txOK_def)

lemma OnPending_quietly:
  assumes hex: "hexOK c" and ms: "\<forall>m \<in> set ms. mTxHash m = mTxHash (hd ms)"
  shows "quietly c h t (OnPending c ms t)"
proof (cases ms)
  case (Cons m rest)
  let ?tx = "pendingTx ms m (trClock t (trTick t))"
  have "typesFor c (mTxHash m) (txEvents c ?tx TypePending 0) \<noteq> {}"
    using ms Cons by (intro told_txEvents [OF hex]) (auto simp: pendingTx_fields)
  then have "quietly c h t (txEvents c ?tx TypePending 0, pendingBase (mTxHash m) ?tx t)"
    by (intro quietly_told_own [of c "mTxHash m"]) (simp_all add: tracker_simps)
  then show ?thesis using Cons by (simp add: OnPending_outcome Let_def quietly_same)
qed (simp add: OnPending_def quietly_same)

text \<open>A record that enters a block and is not told of was not authoritative, and is gone.\<close>

lemma mineTx_quietly:
  assumes hex: "hexOK c" and tr: "\<forall>m \<in> set transfers. mTxHash m = h0" and ms: "\<forall>m \<in> set (tTransfers tx). mTxHash m = h0"
    and auth: "tAuthoritative tx \<Longrightarrow> tTransfers tx \<noteq> []"
    and r: "r = mineTx c h0 bh bn transfers failed confs fin tx t"
  shows "typesFor c h0 (fst r) = {} \<Longrightarrow> fmlookup (trTxs (snd r)) h0 = None \<and> \<not> tAuthoritative tx"
    and "h \<noteq> h0 \<Longrightarrow> fmlookup (trTxs (snd r)) h = fmlookup (trTxs t) h"
proof -
  let ?rec = "minedRecord bh bn transfers (trClock t (trTick t)) tx"
  have ty: "tTransfers ?rec \<noteq> [] \<Longrightarrow> typesFor c h0 (txEvents c ?rec k n) \<noteq> {}" for k n
    using tr ms by (intro told_txEvents [OF hex]) (auto simp: minedRecord_fields)
  have "tAuthoritative ?rec \<Longrightarrow> tTransfers ?rec \<noteq> []" using auth by (auto simp: minedRecord_fields)
  moreover have "tAuthoritative tx \<Longrightarrow> tTransfers ?rec \<noteq> [] \<and> tAuthoritative ?rec" using auth by (auto simp: minedRecord_fields)
  ultimately show "typesFor c h0 (fst r) = {} \<Longrightarrow> fmlookup (trTxs (snd r)) h0 = None \<and> \<not> tAuthoritative tx"
    using ty unfolding r mineTx_outcome Let_def by (auto simp: tracker_simps split: if_splits)
  show "h \<noteq> h0 \<Longrightarrow> fmlookup (trTxs (snd r)) h = fmlookup (trTxs t) h"
    unfolding r mineTx_outcome Let_def by (simp add: tracker_simps)
qed

lemma mined_quietly:
  assumes "hexOK c" and "\<forall>m \<in> set transfers. mTxHash m = h0" and "\<forall>m \<in> set (tTransfers tx). mTxHash m = h0"
    and "tAuthoritative tx \<Longrightarrow> tTransfers tx \<noteq> []" and "\<And>x. x \<noteq> h0 \<Longrightarrow> fmlookup (trTxs t1) x = fmlookup (trTxs t) x"
    and "\<not> tAuthoritative tx \<Longrightarrow> silentChange (fmlookup (trTxs t) h0) None"
  shows "quietly c h t (mineTx c h0 bh bn transfers failed confs fin tx t1)"
  using mineTx_quietly(1) [OF assms(1-4) refl] mineTx_quietly(2) [OF assms(1-4) refl, of h] assms(5,6)
  by (cases "h = h0") (auto simp: quietly_def silent_refl)

lemma OnMined_quietly:
  assumes hex: "hexOK c" and inv: "trackerInv t" and tr: "\<forall>m \<in> set transfers. mTxHash m = h0"
  shows "quietly c h t (OnMined c h0 bh bn transfers failed confs fin t)"
proof (cases "fmlookup (trTxs t) h0")
  case None
  let ?fresh = "freshTx h0 (trClock t (trTick t))"
  let ?t1 = "t\<lparr>trTombstones := fmdrop h0 (trTombstones t)\<rparr>"
  have "quietly c h t (mineTx c h0 bh bn transfers failed confs fin ?fresh (putTx h0 ?fresh (?t1\<lparr>trTick := Suc (trTick t)\<rparr>)))"
    using None by (intro mined_quietly [OF hex tr]) (simp_all add: freshTx_fields tracker_simps silent_refl)
  then show ?thesis using None by (simp add: OnMined_def Let_def nowOf_def quietly_same)
next
  case (Some tx)
  have ok: "txOK h0 tx" by (rule trackerInv_tx [OF inv Some])
  have "silentChange (Some tx) None" if "\<not> tAuthoritative tx"
    using ok that by (cases "tState tx") (simp_all add: silentChange_def txOK_def)
  then have "quietly c h t (mineTx c h0 bh bn transfers failed confs fin tx (t\<lparr>trTombstones := fmdrop h0 (trTombstones t)\<rparr>))"
    using ok Some by (intro mined_quietly [OF hex tr]) (simp_all add: txOK_def)
  then show ?thesis using Some by (simp add: OnMined_def Let_def quietly_same)
qed

lemma Confirm_quietly:
  assumes hex: "hexOK c" and inv: "trackerInv t"
  shows "quietly c h t (Confirm c h0 head t)"
proof (cases "fmlookup (trTxs t) h0")
  case (Some tx)
  have "quietly c h t (txEvents c tx TypeConfirmed k, bury h0 TypeConfirmed (dropTx h0 t))" for k
    using told_tracked [OF hex trackerInv_tx [OF inv Some]]
    by (intro quietly_told_own [of c h0]) (simp_all add: tracker_simps)
  then show ?thesis using Some by (simp add: Confirm_def quietly_same)
qed (simp add: Confirm_def quietly_same)

lemma gone_quietly:
  assumes "typesFor c h0 evs \<noteq> {}"
  shows "quietly c h t (evs, bury h0 ty (dropTx h0 (unindexNonce tx t)))"
  using assms by (intro quietly_told_own [of c h0]) (simp_all add: tracker_simps)

lemma OnDropStale_quietly:
  assumes hex: "hexOK c" and inv: "trackerInv t"
  shows "quietly c h t (OnDropStale c h0 stillKnown t)"
proof (cases "fmlookup (trTxs t) h0")
  case (Some tx)
  have "silentChange (Some tx) (Some (tx\<lparr>tPendingSince := now\<rparr>))" if "tState tx = statePending" for now
    using that unfolding silentChange_def by blast
  then have "quietly c h t ([], putTx h0 (tx\<lparr>tPendingSince := now\<rparr>) (t\<lparr>trTick := n\<rparr>))" if "tState tx = statePending" for now n
    using Some that by (cases "h = h0") (simp_all add: quietly_def tracker_simps silent_refl)
  then show ?thesis using Some gone_quietly [OF told_tracked [OF hex trackerInv_tx [OF inv Some]]]
    by (simp add: OnDropStale_def quietly_same nowOf_def)
qed (simp add: OnDropStale_def quietly_same)

lemma demoteTx_quietly:
  assumes "hexOK c" and "trackerInv t" and "fmlookup (trTxs t) h0 = Some tx"
  shows "quietly c h t (demoteTx c h0 tx t)"
  using told_tracked [OF assms(1) trackerInv_tx [OF assms(2,3)]]
  by (intro quietly_told_own [of c h0]) (simp_all add: demoteTx_def nowOf_def Let_def tracker_simps)

lemma Demote_quietly: "hexOK c \<Longrightarrow> trackerInv t \<Longrightarrow> quietly c h t (Demote c h0 t)"
  by (simp add: Demote_def quietly_same demoteTx_quietly split: option.split)

text \<open>Loops: a round that says nothing of a transaction leaves it as it is.\<close>

definition tellsAll :: "hexcodec \<Rightarrow> hash \<Rightarrow> tracker \<Rightarrow> event list \<times> tracker \<Rightarrow> bool" where
  "tellsAll c h t r \<longleftrightarrow> typesFor c h (fst r) = {} \<longrightarrow> fmlookup (trTxs (snd r)) h = fmlookup (trTxs t) h"

lemma fold_tells:
  assumes f: "\<And>x evs t. f x (evs, t) = (evs @ fst (g x t), snd (g x t))"
    and step: "\<And>x t. trackerInv t \<Longrightarrow> tellsAll c h t (g x t) \<and> trackerInv (snd (g x t))"
    and "trackerInv t" and "typesFor c h (fst (fold f hs (evs, t))) = {}"
  shows "typesFor c h evs = {} \<and> fmlookup (trTxs (snd (fold f hs (evs, t)))) h = fmlookup (trTxs t) h"
  using assms(3,4)
proof (induction hs arbitrary: evs t)
  case (Cons x hs)
  then show ?case using Cons.IH [of "snd (g x t)" "evs @ fst (g x t)"] step [OF Cons.prems(1), of x]
    by (auto simp: f phase_simps tellsAll_def)
qed simp

lemma tells_own:
  assumes "typesFor c h0 (fst r) \<noteq> {}" and "\<And>x. x \<noteq> h0 \<Longrightarrow> fmlookup (trTxs (snd r)) x = fmlookup (trTxs t) x"
  shows "tellsAll c h t r"
  using assms by (cases "h = h0") (auto simp: tellsAll_def)

lemma replaceOne_tells:
  assumes "hexOK c" and "trackerInv t"
  shows "tellsAll c h t (replaceOne c byHash x ([], t))"
proof (cases "fmlookup (trTxs t) x")
  case (Some tx)
  have "tellsAll c h t (map (\<lambda>e. e\<lparr>evReplacedBy := b\<rparr>) (txEvents c tx TypeReplaced 0), bury x TypeReplaced (dropTx x (unindexNonce tx t)))" for b
    using told_tracked [OF assms(1) trackerInv_tx [OF assms(2) Some]]
    by (intro tells_own [of c x]) (simp_all add: tracker_simps typesFor_replaced)
  then show ?thesis using Some by (simp add: replaceOne_def) (simp add: tellsAll_def)
qed (simp add: replaceOne_def tellsAll_def)

lemma reorgOne_tells:
  assumes "hexOK c" and "trackerInv t"
  shows "tellsAll c h t (reorgOne c ancestor x ([], t))"
proof (cases "fmlookup (trTxs t) x")
  case (Some tx)
  have "tellsAll c h t (demoteTx c x tx t)"
    using told_tracked [OF assms(1) trackerInv_tx [OF assms(2) Some]]
    by (intro tells_own [of c x]) (simp_all add: demoteTx_def nowOf_def Let_def tracker_simps)
  then show ?thesis using Some by (auto simp: reorgOne_def tellsAll_def split: prod.split)
qed (simp add: reorgOne_def tellsAll_def)

lemma OnNonceUsed_quietly:
  assumes "hexOK c" and "trackerInv t"
  shows "quietly c h t (OnNonceUsed c sender nonce byHash t)"
  using fold_tells [where g = "\<lambda>x t. replaceOne c byHash x ([], t)" and c = c and h = h, OF replaceOne_acc _ assms(2),
      of "getSlice (trByNonce t) (sender, nonce)" "[]"] replaceOne_tells [OF assms(1)] replaceOne_inv
  by (auto simp: quietly_def OnNonceUsed_def silentChange_def)

lemma OnReorg_quietly:
  assumes "hexOK c" and "trackerInv t"
  shows "quietly c h t (OnReorg c ord ancestor t)"
  using fold_tells [where g = "\<lambda>x t. reorgOne c ancestor x ([], t)" and c = c and h = h, OF reorgOne_acc _ assms(2),
      of ord "[]"] reorgOne_tells [OF assms(1)] reorgOne_inv
  by (auto simp: quietly_def OnReorg_def silentChange_def)

lemma trackerExec_quietly:
  "hexOK c \<Longrightarrow> trackerInv t \<Longrightarrow> trackerOpOK op t \<Longrightarrow> quietly c h t (trackerExec c op t)"
  by (cases op) (auto simp: OnHead_def nowOf_def quietly_same intro: OnPending_quietly OnMined_quietly Confirm_quietly
    OnDropStale_quietly OnNonceUsed_quietly OnReorg_quietly Demote_quietly)

section \<open>The hashes of events\<close>

definition named :: "hexcodec \<Rightarrow> event list \<Rightarrow> bool" where
  "named c evs \<longleftrightarrow> (\<forall>e \<in> set evs. \<exists>h. evTxHash e = hashHex c h)"

lemma named_simps: "named c []" "named c (xs @ ys) \<longleftrightarrow> named c xs \<and> named c ys" "named c (txEvents c tx ty k)"
  "named c (map (\<lambda>e. e\<lparr>evReplacedBy := b\<rparr>) evs) \<longleftrightarrow> named c evs"
  by (auto simp: named_def txEvents_def legEvent_def)

lemma named_fold:
  assumes "\<And>x evs t. named c evs \<Longrightarrow> named c (fst (f x (evs, t)))"
  shows "named c (fst r) \<Longrightarrow> named c (fst (fold f hs r))"
proof (induction hs arbitrary: r)
  case (Cons x hs)
  then show ?case using assms [of "fst r" x "snd r"] by simp
qed simp

lemma named_exec: "named c (fst (trackerExec c op t))"
proof (cases op)
  case (opNonceUsed sd n h)
  have "named c (fst (replaceOne c h x (evs, t)))" if "named c evs" for x evs t
    using that by (simp add: replaceOne_def named_simps split: option.split)
  then have "named c (fst (fold (replaceOne c h) hs ([], t)))" for hs by (intro named_fold) (simp_all add: named_simps)
  then show ?thesis by (simp add: opNonceUsed OnNonceUsed_def)
next
  case (opReorg ord a)
  have "named c (fst (reorgOne c a x (evs, t)))" if "named c evs" for x evs t
    using that by (simp add: reorgOne_def demoteTx_def nowOf_def Let_def named_simps split: option.split)
  then have "named c (fst (fold (reorgOne c a) ord ([], t)))" by (intro named_fold) (simp_all add: named_simps)
  then show ?thesis by (simp add: opReorg OnReorg_def)
qed (auto simp: named_simps OnPending_def OnMined_def mineTx_def Confirm_def OnDropStale_def Demote_def demoteTx_def nowOf_def Let_def
    split: list.split option.split prod.split)

end
