(* ===== verification/Sqlite.thy ===== *)
theory Sqlite
  imports Blocks "HOL-Library.Multiset" "HOL-Library.Product_Lexorder"
begin

text \<open>
  internal/storage/sqlite.go and headers.go: transactions as one row per transfer leg, the
  delete-then-insert of a snapshot inside a database transaction, the status update, the
  reassembly of rows on restart, the change feed and the indexer state. The database is a
  parameter, one operation per statement the code executes (\<open>sqlEngine\<close>); what SQL promises of
  them is the locale \<open>sql_engine\<close>. The JSON form of the header window is a parameter too.
\<close>

section \<open>Rows and statements\<close>

record txRow =
  rwIndexer :: string
  rwTxHash :: string
  rwLogIndex :: u64
  rwStatus :: string
  rwDirection :: string
  rwAsset :: string
  rwTokenAddress :: string
  rwFrom :: string
  rwTo :: string
  rwDecimals :: u8
  rwValueRaw :: string
  rwValue :: string
  rwBlockHash :: string
  rwBlockNumber :: u64
  rwFirstSeen :: string
  rwFirstSeenBlock :: u64
  rwMinedAt :: string
  rwPendingSince :: string
  rwSender :: string
  rwNonce :: u64
  rwHasNonce :: bool
  rwAuthoritative :: bool
  rwReplacedBy :: string
  rwUpdatedAt :: string

text \<open>The primary key. A log index is an \<open>int64\<close> column.\<close>

definition rowKey :: "txRow \<Rightarrow> string \<times> string \<times> u64" where
  "rowKey r = (rwIndexer r, rwTxHash r, rwLogIndex r)"

text \<open>The \<open>ORDER BY\<close> clauses: text compares bytewise, integers as numbers.\<close>

datatype rowOrder = ByTx | ByUpdate | ByUpdateDesc

definition txPos :: "txRow \<Rightarrow> string \<times> int" where
  "txPos r = (rwTxHash r, sint (rwLogIndex r))"

definition feedPos :: "txRow \<Rightarrow> string \<times> string \<times> int" where
  "feedPos r = (rwUpdatedAt r, rwTxHash r, sint (rwLogIndex r))"

fun orderedBy :: "rowOrder \<Rightarrow> txRow list \<Rightarrow> bool" where
  "orderedBy ByTx rs = sorted (map txPos rs)"
| "orderedBy ByUpdate rs = sorted (map feedPos rs)"
| "orderedBy ByUpdateDesc rs = sorted (map feedPos (rev rs))"

text \<open>\<open>LIMIT\<close>: a negative one is none.\<close>

definition limitRows :: "int option \<Rightarrow> 'a list \<Rightarrow> 'a list" where
  "limitRows limit rs = (case limit of None \<Rightarrow> rs | Some n \<Rightarrow> if n < 0 then rs else take (nat n) rs)"

record 'd sqlEngine =
  sqBegin :: "('d, unit) goM"
  sqDelete :: "(txRow \<Rightarrow> bool) \<Rightarrow> ('d, unit) goM"
  sqInsert :: "txRow \<Rightarrow> ('d, unit) goM"
  sqCommit :: "('d, unit) goM"
  sqRollback :: "'d \<Rightarrow> 'd"
  sqUpdate :: "(txRow \<Rightarrow> bool) \<Rightarrow> (txRow \<Rightarrow> txRow) \<Rightarrow> ('d, int) goM"
  sqSelect :: "(txRow \<Rightarrow> bool) \<Rightarrow> rowOrder \<Rightarrow> int option \<Rightarrow> ('d, txRow list) goM"
  sqPutState :: "string \<Rightarrow> u64 \<times> string \<Rightarrow> ('d, unit) goM"
  sqGetState :: "string \<Rightarrow> ('d, (u64 \<times> string) option) goM"
  sqNow :: "'d \<Rightarrow> time \<times> 'd"
  sqEncode :: "storedHeader list \<Rightarrow> goerr + string"
  sqDecode :: "string \<Rightarrow> goerr + storedHeader list"

section \<open>Time columns\<close>

definition formatTime :: "time \<Rightarrow> string" where
  "formatTime t = (if isZero t then '''' else formatNano t)"

definition parseTime :: "string \<Rightarrow> goerr + time" where
  "parseTime s =
     (if s = '''' then Inr 0
      else case parseRFC3339 s of None \<Rightarrow> Inl (ErrText (''parsing time '' @ s)) | Some t \<Rightarrow> Inr t)"

definition nowString :: "'d sqlEngine \<Rightarrow> ('d, string) goM" where
  "nowString D d = (case sqNow D d of (t, d') \<Rightarrow> (Inr (formatNano t), d'))"

section \<open>Saving\<close>

definition nativeLegIndex :: u64 where
  "nativeLegIndex = - 1"

definition legLogIndex :: "u64 option \<Rightarrow> u64" where
  "legLogIndex i = (case i of None \<Rightarrow> nativeLegIndex | Some n \<Rightarrow> n)"

definition legTxRow :: "string \<Rightarrow> storedTx \<Rightarrow> string \<Rightarrow> legRow \<Rightarrow> txRow" where
  "legTxRow indexer tx now leg =
     \<lparr>rwIndexer = indexer, rwTxHash = stHash tx, rwLogIndex = legLogIndex (lrLogIndex leg), rwStatus = stStatus tx,
      rwDirection = lrDirection leg, rwAsset = lrAsset leg, rwTokenAddress = lrTokenAddress leg, rwFrom = lrFrom leg,
      rwTo = lrTo leg, rwDecimals = lrDecimals leg, rwValueRaw = lrValueRaw leg, rwValue = lrValue leg,
      rwBlockHash = stBlockHash tx, rwBlockNumber = stBlockNumber tx, rwFirstSeen = formatTime (stFirstSeen tx),
      rwFirstSeenBlock = stFirstSeenBlock tx, rwMinedAt = formatTime (stMinedAt tx),
      rwPendingSince = formatTime (stPendingSince tx), rwSender = stSender tx, rwNonce = stNonce tx,
      rwHasNonce = stHasNonce tx, rwAuthoritative = stAuthoritative tx, rwReplacedBy = stReplacedBy tx,
      rwUpdatedAt = now\<rparr>"

text \<open>The deferred rollback runs last, whether the body returned early or committed.\<close>

definition rollingBack :: "'d sqlEngine \<Rightarrow> ('d, 'a) goM \<Rightarrow> ('d, 'a) goM" where
  "rollingBack D body d = (case body d of (r, d') \<Rightarrow> (r, sqRollback D d'))"

definition ofTx :: "string \<Rightarrow> string \<Rightarrow> txRow \<Rightarrow> bool" where
  "ofTx indexer txHash r \<longleftrightarrow> rwIndexer r = indexer \<and> rwTxHash r = txHash"

definition SaveTransaction :: "'d sqlEngine \<Rightarrow> string \<Rightarrow> storedTx \<Rightarrow> ('d, unit) goM" where
  "SaveTransaction D indexer tx =
     bindE (sqBegin D) (\<lambda>_. rollingBack D
       (bindE (sqDelete D (ofTx indexer (stHash tx))) (\<lambda>_.
        bindE (nowString D) (\<lambda>now.
        bindE (forEach (\<lambda>leg. sqInsert D (legTxRow indexer tx now leg)) (stTransfers tx)) (\<lambda>_.
          sqCommit D)))))"

definition setStatus :: "string \<Rightarrow> string \<Rightarrow> string \<Rightarrow> txRow \<Rightarrow> txRow" where
  "setStatus status replacedBy now r = r\<lparr>rwStatus := status, rwReplacedBy := replacedBy, rwUpdatedAt := now\<rparr>"

definition UpdateTransactionStatus :: "'d sqlEngine \<Rightarrow> string \<Rightarrow> string \<Rightarrow> string \<Rightarrow> string \<Rightarrow> ('d, bool) goM" where
  "UpdateTransactionStatus D indexer txHash status replacedBy =
     bindE (nowString D) (\<lambda>now.
     bindE (sqUpdate D (ofTx indexer txHash) (setStatus status replacedBy now)) (\<lambda>n. ok (0 < n)))"

section \<open>Loading\<close>

definition activeStatuses :: "string list" where
  "activeStatuses = [''pending'', ''mined'']"

definition loadLogIndex :: "u64 \<Rightarrow> u64 option" where
  "loadLogIndex i = (if i \<noteq> nativeLegIndex then Some i else None)"

definition legOfRow :: "txRow \<Rightarrow> legRow" where
  "legOfRow r =
     \<lparr>lrFrom = rwFrom r, lrTo = rwTo r, lrDirection = rwDirection r, lrAsset = rwAsset r,
      lrTokenAddress = rwTokenAddress r, lrDecimals = rwDecimals r, lrValueRaw = rwValueRaw r, lrValue = rwValue r,
      lrLogIndex = loadLogIndex (rwLogIndex r), lrTxSender = rwSender r, lrTxNonce = rwNonce r\<rparr>"

definition wrapParse :: "string \<Rightarrow> string \<Rightarrow> goerr + time \<Rightarrow> goerr + time" where
  "wrapParse hash col res =
     (case res of Inl e \<Rightarrow> Inl (Wrap (''tx '' @ hash @ '': parsing '' @ col) e) | Inr t \<Rightarrow> Inr t)"

definition txOfRow :: "txRow \<Rightarrow> goerr + storedTx" where
  "txOfRow r =
     (case wrapParse (rwTxHash r) ''first_seen'' (parseTime (rwFirstSeen r)) of
        Inl e \<Rightarrow> Inl e
      | Inr firstSeen \<Rightarrow>
     (case wrapParse (rwTxHash r) ''mined_at'' (parseTime (rwMinedAt r)) of
        Inl e \<Rightarrow> Inl e
      | Inr minedAt \<Rightarrow>
     (case wrapParse (rwTxHash r) ''pending_since'' (parseTime (rwPendingSince r)) of
        Inl e \<Rightarrow> Inl e
      | Inr pendingSince \<Rightarrow>
          Inr \<lparr>stHash = rwTxHash r, stStatus = rwStatus r, stBlockHash = rwBlockHash r,
               stBlockNumber = rwBlockNumber r, stFirstSeen = firstSeen, stFirstSeenBlock = rwFirstSeenBlock r,
               stMinedAt = minedAt, stPendingSince = pendingSince, stSender = rwSender r, stNonce = rwNonce r,
               stHasNonce = rwHasNonce r, stAuthoritative = rwAuthoritative r, stTransfers = [],
               stReplacedBy = rwReplacedBy r\<rparr>)))"

definition addLeg :: "legRow \<Rightarrow> storedTx \<Rightarrow> storedTx" where
  "addLeg leg tx = tx\<lparr>stTransfers := stTransfers tx @ [leg]\<rparr>"

text \<open>The loop over the rows: the leg joins the last transaction, or a new one it starts.\<close>

definition assembleRow :: "goerr + storedTx list \<Rightarrow> txRow \<Rightarrow> goerr + storedTx list" where
  "assembleRow acc r =
     (case acc of
        Inl e \<Rightarrow> Inl e
      | Inr out \<Rightarrow>
          if out = [] \<or> stHash (last out) \<noteq> rwTxHash r
          then (case txOfRow r of Inl e \<Rightarrow> Inl e | Inr tx \<Rightarrow> Inr (out @ [addLeg (legOfRow r) tx]))
          else Inr (butlast out @ [addLeg (legOfRow r) (last out)]))"

definition lift :: "goerr + 'a \<Rightarrow> ('d, 'a) goM" where
  "lift r = (case r of Inl e \<Rightarrow> fail e | Inr x \<Rightarrow> ok x)"

definition LoadActiveTransactions :: "'d sqlEngine \<Rightarrow> string \<Rightarrow> ('d, storedTx list) goM" where
  "LoadActiveTransactions D indexer =
     bindE (sqSelect D (\<lambda>r. rwIndexer r = indexer \<and> rwStatus r \<in> set activeStatuses) ByTx None)
       (\<lambda>rows. lift (foldl assembleRow (Inr []) rows))"

section \<open>The change feed\<close>

record legUpdate =
  luIndexer :: string
  luTxHash :: string
  luStatus :: string
  luBlockHash :: string
  luBlockNumber :: u64
  luFirstSeen :: time
  luFirstSeenBlock :: u64
  luMinedAt :: time
  luReplacedBy :: string
  luUpdatedAt :: time
  luLeg :: legRow

record legCursor =
  lcUpdatedAt :: time
  lcTxHash :: string
  lcLogIndex :: u64

text \<open>The sender and the nonce are not among the columns of the feed.\<close>

definition scanLegUpdate :: "txRow \<Rightarrow> goerr + legUpdate" where
  "scanLegUpdate r =
     (case wrapParse (rwTxHash r) ''first_seen'' (parseTime (rwFirstSeen r)) of
        Inl e \<Rightarrow> Inl e
      | Inr firstSeen \<Rightarrow>
     (case wrapParse (rwTxHash r) ''mined_at'' (parseTime (rwMinedAt r)) of
        Inl e \<Rightarrow> Inl e
      | Inr minedAt \<Rightarrow>
     (case wrapParse (rwTxHash r) ''updated_at'' (parseTime (rwUpdatedAt r)) of
        Inl e \<Rightarrow> Inl e
      | Inr updatedAt \<Rightarrow>
          Inr \<lparr>luIndexer = rwIndexer r, luTxHash = rwTxHash r, luStatus = rwStatus r, luBlockHash = rwBlockHash r,
               luBlockNumber = rwBlockNumber r, luFirstSeen = firstSeen, luFirstSeenBlock = rwFirstSeenBlock r,
               luMinedAt = minedAt, luReplacedBy = rwReplacedBy r, luUpdatedAt = updatedAt,
               luLeg = (legOfRow r)\<lparr>lrTxSender := '''', lrTxNonce := 0\<rparr>\<rparr>)))"

fun collectLegUpdates :: "txRow list \<Rightarrow> goerr + legUpdate list" where
  "collectLegUpdates [] = Inr []"
| "collectLegUpdates (r # rs) =
     (case scanLegUpdate r of
        Inl e \<Rightarrow> Inl e
      | Inr leg \<Rightarrow> (case collectLegUpdates rs of Inl e \<Rightarrow> Inl e | Inr legs \<Rightarrow> Inr (leg # legs)))"

definition afterCursor :: "legCursor \<Rightarrow> txRow \<Rightarrow> bool" where
  "afterCursor cursor r =
     (let after = formatTime (lcUpdatedAt cursor) in
      if lcTxHash cursor = '''' then after < rwUpdatedAt r
      else after < rwUpdatedAt r \<or>
           (rwUpdatedAt r = after \<and> (lcTxHash cursor < rwTxHash r \<or>
              (rwTxHash r = lcTxHash cursor \<and> sint (lcLogIndex cursor) < sint (rwLogIndex r)))))"

definition ofIndexer :: "string \<Rightarrow> txRow \<Rightarrow> bool" where
  "ofIndexer indexer r \<longleftrightarrow> indexer = '''' \<or> rwIndexer r = indexer"

definition LoadLegsUpdatedSince :: "'d sqlEngine \<Rightarrow> string \<Rightarrow> legCursor \<Rightarrow> int \<Rightarrow> ('d, legUpdate list) goM" where
  "LoadLegsUpdatedSince D indexer cursor limit =
     bindE (sqSelect D (\<lambda>r. afterCursor cursor r \<and> ofIndexer indexer r) ByUpdate (Some limit))
       (\<lambda>rows. lift (collectLegUpdates rows))"

definition LoadLatestLegs :: "'d sqlEngine \<Rightarrow> string \<Rightarrow> int \<Rightarrow> ('d, legUpdate list) goM" where
  "LoadLatestLegs D indexer limit =
     bindE (sqSelect D (ofIndexer indexer) ByUpdateDesc (Some limit))
       (\<lambda>rows. bindE (lift (collectLegUpdates rows)) (\<lambda>out. ok (rev out)))"

section \<open>Progress\<close>

definition encodeHeaders :: "'d sqlEngine \<Rightarrow> storedHeader list \<Rightarrow> goerr + string" where
  "encodeHeaders D hs = (case sqEncode D hs of Inl e \<Rightarrow> Inl (Wrap ''encoding headers'' e) | Inr s \<Rightarrow> Inr s)"

definition decodeHeaders :: "'d sqlEngine \<Rightarrow> string \<Rightarrow> goerr + storedHeader list" where
  "decodeHeaders D s = (case sqDecode D s of Inl e \<Rightarrow> Inl (Wrap ''decoding headers'' e) | Inr hs \<Rightarrow> Inr hs)"

definition SaveIndexerState :: "'d sqlEngine \<Rightarrow> string \<Rightarrow> indexerState \<Rightarrow> ('d, unit) goM" where
  "SaveIndexerState D indexer st =
     bindE (lift (encodeHeaders D (isRecentHeaders st))) (\<lambda>headers.
     bindE (nowString D) (\<lambda>_. sqPutState D indexer (isLastProcessed st, headers)))"

definition LoadIndexerState :: "'d sqlEngine \<Rightarrow> string \<Rightarrow> ('d, indexerState option) goM" where
  "LoadIndexerState D indexer =
     bindE (sqGetState D indexer) (\<lambda>res.
       case res of
         None \<Rightarrow> ok None
       | Some (lastProcessed, headers) \<Rightarrow>
           bindE (lift (decodeHeaders D headers))
             (\<lambda>hs. ok (Some \<lparr>isLastProcessed = lastProcessed, isRecentHeaders = hs\<rparr>)))"

text \<open>The store the indexers are given.\<close>

definition sqliteStore :: "'d sqlEngine \<Rightarrow> 'd store" where
  "sqliteStore D = \<lparr>soSaveTransaction = SaveTransaction D, soUpdateTransactionStatus = UpdateTransactionStatus D,
     soLoadActiveTransactions = LoadActiveTransactions D, soSaveIndexerState = SaveIndexerState D,
     soLoadIndexerState = LoadIndexerState D\<rparr>"


section \<open>What SQL promises\<close>

text \<open>The rows an insertion adds: no key twice, and none that is there.\<close>

definition freshKeys :: "txRow list \<Rightarrow> txRow list \<Rightarrow> bool" where
  "freshKeys kept new \<longleftrightarrow> distinct (map rowKey new) \<and> rowKey ` set kept \<inter> rowKey ` set new = {}"

lemma freshKeys_distinct: "freshKeys kept new \<Longrightarrow> distinct (map rowKey kept) \<Longrightarrow> distinct (map rowKey (kept @ new))"
  by (simp add: freshKeys_def)

text \<open>
  \<open>dur\<close> is what is committed, \<open>live\<close> what the open transaction sees, \<open>prog\<close> the progress table.
  A statement may fail at any time; then it has changed nothing that is committed. Reads outside a
  transaction see what is committed.
\<close>

locale sql_engine =
  fixes D :: "'d sqlEngine" and live dur :: "'d \<Rightarrow> txRow list" and prog :: "'d \<Rightarrow> string \<Rightarrow> (u64 \<times> string) option"
  assumes begin_law: "sqBegin D d = (r, d') \<Longrightarrow> dur d' = dur d \<and> prog d' = prog d \<and> (\<forall>x. r = Inr x \<longrightarrow> live d' = dur d)"
    and delete_law: "sqDelete D P d = (r, d') \<Longrightarrow> dur d' = dur d \<and> prog d' = prog d \<and>
      (\<forall>x. r = Inr x \<longrightarrow> live d' = filter (\<lambda>row. \<not> P row) (live d))"
    and insert_law: "sqInsert D row d = (r, d') \<Longrightarrow> dur d' = dur d \<and> prog d' = prog d \<and>
      (\<forall>x. r = Inr x \<longrightarrow> rowKey row \<notin> rowKey ` set (live d) \<and> live d' = live d @ [row])"
    and commit_law: "sqCommit D d = (r, d') \<Longrightarrow> prog d' = prog d \<and>
      (case r of Inl e \<Rightarrow> dur d' = dur d | Inr x \<Rightarrow> dur d' = live d)"
    and rollback_law: "dur (sqRollback D d) = dur d" "prog (sqRollback D d) = prog d"
    and update_law: "sqUpdate D P f d = (ru, d') \<Longrightarrow> prog d' = prog d \<and>
      (case ru of Inl e \<Rightarrow> dur d' = dur d
       | Inr n \<Rightarrow> dur d' = map (\<lambda>row. if P row then f row else row) (dur d) \<and> n = int (length (filter P (dur d))))"
    and select_law: "sqSelect D P ord limit d = (rs, d') \<Longrightarrow> dur d' = dur d \<and> prog d' = prog d \<and>
      (\<forall>rows. rs = Inr rows \<longrightarrow> (\<exists>xs. mset xs = mset (filter P (dur d)) \<and> orderedBy ord xs \<and> rows = limitRows limit xs))"
    and put_law: "sqPutState D ix v d = (r, d') \<Longrightarrow> dur d' = dur d \<and>
      (case r of Inl e \<Rightarrow> prog d' = prog d | Inr x \<Rightarrow> prog d' = (prog d)(ix := Some v))"
    and get_law: "sqGetState D ix d = (rg, d') \<Longrightarrow> dur d' = dur d \<and> prog d' = prog d \<and> (\<forall>v. rg = Inr v \<longrightarrow> v = prog d ix)"
    and now_law: "sqNow D d = (t, d') \<Longrightarrow> dur d' = dur d \<and> live d' = live d \<and> prog d' = prog d \<and> 0 < t \<and> t < maxTime"
    and codec_law: "sqEncode D hs = Inr s \<Longrightarrow> sqDecode D s = Inr hs"
begin

lemma now_step:
  assumes "nowString D d = (r, d')"
  obtains t where "r = Inr (formatNano t)" "0 < t" "t < maxTime" "dur d' = dur d" "live d' = live d" "prog d' = prog d"
  using assms now_law unfolding nowString_def by (cases "sqNow D d") (auto dest: that)

lemma insert_all:
  "forEach (\<lambda>leg. sqInsert D (f leg)) legs d = (r, d') \<Longrightarrow> dur d' = dur d \<and> prog d' = prog d \<and>
     (\<forall>x. r = Inr x \<longrightarrow> live d' = live d @ map f legs \<and> freshKeys (live d) (map f legs))"
proof (induction legs arbitrary: d)
  case (Cons leg legs)
  obtain r1 d1 where i: "sqInsert D (f leg) d = (r1, d1)" by (cases "sqInsert D (f leg) d")
  show ?case
  proof (cases r1)
    case (Inl e)
    then show ?thesis using Cons.prems i insert_law [OF i] by (auto simp: bindE_def)
  next
    case (Inr x)
    then have "forEach (\<lambda>leg. sqInsert D (f leg)) legs d1 = (r, d')" using Cons.prems i by (simp add: bindE_def)
    from Cons.IH [OF this] show ?thesis using insert_law [OF i] Inr by (auto simp: freshKeys_def)
  qed
qed (simp add: freshKeys_def)

lemma insert_commit:
  assumes "bindE (forEach (\<lambda>leg. sqInsert D (f leg)) legs) (\<lambda>_. sqCommit D) d = (r, d')"
  shows "prog d' = prog d \<and> (case r of
      Inl e \<Rightarrow> dur d' = dur d
    | Inr x \<Rightarrow> dur d' = live d @ map f legs \<and> freshKeys (live d) (map f legs))"
proof -
  obtain r1 d1 where i: "forEach (\<lambda>leg. sqInsert D (f leg)) legs d = (r1, d1)" by (cases "forEach (\<lambda>leg. sqInsert D (f leg)) legs d")
  obtain r2 d2 where c: "sqCommit D d1 = (r2, d2)" by (cases "sqCommit D d1")
  show ?thesis using insert_all [OF i] commit_law [OF c] assms i c
    by (cases r1; cases r2) (auto simp: bindE_def)
qed

lemma rolled_back: "rollingBack D m d = (r, d') \<Longrightarrow> \<exists>d1. m d = (r, d1) \<and> dur d' = dur d1 \<and> prog d' = prog d1"
  using rollback_law by (auto simp: rollingBack_def split: prod.splits)

lemma save_steps:
  assumes "SaveTransaction D ix tx d = (r, d')"
  shows "prog d' = prog d \<and> (case r of
      Inl e \<Rightarrow> dur d' = dur d
    | Inr x \<Rightarrow> \<exists>now. 0 < now \<and> now < maxTime \<and>
        dur d' = filter (\<lambda>row. \<not> ofTx ix (stHash tx) row) (dur d) @ map (legTxRow ix tx (formatNano now)) (stTransfers tx) \<and>
        freshKeys (filter (\<lambda>row. \<not> ofTx ix (stHash tx) row) (dur d)) (map (legTxRow ix tx (formatNano now)) (stTransfers tx)))"
proof -
  let ?rest = "\<lambda>now. bindE (forEach (\<lambda>leg. sqInsert D (legTxRow ix tx now leg)) (stTransfers tx)) (\<lambda>_. sqCommit D)"
  obtain r1 d1 where b: "sqBegin D d = (r1, d1)" by (cases "sqBegin D d")
  note B = begin_law [OF b]
  show ?thesis
  proof (cases r1)
    case (Inl e)
    then show ?thesis using assms b B by (auto simp: SaveTransaction_def bindE_def)
  next
    case (Inr u)
    then obtain dr where body: "bindE (sqDelete D (ofTx ix (stHash tx))) (\<lambda>_. bindE (nowString D) ?rest) d1 = (r, dr)"
      "dur d' = dur dr" "prog d' = prog dr"
      using assms b rolled_back by (fastforce simp: SaveTransaction_def bindE_def [of "sqBegin D"])
    obtain r2 d2 where del: "sqDelete D (ofTx ix (stHash tx)) d1 = (r2, d2)" by (cases "sqDelete D (ofTx ix (stHash tx)) d1")
    note E = delete_law [OF del]
    obtain r3 d3 where n: "nowString D d2 = (r3, d3)" by (cases "nowString D d2")
    then obtain t where t: "r3 = Inr (formatNano t)" "0 < t" "t < maxTime" "dur d3 = dur d2" "live d3 = live d2" "prog d3 = prog d2"
      by (rule now_step)
    show ?thesis
    proof (cases r2)
      case (Inl e)
      then show ?thesis using body B E del by (auto simp: bindE_def)
    next
      case (Inr u2)
      then have run: "?rest (formatNano t) d3 = (r, dr)" using body(1) del n t(1) by (simp add: bindE_def)
      show ?thesis using insert_commit [OF run] body(2,3) B E t Inr \<open>r1 = Inr u\<close>
        by (cases r) (auto intro!: exI [of _ t])
    qed
  qed
qed

lemma update_steps:
  assumes "UpdateTransactionStatus D ix h status by d = (r, d')"
  shows "prog d' = prog d \<and> (case r of
      Inl e \<Rightarrow> dur d' = dur d
    | Inr known \<Rightarrow> \<exists>now. 0 < now \<and> now < maxTime \<and>
        dur d' = map (\<lambda>row. if ofTx ix h row then setStatus status by (formatNano now) row else row) (dur d) \<and>
        (known \<longleftrightarrow> (\<exists>row \<in> set (dur d). ofTx ix h row)))"
proof -
  obtain r1 d1 where n: "nowString D d = (r1, d1)" by (cases "nowString D d")
  then obtain t where t: "r1 = Inr (formatNano t)" "0 < t" "t < maxTime" "dur d1 = dur d" "prog d1 = prog d"
    by (rule now_step)
  obtain r2 d2 where u: "sqUpdate D (ofTx ix h) (setStatus status by (formatNano t)) d1 = (r2, d2)"
    by (cases "sqUpdate D (ofTx ix h) (setStatus status by (formatNano t)) d1")
  note U = update_law [OF u]
  have "(0 < length (filter P rows)) = (\<exists>row \<in> set rows. P row)" for P and rows :: "txRow list"
    by (auto simp: filter_empty_conv)
  then show ?thesis using assms n t u U
    by (cases r2) (auto simp: UpdateTransactionStatus_def bindE_def intro!: exI [of _ t])
qed

lemma state_roundtrip:
  assumes "SaveIndexerState D ix st d = (Inr (), d1)" and "LoadIndexerState D ix d1 = (r, d2)" and "r = Inr x"
  shows "x = Some st"
proof -
  obtain s where s: "sqEncode D (isRecentHeaders st) = Inr s"
    using assms(1) by (cases "sqEncode D (isRecentHeaders st)") (auto simp: SaveIndexerState_def encodeHeaders_def lift_def bindE_def)
  obtain r1 d0 where n: "nowString D d = (r1, d0)" by (cases "nowString D d")
  then have "sqPutState D ix (isLastProcessed st, s) d0 = (Inr (), d1)"
    using assms(1) s by (auto simp: SaveIndexerState_def encodeHeaders_def lift_def bindE_def elim!: now_step)
  from put_law [OF this] have p: "prog d1 ix = Some (isLastProcessed st, s)" by simp
  obtain v d3 where g: "sqGetState D ix d1 = (v, d3)" by (cases "sqGetState D ix d1")
  show ?thesis
    using assms(2,3) g get_law [OF g] p codec_law [OF s]
    by (cases v) (auto simp: LoadIndexerState_def bindE_def decodeHeaders_def lift_def)
qed

end

end
