(* ===== verification/SqliteProps.thy ===== *)
theory SqliteProps
  imports Sqlite
begin

text \<open>
  What the database does for the indexers: saving is atomic and reads back, a second leg without a
  log index makes it fail, a status update touches exactly the legs of its transaction, and the
  pages of the change feed join up.
\<close>

section \<open>An in-memory database\<close>

text \<open>An engine that keeps every promise of \<open>sql_engine\<close>, for the interpretation and the witnesses.\<close>

record listDb =
  dbRows :: "txRow list"
  dbWork :: "txRow list"
  dbProg :: "string \<Rightarrow> (u64 \<times> string) option"
  dbClock :: nat

fun listOrder :: "rowOrder \<Rightarrow> txRow list \<Rightarrow> txRow list" where
  "listOrder ByTx rs = sort_key txPos rs"
| "listOrder ByUpdate rs = sort_key feedPos rs"
| "listOrder ByUpdateDesc rs = rev (sort_key feedPos rs)"

definition memEngine :: "'x listDb_scheme sqlEngine" where
  "memEngine =
     \<lparr>sqBegin = (\<lambda>d. (Inr (), d\<lparr>dbWork := dbRows d\<rparr>)),
      sqDelete = (\<lambda>P d. (Inr (), d\<lparr>dbWork := filter (\<lambda>r. \<not> P r) (dbWork d)\<rparr>)),
      sqInsert = (\<lambda>r d. if rowKey r \<in> rowKey ` set (dbWork d) then (Inl (ErrText ''UNIQUE constraint failed''), d)
                        else (Inr (), d\<lparr>dbWork := dbWork d @ [r]\<rparr>)),
      sqCommit = (\<lambda>d. (Inr (), d\<lparr>dbRows := dbWork d\<rparr>)), sqRollback = (\<lambda>d. d\<lparr>dbWork := dbRows d\<rparr>),
      sqUpdate = (\<lambda>P f d. (Inr (int (length (filter P (dbRows d)))),
                        d\<lparr>dbRows := map (\<lambda>r. if P r then f r else r) (dbRows d)\<rparr>)),
      sqSelect = (\<lambda>P ord limit d. (Inr (limitRows limit (listOrder ord (filter P (dbRows d)))), d)),
      sqPutState = (\<lambda>ix v d. (Inr (), d\<lparr>dbProg := (dbProg d)(ix := Some v)\<rparr>)),
      sqGetState = (\<lambda>ix d. (Inr (dbProg d ix), d)),
      sqNow = (\<lambda>d. (min (int (dbClock d) + 1) 1000000, d\<lparr>dbClock := Suc (dbClock d)\<rparr>)),
      sqEncode = (\<lambda>hs. if hs = [] then Inr ''[]'' else Inl (ErrText ''not encoded'')),
      sqDecode = (\<lambda>s. Inr [])\<rparr>"

lemma listOrder_ordered: "orderedBy ord (listOrder ord rs)" and listOrder_mset: "mset (listOrder ord rs) = mset rs"
  by (cases ord; simp)+

interpretation mem: sql_engine "memEngine :: 'x listDb_scheme sqlEngine" dbWork dbRows dbProg
proof
  fix P ord limit rs and d d' :: "'x listDb_scheme"
  assume "sqSelect memEngine P ord limit d = (rs, d')"
  then show "dbRows d' = dbRows d \<and> dbProg d' = dbProg d \<and>
      (\<forall>rows. rs = Inr rows \<longrightarrow> (\<exists>xs. mset xs = mset (filter P (dbRows d)) \<and> orderedBy ord xs \<and> rows = limitRows limit xs))"
    using listOrder_ordered listOrder_mset by (fastforce simp: memEngine_def)
qed (auto simp: memEngine_def maxTime_def nsPerDay_def split: if_splits)

section \<open>Reassembly\<close>

lemma assemble_Inl [simp]: "assembleRow (Inl e) r = Inl e"
  by (simp add: assembleRow_def)

lemma foldl_assemble_Inl: "foldl assembleRow (Inl e) rs = Inl e"
  by (induction rs) simp_all

lemma foldl_assemble_append:
  assumes "foldl assembleRow acc (rs @ rs') = Inr out"
  obtains out1 where "foldl assembleRow acc rs = Inr out1" "foldl assembleRow (Inr out1) rs' = Inr out"
  using assms by (cases "foldl assembleRow acc rs") (auto simp: foldl_assemble_Inl)

lemma addLeg_hash [simp]: "stHash (addLeg leg tx) = stHash tx"
  by (simp add: addLeg_def)

lemma txOfRow_hash: "txOfRow r = Inr tx \<Longrightarrow> stHash tx = rwTxHash r"
  by (auto simp: txOfRow_def split: sum.splits)

lemma assemble_other:
  assumes "assembleRow (Inr out) r = Inr out'" and "rwTxHash r \<noteq> h"
  shows "filter (\<lambda>t. stHash t = h) out' = filter (\<lambda>t. stHash t = h) out \<and> out' \<noteq> [] \<and> stHash (last out') \<noteq> h"
proof (cases "out = [] \<or> stHash (last out) \<noteq> rwTxHash r")
  case True
  then show ?thesis using assms txOfRow_hash [of r] by (auto simp: assembleRow_def split: sum.splits)
next
  case False
  then have "out = butlast out @ [last out]" by simp
  then have "filter (\<lambda>t. stHash t = h) out = filter (\<lambda>t. stHash t = h) (butlast out @ [last out])" by simp
  then show ?thesis using False assms by (auto simp: assembleRow_def)
qed

lemma assemble_others:
  assumes "foldl assembleRow (Inr out) rs = Inr out'" and "\<forall>r \<in> set rs. rwTxHash r \<noteq> h"
  shows "filter (\<lambda>t. stHash t = h) out' = filter (\<lambda>t. stHash t = h) out \<and>
    (rs \<noteq> [] \<longrightarrow> out' \<noteq> [] \<and> stHash (last out') \<noteq> h)"
  using assms
proof (induction rs arbitrary: out' rule: rev_induct)
  case (snoc r rs)
  obtain out1 where o: "foldl assembleRow (Inr out) rs = Inr out1" "assembleRow (Inr out1) r = Inr out'"
    by (rule foldl_assemble_append [OF snoc.prems(1)]) simp
  show ?case using snoc.IH [OF o(1)] assemble_other [OF o(2), of h] snoc.prems(2) by simp
qed simp

lemma assemble_group:
  assumes "rs \<noteq> []" and "\<forall>r \<in> set rs. rwTxHash r = h" and "out = [] \<or> stHash (last out) \<noteq> h"
    and "foldl assembleRow (Inr out) rs = Inr out'"
  shows "\<exists>tx. txOfRow (hd rs) = Inr tx \<and> out' = out @ [tx\<lparr>stTransfers := map legOfRow rs\<rparr>]"
  using assms
proof (induction rs arbitrary: out' rule: rev_induct)
  case (snoc r rs)
  show ?case
  proof (cases "rs = []")
    case True
    then have "assembleRow (Inr out) r = Inr out'" using snoc.prems(4) by simp
    moreover have "out = [] \<or> stHash (last out) \<noteq> rwTxHash r" using snoc.prems(2,3) by simp
    moreover have "stTransfers tx = []" if "txOfRow r = Inr tx" for tx
      using that by (auto simp: txOfRow_def split: sum.splits)
    ultimately show ?thesis using True by (auto simp: assembleRow_def addLeg_def split: sum.splits)
  next
    case False
    obtain out1 where o: "foldl assembleRow (Inr out) rs = Inr out1" "assembleRow (Inr out1) r = Inr out'"
      by (rule foldl_assemble_append [OF snoc.prems(4)]) simp
    obtain tx where tx: "txOfRow (hd rs) = Inr tx" "out1 = out @ [tx\<lparr>stTransfers := map legOfRow rs\<rparr>]"
      using snoc.IH [OF False _ snoc.prems(3) o(1)] snoc.prems(2) by auto
    have "stHash tx = rwTxHash r" using txOfRow_hash [OF tx(1)] snoc.prems(2) False by simp
    then show ?thesis using o(2) tx False by (auto simp: assembleRow_def addLeg_def)
  qed
qed simp

text \<open>In a sorted list the elements with one key are consecutive.\<close>

lemma sorted_group:
  fixes f :: "'a \<Rightarrow> 'k :: linorder"
  assumes "sorted (map f xs)"
  shows "\<exists>A C. xs = A @ filter (\<lambda>x. f x = k) xs @ C \<and> (\<forall>x \<in> set A. f x \<noteq> k) \<and> (\<forall>x \<in> set C. f x \<noteq> k)"
  using assms
proof (induction xs)
  case (Cons x xs)
  show ?case
  proof (cases "f x < k")
    case True
    obtain A C where "xs = A @ filter (\<lambda>x. f x = k) xs @ C" "\<forall>x \<in> set A. f x \<noteq> k" "\<forall>x \<in> set C. f x \<noteq> k"
      using Cons by auto
    then show ?thesis using True by (intro exI [of _ "x # A"] exI [of _ C]) auto
  next
    case False
    obtain A C where ac: "xs = A @ filter (\<lambda>x. f x = k) xs @ C" "\<forall>x \<in> set A. f x \<noteq> k" "\<forall>x \<in> set C. f x \<noteq> k"
      using Cons by auto
    show ?thesis
    proof (cases "f x = k")
      case True
      have "A = [] \<or> filter (\<lambda>x. f x = k) xs = []"
      proof (rule ccontr)
        assume "\<not> ?thesis"
        then obtain a A' y F' where l: "A = a # A'" "filter (\<lambda>x. f x = k) xs = y # F'" by (auto simp: neq_Nil_conv)
        have "f y = k" using l(2) by (metis (mono_tags) list.set_intros(1) mem_Collect_eq set_filter)
        moreover have "f a \<le> f y" using Cons.prems ac(1) l by (subst (asm) ac(1)) (auto simp: sorted_append)
        moreover have "k \<le> f a" using Cons.prems True ac(1) l(1) by (subst (asm) ac(1)) auto
        ultimately show False using ac(2) l(1) by auto
      qed
      then show ?thesis
      proof
        assume "A = []"
        then show ?thesis using True ac by (intro exI [of _ "[]"] exI [of _ C]) simp
      next
        assume "filter (\<lambda>x. f x = k) xs = []"
        then have "\<forall>x \<in> set xs. f x \<noteq> k" by (simp add: filter_empty_conv)
        then show ?thesis using True by (intro exI [of _ "[]"] exI [of _ xs]) simp
      qed
    next
      case neq: False
      then have "\<forall>y \<in> set (x # xs). f y \<noteq> k" using \<open>\<not> f x < k\<close> Cons.prems by fastforce
      then show ?thesis by (intro exI [of _ "x # xs"] exI [of _ "[]"]) (simp add: filter_empty_conv)
    qed
  qed
qed simp

lemma assemble_sorted:
  assumes "sorted (map rwTxHash rows)" and "foldl assembleRow (Inr []) rows = Inr out"
    and "filter (\<lambda>r. rwTxHash r = h) rows = grp" and "grp \<noteq> []"
  shows "\<exists>tx. txOfRow (hd grp) = Inr tx \<and> filter (\<lambda>t. stHash t = h) out = [tx\<lparr>stTransfers := map legOfRow grp\<rparr>]"
proof -
  obtain A C where split: "rows = A @ grp @ C" and A: "\<forall>r \<in> set A. rwTxHash r \<noteq> h" and C: "\<forall>r \<in> set C. rwTxHash r \<noteq> h"
    using sorted_group [OF assms(1), of h] assms(3) by auto
  obtain out1 out2 where o: "foldl assembleRow (Inr []) A = Inr out1" "foldl assembleRow (Inr out1) grp = Inr out2"
    "foldl assembleRow (Inr out2) C = Inr out"
    using assms(2) unfolding split by (elim foldl_assemble_append)
  have g: "\<forall>r \<in> set grp. rwTxHash r = h" using assms(3) by auto
  have "filter (\<lambda>t. stHash t = h) out1 = []" "out1 = [] \<or> stHash (last out1) \<noteq> h"
    using assemble_others [OF o(1) A] o(1) by (cases "A = []"; simp)+
  moreover obtain tx where "txOfRow (hd grp) = Inr tx" "out2 = out1 @ [tx\<lparr>stTransfers := map legOfRow grp\<rparr>]"
    using assemble_group [OF assms(4) g _ o(2)] calculation(2) by blast
  moreover have "stHash tx = h" if "txOfRow (hd grp) = Inr tx" for tx
    using txOfRow_hash [OF that] g assms(4) by simp
  ultimately show ?thesis using assemble_others [OF o(3) C] by auto
qed

section \<open>Saving and loading\<close>

definition timesOK :: "storedTx \<Rightarrow> bool" where
  "timesOK tx \<longleftrightarrow> (\<forall>t \<in> {stFirstSeen tx, stMinedAt tx, stPendingSince tx}. 0 \<le> t \<and> t < maxTime)"

text \<open>What the rows keep of a leg: the sender and nonce are the transaction's, and a log index is not the sentinel.\<close>

definition legOK :: "storedTx \<Rightarrow> legRow \<Rightarrow> bool" where
  "legOK tx leg \<longleftrightarrow> lrLogIndex leg \<noteq> Some nativeLegIndex \<and> lrTxSender leg = stSender tx \<and> lrTxNonce leg = stNonce tx"

lemma parse_formatTime: "0 \<le> t \<Longrightarrow> t < maxTime \<Longrightarrow> parseTime (formatTime t) = Inr t"
proof -
  assume t: "0 \<le> t" "t < maxTime"
  have "formatNano t \<noteq> ''''" by (simp add: formatNano_def)
  then show ?thesis using t by (simp add: parseTime_def formatTime_def isZero_def parse_formatNano)
qed

lemma txOfRow_saved:
  "timesOK tx \<Longrightarrow> txOfRow (legTxRow ix tx now leg) = Inr (tx\<lparr>stTransfers := []\<rparr>)"
  by (simp add: timesOK_def txOfRow_def legTxRow_def wrapParse_def parse_formatTime)

lemma legOfRow_saved: "legOK tx leg \<Longrightarrow> legOfRow (legTxRow ix tx now leg) = leg"
  by (auto simp: legOfRow_def legTxRow_def legOK_def loadLogIndex_def legLogIndex_def split: option.splits)

lemma sorted_txPos_hash: "sorted (map txPos rows) \<Longrightarrow> sorted (map rwTxHash rows)"
  by (auto simp: sorted_iff_nth_mono txPos_def less_eq_prod_def) (metis order.strict_implies_order order_refl)

lemma map_of_mset: "mset ys = mset (map f xs) \<Longrightarrow> \<exists>zs. mset zs = mset xs \<and> ys = map f zs"
proof (induction ys arbitrary: xs)
  case (Cons y ys)
  then have "y \<in> set (map f xs)" by (metis list.set_intros(1) mset_eq_setD)
  then obtain x where x: "x \<in> set xs" "y = f x" by auto
  have "mset (map f (remove1 x xs)) = mset (map f xs) - {#f x#}"
    using x(1) by (simp add: image_mset_Diff)
  then have "mset ys = mset (map f (remove1 x xs))" using Cons.prems x(2) by (metis add_mset_remove_trivial mset.simps(2))
  from Cons.IH [OF this] obtain zs where "mset zs = mset (remove1 x xs)" "ys = map f zs" by blast
  then show ?case using x by (intro exI [of _ "x # zs"]) simp
qed simp

lemma load_saved:
  assumes mset_rows: "mset rows = mset (filter (\<lambda>r. rwIndexer r = ix \<and> rwStatus r \<in> set activeStatuses)
        (filter (\<lambda>r. \<not> ofTx ix (stHash tx) r) old @ map (legTxRow ix tx now) (stTransfers tx)))"
    and order: "orderedBy ByTx rows" and out: "foldl assembleRow (Inr []) rows = Inr txs"
    and ok: "timesOK tx" "\<forall>leg \<in> set (stTransfers tx). legOK tx leg" "stTransfers tx \<noteq> []" "stStatus tx \<in> set activeStatuses"
  shows "\<exists>legs. mset legs = mset (stTransfers tx) \<and>
    sorted (map (\<lambda>leg. sint (legLogIndex (lrLogIndex leg))) legs) \<and>
    filter (\<lambda>t. stHash t = stHash tx) txs = [tx\<lparr>stTransfers := legs\<rparr>]"
proof -
  let ?h = "stHash tx" and ?row = "legTxRow ix tx now"
  let ?grp = "filter (\<lambda>r. rwTxHash r = ?h) rows"
  have row: "rwIndexer (?row leg) = ix" "rwTxHash (?row leg) = ?h" "rwStatus (?row leg) = stStatus tx" for leg
    by (simp_all add: legTxRow_def)
  have none: "filter (\<lambda>r. rwTxHash r = ?h) (filter (\<lambda>r. rwIndexer r = ix \<and> rwStatus r \<in> set activeStatuses)
      (filter (\<lambda>r. \<not> ofTx ix ?h r) old)) = []"
    by (auto simp: filter_empty_conv ofTx_def)
  have all: "filter (\<lambda>r. rwTxHash r = ?h) (filter (\<lambda>r. rwIndexer r = ix \<and> rwStatus r \<in> set activeStatuses)
      (map ?row (stTransfers tx))) = map ?row (stTransfers tx)"
    using ok(4) row by (auto simp: filter_id_conv)
  have "mset ?grp = mset (filter (\<lambda>r. rwTxHash r = ?h) (filter (\<lambda>r. rwIndexer r = ix \<and> rwStatus r \<in> set activeStatuses)
        (filter (\<lambda>r. \<not> ofTx ix ?h r) old @ map ?row (stTransfers tx))))"
    using mset_rows by (metis mset_filter)
  also have "\<dots> = mset (map ?row (stTransfers tx))"
    unfolding filter_append none all by simp
  finally have grp: "mset ?grp = mset (map ?row (stTransfers tx))" .
  then obtain legs where legs: "mset legs = mset (stTransfers tx)" "?grp = map ?row legs"
    using map_of_mset by blast
  have ne: "?grp \<noteq> []" using legs ok(3) by auto
  obtain t where t: "txOfRow (hd ?grp) = Inr t" "filter (\<lambda>t. stHash t = ?h) txs = [t\<lparr>stTransfers := map legOfRow ?grp\<rparr>]"
    using assemble_sorted [OF sorted_txPos_hash out refl ne] order by auto
  have "t = tx\<lparr>stTransfers := []\<rparr>"
    using t(1) legs ne txOfRow_saved [OF ok(1)] by (cases legs) auto
  moreover have "map legOfRow ?grp = legs"
    unfolding legs(2) map_map using ok(2) mset_eq_setD [OF legs(1)]
    by (intro list.map_ident_strong) (simp add: legOfRow_saved)
  moreover have "sorted (map (\<lambda>leg. sint (legLogIndex (lrLogIndex leg))) legs)"
  proof -
    have "sorted (map txPos ?grp)" using order sorted_filter [of txPos rows] by simp
    then have "sorted (map txPos (map ?row legs))" using legs(2) by simp
    then show ?thesis by (simp add: comp_def txPos_def legTxRow_def sorted_map less_eq_prod_def)
  qed
  ultimately show ?thesis using t(2) legs(1) by auto
qed

section \<open>The feed\<close>

text \<open>Rows whose times of update the code has written.\<close>

definition stamped :: "txRow \<Rightarrow> bool" where
  "stamped r \<longleftrightarrow> rwTxHash r \<noteq> '''' \<and> (\<exists>t. 0 < t \<and> t < maxTime \<and> rwUpdatedAt r = formatNano t)"

definition feedFrom :: "string \<Rightarrow> legCursor \<Rightarrow> txRow list \<Rightarrow> txRow list" where
  "feedFrom ix c rows = sort_key feedPos (filter (\<lambda>r. afterCursor c r \<and> ofIndexer ix r) rows)"

definition cursorOf :: "legUpdate \<Rightarrow> legCursor" where
  "cursorOf leg = \<lparr>lcUpdatedAt = luUpdatedAt leg, lcTxHash = luTxHash leg, lcLogIndex = legLogIndex (lrLogIndex (luLeg leg))\<rparr>"

lemma collect_append: "collectLegUpdates (xs @ ys) =
    (case collectLegUpdates xs of Inl e \<Rightarrow> Inl e | Inr ls \<Rightarrow> (case collectLegUpdates ys of Inl e \<Rightarrow> Inl e | Inr ls' \<Rightarrow> Inr (ls @ ls')))"
  by (induction xs) (auto split: sum.splits)

lemma collect_length: "collectLegUpdates xs = Inr ls \<Longrightarrow> length ls = length xs"
  by (induction xs arbitrary: ls) (auto split: sum.splits)

lemma collect_last:
  assumes "collectLegUpdates xs = Inr ls" and "xs \<noteq> []"
  shows "scanLegUpdate (last xs) = Inr (last ls)"
proof -
  have "collectLegUpdates (butlast xs @ [last xs]) = Inr ls" using assms by simp
  then show ?thesis unfolding collect_append by (auto split: sum.splits)
qed

lemma legLogIndex_load [simp]: "legLogIndex (loadLogIndex i) = i"
  by (simp add: legLogIndex_def loadLogIndex_def)

text \<open>The cursor of a row stands exactly at the row.\<close>

lemma afterCursor_row:
  assumes "stamped r" and "scanLegUpdate r = Inr leg"
  shows "afterCursor (cursorOf leg) r' \<longleftrightarrow> feedPos r < feedPos r'"
proof -
  obtain t where t: "0 < t" "t < maxTime" "rwUpdatedAt r = formatNano t" and h: "rwTxHash r \<noteq> ''''"
    using assms(1) by (auto simp: stamped_def)
  have "parseTime (rwUpdatedAt r) = Inr t" using parse_formatTime [of t] t by (simp add: formatTime_def isZero_def)
  then have "luUpdatedAt leg = t" "luTxHash leg = rwTxHash r" "lrLogIndex (luLeg leg) = loadLogIndex (rwLogIndex r)"
    using assms(2) by (auto simp: scanLegUpdate_def wrapParse_def legOfRow_def split: sum.splits)
  then show ?thesis using t h
    by (auto simp: afterCursor_def cursorOf_def Let_def formatTime_def isZero_def feedPos_def less_prod_def)
qed

lemma sorted_drop_filter:
  fixes f :: "'a \<Rightarrow> 'k :: linorder"
  assumes "sorted (map f xs)" and "distinct (map f xs)" and "n < length xs"
  shows "filter (\<lambda>x. f (xs ! n) < f x) xs = drop (Suc n) xs"
proof -
  have "sorted_wrt (<) (map f xs)" using assms(1,2) by (simp add: strict_sorted_iff)
  then have lt: "f (xs ! i) < f (xs ! j)" if "i < j" "j < length xs" for i j
    using that by (simp add: sorted_wrt_iff_nth_less)
  have "filter (\<lambda>x. f (xs ! n) < f x) (take (Suc n) xs) = []"
    using lt assms(3) by (auto simp: filter_empty_conv in_set_conv_nth less_Suc_eq not_less order.strict_implies_order)
  moreover have "filter (\<lambda>x. f (xs ! n) < f x) (drop (Suc n) xs) = drop (Suc n) xs"
    using lt by (auto simp: filter_id_conv in_set_conv_nth)
  ultimately have "filter (\<lambda>x. f (xs ! n) < f x) (take (Suc n) xs @ drop (Suc n) xs) = drop (Suc n) xs"
    unfolding filter_append by simp
  then show ?thesis by simp
qed

lemma afterCursor_trans: "afterCursor c r \<Longrightarrow> feedPos r < feedPos r' \<Longrightarrow> afterCursor c r'"
  by (auto simp: afterCursor_def Let_def feedPos_def less_prod_def split: if_splits)

lemma feedFrom_next:
  assumes "\<forall>r \<in> set rows. stamped r" and "distinct (map feedPos rows)"
    and n: "0 < n" "n \<le> length (feedFrom ix c rows)" and leg: "scanLegUpdate (feedFrom ix c rows ! (n - 1)) = Inr leg"
  shows "feedFrom ix (cursorOf leg) rows = drop n (feedFrom ix c rows)"
proof -
  let ?f = "feedFrom ix c rows" and ?r = "feedFrom ix c rows ! (n - 1)"
  have "n - 1 < length ?f" using n by simp
  then have "?r \<in> set ?f" by (rule nth_mem)
  then have r: "?r \<in> set rows" "afterCursor c ?r" "ofIndexer ix ?r" by (auto simp: feedFrom_def)
  have cur: "afterCursor (cursorOf leg) r' \<longleftrightarrow> feedPos ?r < feedPos r'" for r'
    using afterCursor_row [OF _ leg] assms(1) r(1) by blast
  have "filter (\<lambda>r. afterCursor (cursorOf leg) r \<and> ofIndexer ix r) rows =
      filter (\<lambda>r. feedPos ?r < feedPos r) (filter (\<lambda>r. afterCursor c r \<and> ofIndexer ix r) rows)"
    using cur afterCursor_trans [OF r(2)] by (auto intro!: filter_cong)
  then have "feedFrom ix (cursorOf leg) rows = filter (\<lambda>r. feedPos ?r < feedPos r) ?f"
    by (simp add: feedFrom_def filter_sort)
  also have "\<dots> = drop (Suc (n - 1)) ?f"
  proof (rule sorted_drop_filter)
    show "sorted (map feedPos ?f)" by (simp add: feedFrom_def)
    have "distinct (map feedPos (filter (\<lambda>r. afterCursor c r \<and> ofIndexer ix r) rows))"
      using assms(2) by (rule distinct_map_filter)
    then show "distinct (map feedPos ?f)" by (simp add: feedFrom_def distinct_map)
    show "n - 1 < length ?f" using n by simp
  qed
  finally show ?thesis using n by simp
qed

text \<open>One page, in terms of the feed.\<close>

lemma feed_page:
  assumes "sql_engine D live dur prog"
    and load: "LoadLegsUpdatedSince D ix c (int k) d = (r, d')" and dist: "distinct (map feedPos (dur d))"
  shows "dur d' = dur d \<and> prog d' = prog d \<and> (\<forall>ls. r = Inr ls \<longrightarrow> collectLegUpdates (take k (feedFrom ix c (dur d))) = Inr ls)"
proof -
  let ?P = "\<lambda>r. afterCursor c r \<and> ofIndexer ix r"
  obtain rs d1 where sel: "sqSelect D ?P ByUpdate (Some (int k)) d = (rs, d1)" by (cases "sqSelect D ?P ByUpdate (Some (int k)) d")
  note S = sql_engine.select_law [OF assms(1) sel]
  show ?thesis
  proof (cases rs)
    case (Inl e)
    then show ?thesis using load sel S by (auto simp: LoadLegsUpdatedSince_def bindE_def)
  next
    case (Inr rows)
    obtain xs where xs: "mset xs = mset (filter ?P (dur d))" "sorted (map feedPos xs)" "rows = take k xs"
      using S Inr by (auto simp: limitRows_def)
    have "inj_on feedPos (set (filter ?P (dur d)))"
      using dist by (auto simp: distinct_map inj_on_def)
    then have "feedFrom ix c (dur d) = xs"
      unfolding feedFrom_def using xs(1,2) by (intro sort_key_inj_key_eq) simp_all
    then show ?thesis using load sel S Inr xs(3)
      by (auto simp: LoadLegsUpdatedSince_def bindE_def lift_def split: sum.splits)
  qed
qed

section \<open>Properties\<close>

lemma mem_select: "sqSelect memEngine P ord limit d = (Inr (limitRows limit (listOrder ord (filter P (dbRows d)))), d)"
  by (simp add: memEngine_def)

text \<open>
  C27: saving a transaction is atomic. Whatever statement fails, nothing that was committed has
  changed; when it succeeds, the rows of the transaction are exactly one per leg, every other
  row is untouched, and no two legs share a log index (a leg without one counts as the native
  one).
\<close>

theorem SaveTransaction_atomic:
  assumes "sql_engine D live dur prog" and "SaveTransaction D ix tx d = (r, d')" and "distinct (map rowKey (dur d))"
  shows "case r of
      Inl e \<Rightarrow> dur d' = dur d
    | Inr _ \<Rightarrow> \<exists>now. dur d' = filter (\<lambda>row. \<not> ofTx ix (stHash tx) row) (dur d) @
          map (legTxRow ix tx (formatNano now)) (stTransfers tx) \<and>
        distinct (map rowKey (dur d')) \<and> distinct (map (\<lambda>leg. legLogIndex (lrLogIndex leg)) (stTransfers tx))"
proof -
  have keys: "distinct (map (\<lambda>leg. legLogIndex (lrLogIndex leg)) legs)" if "distinct (map rowKey (rows @ map (legTxRow ix tx now) legs))"
    for rows now legs
  proof -
    have "distinct (map (\<lambda>leg. (ix, stHash tx, legLogIndex (lrLogIndex leg))) legs)"
      using that by (simp add: rowKey_def legTxRow_def comp_def)
    then show ?thesis by (auto simp: distinct_map inj_on_def)
  qed
  show ?thesis
  proof (cases r)
    case (Inl e)
    then show ?thesis using sql_engine.save_steps [OF assms(1,2)] by simp
  next
    case (Inr u)
    then obtain now where now: "dur d' = filter (\<lambda>row. \<not> ofTx ix (stHash tx) row) (dur d) @ map (legTxRow ix tx (formatNano now)) (stTransfers tx)"
      "freshKeys (filter (\<lambda>row. \<not> ofTx ix (stHash tx) row) (dur d)) (map (legTxRow ix tx (formatNano now)) (stTransfers tx))"
      using sql_engine.save_steps [OF assms(1,2)] by auto
    have "distinct (map rowKey (dur d'))" unfolding now(1)
      by (rule freshKeys_distinct [OF now(2) distinct_map_filter [OF assms(3)]])
    moreover from this have "distinct (map (\<lambda>leg. legLogIndex (lrLogIndex leg)) (stTransfers tx))"
      unfolding now(1) by (rule keys)
    ultimately show ?thesis using Inr now(1) by auto
  qed
qed

definition demoLegRow :: legRow where
  "demoLegRow = \<lparr>lrFrom = ''7'', lrTo = ''8'', lrDirection = ''in'', lrAsset = ''TEST'', lrTokenAddress = ''99'',
     lrDecimals = 6, lrValueRaw = ''1'', lrValue = ''0.000001'', lrLogIndex = Some 4, lrTxSender = ''7'', lrTxNonce = 3\<rparr>"

definition demoRow :: storedTx where
  "demoRow = \<lparr>stHash = ''aa'', stStatus = ''mined'', stBlockHash = ''bb'', stBlockNumber = 7, stFirstSeen = 5,
     stFirstSeenBlock = 7, stMinedAt = 5, stPendingSince = 5, stSender = ''7'', stNonce = 3, stHasNonce = True,
     stAuthoritative = True,
     stTransfers = [demoLegRow], stReplacedBy = ''''\<rparr>"

definition demoDb :: listDb where
  "demoDb = \<lparr>dbRows = [], dbWork = [], dbProg = (\<lambda>_. None), dbClock = 0\<rparr>"

lemma demo_save:
  "SaveTransaction memEngine ''demo'' demoRow demoDb =
    (Inr (), \<lparr>dbRows = map (legTxRow ''demo'' demoRow (formatNano 1)) (stTransfers demoRow),
      dbWork = map (legTxRow ''demo'' demoRow (formatNano 1)) (stTransfers demoRow), dbProg = (\<lambda>_. None), dbClock = 1\<rparr>)"
  by (simp add: SaveTransaction_def rollingBack_def memEngine_def demoDb_def bindE_def nowString_def demoRow_def)

theorem SaveTransaction_atomic_witness:
  "\<exists>now. dbRows (snd (SaveTransaction memEngine ''demo'' demoRow demoDb)) =
      map (legTxRow ''demo'' demoRow (formatNano now)) (stTransfers demoRow)"
proof -
  have "dbRows demoDb = []" by (simp add: demoDb_def)
  then show ?thesis using SaveTransaction_atomic [OF mem.sql_engine_axioms demo_save] by (auto simp: demo_save)
qed

text \<open>
  C29: two legs of one transaction that both lack a log index cannot be stored. The schema comment
  says that only the native leg lacks one, but so do the token legs that are decoded from the
  calldata of a pending transaction: when a pending transaction has both, saving it always fails,
  and it is not restored after a restart.
\<close>

theorem unindexed_legs_not_saved:
  assumes "sql_engine D live dur prog" and "distinct (map rowKey (dur d))"
    and "stTransfers tx = xs @ leg # ys @ leg' # zs" and "lrLogIndex leg = None" and "lrLogIndex leg' = None"
  shows "\<exists>e. fst (SaveTransaction D ix tx d) = Inl e \<and> dur (snd (SaveTransaction D ix tx d)) = dur d"
proof -
  obtain r d' where s: "SaveTransaction D ix tx d = (r, d')" by (cases "SaveTransaction D ix tx d")
  note S = sql_engine.save_steps [OF assms(1) s]
  show ?thesis
  proof (cases r)
    case (Inl e)
    then show ?thesis using S s by simp
  next
    case (Inr u)
    then obtain now where "freshKeys (filter (\<lambda>row. \<not> ofTx ix (stHash tx) row) (dur d)) (map (legTxRow ix tx (formatNano now)) (stTransfers tx))"
      using S by auto
    from freshKeys_distinct [OF this distinct_map_filter [OF assms(2)]]
    have "distinct (map rowKey (filter (\<lambda>row. \<not> ofTx ix (stHash tx) row) (dur d) @ map (legTxRow ix tx (formatNano now)) (stTransfers tx)))" .
    then have False using assms(3-5) by (simp add: rowKey_def legTxRow_def)
    then show ?thesis ..
  qed
qed

text \<open>The matcher produces such a pair: a token transfer that also sends the native coin.\<close>

definition payingCall :: blockTx where
  "payingCall = \<lparr>btHash = 1, btFrom = 7, btTo = Some 99, btValue = Some 5, btInput = encodeTransfer 8 3, btNonce = 0\<rparr>"

theorem unindexed_legs_not_saved_witness:
  "map mLogIndex (MatchBlockTx demoMatcher payingCall) = [None, None] \<and>
   (\<exists>e. fst (SaveTransaction memEngine ''demo'' (demoRow\<lparr>stTransfers := map (exportLeg decimalCodec)
      (MatchBlockTx demoMatcher payingCall)\<rparr>) demoDb) = Inl e)"
proof -
  have legs: "map mLogIndex (MatchBlockTx demoMatcher payingCall) = [None, None]"
    by code_simp
  then obtain a b where ab: "MatchBlockTx demoMatcher payingCall = [a, b]" "mLogIndex a = None" "mLogIndex b = None"
    by (auto simp: map_eq_Cons_conv)
  show ?thesis
    using unindexed_legs_not_saved [OF mem.sql_engine_axioms, where d = demoDb and ix = "''demo''" and
        tx = "demoRow\<lparr>stTransfers := map (exportLeg decimalCodec) (MatchBlockTx demoMatcher payingCall)\<rparr>"
        and xs = "[]" and ys = "[]" and zs = "[]"] ab legs
    by (simp add: demoDb_def exportLeg_def)
qed

text \<open>
  What is saved of an active transaction is what a restart loads: the same transaction, once,
  with the same legs, in the order of their log indices, times and the nil index of the native leg
  included, whatever else the table holds.
\<close>

theorem save_load_roundtrip:
  assumes "sql_engine D live dur prog" and "SaveTransaction D ix tx d = (Inr (), d1)"
    and "LoadActiveTransactions D ix d1 = (Inr txs, d2)"
    and "timesOK tx" and "\<forall>leg \<in> set (stTransfers tx). legOK tx leg" and "stTransfers tx \<noteq> []" and "stStatus tx \<in> set activeStatuses"
  shows "\<exists>legs. mset legs = mset (stTransfers tx) \<and>
    sorted (map (\<lambda>leg. sint (legLogIndex (lrLogIndex leg))) legs) \<and>
    filter (\<lambda>t. stHash t = stHash tx) txs = [tx\<lparr>stTransfers := legs\<rparr>]"
proof -
  obtain now where dur: "dur d1 = filter (\<lambda>row. \<not> ofTx ix (stHash tx) row) (dur d) @ map (legTxRow ix tx (formatNano now)) (stTransfers tx)"
    using sql_engine.save_steps [OF assms(1,2)] by auto
  obtain r d3 where sel: "sqSelect D (\<lambda>r. rwIndexer r = ix \<and> rwStatus r \<in> set activeStatuses) ByTx None d1 = (r, d3)"
    by (cases "sqSelect D (\<lambda>r. rwIndexer r = ix \<and> rwStatus r \<in> set activeStatuses) ByTx None d1")
  then obtain rows where rows: "r = Inr rows" "foldl assembleRow (Inr []) rows = Inr txs"
    using assms(3) by (cases r) (auto simp: LoadActiveTransactions_def bindE_def lift_def split: sum.splits)
  have "mset rows = mset (filter (\<lambda>r. rwIndexer r = ix \<and> rwStatus r \<in> set activeStatuses) (dur d1))" and "orderedBy ByTx rows"
    using sql_engine.select_law [OF assms(1) sel] rows(1) by (auto simp: limitRows_def)
  then show ?thesis using load_saved [OF _ _ rows(2) assms(4-7)] unfolding dur by blast
qed

theorem save_load_roundtrip_witness:
  "\<exists>txs. fst (LoadActiveTransactions memEngine ''demo'' (snd (SaveTransaction memEngine ''demo'' demoRow demoDb))) = Inr txs \<and>
     filter (\<lambda>t. stHash t = ''aa'') txs = [demoRow]"
proof -
  let ?leg = demoLegRow
  have one: "stTransfers demoRow = [?leg]" and h: "stHash demoRow = ''aa''" by (simp_all add: demoRow_def)
  have ok: "timesOK demoRow" "legOK demoRow ?leg" "stStatus demoRow \<in> set activeStatuses"
    by (simp_all add: timesOK_def legOK_def demoRow_def demoLegRow_def maxTime_def nsPerDay_def activeStatuses_def nativeLegIndex_def)
  define R where "R = legTxRow ''demo'' demoRow (formatNano 1) ?leg"
  let ?db = "\<lparr>dbRows = [R], dbWork = [R], dbProg = (\<lambda>_. None), dbClock = 1\<rparr>"
  have s: "SaveTransaction memEngine ''demo'' demoRow demoDb = (Inr (), ?db)"
    unfolding demo_save one R_def by simp
  have row: "rwIndexer R = ''demo''" "rwStatus R \<in> set activeStatuses"
    using ok(3) by (simp_all add: R_def legTxRow_def)
  have tx: "txOfRow R = Inr (demoRow\<lparr>stTransfers := []\<rparr>)" and leg: "legOfRow R = ?leg"
    unfolding R_def by (rule txOfRow_saved [OF ok(1)], rule legOfRow_saved [OF ok(2)])
  have l: "LoadActiveTransactions memEngine ''demo'' ?db = (Inr [demoRow\<lparr>stTransfers := [?leg]\<rparr>], ?db)"
    by (simp add: LoadActiveTransactions_def bindE_def mem_select row tx leg limitRows_def lift_def assembleRow_def addLeg_def)
  have "\<forall>leg \<in> set (stTransfers demoRow). legOK demoRow leg" "stTransfers demoRow \<noteq> []" by (simp_all add: one ok(2))
  from save_load_roundtrip [OF mem.sql_engine_axioms s l ok(1) this ok(3)] obtain legs where
    legs: "mset legs = mset (stTransfers demoRow)"
      "filter (\<lambda>t. stHash t = stHash demoRow) [demoRow\<lparr>stTransfers := [?leg]\<rparr>] = [demoRow\<lparr>stTransfers := legs\<rparr>]"
    by blast
  have "legs = stTransfers demoRow" using legs(1) unfolding one by simp
  then have "demoRow\<lparr>stTransfers := legs\<rparr> = demoRow" by simp
  then show ?thesis using l s legs(2) h by simp
qed

text \<open>
  A status update changes the status, the replacing hash and the time of update of every leg of
  the transaction and nothing else, whether it fails or not keeps every other row, and reports
  whether the transaction was there.
\<close>

theorem UpdateTransactionStatus_exact:
  assumes "sql_engine D live dur prog" and "UpdateTransactionStatus D ix h status by d = (r, d')"
  shows "case r of
      Inl e \<Rightarrow> dur d' = dur d
    | Inr known \<Rightarrow> (known \<longleftrightarrow> (\<exists>row \<in> set (dur d). rwIndexer row = ix \<and> rwTxHash row = h)) \<and>
        (\<exists>now. dur d' = map (\<lambda>row. if rwIndexer row = ix \<and> rwTxHash row = h
            then row\<lparr>rwStatus := status, rwReplacedBy := by, rwUpdatedAt := formatNano now\<rparr> else row) (dur d))"
  using sql_engine.update_steps [OF assms] unfolding ofTx_def setStatus_def by (auto split: sum.splits)

theorem UpdateTransactionStatus_exact_witness:
  "fst (UpdateTransactionStatus memEngine ''demo'' ''aa'' ''confirmed'' '''' demoDb) = Inr False"
proof -
  obtain known d' where "UpdateTransactionStatus memEngine ''demo'' ''aa'' ''confirmed'' '''' demoDb = (Inr known, d')"
    by (simp add: UpdateTransactionStatus_def memEngine_def nowString_def bindE_def)
  moreover from UpdateTransactionStatus_exact [OF mem.sql_engine_axioms this] have "known = False"
    by (simp add: demoDb_def)
  ultimately show ?thesis by simp
qed

text \<open>
  C28: the pages of the change feed join up. A page read from the cursor of the last row of a full
  page continues exactly there, so the two together are what one read of both would have returned:
  no row is skipped and none repeated, even when many share one time of update. The rows must have
  different positions (time, hash, log index); two indexers with rows at one position would not.
\<close>

theorem feed_pages_join:
  assumes "sql_engine D live dur prog" and "\<forall>row \<in> set (dur d). stamped row" and "distinct (map feedPos (dur d))"
    and "LoadLegsUpdatedSince D ix c (int n) d = (Inr p1, d1)" and "0 < n" and "length p1 = n"
    and "LoadLegsUpdatedSince D ix (cursorOf (last p1)) (int m) d1 = (Inr p2, d2)"
    and "LoadLegsUpdatedSince D ix c (int (n + m)) d = (Inr p, d3)"
  shows "p = p1 @ p2"
proof -
  note page = feed_page [OF assms(1)]
  let ?f = "feedFrom ix c (dur d)"
  have one: "dur d1 = dur d" "collectLegUpdates (take n ?f) = Inr p1" using page [OF assms(4,3)] by simp_all
  have "length (take n ?f) = n" using collect_length [OF one(2)] assms(6) by simp
  then have len: "n \<le> length ?f" by simp
  have "scanLegUpdate (last (take n ?f)) = Inr (last p1)"
    using collect_last [OF one(2)] assms(5) len by (cases ?f) auto
  moreover have "take n ?f = take (n - 1) ?f @ [?f ! (n - 1)]"
    using take_Suc_conv_app_nth [of "n - 1" ?f] assms(5) len by simp
  then have "last (take n ?f) = ?f ! (n - 1)" by (metis last_snoc)
  ultimately have "feedFrom ix (cursorOf (last p1)) (dur d) = drop n ?f"
    using feedFrom_next [OF assms(2,3,5) len] by simp
  then have two: "collectLegUpdates (take m (drop n ?f)) = Inr p2"
    using page [OF assms(7)] assms(3) one(1) by simp
  have "take (n + m) ?f = take n ?f @ take m (drop n ?f)" by (rule take_add)
  then show ?thesis using page [OF assms(8,3)] one(2) two by (simp add: collect_append)
qed

definition twoRows :: listDb where
  "twoRows = demoDb\<lparr>dbRows := [legTxRow ''demo'' (demoRow\<lparr>stHash := ''ab''\<rparr>) (formatNano 1) demoLegRow,
     legTxRow ''demo'' demoRow (formatNano 1) demoLegRow]\<rparr>"

definition startCursor :: legCursor where
  "startCursor = \<lparr>lcUpdatedAt = 0, lcTxHash = '''', lcLogIndex = 0\<rparr>"

lemma scan_saved:
  assumes "timesOK tx" and "0 < now" and "now < maxTime"
  shows "\<exists>leg'. scanLegUpdate (legTxRow ix tx (formatNano now) leg) = Inr leg'"
  using assms parse_formatTime [of now]
  by (auto simp: timesOK_def scanLegUpdate_def legTxRow_def wrapParse_def parse_formatTime formatTime_def [of now] isZero_def)

lemma collect_total: "\<forall>r \<in> set rs. \<exists>leg. scanLegUpdate r = Inr leg \<Longrightarrow> \<exists>legs. collectLegUpdates rs = Inr legs"
  by (induction rs) auto

lemma twoRows_load: "\<exists>legs. LoadLegsUpdatedSince memEngine ix c k twoRows = (Inr legs, twoRows)"
proof -
  have "timesOK demoRow" "timesOK (demoRow\<lparr>stHash := ''ab''\<rparr>)"
    by (simp_all add: timesOK_def demoRow_def maxTime_def nsPerDay_def)
  then have scan: "\<forall>r \<in> set (dbRows twoRows). \<exists>leg. scanLegUpdate r = Inr leg"
    unfolding twoRows_def using scan_saved [of _ 1] by (simp add: maxTime_def nsPerDay_def)
  let ?rows = "limitRows (Some k) (listOrder ByUpdate (filter (\<lambda>r. afterCursor c r \<and> ofIndexer ix r) (dbRows twoRows)))"
  have "set ?rows \<subseteq> set (dbRows twoRows)" by (auto simp: limitRows_def dest: in_set_takeD)
  then obtain legs where "collectLegUpdates ?rows = Inr legs" using collect_total [of ?rows] scan by blast
  then show ?thesis by (simp add: LoadLegsUpdatedSince_def mem_select bindE_def lift_def)
qed

theorem feed_pages_join_witness:
  "\<exists>legA legB. fst (LoadLegsUpdatedSince memEngine '''' startCursor 1 twoRows) = Inr [legA] \<and>
     fst (LoadLegsUpdatedSince memEngine '''' (cursorOf legA) 1 twoRows) = Inr [legB] \<and>
     fst (LoadLegsUpdatedSince memEngine '''' startCursor 2 twoRows) = Inr [legA, legB]"
proof -
  have st: "\<forall>row \<in> set (dbRows twoRows). stamped row" "distinct (map feedPos (dbRows twoRows))"
    by (auto simp: twoRows_def stamped_def legTxRow_def demoRow_def maxTime_def nsPerDay_def feedPos_def intro!: exI [of _ 1])
  have "formatNano 1 \<noteq> ''''" by (simp add: formatNano_def)
  then have "'''' < formatNano 1" by (cases "formatNano 1") simp_all
  then have all: "filter (\<lambda>r. afterCursor startCursor r \<and> ofIndexer '''' r) (dbRows twoRows) = dbRows twoRows"
    by (auto simp: twoRows_def afterCursor_def startCursor_def formatTime_def isZero_def ofIndexer_def legTxRow_def)
  have size: "length legs = min k 2" if "LoadLegsUpdatedSince memEngine '''' startCursor (int k) twoRows = (Inr legs, twoRows)" for k legs
  proof -
    have "length (dbRows twoRows) = 2" by (simp add: twoRows_def)
    then show ?thesis using that all
      by (auto simp: LoadLegsUpdatedSince_def mem_select bindE_def lift_def limitRows_def dest: collect_length split: sum.splits)
  qed
  obtain p1 where p1: "LoadLegsUpdatedSince memEngine '''' startCursor (int 1) twoRows = (Inr p1, twoRows)" "length p1 = 1"
    using twoRows_load size [of 1] by fastforce
  obtain p2 where p2: "LoadLegsUpdatedSince memEngine '''' (cursorOf (last p1)) (int 1) twoRows = (Inr p2, twoRows)"
    using twoRows_load by fastforce
  obtain p where p: "LoadLegsUpdatedSince memEngine '''' startCursor (int (1 + 1)) twoRows = (Inr p, twoRows)" "length p = 2"
    using twoRows_load size [of 2] by fastforce
  have "p = p1 @ p2"
    by (rule feed_pages_join [OF mem.sql_engine_axioms st p1(1) _ p1(2) p2 p(1)]) simp
  then show ?thesis using p1 p2 p by (auto simp: length_Suc_conv numeral_2_eq_2)
qed

end
