(* ===== verification/Restart.thy ===== *)
theory Restart
  imports SqliteProps TrackerProps Session
begin

text \<open>
  The tracker, the indexer and the database together: what \<open>persistEvents\<close> leaves in the table
  mirrors the tracker, a restart on a table that mirrors a tracker restores it, and the progress
  that \<open>saveState\<close> leaves is the progress a resumed run starts from.
\<close>

section \<open>The table mirrors the tracker\<close>

text \<open>
  For a tracked transaction the table holds one row per leg, written at one time; for a transaction
  that is not tracked, no row with an active status.
\<close>

definition mirrorsTx :: "hexcodec \<Rightarrow> string \<Rightarrow> txRow list \<Rightarrow> tracker \<Rightarrow> hash \<Rightarrow> bool" where
  "mirrorsTx c ix rows t h \<longleftrightarrow>
     (case fmlookup (trTxs t) h of
        Some tx \<Rightarrow> \<exists>now. filter (ofTx ix (hashHex c h)) rows =
          map (legTxRow ix (exportTracked c tx) now) (stTransfers (exportTracked c tx))
      | None \<Rightarrow> \<forall>r \<in> set (filter (ofTx ix (hashHex c h)) rows). rwStatus r \<notin> set activeStatuses)"

definition mirrors :: "hexcodec \<Rightarrow> string \<Rightarrow> txRow list \<Rightarrow> tracker \<Rightarrow> bool" where
  "mirrors c ix rows t \<longleftrightarrow> (\<forall>h. mirrorsTx c ix rows t h) \<and>
     (\<forall>r \<in> set rows. rwIndexer r = ix \<longrightarrow> (\<exists>h. rwTxHash r = hashHex c h))"

text \<open>The statuses of events after which a transaction is not tracked any more.\<close>

definition endingTypes :: "string set" where
  "endingTypes = {TypeConfirmed, TypeDropped, TypeFailed, TypeReplaced}"

lemma ending_inactive: "ty \<in> endingTypes \<Longrightarrow> ty \<notin> set activeStatuses"
  by (auto simp: endingTypes_def activeStatuses_def TypeConfirmed_def TypeDropped_def TypeFailed_def TypeReplaced_def)

lemma export_hash: "stHash (exportTracked c tx) = hashHex c (tHash tx)"
  by (simp add: exportTracked_def)

lemma ofTx_row: "ofTx ix h (legTxRow ix' tx now leg) \<longleftrightarrow> ix' = ix \<and> stHash tx = h"
  by (auto simp: ofTx_def legTxRow_def)

lemma filter_ofTx_other: "h \<noteq> h' \<Longrightarrow> filter (ofTx ix h') (filter (\<lambda>r. \<not> ofTx ix h r) rows) = filter (ofTx ix h') rows"
  by (induction rows) (auto simp: ofTx_def)

lemma mirrorsTx_cong:
  "filter (ofTx ix (hashHex c h)) rows' = filter (ofTx ix (hashHex c h)) rows \<Longrightarrow> mirrorsTx c ix rows t h \<Longrightarrow> mirrorsTx c ix rows' t h"
  unfolding mirrorsTx_def by (simp only:)

text \<open>The rows of one indexer, which is all of the table its tracker looks at.\<close>

definition ownRows :: "string \<Rightarrow> txRow list \<Rightarrow> txRow list" where
  "ownRows ix rows = filter (\<lambda>r. rwIndexer r = ix) rows"

lemma own_ofTx: "ownRows ix rows' = ownRows ix rows \<Longrightarrow> filter (ofTx ix k) rows' = filter (ofTx ix k) rows"
proof -
  have "filter (ofTx ix k) xs = filter (ofTx ix k) (ownRows ix xs)" for xs
    by (auto simp: ownRows_def filter_filter ofTx_def intro!: filter_cong)
  then show "ownRows ix rows' = ownRows ix rows \<Longrightarrow> ?thesis" by metis
qed

lemma mirrors_other:
  assumes "hexOK c" and "h \<noteq> h'" and "stHash tx = hashHex c h"
    and rows: "rows' = filter (\<lambda>r. \<not> ofTx ix (hashHex c h) r) rows @ map (legTxRow ix tx now) legs"
    and "mirrorsTx c ix rows t h'"
  shows "mirrorsTx c ix rows' t h'"
proof -
  have ne: "hashHex c h \<noteq> hashHex c h'" using assms(1,2) hexOK_inj by blast
  have "filter (ofTx ix (hashHex c h')) rows' = filter (ofTx ix (hashHex c h')) rows"
    using assms(3) ne unfolding rows filter_append filter_ofTx_other [OF ne] by (auto simp: filter_empty_conv ofTx_row)
  then show ?thesis using assms(5) by (rule mirrorsTx_cong)
qed

lemma mirrors_update:
  assumes "hexOK c" and "h \<noteq> h'" and "mirrorsTx c ix rows t h'"
  shows "mirrorsTx c ix (map (\<lambda>r. if ofTx ix (hashHex c h) r then setStatus st by now r else r) rows) t h'"
proof -
  have ne: "hashHex c h \<noteq> hashHex c h'" using assms(1,2) hexOK_inj by blast
  have f: "filter (ofTx ix (hashHex c h')) (map (\<lambda>r. if ofTx ix (hashHex c h) r then setStatus st by now r else r) rows) =
      filter (ofTx ix (hashHex c h')) rows"
    using ne by (induction rows) (auto simp: ofTx_def setStatus_def)
  show ?thesis by (rule mirrorsTx_cong [OF f assms(3)])
qed

section \<open>Persisting keeps the mirror\<close>

lemma world_result: "world m s = (r, s') \<Longrightarrow> \<exists>w'. m (ixWorld s) = (r, w') \<and> s' = s\<lparr>ixWorld := w'\<rparr>"
  by (auto simp: world_def split: prod.splits)

lemma persist_tracked:
  assumes "sql_engine D live dur prog" and "hexOK c" and "fmlookup (trTxs t) h = Some tx" and "tHash tx = h"
    and "SaveTransaction D ix (exportTracked c tx) w = (Inr (), w')"
  shows "mirrorsTx c ix (dur w') t h \<and> (\<forall>h'. h' \<noteq> h \<longrightarrow> mirrorsTx c ix (dur w) t h' \<longrightarrow> mirrorsTx c ix (dur w') t h')"
proof -
  obtain now where d: "dur w' = filter (\<lambda>row. \<not> ofTx ix (hashHex c h) row) (dur w) @
      map (legTxRow ix (exportTracked c tx) (formatNano now)) (stTransfers (exportTracked c tx))"
    using sql_engine.save_steps [OF assms(1,5)] assms(4) by (auto simp: export_hash)
  have "filter (ofTx ix (hashHex c h)) (dur w') =
      map (legTxRow ix (exportTracked c tx) (formatNano now)) (stTransfers (exportTracked c tx))"
    unfolding d by (simp add: filter_empty_conv filter_id_conv ofTx_row export_hash assms(4))
  then show ?thesis
    using mirrors_other [OF assms(2) _ _ d] assms(3,4) by (auto simp: mirrorsTx_def [of _ _ _ _ h] export_hash)
qed

lemma persist_ended:
  assumes "sql_engine D live dur prog" and "hexOK c" and "fmlookup (trTxs t) h = None" and "stHash tx = hashHex c h"
    and "stStatus tx \<notin> set activeStatuses" and "SaveTransaction D ix tx w = (Inr (), w')"
  shows "mirrorsTx c ix (dur w') t h \<and> (\<forall>h'. h' \<noteq> h \<longrightarrow> mirrorsTx c ix (dur w) t h' \<longrightarrow> mirrorsTx c ix (dur w') t h')"
proof -
  obtain now where d: "dur w' = filter (\<lambda>row. \<not> ofTx ix (hashHex c h) row) (dur w) @ map (legTxRow ix tx (formatNano now)) (stTransfers tx)"
    using sql_engine.save_steps [OF assms(1,6)] assms(4) by auto
  have "mirrorsTx c ix (dur w') t h" using assms(3,5) unfolding mirrorsTx_def d by (auto simp: legTxRow_def)
  then show ?thesis using mirrors_other [OF assms(2) _ assms(4) d, where t = t] by metis
qed

lemma persistTx_ended:
  assumes "sql_engine D live dur prog" and st: "eStore E = Some st" "st = sqliteStore D" and hex: "hexOK (eCodec E)"
    and clock: "\<And>w. ownRows (icName (eCfg E)) (dur (snd (eNow E w))) = ownRows (icName (eCfg E)) (dur w)"
    and evs: "evs \<noteq> []" "\<forall>ev \<in> set evs. evTxHash ev = hashHex (eCodec E) h"
    and None: "fmlookup (trTxs (ixTracker s)) h = None" and ended: "\<forall>ev \<in> set evs. evType ev \<in> endingTypes"
    and run: "persistTx E st (hashHex (eCodec E) h) evs s = (Inr (), s')"
  shows "ixTracker s' = ixTracker s \<and> mirrorsTx (eCodec E) (icName (eCfg E)) (dur (ixWorld s')) (ixTracker s) h \<and>
    (\<forall>h'. h' \<noteq> h \<longrightarrow> mirrorsTx (eCodec E) (icName (eCfg E)) (dur (ixWorld s)) (ixTracker s) h' \<longrightarrow>
       mirrorsTx (eCodec E) (icName (eCfg E)) (dur (ixWorld s')) (ixTracker s) h')"
proof -
  let ?c = "eCodec E" and ?ix = "icName (eCfg E)" and ?t = "ixTracker s"
  have hh: "HexToHash ?c (hashHex ?c h) = h" by (rule hexOK_simps [OF hex])
  let ?last = "last evs"
  have ty: "\<forall>ev \<in> set evs. evType ev \<notin> set activeStatuses" using ended ending_inactive by blast
  obtain r1 w1 where u: "UpdateTransactionStatus D ?ix (hashHex ?c h) (evType ?last) (evReplacedBy ?last) (ixWorld s) = (r1, w1)"
    by (cases "UpdateTransactionStatus D ?ix (hashHex ?c h) (evType ?last) (evReplacedBy ?last) (ixWorld s)")
  obtain known where k: "r1 = Inr known"
    using run None u by (cases r1) (auto simp: persistTx_def bindE_def gets_def ExportTx_def hh st sqliteStore_def world_def)
  obtain now where d1: "dur w1 = map (\<lambda>row. if ofTx ?ix (hashHex ?c h) row
      then setStatus (evType ?last) (evReplacedBy ?last) (formatNano now) row else row) (dur (ixWorld s))"
    "known \<longleftrightarrow> (\<exists>row \<in> set (dur (ixWorld s)). ofTx ?ix (hashHex ?c h) row)"
    using sql_engine.update_steps [OF assms(1) u] k by auto
  have one: "mirrorsTx ?c ?ix (dur w1) ?t h"
    using None ty evs(1) unfolding mirrorsTx_def d1(1) by (auto simp: setStatus_def ofTx_def)
  have others: "h' \<noteq> h \<Longrightarrow> mirrorsTx ?c ?ix (dur (ixWorld s)) ?t h' \<Longrightarrow> mirrorsTx ?c ?ix (dur w1) ?t h'" for h'
    unfolding d1(1) by (rule mirrors_update [OF hex]) auto
  show ?thesis
  proof (cases known)
    case True
    then have "s' = s\<lparr>ixWorld := w1\<rparr>"
      using run None u k by (simp add: persistTx_def bindE_def gets_def ExportTx_def hh st sqliteStore_def world_def ok_def)
    then show ?thesis using one others by simp
  next
    case False
    obtain tm w2 where n: "eNow E w1 = (tm, w2)" by (cases "eNow E w1")
    have own: "ownRows ?ix (dur w2) = ownRows ?ix (dur w1)" using clock [of w1] n by simp
    have d2: "mirrorsTx ?c ?ix (dur w1) ?t h' \<Longrightarrow> mirrorsTx ?c ?ix (dur w2) ?t h'" for h'
      by (rule mirrorsTx_cong [OF own_ofTx [OF own]])
    obtain r3 w3 where sv: "SaveTransaction D ?ix (txFromEvents tm evs) w2 = (r3, w3)"
      by (cases "SaveTransaction D ?ix (txFromEvents tm evs) w2")
    have s': "r3 = Inr ()" "s' = s\<lparr>ixWorld := w3\<rparr>"
      using run None u k False n sv
      by (simp_all add: persistTx_def bindE_def gets_def ExportTx_def hh st sqliteStore_def world_def clock_def)
    have "stHash (txFromEvents tm evs) = hashHex ?c h" "stStatus (txFromEvents tm evs) \<notin> set activeStatuses"
      using evs ty by (cases evs; simp add: txFromEvents_def Let_def)+
    from persist_ended [OF assms(1) hex None this, of ?ix w2 w3] show ?thesis
      using sv s' d2 others by auto
  qed
qed

lemma persistTx_mirrors:
  assumes "sql_engine D live dur prog" and st: "eStore E = Some st" "st = sqliteStore D" and hex: "hexOK (eCodec E)"
    and inv: "trackerInv (ixTracker s)" and clock: "\<And>w. ownRows (icName (eCfg E)) (dur (snd (eNow E w))) = ownRows (icName (eCfg E)) (dur w)"
    and evs: "evs \<noteq> []" "\<forall>ev \<in> set evs. evTxHash ev = hashHex (eCodec E) h"
    and ended: "fmlookup (trTxs (ixTracker s)) h = None \<Longrightarrow> \<forall>ev \<in> set evs. evType ev \<in> endingTypes"
    and run: "persistTx E st (hashHex (eCodec E) h) evs s = (Inr (), s')"
  shows "ixTracker s' = ixTracker s \<and> mirrorsTx (eCodec E) (icName (eCfg E)) (dur (ixWorld s')) (ixTracker s) h \<and>
    (\<forall>h'. h' \<noteq> h \<longrightarrow> mirrorsTx (eCodec E) (icName (eCfg E)) (dur (ixWorld s)) (ixTracker s) h' \<longrightarrow>
       mirrorsTx (eCodec E) (icName (eCfg E)) (dur (ixWorld s')) (ixTracker s) h')"
proof -
  let ?c = "eCodec E" and ?ix = "icName (eCfg E)" and ?t = "ixTracker s"
  have hh: "HexToHash ?c (hashHex ?c h) = h" by (rule hexOK_simps [OF hex])
  show ?thesis
  proof (cases "fmlookup (trTxs ?t) h")
    case (Some tx)
    have h: "tHash tx = h" using trackerInv_tx [OF inv Some] by (simp add: txOK_def)
    have "world (SaveTransaction D ?ix (exportTracked ?c tx)) s = (Inr (), s')"
      using run Some by (simp add: persistTx_def bindE_def gets_def ExportTx_def hh st sqliteStore_def)
    then obtain w' where w: "SaveTransaction D ?ix (exportTracked ?c tx) (ixWorld s) = (Inr (), w')" "s' = s\<lparr>ixWorld := w'\<rparr>"
      using world_result by blast
    then show ?thesis using persist_tracked [OF assms(1) hex Some h w(1)] by simp
  next
    case None
    then show ?thesis using persistTx_ended [OF assms(1) st hex clock evs None _ run] ended by blast
  qed
qed

section \<open>What a restart reads\<close>

text \<open>
  The legs come back in the order of their log indices, the native one first, and with the sender
  and nonce of their transaction, which is where the table keeps them.
\<close>

definition logPos :: "transferMatch \<Rightarrow> int" where
  "logPos m = sint (legLogIndex (mLogIndex m))"

definition asRestored :: "trackedTx \<Rightarrow> trackedTx" where
  "asRestored tx = tx\<lparr>tTransfers := map (\<lambda>m. m\<lparr>mTxSender := tSender tx, mTxNonce := tNonce tx\<rparr>) (sort_key logPos (tTransfers tx))\<rparr>"

definition storable :: "trackedTx \<Rightarrow> bool" where
  "storable tx \<longleftrightarrow> (\<forall>t \<in> {tFirstSeen tx, tMinedAt tx, tPendingSince tx}. 0 \<le> t \<and> t < maxTime) \<and>
     (\<forall>m \<in> set (tTransfers tx). mLogIndex m \<noteq> Some nativeLegIndex)"

lemma legOfRow_export:
  assumes "mLogIndex m \<noteq> Some nativeLegIndex"
  shows "legOfRow (legTxRow ix (exportTracked c tx) now (exportLeg c m)) =
    exportLeg c (m\<lparr>mTxSender := tSender tx, mTxNonce := tNonce tx\<rparr>)"
  using assms by (auto simp: legOfRow_def legTxRow_def exportLeg_def exportTracked_def loadLogIndex_def legLogIndex_def split: option.splits)

lemma export_restored:
  "exportTracked c (asRestored tx) =
    (exportTracked c tx)\<lparr>stTransfers := map (\<lambda>m. exportLeg c (m\<lparr>mTxSender := tSender tx, mTxNonce := tNonce tx\<rparr>)) (sort_key logPos (tTransfers tx))\<rparr>"
  by (simp add: exportTracked_def asRestored_def)

lemma pos_export: "sint (rwLogIndex (legTxRow ix tx now (exportLeg c m))) = logPos m"
  by (simp add: legTxRow_def logPos_def exportLeg_def)

definition restoredLegs :: "hexcodec \<Rightarrow> trackedTx \<Rightarrow> legRow list" where
  "restoredLegs c tx = map (\<lambda>m. exportLeg c (m\<lparr>mTxSender := tSender tx, mTxNonce := tNonce tx\<rparr>)) (sort_key logPos (tTransfers tx))"

text \<open>The rows of one transaction, in the order of the query, become one stored transaction.\<close>

lemma load_rows_group:
  assumes sorted: "sorted (map txPos rows)" and out: "foldl assembleRow (Inr []) rows = Inr txs"
    and grp: "mset (filter (\<lambda>r. rwTxHash r = stHash (exportTracked c tx)) rows) =
      mset (map (legTxRow ix (exportTracked c tx) now) (stTransfers (exportTracked c tx)))"
    and keys: "distinct (map rowKey rows)" and ok: "\<forall>m \<in> set (tTransfers tx). mLogIndex m \<noteq> Some nativeLegIndex" "tTransfers tx \<noteq> []"
  shows "\<exists>leg t. txOfRow (legTxRow ix (exportTracked c tx) now leg) = Inr t \<and>
    filter (\<lambda>x. stHash x = stHash (exportTracked c tx)) txs = [t\<lparr>stTransfers := restoredLegs c tx\<rparr>]"
proof -
  let ?h = "stHash (exportTracked c tx)" and ?row = "\<lambda>m. legTxRow ix (exportTracked c tx) now (exportLeg c m)"
  let ?grp = "filter (\<lambda>r. rwTxHash r = ?h) rows"
  have "mset ?grp = mset (map ?row (tTransfers tx))" using grp by (simp add: exportTracked_def comp_def)
  then obtain ms where ms: "mset ms = mset (tTransfers tx)" "?grp = map ?row ms" using map_of_mset by blast
  have ne: "?grp \<noteq> []" using ms ok(2) by auto
  have "sorted (map txPos (map ?row ms))" using sorted_filter [OF sorted] ms(2) by metis
  then have so: "sorted (map logPos ms)"
    by (simp add: comp_def txPos_def sorted_map less_eq_prod_def pos_export) (simp add: legTxRow_def)
  have "distinct (map rowKey ?grp)" using keys by (simp add: distinct_map_filter)
  then have "distinct (map rowKey (map ?row ms))" using ms(2) by simp
  then have "inj_on (rowKey \<circ> ?row) (set ms)" "distinct ms" by (simp_all add: distinct_map comp_inj_on_iff flip: o_assoc)
  then have inj: "inj_on logPos (set ms)"
    by (auto simp: inj_on_def rowKey_def legTxRow_def logPos_def exportLeg_def dest!: signed_word_eqI)
  have "sort_key logPos (tTransfers tx) = ms"
    using sort_key_inj_key_eq [OF ms(1) [symmetric] _ so] inj mset_eq_setD [OF ms(1)] by simp
  moreover have "map legOfRow ?grp = map (\<lambda>m. exportLeg c (m\<lparr>mTxSender := tSender tx, mTxNonce := tNonce tx\<rparr>)) ms"
    using ms mset_eq_setD [OF ms(1)] ok(1) by (simp add: legOfRow_export)
  moreover obtain t where t: "txOfRow (hd ?grp) = Inr t" "filter (\<lambda>t. stHash t = ?h) txs = [t\<lparr>stTransfers := map legOfRow ?grp\<rparr>]"
    using assemble_sorted [OF sorted_txPos_hash [OF sorted] out refl ne] by auto
  moreover have "hd ?grp = ?row (hd ms)" using ms(2) ne by (cases ms) auto
  ultimately show ?thesis by (auto simp: restoredLegs_def)
qed

lemma distinct_groups:
  assumes "\<And>x. x \<in> set xs \<Longrightarrow> filter (\<lambda>y. f y = f x) xs = [x]"
  shows "distinct (map f xs)"
  using assms
proof (induction xs)
  case (Cons x xs)
  have no: "filter (\<lambda>y. f y = f x) xs = []" using Cons.prems [of x] by simp
  have "filter (\<lambda>y. f y = f z) xs = [z]" if z: "z \<in> set xs" for z
  proof -
    have "f z \<noteq> f x" using no z by (auto simp: filter_empty_conv)
    then show ?thesis using Cons.prems [of z] z by auto
  qed
  then have "distinct (map f xs)" by (rule Cons.IH)
  then show ?case using no by (auto simp: filter_empty_conv)
qed simp

lemma mirrors_tracked:
  assumes "mirrors c ix rows t" and "fmlookup (trTxs t) h = Some tx"
  obtains now where "filter (ofTx ix (hashHex c h)) rows = map (legTxRow ix (exportTracked c tx) now) (stTransfers (exportTracked c tx))"
proof -
  have "mirrorsTx c ix rows t h" using assms(1) unfolding mirrors_def by blast
  then show ?thesis using assms(2) that by (auto simp only: mirrorsTx_def option.case)
qed

lemma mirrors_untracked:
  "mirrors c ix rows t \<Longrightarrow> fmlookup (trTxs t) h = None \<Longrightarrow> r \<in> set rows \<Longrightarrow> ofTx ix (hashHex c h) r \<Longrightarrow> rwStatus r \<notin> set activeStatuses"
proof -
  assume a: "mirrors c ix rows t" "fmlookup (trTxs t) h = None" "r \<in> set rows" "ofTx ix (hashHex c h) r"
  have "mirrorsTx c ix rows t h" using a(1) unfolding mirrors_def by blast
  then show ?thesis using a(2-) by (simp add: mirrorsTx_def)
qed

definition activeRow :: "string \<Rightarrow> txRow \<Rightarrow> bool" where
  "activeRow ix r \<longleftrightarrow> rwIndexer r = ix \<and> rwStatus r \<in> set activeStatuses"

lemma load_rows:
  assumes D: "sql_engine D live dur prog" and load: "LoadActiveTransactions D ix d = (Inr txs, d')"
  obtains rows where "foldl assembleRow (Inr []) rows = Inr txs" and "mset rows = mset (filter (activeRow ix) (dur d))"
    and "sorted (map txPos rows)"
proof -
  let ?act = "\<lambda>r. rwIndexer r = ix \<and> rwStatus r \<in> set activeStatuses"
  obtain r d3 where sel: "sqSelect D ?act ByTx None d = (r, d3)" by (cases "sqSelect D ?act ByTx None d")
  then obtain rows where rows: "r = Inr rows" "foldl assembleRow (Inr []) rows = Inr txs"
    using load by (cases r) (auto simp: LoadActiveTransactions_def bindE_def lift_def split: sum.splits)
  have "mset rows = mset (filter ?act (dur d))" "sorted (map txPos rows)"
    using sql_engine.select_law [OF D sel] rows(1) by (auto simp: limitRows_def)
  then show thesis using that rows(2) by (simp add: activeRow_def)
qed

text \<open>A tracked transaction is loaded once.\<close>

lemma load_rows_tx:
  assumes tx: "tHash tx = h" "tTransfers tx \<noteq> []" and legs: "\<forall>m \<in> set (tTransfers tx). mLogIndex m \<noteq> Some nativeLegIndex"
    and now: "filter (ofTx ix (hashHex c h)) tbl = map (legTxRow ix (exportTracked c tx) now) (stTransfers (exportTracked c tx))"
    and keys: "distinct (map rowKey (ownRows ix tbl))"
    and rows: "foldl assembleRow (Inr []) rows = Inr txs" "mset rows = mset (filter (activeRow ix) tbl)" "sorted (map txPos rows)"
  shows "\<exists>leg t. txOfRow (legTxRow ix (exportTracked c tx) now leg) = Inr t \<and>
    filter (\<lambda>x. stHash x = hashHex c h) txs = [t\<lparr>stTransfers := restoredLegs c tx\<rparr>]"
proof -
  have "filter (activeRow ix) tbl = filter (\<lambda>r. rwStatus r \<in> set activeStatuses) (ownRows ix tbl)"
    unfolding ownRows_def filter_filter by (rule filter_cong) (auto simp: activeRow_def)
  then have "distinct (map rowKey (filter (activeRow ix) tbl))" using keys by (simp add: distinct_map_filter)
  moreover have "mset (map rowKey rows) = mset (map rowKey (filter (activeRow ix) tbl))" unfolding mset_map rows(2) ..
  ultimately have dk: "distinct (map rowKey rows)" using mset_eq_imp_distinct_iff by blast
  have "filter (\<lambda>r. rwTxHash r = hashHex c h) (filter (activeRow ix) tbl) =
      filter (\<lambda>r. rwStatus r \<in> set activeStatuses) (filter (ofTx ix (hashHex c h)) tbl)"
    unfolding filter_filter by (rule filter_cong) (auto simp: ofTx_def activeRow_def)
  also have "\<dots> = filter (ofTx ix (hashHex c h)) tbl"
    unfolding now by (auto simp: filter_id_conv legTxRow_def exportTracked_def activeStatuses_def)
  finally have "mset (filter (\<lambda>r. rwTxHash r = hashHex c h) rows) =
      mset (map (legTxRow ix (exportTracked c tx) now) (stTransfers (exportTracked c tx)))"
    using rows(2) now by (metis mset_filter)
  then show ?thesis using load_rows_group [OF rows(3,1) _ dk legs tx(2)] tx(1) by (simp add: export_hash)
qed

lemma load_tracked:
  assumes inv: "trackerInv t" and mir: "mirrors c ix tbl t" and keys: "distinct (map rowKey tbl)"
    and tx: "fmlookup (trTxs t) h = Some tx" and ok: "storable tx"
    and rows: "foldl assembleRow (Inr []) rows = Inr txs" "mset rows = mset (filter (activeRow ix) tbl)" "sorted (map txPos rows)"
  shows "filter (\<lambda>x. stHash x = hashHex c h) txs = [exportTracked c (asRestored tx)]"
proof -
  obtain now where now: "filter (ofTx ix (hashHex c h)) tbl = map (legTxRow ix (exportTracked c tx) now) (stTransfers (exportTracked c tx))"
    by (rule mirrors_tracked [OF mir tx])
  have h: "tHash tx = h" "tTransfers tx \<noteq> []" using trackerInv_tx [OF inv tx] by (simp_all add: txOK_def)
  have "distinct (map rowKey (ownRows ix tbl))" using keys by (simp add: ownRows_def distinct_map_filter)
  from load_rows_tx [OF h _ now this rows] ok obtain leg x where "txOfRow (legTxRow ix (exportTracked c tx) now leg) = Inr x"
    "filter (\<lambda>x. stHash x = hashHex c h) txs = [x\<lparr>stTransfers := restoredLegs c tx\<rparr>]" by (auto simp: storable_def)
  moreover have "timesOK (exportTracked c tx)" using ok by (simp add: storable_def timesOK_def exportTracked_def)
  ultimately show ?thesis by (auto simp: txOfRow_saved export_restored restoredLegs_def)
qed

lemma restored_hash: "stHash (exportTracked c (asRestored tx)) = hashHex c (tHash tx)"
  by (simp add: export_hash asRestored_def)

text \<open>Nothing else is loaded.\<close>

lemma load_only:
  assumes inv: "trackerInv t" and mir: "mirrors c ix tbl t" and keys: "distinct (map rowKey tbl)"
    and ok: "\<forall>h tx. fmlookup (trTxs t) h = Some tx \<longrightarrow> storable tx" and x: "x \<in> set txs"
    and rows: "foldl assembleRow (Inr []) rows = Inr txs" "mset rows = mset (filter (activeRow ix) tbl)" "sorted (map txPos rows)"
  obtains h tx where "fmlookup (trTxs t) h = Some tx" and "tHash tx = h" and "x = exportTracked c (asRestored tx)"
proof -
  have "\<exists>r \<in> set rows. rwTxHash r = stHash x"
  proof (rule ccontr)
    assume "\<not> ?thesis"
    then have "filter (\<lambda>y. stHash y = stHash x) txs = []" using assemble_others [OF rows(1), of "stHash x"] by auto
    then show False using x by (auto simp: filter_empty_conv)
  qed
  then obtain r where r: "r \<in> set tbl" "activeRow ix r" "rwTxHash r = stHash x" using mset_eq_setD [OF rows(2)] by auto
  then obtain h where h: "stHash x = hashHex c h" using mir unfolding mirrors_def activeRow_def by metis
  have "fmlookup (trTxs t) h \<noteq> None"
    using mirrors_untracked [OF mir _ r(1), of h] r h by (auto simp: ofTx_def activeRow_def)
  then obtain tx where tx: "fmlookup (trTxs t) h = Some tx" by auto
  have "x \<in> set (filter (\<lambda>y. stHash y = hashHex c h) txs)" using x h by simp
  then have "x = exportTracked c (asRestored tx)" using load_tracked [OF inv mir keys tx _ rows] ok tx by simp
  then show thesis using that tx trackerInv_tx [OF inv tx] by (simp add: txOK_def)
qed

lemma load_mirror:
  assumes D: "sql_engine D live dur prog" and hex: "hexOK c" and inv: "trackerInv t" and mir: "mirrors c ix (dur d) t"
    and keys: "distinct (map rowKey (dur d))" and ok: "\<forall>h tx. fmlookup (trTxs t) h = Some tx \<longrightarrow> storable tx"
    and load: "LoadActiveTransactions D ix d = (Inr txs, d')"
  shows "\<exists>ord. distinct ord \<and> set ord = fmdom' (trTxs t) \<and> txs = map (\<lambda>h. exportTracked c (asRestored (the (fmlookup (trTxs t) h)))) ord"
proof -
  obtain rows where rows: "foldl assembleRow (Inr []) rows = Inr txs" "mset rows = mset (filter (activeRow ix) (dur d))" "sorted (map txPos rows)"
    by (rule load_rows [OF D load])
  have one: "filter (\<lambda>x. stHash x = hashHex c h) txs = [exportTracked c (asRestored tx)]" if "fmlookup (trTxs t) h = Some tx" for h tx
    using load_tracked [OF inv mir keys that _ rows] ok that by blast
  have only: "\<exists>h tx. fmlookup (trTxs t) h = Some tx \<and> tHash tx = h \<and> x = exportTracked c (asRestored tx)" if "x \<in> set txs" for x
    using load_only [OF inv mir keys ok that rows] by metis
  let ?ord = "map (\<lambda>x. HexToHash c (stHash x)) txs"
  have "distinct (map stHash txs)"
  proof (rule distinct_groups)
    fix x assume "x \<in> set txs"
    then show "filter (\<lambda>y. stHash y = stHash x) txs = [x]" using only one restored_hash by fastforce
  qed
  moreover have "inj_on (HexToHash c) (set (map stHash txs))"
  proof (rule inj_on_inverseI)
    fix x assume "x \<in> set (map stHash txs)"
    then obtain h where "x = hashHex c h" using only restored_hash by fastforce
    then show "hashHex c (HexToHash c x) = x" using hexOK_simps(1) [OF hex] by simp
  qed
  ultimately have "distinct ?ord" by (simp add: distinct_map flip: comp_def [of "HexToHash c" stHash]) (simp add: comp_inj_on_iff distinct_map)
  moreover have "set ?ord = fmdom' (trTxs t)"
  proof
    show "set ?ord \<subseteq> fmdom' (trTxs t)" using only restored_hash hexOK_simps(1) [OF hex] by (fastforce intro: fmdom'I)
    show "fmdom' (trTxs t) \<subseteq> set ?ord"
    proof
      fix h assume "h \<in> fmdom' (trTxs t)"
      then obtain tx where tx: "fmlookup (trTxs t) h = Some tx" by (auto simp: fmlookup_dom'_iff)
      have "exportTracked c (asRestored tx) \<in> set (filter (\<lambda>x. stHash x = hashHex c h) txs)" using one [OF tx] by simp
      then have "exportTracked c (asRestored tx) \<in> set txs" "stHash (exportTracked c (asRestored tx)) = hashHex c h" by simp_all
      then have "HexToHash c (hashHex c h) \<in> set ?ord" by (metis (mono_tags, lifting) image_eqI list.set_map)
      then show "h \<in> set ?ord" using hexOK_simps(1) [OF hex] by simp
    qed
  qed
  moreover have "txs = map (\<lambda>h. exportTracked c (asRestored (the (fmlookup (trTxs t) h)))) ?ord"
    unfolding map_map by (rule map_idI [symmetric]) (use only restored_hash hexOK_simps(1) [OF hex] in fastforce)
  ultimately show ?thesis by blast
qed

section \<open>Restoring\<close>

lemma asRestored_fields [simp]: "tHash (asRestored tx) = tHash tx" "tState (asRestored tx) = tState tx"
  "tHasNonce (asRestored tx) = tHasNonce tx" "tSender (asRestored tx) = tSender tx" "tNonce (asRestored tx) = tNonce tx"
  by (simp_all add: asRestored_def)

lemma restored_inv:
  assumes "trackerInv t"
  shows "trackerInv (t\<lparr>trTxs := fmmap asRestored (trTxs t)\<rparr>)"
proof -
  have ok: "txOK h (asRestored tx)" if "txOK h tx" for h tx
  proof -
    have "sort_key logPos (tTransfers tx) \<noteq> []" using that by (metis set_empty set_sort txOK_def)
    then show ?thesis using that by (auto simp: txOK_def asRestored_def)
  qed
  have slot: "slotIn (fmmap asRestored m) = slotIn m" for m
    by (auto simp: slotIn_def slotOfTx_def keyOf_def fun_eq_iff split: option.splits)
  show ?thesis using assms ok unfolding trackerInv_def by (auto simp: slot)
qed

lemma Import_restores:
  assumes hex: "hexOK c" and inv: "trackerInv t" and ord: "distinct ord" "set ord = fmdom' (trTxs t)"
  shows "let r = Import c (map (\<lambda>h. exportTracked c (asRestored (the (fmlookup (trTxs t) h)))) ord) (NewTracker conf timeout clk) in
    fst r = None \<and> trackerInv (snd r) \<and> trTxs (snd r) = fmmap asRestored (trTxs t)"
proof -
  let ?kept = "t\<lparr>trTxs := fmmap asRestored (trTxs t)\<rparr>" and ?fresh = "NewTracker conf timeout clk"
  have dom: "fmlookup (trTxs t) h = None \<longleftrightarrow> h \<notin> set ord" for h unfolding ord(2) by (simp add: fmlookup_dom'_iff)
  have m: "map (\<lambda>h. exportTracked c (asRestored (the (fmlookup (trTxs t) h)))) ord = map (\<lambda>h. exportTracked c (the (fmlookup (trTxs ?kept) h))) ord"
  proof (intro map_cong refl)
    fix h assume "h \<in> set ord"
    then obtain tx where "fmlookup (trTxs t) h = Some tx" using dom [of h] by (cases "fmlookup (trTxs t) h") auto
    then show "exportTracked c (asRestored (the (fmlookup (trTxs t) h))) = exportTracked c (the (fmlookup (trTxs ?kept) h))" by simp
  qed
  have new: "trTombstones ?fresh = fmempty" "trTxs ?fresh = fmempty" by (simp_all add: NewTracker_def)
  have G: "fst (Import c (map (\<lambda>h. exportTracked c (the (fmlookup (trTxs ?kept) h))) ord) ?fresh) = None \<and>
      trackerInv (snd (Import c (map (\<lambda>h. exportTracked c (the (fmlookup (trTxs ?kept) h))) ord) ?fresh)) \<and>
      (\<forall>h. fmlookup (trTxs (snd (Import c (map (\<lambda>h. exportTracked c (the (fmlookup (trTxs ?kept) h))) ord) ?fresh))) h =
        (if h \<in> set ord then fmlookup (trTxs ?kept) h else fmlookup (trTxs ?fresh) h))"
    using Import_gen [OF hex restored_inv [OF inv] ord(1) trackerInv_new new(1)] dom by (simp add: Import_def new Let_def)
  then show ?thesis unfolding m Let_def using dom by (auto intro!: fmap_ext simp: new split: if_splits)
qed

lemma forEach_modify: "forEach (\<lambda>x. modify (f x)) xs s = (Inr (), fold f xs s)"
  by (induction xs arbitrary: s) (simp_all add: bindE_def modify_def)

lemma markRestored_all:
  "let s' = fold (markRestored c) txs s in
    ixTracker s' = ixTracker s \<and> ixChain s' = ixChain s \<and> ixLastProcessed s' = ixLastProcessed s \<and> ixWorld s' = ixWorld s \<and>
    ixRestoredPending s' = ixRestoredPending s @ filter (\<lambda>h. IsPending h (ixTracker s)) (map (\<lambda>tx. HexToHash c (stHash tx)) txs)"
proof (induction txs arbitrary: s)
  case (Cons tx txs)
  show ?case using Cons.IH [of "markRestored c tx s"] by (auto simp: markRestored_def Let_def)
qed simp

lemma forEach_recordHead:
  "forEach (\<lambda>h. recordHead (f h)) hs s = (Inr (), s\<lparr>ixChain := foldl record_head (ixChain s) (map f hs)\<rparr>)"
  by (induction hs arbitrary: s) (simp_all add: bindE_def recordHead_def modify_def)

lemma restoreProgress_exact:
  "restoreProgress E st s = (Inr (), case st of
     Some st \<Rightarrow> if eResume E then s\<lparr>ixLastProcessed := isLastProcessed st,
         ixChain := foldl record_head (ixChain s) (map (headOfStored (eCodec E)) (isRecentHeaders st))\<rparr> else s
   | None \<Rightarrow> s)"
  by (auto simp: restoreProgress_def bindE_def modify_def ok_def forEach_recordHead split: option.splits)

lemma LoadIndexerState_quiet:
  assumes "sql_engine D live dur prog" and "LoadIndexerState D ix d = (r, d')"
  shows "dur d' = dur d \<and> prog d' = prog d"
proof -
  obtain v d1 where g: "sqGetState D ix d = (v, d1)" by (cases "sqGetState D ix d")
  show ?thesis using sql_engine.get_law [OF assms(1) g] assms(2) g
    by (cases v) (auto simp: LoadIndexerState_def bindE_def lift_def split: option.splits sum.splits)
qed

text \<open>A restore that returns nil, step by step.\<close>

lemma restore_steps:
  assumes st: "eStore E = Some (sqliteStore D)" and run: "restore E s = (Inr (), s')"
  obtains state w1 txs w2 s1 s2 where
    "LoadIndexerState D (icName (eCfg E)) (ixWorld s) = (Inr state, w1)"
    "restoreProgress E state (s\<lparr>ixWorld := w1\<rparr>) = (Inr (), s1)"
    "LoadActiveTransactions D (icName (eCfg E)) (ixWorld s1) = (Inr txs, w2)"
    "s2 = s1\<lparr>ixWorld := w2, ixTracker := snd (Import (eCodec E) txs (ixTracker s1)), ixRestoredTx := []\<rparr>"
    "s' = fold (markRestored (eCodec E)) txs s2"
proof -
  let ?ix = "icName (eCfg E)"
  obtain r1 w1 where l: "LoadIndexerState D ?ix (ixWorld s) = (r1, w1)" by (cases "LoadIndexerState D ?ix (ixWorld s)")
  obtain state where state: "r1 = Inr state"
    using run l by (cases r1) (auto simp: restore_def st sqliteStore_def bindE_def attempt_def world_def split: if_splits)
  obtain s1 where p: "restoreProgress E state (s\<lparr>ixWorld := w1\<rparr>) = (Inr (), s1)" by (simp add: restoreProgress_exact)
  obtain r2 w2 where a: "LoadActiveTransactions D ?ix (ixWorld s1) = (r2, w2)" by (cases "LoadActiveTransactions D ?ix (ixWorld s1)")
  obtain txs where txs: "r2 = Inr txs"
    using run l state p a by (cases r2) (auto simp: restore_def st sqliteStore_def bindE_def attempt_def world_def split: if_splits)
  obtain e tr where im: "Import (eCodec E) txs (ixTracker s1) = (e, tr)" by (cases "Import (eCodec E) txs (ixTracker s1)")
  show ?thesis
    by (rule that [OF l [unfolded state] p a [unfolded txs] refl])
      (use run l state p a txs im in \<open>simp add: restore_def st sqliteStore_def bindE_def attempt_def world_def track_def forEach_modify modify_def [of "ixRestoredTx_update (\<lambda>_. [])"]\<close>)
qed

end
