(* ===== verification/RestartProps.thy ===== *)
theory RestartProps
  imports Restart
begin

text \<open>
  Across a restart: persisting keeps the table a mirror of the tracker, restoring from a mirror gives
  the tracker back, and the saved progress is where a resumed run continues.
\<close>

section \<open>Saved progress\<close>

text \<open>What \<open>saveState\<close> writes for the headers of a snapshot.\<close>

definition progressOf :: "'w env \<Rightarrow> 'w indexer \<Rightarrow> headRef list \<Rightarrow> indexerState" where
  "progressOf E s hs =
     \<lparr>isLastProcessed = ixLastProcessed s,
      isRecentHeaders = map (\<lambda>h. \<lparr>shNumber = hrNumber h, shHash = hashHex (eCodec E) (hrHash h),
        shParentHash = hashHex (eCodec E) (hrParentHash h)\<rparr>) hs\<rparr>"

lemma saveState_writes:
  assumes "eStore E = Some (sqliteStore D)" and "ixLastProcessed s \<noteq> 0" and "snapshot (ixChain s) = Some hs"
    and "SaveIndexerState D (icName (eCfg E)) (progressOf E s hs) (ixWorld s) = (Inr (), w)"
  shows "saveState E s = (Inr (), s\<lparr>ixWorld := w\<rparr>)"
  using assms by (simp add: saveState_def progressOf_def sqliteStore_def bindE_def attempt_def world_def ok_def)

lemma head_stored:
  "hexOK (eCodec E) \<Longrightarrow> map (headOfStored (eCodec E)) (isRecentHeaders (progressOf E s hs)) = hs"
  by (auto simp: progressOf_def headOfStored_def hexOK_simps intro!: map_idI)

lemma saved_progress:
  assumes D: "sql_engine D live dur prog" and "SaveIndexerState D ix st d = (Inr (), d1)"
    and "prog d2 = prog d1" and "LoadIndexerState D ix d2 = (Inr x, d3)"
  shows "x = Some st"
proof -
  obtain s where s: "sqEncode D (isRecentHeaders st) = Inr s"
    using assms(2) by (cases "sqEncode D (isRecentHeaders st)") (auto simp: SaveIndexerState_def encodeHeaders_def lift_def bindE_def)
  obtain r1 d0 where n: "nowString D d = (r1, d0)" by (cases "nowString D d")
  then obtain t where "r1 = Inr (formatNano t)" by (rule sql_engine.now_step [OF D])
  then have "sqPutState D ix (isLastProcessed st, s) d0 = (Inr (), d1)"
    using assms(2) s n by (auto simp: SaveIndexerState_def encodeHeaders_def lift_def bindE_def)
  from sql_engine.put_law [OF D this] have p: "prog d2 ix = Some (isLastProcessed st, s)" using assms(3) by simp
  obtain v d4 where g: "sqGetState D ix d2 = (v, d4)" by (cases "sqGetState D ix d2")
  show ?thesis
    using assms(4) g sql_engine.get_law [OF D g] p sql_engine.codec_law [OF D s]
    by (cases v) (auto simp: LoadIndexerState_def bindE_def decodeHeaders_def lift_def)
qed

lemma foldl_assemble_total:
  "\<forall>r \<in> set rows. \<exists>t. txOfRow r = Inr t \<Longrightarrow> \<exists>txs. foldl assembleRow (Inr out) rows = Inr txs"
proof (induction rows arbitrary: out)
  case (Cons r rows)
  obtain t where "txOfRow r = Inr t" using Cons.prems by auto
  then have "\<exists>out'. assembleRow (Inr out) r = Inr out'" by (simp add: assembleRow_def)
  then obtain out' where "assembleRow (Inr out) r = Inr out'" ..
  then show ?case using Cons by simp
qed simp

text \<open>A restore on a database that answers.\<close>

lemma restore_runs:
  assumes "eStore E = Some (sqliteStore D)" and "LoadIndexerState D (icName (eCfg E)) (ixWorld s) = (Inr state, w1)"
    and "LoadActiveTransactions D (icName (eCfg E)) w1 = (Inr txs, w2)"
  shows "\<exists>s'. restore E s = (Inr (), s')"
proof -
  obtain s1 where p: "restoreProgress E state (s\<lparr>ixWorld := w1\<rparr>) = (Inr (), s1)" "ixWorld s1 = w1"
    by (simp add: restoreProgress_exact split: option.splits)
  obtain e tr where im: "Import (eCodec E) txs (ixTracker s1) = (e, tr)" by (cases "Import (eCodec E) txs (ixTracker s1)")
  show ?thesis
    using assms p im by (simp add: restore_def sqliteStore_def bindE_def attempt_def world_def track_def forEach_modify
      modify_def [of "ixRestoredTx_update (\<lambda>_. [])"])
qed

section \<open>Properties\<close>

text \<open>
  Persisting the events of one transaction makes the table mirror the tracker at that
  transaction and nowhere breaks the mirror. When the tracker tracks it, its rows become the
  exported record, one row per leg; when it has ended, its rows, whether it was stored before or
  not, no longer have an active status; every other transaction whose rows mirrored the tracker
  still does. The events may be of a transaction that is not tracked only if they end it, which is
  when the tracker forgets one.
\<close>

theorem persist_keeps_mirror:
  assumes "sql_engine D live dur prog" and "eStore E = Some (sqliteStore D)" and "hexOK (eCodec E)"
    and "trackerInv (ixTracker s)" and "\<forall>w. dur (snd (eNow E w)) = dur w"
    and "evs \<noteq> []" and "\<forall>ev \<in> set evs. evTxHash ev = hashHex (eCodec E) h"
    and "fmlookup (trTxs (ixTracker s)) h = None \<longrightarrow> (\<forall>ev \<in> set evs. evType ev \<in> endingTypes)"
    and "persistTx E (sqliteStore D) (hashHex (eCodec E) h) evs s = (Inr (), s')"
  shows "ixTracker s' = ixTracker s \<and>
    mirrorsTx (eCodec E) (icName (eCfg E)) (dur (ixWorld s')) (ixTracker s') h \<and>
    (\<forall>h'. h' \<noteq> h \<longrightarrow> mirrorsTx (eCodec E) (icName (eCfg E)) (dur (ixWorld s)) (ixTracker s) h' \<longrightarrow>
       mirrorsTx (eCodec E) (icName (eCfg E)) (dur (ixWorld s')) (ixTracker s') h')"
  using persistTx_mirrors [OF assms(1,2) refl assms(3,4) _ assms(6,7) _ assms(9)] assms(5,8) by simp

definition restartEnv :: "listDb sqlEngine \<Rightarrow> listDb env" where
  "restartEnv D = \<lparr>eCfg = demoConfig, eCodec = decimalCodec, eMatcher = demoMatcher, eTokenOrder = [], eWatchedOrder = [],
     eClient = rpcClient demoTransport, eSink = None, eStore = Some (sqliteStore D), eResume = True,
     eFullEventLogs = False, eLogLine = (\<lambda>_ _ w. w), eNow = (\<lambda>w. (1000, w)), eWait = (\<lambda>w. (None, w)),
     eTxOrder = (\<lambda>_ t. sorted_list_of_fset (fmdom (trTxs t))), eCtx = (\<lambda>w. (None, w)), eLive = (\<lambda>w. ([], w)),
     eSchedule = (\<lambda>w. ([], w))\<rparr>"

lemma restartEnv_fields:
  "eCodec (restartEnv D) = decimalCodec" "eStore (restartEnv D) = Some (sqliteStore D)" "eResume (restartEnv D)"
  "icName (eCfg (restartEnv D)) = ''demo''" "eNow (restartEnv D) w = (1000, w)"
  "icConfirmations (eCfg (restartEnv D)) = \<lparr>cfDepth = 2, cfTag = ''''\<rparr>"
  by (simp_all add: restartEnv_def demoConfig_def)

text \<open>The tracker of two competing transactions, and the table that mirrors it.\<close>

definition demoTracked :: "hash \<Rightarrow> trackedTx" where
  "demoTracked h = pendingTx [demoLeg h] (demoLeg h) (999 + uint h)"

lemma demo_lookup: "fmlookup (trTxs demoPend) h = (if h = 1 \<or> h = 2 then Some (demoTracked h) else None)"
  by (simp add: demoPend_txs demoTracked_def)

lemma demo_inv: "trackerInv demoPend"
  by (rule trackerReach_inv [OF demo_reach(1) [unfolded demoNew_new] trackerInv_new])

definition mirrorRow :: "hash \<Rightarrow> txRow" where
  "mirrorRow h = legTxRow ''demo'' (exportTracked decimalCodec (demoTracked h)) (formatNano 1) (exportLeg decimalCodec (demoLeg h))"

definition mirrorDb :: listDb where
  "mirrorDb = demoDb\<lparr>dbRows := [mirrorRow 1, mirrorRow 2]\<rparr>"

definition mirrorState :: "listDb indexer" where
  "mirrorState = (newIndexer (restartEnv memEngine) (\<lambda>_. 1000) mirrorDb)\<lparr>ixTracker := demoPend\<rparr>"

lemma mirrorState_fields: "ixTracker mirrorState = demoPend" "ixWorld mirrorState = mirrorDb" "dbRows mirrorDb = [mirrorRow 1, mirrorRow 2]"
  by (simp_all add: mirrorState_def newIndexer_def mirrorDb_def)

lemma demoTracked_fields: "tHash (demoTracked h) = h" "tTransfers (demoTracked h) = [demoLeg h]" "tState (demoTracked h) = statePending"
  by (simp_all add: demoTracked_def pendingTx_def demoLeg_fields)

lemma exportTracked_legs: "stTransfers (exportTracked decimalCodec (demoTracked h)) = [exportLeg decimalCodec (demoLeg h)]"
  by (simp add: exportTracked_def demoTracked_fields)

lemma mirrorRow_fields:
  "rwIndexer (mirrorRow h) = ''demo''" "rwTxHash (mirrorRow h) = hashHex decimalCodec h" "rwStatus (mirrorRow h) = ''pending''"
  by (simp_all add: mirrorRow_def legTxRow_def exportTracked_def demoTracked_fields)

lemma mirror_hashes: "hashHex decimalCodec h = hashHex decimalCodec h' \<longleftrightarrow> h = h'"
  by (rule hexOK_inj [OF decimalCodec_OK])

theorem persist_keeps_mirror_witness:
  "\<exists>s'. persistTx (restartEnv memEngine) (sqliteStore memEngine) (hashHex decimalCodec 2)
      [legEvent decimalCodec (demoTracked 2) TypePending 0 (demoLeg 2)] mirrorState = (Inr (), s') \<and>
    mirrorsTx decimalCodec ''demo'' (dbRows (ixWorld s')) demoPend 2"
proof -
  let ?E = "restartEnv memEngine" and ?evs = "[legEvent decimalCodec (demoTracked 2) TypePending 0 (demoLeg 2)]"
  let ?tx = "exportTracked decimalCodec (demoTracked 2)"
  have "HexToHash decimalCodec (hashHex decimalCodec 2) = 2" by (rule hexOK_simps [OF decimalCodec_OK])
  then have x: "ExportTx decimalCodec (HexToHash decimalCodec (hashHex decimalCodec 2)) demoPend = Some ?tx"
    by (simp add: ExportTx_def demo_lookup)
  obtain d where d: "SaveTransaction memEngine ''demo'' ?tx mirrorDb = (Inr (), d)"
  proof -
    have "\<exists>d. SaveTransaction memEngine ''demo'' ?tx mirrorDb = (Inr (), d)"
      by (auto simp: SaveTransaction_def rollingBack_def memEngine_def bindE_def nowString_def exportTracked_legs mirrorDb_def
        ofTx_def mirrorRow_fields export_hash demoTracked_fields mirror_hashes rowKey_def legTxRow_def)
    then show thesis using that by blast
  qed
  have run: "persistTx ?E (sqliteStore memEngine) (hashHex (eCodec ?E) 2) ?evs mirrorState = (Inr (), mirrorState\<lparr>ixWorld := d\<rparr>)"
    using x d by (simp add: persistTx_def bindE_def gets_def restartEnv_fields mirrorState_fields sqliteStore_def world_def)
  have evs: "\<forall>ev \<in> set ?evs. evTxHash ev = hashHex (eCodec ?E) 2"
    by (simp add: legEvent_def restartEnv_fields demoLeg_fields)
  have "mirrorsTx (eCodec ?E) (icName (eCfg ?E)) (dbRows (ixWorld (mirrorState\<lparr>ixWorld := d\<rparr>))) (ixTracker (mirrorState\<lparr>ixWorld := d\<rparr>)) 2"
    using persist_keeps_mirror [OF mem.sql_engine_axioms restartEnv_fields(2) _ _ _ _ evs _ run] decimalCodec_OK demo_inv
    by (simp add: restartEnv_fields mirrorState_fields demo_lookup)
  then show ?thesis using run by (auto simp: restartEnv_fields mirrorState_fields)
qed

text \<open>
  A restart restores what the table mirrors. When the rows of the indexer mirror a tracker,
  a new process that restores from them tracks exactly the same transactions, in the same states,
  with the same times, slots and authority, and with a consistent nonce index; it takes
  up the pending ones, and only those, for checking. The legs of a transaction come back in the
  order of their log indices, and with the sender and the nonce of the transaction.
\<close>

lemma restored_from_mirror:
  assumes "sql_engine D live dur prog" and "hexOK (eCodec E)" and "eStore E = Some (sqliteStore D)"
    and "trackerInv t" and "\<forall>h tx. fmlookup (trTxs t) h = Some tx \<longrightarrow> storable tx"
    and "mirrors (eCodec E) (icName (eCfg E)) (dur w) t" and "distinct (map rowKey (dur w))"
    and "restore E (newIndexer E clk w) = (Inr (), s')"
  shows "trTxs (ixTracker s') = fmmap asRestored (trTxs t) \<and> trackerInv (ixTracker s') \<and>
    distinct (ixRestoredPending s') \<and> set (ixRestoredPending s') = {h. IsPending h t}"
proof -
  let ?c = "eCodec E" and ?s = "newIndexer E clk w"
  obtain state w1 txs w2 s1 s2 where st: "LoadIndexerState D (icName (eCfg E)) (ixWorld ?s) = (Inr state, w1)"
    "restoreProgress E state (?s\<lparr>ixWorld := w1\<rparr>) = (Inr (), s1)"
    "LoadActiveTransactions D (icName (eCfg E)) (ixWorld s1) = (Inr txs, w2)"
    "s2 = s1\<lparr>ixWorld := w2, ixTracker := snd (Import ?c txs (ixTracker s1)), ixRestoredTx := []\<rparr>"
    "s' = fold (markRestored ?c) txs s2"
    by (rule restore_steps [OF assms(3,8)])
  have new: "ixTracker ?s = NewTracker (icConfirmations (eCfg E)) (icPendingTimeout (eCfg E)) clk" "ixWorld ?s = w" "ixRestoredPending ?s = []"
    by (simp_all add: newIndexer_def)
  have s1: "ixTracker s1 = ixTracker ?s" "ixWorld s1 = w1" "ixRestoredPending s1 = []"
    using st(2) new(3) by (auto simp: restoreProgress_exact split: option.splits if_splits)
  have "dur w1 = dur w" using LoadIndexerState_quiet [OF assms(1) st(1)] new(2) by simp
  then obtain ord where ord: "distinct ord" "set ord = fmdom' (trTxs t)"
    "txs = map (\<lambda>h. exportTracked ?c (asRestored (the (fmlookup (trTxs t) h)))) ord"
    using load_mirror [OF assms(1,2,4) _ _ assms(5) st(3)] assms(6,7) s1(2) by auto
  have im: "trackerInv (ixTracker s2)" "trTxs (ixTracker s2) = fmmap asRestored (trTxs t)"
    using Import_restores [OF assms(2,4) ord(1,2)] unfolding st(4) s1 new ord(3) Let_def by simp_all
  have hashes: "map (\<lambda>tx. HexToHash ?c (stHash tx)) txs = ord"
    unfolding ord(3) map_map
  proof (rule map_idI)
    fix h assume "h \<in> set ord"
    then obtain tx where "fmlookup (trTxs t) h = Some tx" using ord(2) by (auto simp: fmlookup_dom'_iff)
    then show "((\<lambda>tx. HexToHash ?c (stHash tx)) \<circ> (\<lambda>h. exportTracked ?c (asRestored (the (fmlookup (trTxs t) h))))) h = h"
      using trackerInv_tx [OF assms(4)] by (auto simp: export_hash hexOK_simps [OF assms(2)] txOK_def)
  qed
  have pend: "IsPending h (ixTracker s2) = IsPending h t" for h
    by (simp add: IsPending_def im(2) split: option.splits)
  have none: "ixRestoredPending s2 = []" by (simp add: st(4) s1)
  have "ixTracker s' = ixTracker s2" "ixRestoredPending s' = filter (\<lambda>h. IsPending h t) ord"
    using markRestored_all [of ?c txs s2] unfolding st(5) hashes Let_def by (simp_all add: none pend)
  moreover have "IsPending h t \<Longrightarrow> h \<in> set ord" for h
    by (auto simp: IsPending_def ord(2) fmlookup_dom'_iff split: option.splits)
  ultimately show ?thesis using im ord(1) by auto
qed

lemma mirrorDb_mirrors: "mirrors decimalCodec ''demo'' (dbRows mirrorDb) demoPend"
proof -
  have "mirrorsTx decimalCodec ''demo'' (dbRows mirrorDb) demoPend h" for h
  proof (cases "h = 1 \<or> h = 2")
    case True
    then show ?thesis
      by (auto simp: mirrorsTx_def demo_lookup mirrorState_fields ofTx_def mirrorRow_fields mirror_hashes exportTracked_legs
        mirrorRow_def [symmetric] mirrorRow_def [of h] intro!: exI [of _ "formatNano 1"])
  next
    case False
    then show ?thesis by (auto simp: mirrorsTx_def demo_lookup mirrorState_fields ofTx_def mirrorRow_fields mirror_hashes)
  qed
  then show ?thesis by (auto simp: mirrors_def mirrorState_fields mirrorRow_fields)
qed

lemma demo_storable: "fmlookup (trTxs demoPend) h = Some tx \<Longrightarrow> storable tx"
  by (auto simp: demo_lookup storable_def demoTracked_def pendingTx_def demoLeg_def maxTime_def nsPerDay_def split: if_splits)

lemma mem_get: "sqGetState memEngine ix d = (Inr (dbProg d ix), d)"
  by (simp add: memEngine_def)

text \<open>
  C37: a resumed run continues where the saved progress ends. What \<open>saveState\<close> writes, a
  process that is told to resume restores: the last processed block, and every header of the window
  that reorganisations are followed through, from its floor to its tip.
\<close>

theorem restart_progress:
  assumes "sql_engine D live dur prog" and "hexOK (eCodec E)" and "eStore E = Some (sqliteStore D)" and "eResume E"
    and "chainInv (ixChain s)" and "tip (ixChain s) = Some t" and "hrNumber t \<noteq> - 1"
    and "Chain.depth (ixChain s) = Chain.depth (newChainState (RingDepth (icConfirmations (eCfg E))))" and "ixLastProcessed s \<noteq> 0"
    and "\<forall>hs. snapshot (ixChain s) = Some hs \<longrightarrow>
      SaveIndexerState D (icName (eCfg E)) (progressOf E s hs) (ixWorld s) = (Inr (), w1)"
    and "prog w2 = prog w1" and "restore E (newIndexer E clk w2) = (Inr (), s')"
  shows "saveState E s = (Inr (), s\<lparr>ixWorld := w1\<rparr>) \<and> ixLastProcessed s' = ixLastProcessed s \<and>
    (\<forall>n. floor_of (ixChain s) \<le> n \<and> n \<le> hrNumber t \<longrightarrow> lookupHead (ixChain s') n = lookupHead (ixChain s) n) \<and>
    (lookupHead (ixChain s) (hrNumber t) = Some t \<longrightarrow> tip (ixChain s') = Some t)"
proof -
  let ?s = "newIndexer E clk w2" and ?k = "RingDepth (icConfirmations (eCfg E))"
  obtain hs where hs: "snapshot (ixChain s) = Some hs"
    and look: "\<forall>n. floor_of (ixChain s) \<le> n \<and> n \<le> hrNumber t \<longrightarrow>
      lookupHead (foldl record_head (newChainState ?k) hs) n = lookupHead (ixChain s) n"
    and top: "lookupHead (ixChain s) (hrNumber t) = Some t \<longrightarrow> tip (foldl record_head (newChainState ?k) hs) = Some t"
    using snapshot_restore [OF assms(5-7) assms(8) [symmetric]] by blast
  have save: "SaveIndexerState D (icName (eCfg E)) (progressOf E s hs) (ixWorld s) = (Inr (), w1)" using assms(10) hs by blast
  obtain state w3 txs w4 s1 s2 where st: "LoadIndexerState D (icName (eCfg E)) (ixWorld ?s) = (Inr state, w3)"
    "restoreProgress E state (?s\<lparr>ixWorld := w3\<rparr>) = (Inr (), s1)"
    "s2 = s1\<lparr>ixWorld := w4, ixTracker := snd (Import (eCodec E) txs (ixTracker s1)), ixRestoredTx := []\<rparr>"
    "s' = fold (markRestored (eCodec E)) txs s2"
    by (rule restore_steps [OF assms(3,12)])
  have new: "ixWorld ?s = w2" "ixChain ?s = newChainState ?k" by (simp_all add: newIndexer_def)
  have "state = Some (progressOf E s hs)" using saved_progress [OF assms(1) save assms(11)] st(1) new(1) by simp
  then have "ixLastProcessed s1 = ixLastProcessed s" "ixChain s1 = foldl record_head (newChainState ?k) hs"
    using st(2) assms(4) by (auto simp: restoreProgress_exact head_stored [OF assms(2)] new) (simp add: progressOf_def)
  then have "ixLastProcessed s' = ixLastProcessed s" "ixChain s' = foldl record_head (newChainState ?k) hs"
    using markRestored_all [of "eCodec E" txs s2] unfolding st(3,4) Let_def by simp_all
  then show ?thesis using look top saveState_writes [OF assms(3,9) hs save] by simp
qed

text \<open>The witness database encodes one window.\<close>

lemma other_codec:
  assumes "sql_engine D live dur prog" and "\<And>hs x. enc hs = Inr x \<Longrightarrow> dec x = Inr hs"
  shows "sql_engine (D\<lparr>sqEncode := enc, sqDecode := dec\<rparr>) live dur prog"
  using assms unfolding sql_engine_def by simp

definition windowEngine :: "storedHeader list \<Rightarrow> listDb sqlEngine" where
  "windowEngine H = memEngine\<lparr>sqEncode := \<lambda>hs. if hs = H then Inr ''window'' else Inl (ErrText ''not encoded''), sqDecode := \<lambda>x. Inr H\<rparr>"

lemma windowEngine_law: "sql_engine (windowEngine H) dbWork dbRows dbProg"
  unfolding windowEngine_def by (rule other_codec [OF mem.sql_engine_axioms]) (simp split: if_splits)

lemma windowEngine_fields:
  "sqEncode (windowEngine H) hs = (if hs = H then Inr ''window'' else Inl (ErrText ''not encoded''))" "sqDecode (windowEngine H) x = Inr H"
  "sqNow (windowEngine H) d = (min (int (dbClock d) + 1) 1000000, d\<lparr>dbClock := Suc (dbClock d)\<rparr>)"
  "sqPutState (windowEngine H) ix v d = (Inr (), d\<lparr>dbProg := (dbProg d)(ix := Some v)\<rparr>)"
  "sqGetState (windowEngine H) ix d = (Inr (dbProg d ix), d)"
  "sqSelect (windowEngine H) P ord limit d = (Inr (limitRows limit (listOrder ord (filter P (dbRows d)))), d)"
  by (simp_all add: windowEngine_def memEngine_def)

definition scannedState :: "listDb indexer" where
  "scannedState = (newIndexer (restartEnv memEngine) (\<lambda>_. 1000) demoDb)
     \<lparr>ixChain := foldl record_head (newChainState 12) demoUp, ixLastProcessed := 199\<rparr>"

theorem restart_progress_witness:
  "\<exists>D s'. restore (restartEnv D) (newIndexer (restartEnv D) (\<lambda>_. 1000) (ixWorld (snd (saveState (restartEnv D) scannedState)))) = (Inr (), s') \<and>
     ixLastProcessed s' = 199 \<and> lookupHead (ixChain s') 199 = Some (demoHead 199)"
proof -
  let ?c = "foldl record_head (newChainState 12) demoUp"
  have s: "ixChain scannedState = ?c" "ixLastProcessed scannedState = 199" "ixWorld scannedState = demoDb"
    by (simp_all add: scannedState_def newIndexer_def)
  have inv: "chainInv (ixChain scannedState)" unfolding s by (rule ring.inv_rec_all) (rule chainInv_new)
  have tp: "tip (ixChain scannedState) = Some (demoHead 199)" unfolding s by (rule tip_demoUp)
  have mx: "hrNumber (demoHead 199) \<noteq> - 1" by (simp add: demoHead_def)
  obtain hs where hs: "snapshot (ixChain scannedState) = Some hs" using snapshot_eq tp mx by auto
  define H where "H = isRecentHeaders (progressOf (restartEnv memEngine) scannedState hs)"
  let ?D = "windowEngine H" and ?E = "restartEnv (windowEngine H)"
  have H: "isRecentHeaders (progressOf ?E scannedState hs) = H"
    by (simp add: H_def progressOf_def restartEnv_fields)
  have d: "Chain.depth (ixChain scannedState) = Chain.depth (newChainState (RingDepth (icConfirmations (eCfg ?E))))"
    by (simp add: s restartEnv_fields RingDepth_def newChainState_def)
  have "\<exists>w1. SaveIndexerState ?D (icName (eCfg ?E)) (progressOf ?E scannedState hs) (ixWorld scannedState) = (Inr (), w1) \<and>
      dbProg w1 ''demo'' = Some (199, ''window'') \<and> dbRows w1 = []"
    by (simp add: SaveIndexerState_def encodeHeaders_def H s(3) restartEnv_fields lift_def bindE_def nowString_def windowEngine_fields
      ok_def demoDb_def) (simp add: progressOf_def s)
  then obtain w1 where w1: "SaveIndexerState ?D (icName (eCfg ?E)) (progressOf ?E scannedState hs) (ixWorld scannedState) = (Inr (), w1)"
    "dbProg w1 ''demo'' = Some (199, ''window'')" "dbRows w1 = []" by blast
  have save: "saveState ?E scannedState = (Inr (), scannedState\<lparr>ixWorld := w1\<rparr>)"
    by (rule saveState_writes [OF restartEnv_fields(2) _ hs w1(1)]) (simp add: s)
  let ?s = "newIndexer ?E (\<lambda>_. 1000) w1"
  have w: "ixWorld ?s = w1" by (simp add: newIndexer_def)
  have l: "LoadIndexerState ?D (icName (eCfg ?E)) (ixWorld ?s) = (Inr (Some \<lparr>isLastProcessed = 199, isRecentHeaders = H\<rparr>), w1)"
    unfolding w by (simp add: LoadIndexerState_def bindE_def windowEngine_fields w1(2) restartEnv_fields decodeHeaders_def lift_def ok_def)
  have a: "LoadActiveTransactions ?D (icName (eCfg ?E)) w1 = (Inr [], w1)"
    by (simp add: LoadActiveTransactions_def bindE_def windowEngine_fields w1(3) limitRows_def lift_def ok_def)
  obtain s' where run: "restore ?E ?s = (Inr (), s')" using restore_runs [OF restartEnv_fields(2) l a] by blast
  have le: "199 \<le> hrNumber (demoHead 199)" "floor_of (ixChain scannedState) \<le> 199"
    unfolding s floor_demoUp by (simp_all add: demoHead_def)
  have "ixLastProcessed s' = 199 \<and> lookupHead (ixChain s') 199 = Some (demoHead 199)"
    using restart_progress [OF windowEngine_law _ restartEnv_fields(2,3) inv tp mx d _ _ refl run] decimalCodec_OK w1(1) hs le
      lookup_demoUp by (simp add: restartEnv_fields s)
  then show ?thesis using run save by (intro exI [of _ ?D] exI [of _ s']) simp
qed

end
