(* ===== verification/Api.thy ===== *)
theory Api
  imports SqliteProps
begin

text \<open>
  internal/api/api.go: the events API. A stream subscribes to the hub, replays the stored legs that
  changed after the client's cursor, page by page, and then forwards live events; the latest events
  are a bounded read. The response writer is a parameter, what it does with one frame; JSON is
  left to the library, so a frame holds the event itself.
\<close>

section \<open>Server and requests\<close>

definition subscriberBuffer :: nat where
  "subscriberBuffer = 256"

definition backfillPage :: nat where
  "backfillPage = 500"

definition defaultLatestLimit :: int where
  "defaultLatestLimit = 10"

definition maxLatestLimit :: int where
  "maxLatestLimit = 1000"

datatype frame =
    EventFrame string string event
  | PingFrame
  | HeaderFrame
  | ErrorResponse nat string
  | LatestResponse "event list"
  | StatusResponse nat

record 'w server =
  svSince :: "string \<Rightarrow> legCursor \<Rightarrow> int \<Rightarrow> ('w, legUpdate list) goM"
  svLatest :: "string \<Rightarrow> int \<Rightarrow> ('w, legUpdate list) goM"
  svState :: "string \<Rightarrow> ('w, indexerState option) goM"
  svChains :: "(string, u64) fmap"
  svWatched :: watchedSet
  svCodec :: hexcodec
  svWrite :: "frame \<Rightarrow> ('w, unit) goM"
  svHub :: "'w \<Rightarrow> hub"
  svSetHub :: "hub \<Rightarrow> 'w \<Rightarrow> 'w"

record request =
  rqIndexer :: string
  rqLastEventHeader :: string
  rqLastEventQuery :: string
  rqLimit :: string

section \<open>Synthesized events\<close>

type_synonym confHeads = "(string, u64) fmap"

text \<open>The head of an indexer is loaded once per request; a failed or empty load counts as 0.\<close>

definition headOf :: "'w server \<Rightarrow> string \<Rightarrow> confHeads \<Rightarrow> ('w, u64 \<times> confHeads) goM" where
  "headOf sv indexer heads =
     (case fmlookup heads indexer of
        Some h \<Rightarrow> ok (h, heads)
      | None \<Rightarrow> bindE (attempt (svState sv indexer)) (\<lambda>res.
          let h = (case res of Inr (Some st) \<Rightarrow> isLastProcessed st | _ \<Rightarrow> 0) in ok (h, fmupd indexer h heads)))"

definition legConfirmations :: "'w server \<Rightarrow> legUpdate \<Rightarrow> confHeads \<Rightarrow> ('w, u64 \<times> confHeads) goM" where
  "legConfirmations sv leg heads =
     (if luBlockNumber leg = 0 then ok (0, heads)
      else bindE (headOf sv (luIndexer leg) heads) (\<lambda>(h, heads').
        ok (if h < luBlockNumber leg then 0 else h - luBlockNumber leg + 1, heads')))"

definition replayed :: "'w server \<Rightarrow> legUpdate \<Rightarrow> u64 \<Rightarrow> string \<Rightarrow> event" where
  "replayed sv leg confs wallet =
     \<lparr>evType = luStatus leg, evIndexer = luIndexer leg,
      evChainID = (case fmlookup (svChains sv) (luIndexer leg) of None \<Rightarrow> 0 | Some i \<Rightarrow> i),
      evDirection = lrDirection (luLeg leg), evTimestamp = formatNano (luUpdatedAt leg),
      evFirstSeen = (if isZero (luFirstSeen leg) then '''' else formatRFC3339 (luFirstSeen leg)),
      evFirstSeenBlock = luFirstSeenBlock leg,
      evMinedAt = (if isZero (luMinedAt leg) then '''' else formatRFC3339 (luMinedAt leg)),
      evTxHash = luTxHash leg, evLogIndex = lrLogIndex (luLeg leg), evFrom = lrFrom (luLeg leg), evTo = lrTo (luLeg leg),
      evWallet = wallet, evAsset = lrAsset (luLeg leg), evTokenAddress = lrTokenAddress (luLeg leg),
      evDecimals = lrDecimals (luLeg leg), evValueRaw = lrValueRaw (luLeg leg), evValue = lrValue (luLeg leg),
      evBlockNumber = luBlockNumber leg, evBlockHash = luBlockHash leg, evConfirmations = confs,
      evReplacedBy = luReplacedBy leg\<rparr>"

definition synthesize :: "'w server \<Rightarrow> legUpdate \<Rightarrow> confHeads \<Rightarrow> ('w, event \<times> confHeads) goM" where
  "synthesize sv leg heads =
     bindE (legConfirmations sv leg heads) (\<lambda>(confs, heads').
       case ForSide (svWatched sv) (HexToAddress (svCodec sv) (lrFrom (luLeg leg)))
              (HexToAddress (svCodec sv) (lrTo (luLeg leg))) (lrDirection (luLeg leg)) of
         Inl e \<Rightarrow> fail e
       | Inr wallet \<Rightarrow> ok (replayed sv leg confs wallet, heads'))"

definition writeFrame :: "'w server \<Rightarrow> event \<Rightarrow> ('w, unit) goM" where
  "writeFrame sv ev = svWrite sv (EventFrame (evTimestamp ev) (evType ev) ev)"

section \<open>Backfill\<close>

text \<open>The legs of a page; \<open>None\<close> when a write failed.\<close>

fun sendLegs :: "'w server \<Rightarrow> legUpdate list \<Rightarrow> confHeads \<Rightarrow> ('w, confHeads option) goM" where
  "sendLegs sv [] heads w = (Inr (Some heads), w)"
| "sendLegs sv (leg # legs) heads w =
     bindE (synthesize sv leg heads) (\<lambda>(ev, heads').
       bindE (attempt (writeFrame sv ev)) (\<lambda>res.
         case res of Inl _ \<Rightarrow> ok None | Inr _ \<Rightarrow> sendLegs sv legs heads')) w"

text \<open>
  The paging loop. It goes on as long as pages are full, which another writer can keep them, so
  \<open>None\<close> is "does not return". The result is whether the stream goes on.
\<close>

partial_function (option) backfillLoop ::
  "'w server \<Rightarrow> string \<Rightarrow> legCursor \<Rightarrow> confHeads \<Rightarrow> 'w \<Rightarrow> ((goerr + bool) \<times> 'w) option" where
  "backfillLoop sv indexer cursor heads w =
     (case attempt (svSince sv indexer cursor (int backfillPage)) w of
        (Inl e, w1) \<Rightarrow> Some (Inl e, w1)
      | (Inr (Inl e), w1) \<Rightarrow> Some (Inr False, w1)
      | (Inr (Inr legs), w1) \<Rightarrow>
          (case sendLegs sv legs heads w1 of
             (Inl e, w2) \<Rightarrow> Some (Inl e, w2)
           | (Inr None, w2) \<Rightarrow> Some (Inr False, w2)
           | (Inr (Some heads'), w2) \<Rightarrow>
               if length legs < backfillPage then Some (Inr True, w2)
               else backfillLoop sv indexer (cursorOf (last legs)) heads' w2))"

definition sinceCursor :: "time \<Rightarrow> legCursor" where
  "sinceCursor since = \<lparr>lcUpdatedAt = since, lcTxHash = '''', lcLogIndex = 0\<rparr>"

definition backfill :: "'w server \<Rightarrow> string \<Rightarrow> time \<Rightarrow> 'w \<Rightarrow> ((goerr + bool) \<times> 'w) option" where
  "backfill sv indexer since w = backfillLoop sv indexer (sinceCursor since) fmempty w"

section \<open>The stream\<close>

text \<open>
  What the select of the live loop receives: the end of the request, a turn of the channel, a
  ping, or (no case of the select) a step of the goroutines that run beside it.
\<close>

datatype 'w streamInput = StreamDone | StreamRecv | StreamPing | StreamOther "'w \<Rightarrow> 'w"

text \<open>One input: whether the stream goes on.\<close>

definition streamStep :: "'w server \<Rightarrow> string \<Rightarrow> nat \<Rightarrow> 'w streamInput \<Rightarrow> ('w, bool) goM" where
  "streamStep sv indexer ch inp =
     (case inp of
        StreamDone \<Rightarrow> ok False
      | StreamOther f \<Rightarrow> bindE (modify f) (\<lambda>_. ok True)
      | StreamPing \<Rightarrow> bindE (attempt (svWrite sv PingFrame)) (\<lambda>res. ok (\<not> isl res))
      | StreamRecv \<Rightarrow> bindE (gets (svHub sv)) (\<lambda>hub.
          case chanRecv ch hub of
            (None, _) \<Rightarrow> ok (\<not> chClosed (hubChans hub ! ch))
          | (Some ev, hub') \<Rightarrow>
              bindE (modify (svSetHub sv hub')) (\<lambda>_.
                if indexer \<noteq> '''' \<and> evIndexer ev \<noteq> indexer then ok True
                else bindE (attempt (writeFrame sv ev)) (\<lambda>res. ok (\<not> isl res)))))"

fun streamLoop :: "'w server \<Rightarrow> string \<Rightarrow> nat \<Rightarrow> 'w streamInput list \<Rightarrow> ('w, unit) goM" where
  "streamLoop sv indexer ch [] w = (Inr (), w)"
| "streamLoop sv indexer ch (inp # inps) w =
     bindE (streamStep sv indexer ch inp) (\<lambda>goon. if goon then streamLoop sv indexer ch inps else ok ()) w"

definition eventCursor :: "request \<Rightarrow> string" where
  "eventCursor rq = (if rqLastEventHeader rq = '''' then rqLastEventQuery rq else rqLastEventHeader rq)"

definition cancelling :: "'w server \<Rightarrow> nat \<times> u64 \<Rightarrow> (goerr + unit) \<times> 'w \<Rightarrow> (goerr + unit) \<times> 'w" where
  "cancelling sv handle res = (fst res, svSetHub sv (hubCancel handle (svHub sv (snd res))) (snd res))"

definition ignoring :: "('w, unit) goM \<Rightarrow> ('w, unit) goM" where
  "ignoring m = bindE (attempt m) (\<lambda>_. ok ())"

definition handleEvents :: "'w server \<Rightarrow> request \<Rightarrow> 'w streamInput list \<Rightarrow> 'w \<Rightarrow> ((goerr + unit) \<times> 'w) option" where
  "handleEvents sv rq inps w =
     (let s = eventCursor rq; t = parseRFC3339 s in
      if s \<noteq> '''' \<and> t = None
      then Some (ignoring (svWrite sv (ErrorResponse 400 ''invalid lastEventId: expected an RFC3339 timestamp'')) w)
      else
        (case Subscribe subscriberBuffer (svHub sv w) of (handle, hub) \<Rightarrow>
           (case ignoring (svWrite sv HeaderFrame) (svSetHub sv hub w) of
              (Inl e, w1) \<Rightarrow> Some (cancelling sv handle (Inl e, w1))
            | (Inr _, w1) \<Rightarrow>
                (case (if s = '''' then Some (Inr True, w1) else backfill sv (rqIndexer rq) (the t) w1) of
                   None \<Rightarrow> None
                 | Some (Inl e, w2) \<Rightarrow> Some (cancelling sv handle (Inl e, w2))
                 | Some (Inr False, w2) \<Rightarrow> Some (cancelling sv handle (Inr (), w2))
                 | Some (Inr True, w2) \<Rightarrow> Some (cancelling sv handle (streamLoop sv (rqIndexer rq) (fst handle) inps w2))))))"

section \<open>The latest events\<close>

text \<open>\<open>strconv.Atoi\<close>: an optional sign and decimal digits, within the range of \<open>int\<close>.\<close>

definition atoi :: "string \<Rightarrow> int option" where
  "atoi s =
     (let neg = (s \<noteq> '''' \<and> hd s = CHR ''-'');
          ds = (if s \<noteq> '''' \<and> (hd s = CHR ''-'' \<or> hd s = CHR ''+'') then tl s else s);
          n = (if neg then - int (natOf ds) else int (natOf ds))
      in if ds \<noteq> '''' \<and> list_all isDigit ds \<and> - (2 ^ 63) \<le> n \<and> n < 2 ^ 63 then Some n else None)"

definition latestLimit :: "string \<Rightarrow> int option" where
  "latestLimit v =
     (if v = '''' then Some defaultLatestLimit
      else case atoi v of
        None \<Rightarrow> None
      | Some n \<Rightarrow> if n < 1 then None else Some (min n maxLatestLimit))"

fun synthesizeAll :: "'w server \<Rightarrow> legUpdate list \<Rightarrow> confHeads \<Rightarrow> ('w, event list) goM" where
  "synthesizeAll sv [] heads w = (Inr [], w)"
| "synthesizeAll sv (leg # legs) heads w =
     bindE (synthesize sv leg heads) (\<lambda>(ev, heads'). bindE (synthesizeAll sv legs heads') (\<lambda>evs. ok (ev # evs))) w"

definition handleLatest :: "'w server \<Rightarrow> request \<Rightarrow> ('w, unit) goM" where
  "handleLatest sv rq =
     (case latestLimit (rqLimit rq) of
        None \<Rightarrow> ignoring (svWrite sv (ErrorResponse 400 ''invalid limit''))
      | Some limit \<Rightarrow>
          bindE (attempt (svLatest sv (rqIndexer rq) limit)) (\<lambda>res.
            case res of
              Inl _ \<Rightarrow> ignoring (svWrite sv (ErrorResponse 500 ''loading events failed''))
            | Inr legs \<Rightarrow> bindE (synthesizeAll sv legs fmempty) (\<lambda>evs. ignoring (svWrite sv (LatestResponse evs)))))"

text \<open>The server the program builds: on the database of the indexers.\<close>

definition apiServer :: "'d sqlEngine \<Rightarrow> (string, u64) fmap \<Rightarrow> watchedSet \<Rightarrow> hexcodec \<Rightarrow> (frame \<Rightarrow> ('d, unit) goM) \<Rightarrow>
    ('d \<Rightarrow> hub) \<Rightarrow> (hub \<Rightarrow> 'd \<Rightarrow> 'd) \<Rightarrow> 'd server" where
  "apiServer D chainIDs watched codec write hubOf setHub =
     \<lparr>svSince = LoadLegsUpdatedSince D, svLatest = LoadLatestLegs D, svState = LoadIndexerState D, svChains = chainIDs,
      svWatched = watched, svCodec = codec, svWrite = write, svHub = hubOf, svSetHub = setHub\<rparr>"

end
