(* ===== verification/ApiProps.thy ===== *)
theory ApiProps
  imports Api Fetching
begin

text \<open>
  What the events API replays: a replay is complete and ordered, and a replayed event is the event the
  live stream carried.
\<close>

section \<open>The world of a stream\<close>

text \<open>
  A response writer beside the database: a write appends the frame or fails, and neither touches
  the rows; reading writes nothing.
\<close>

locale stream_world = sql_engine D live dur prog
  for D :: "'d sqlEngine" and live dur :: "'d \<Rightarrow> txRow list" and prog :: "'d \<Rightarrow> string \<Rightarrow> (u64 \<times> string) option" +
  fixes sv :: "'d server" and out :: "'d \<Rightarrow> frame list"
  assumes since_law: "svSince sv = LoadLegsUpdatedSince D" and state_law: "svState sv = LoadIndexerState D"
    and write_law: "svWrite sv fr d = (rw, d') \<Longrightarrow> dur d' = dur d \<and> (\<forall>x. rw = Inr x \<longrightarrow> out d' = out d @ [fr])"
    and select_quiet: "sqSelect D P ord limit d = (rs, d') \<Longrightarrow> out d' = out d"
    and get_quiet: "sqGetState D ix d = (rg, d') \<Longrightarrow> out d' = out d"
begin

text \<open>The frame of a row: what it shows of the row whatever the confirmations and the label are.\<close>

definition frameOf :: "txRow \<Rightarrow> frame \<Rightarrow> bool" where
  "frameOf row fr \<longleftrightarrow> (\<exists>leg confs wallet. scanLegUpdate row = Inr leg \<and>
     fr = EventFrame (formatNano (luUpdatedAt leg)) (luStatus leg) (replayed sv leg confs wallet))"

lemma load_quiet: "LoadLegsUpdatedSince D ix c k d = (r, d') \<Longrightarrow> out d' = out d"
  using select_quiet by (fastforce simp: LoadLegsUpdatedSince_def bindE_def lift_def split: prod.splits sum.splits)

lemma state_quiet: "svState sv ix d = (r, d') \<Longrightarrow> dur d' = dur d \<and> out d' = out d"
  unfolding state_law LoadIndexerState_def
  using get_quiet get_law by (fastforce simp: bindE_def lift_def split: prod.splits sum.splits option.splits)

lemma head_quiet: "headOf sv ix heads d = (r, d') \<Longrightarrow> dur d' = dur d \<and> out d' = out d"
  using state_quiet by (fastforce simp: headOf_def bindE_def attempt_def Let_def split: prod.splits sum.splits option.splits if_splits)

lemma synthesize_quiet:
  assumes "synthesize sv leg heads d = (r, d')"
  shows "dur d' = dur d \<and> out d' = out d \<and> (\<forall>ev heads'. r = Inr (ev, heads') \<longrightarrow> (\<exists>confs wallet. ev = replayed sv leg confs wallet))"
  using assms head_quiet
  by (fastforce simp: synthesize_def legConfirmations_def bindE_def split: prod.splits sum.splits option.splits if_splits)

lemma sendLegs_frames:
  assumes "sendLegs sv legs heads d = (r, d')" and "list_all2 (\<lambda>row leg. scanLegUpdate row = Inr leg) rows legs"
  shows "dur d' = dur d \<and> (\<forall>heads'. r = Inr (Some heads') \<longrightarrow> (\<exists>frames. out d' = out d @ frames \<and> list_all2 frameOf rows frames))"
  using assms
proof (induction legs arbitrary: rows heads d)
  case (Cons leg legs)
  obtain row rows' where rows: "rows = row # rows'" "scanLegUpdate row = Inr leg"
    "list_all2 (\<lambda>row leg. scanLegUpdate row = Inr leg) rows' legs"
    using Cons.prems(2) by (auto simp: list_all2_Cons2)
  obtain r1 d1 where s: "synthesize sv leg heads d = (r1, d1)" by (cases "synthesize sv leg heads d")
  note S = synthesize_quiet [OF s]
  show ?case
  proof (cases r1)
    case (Inl e)
    then show ?thesis using Cons.prems(1) s S by (auto simp: bindE_def)
  next
    case (Inr y)
    obtain ev heads1 where y: "y = (ev, heads1)" by (cases y)
    obtain confs wallet where ev: "ev = replayed sv leg confs wallet" using S Inr y by blast
    obtain r2 d2 where w: "svWrite sv (EventFrame (evTimestamp ev) (evType ev) ev) d1 = (r2, d2)"
      by (cases "svWrite sv (EventFrame (evTimestamp ev) (evType ev) ev) d1")
    note W = write_law [OF w]
    show ?thesis
    proof (cases r2)
      case (Inl e)
      then show ?thesis using Cons.prems(1) s S \<open>r1 = Inr y\<close> y w W
        by (auto simp: bindE_def attempt_def writeFrame_def split: if_splits)
    next
      case (Inr u)
      then have rest: "sendLegs sv legs heads1 d2 = (r, d')"
        using Cons.prems(1) s \<open>r1 = Inr y\<close> y w by (simp add: bindE_def attempt_def writeFrame_def)
      have "frameOf row (EventFrame (evTimestamp ev) (evType ev) ev)"
        using rows(2) ev by (auto simp: frameOf_def replayed_def)
      moreover have "out d2 = out d @ [EventFrame (evTimestamp ev) (evType ev) ev]" "dur d2 = dur d"
        using W S Inr by simp_all
      ultimately show ?thesis using Cons.IH [OF rest rows(3)] rows(1) by fastforce
    qed
  qed
qed simp

lemma collect_all2: "collectLegUpdates rows = Inr legs \<Longrightarrow> list_all2 (\<lambda>row leg. scanLegUpdate row = Inr leg) rows legs"
  by (induction rows arbitrary: legs) (auto split: sum.splits)

lemma backfillLoop_returns:
  assumes "\<forall>row \<in> set (dur d). stamped row" and "distinct (map feedPos (dur d))"
  shows "\<exists>r d'. backfillLoop sv ix c heads d = Some (r, d') \<and> dur d' = dur d \<and>
    (r = Inr True \<longrightarrow> (\<exists>frames. out d' = out d @ frames \<and> list_all2 frameOf (feedFrom ix c (dur d)) frames))"
  using assms
proof (induction "length (feedFrom ix c (dur d))" arbitrary: c heads d rule: less_induct)
  case less
  let ?f = "feedFrom ix c (dur d)"
  obtain r1 d1 where l: "LoadLegsUpdatedSince D ix c (int backfillPage) d = (r1, d1)"
    by (cases "LoadLegsUpdatedSince D ix c (int backfillPage) d")
  note L = feed_page [OF sql_engine_axioms l less.prems(2)]
  show ?case
  proof (cases r1)
    case (Inl e)
    then show ?thesis using l L by (subst backfillLoop.simps) (simp add: since_law attempt_def)
  next
    case (Inr legs)
    have c: "collectLegUpdates (take backfillPage ?f) = Inr legs" using L Inr by simp
    obtain r2 d2 where s: "sendLegs sv legs heads d1 = (r2, d2)" by (cases "sendLegs sv legs heads d1")
    note S = sendLegs_frames [OF s collect_all2 [OF c]]
    have out1: "out d1 = out d" using load_quiet [OF l] .
    have dur2: "dur d2 = dur d" using S L by simp
    have loop: "backfillLoop sv ix c heads d = (case (r2, d2) of
             (Inl e, w2) \<Rightarrow> Some (Inl e, w2)
           | (Inr None, w2) \<Rightarrow> Some (Inr False, w2)
           | (Inr (Some heads'), w2) \<Rightarrow>
               if length legs < backfillPage then Some (Inr True, w2) else backfillLoop sv ix (cursorOf (last legs)) heads' w2)"
      using l s Inr by (subst backfillLoop.simps) (simp add: since_law attempt_def)
    show ?thesis
    proof (cases "\<exists>heads'. r2 = Inr (Some heads')")
      case False
      then show ?thesis unfolding loop using dur2 by (cases r2) (auto split: option.splits)
    next
      case True
      then obtain heads' where h: "r2 = Inr (Some heads')" ..
      then obtain frames where fr: "out d2 = out d @ frames" "list_all2 frameOf (take backfillPage ?f) frames"
        using S out1 by auto
      have len: "length legs = min backfillPage (length ?f)" using collect_length [OF c] by simp
      show ?thesis
      proof (cases "length legs < backfillPage")
        case True
        then have "take backfillPage ?f = ?f" using len by simp
        then show ?thesis unfolding loop using h True fr dur2 by simp
      next
        case full: False
        have n: "0 < backfillPage" "backfillPage \<le> length ?f" using full len by (simp_all add: backfillPage_def)
        have ne: "take backfillPage ?f \<noteq> []" using n by auto
        have "take backfillPage ?f = take (backfillPage - 1) ?f @ [?f ! (backfillPage - 1)]"
          using take_Suc_conv_app_nth [of "backfillPage - 1" ?f] n by simp
        then have "scanLegUpdate (?f ! (backfillPage - 1)) = Inr (last legs)"
          using collect_last [OF c ne] by (metis last_snoc)
        from feedFrom_next [OF less.prems n this]
        have nxt: "feedFrom ix (cursorOf (last legs)) (dur d2) = drop backfillPage ?f" using dur2 by simp
        have "length (feedFrom ix (cursorOf (last legs)) (dur d2)) < length ?f" using n nxt by simp
        from less.hyps [OF this, of heads'] obtain r d' where
          ih: "backfillLoop sv ix (cursorOf (last legs)) heads' d2 = Some (r, d')" "dur d' = dur d2"
            "r = Inr True \<Longrightarrow> \<exists>frames. out d' = out d2 @ frames \<and> list_all2 frameOf (drop backfillPage ?f) frames"
          using less.prems dur2 nxt by auto
        have "\<exists>frames. out d' = out d @ frames \<and> list_all2 frameOf ?f frames" if true: "r = Inr True"
        proof -
          obtain frames' where "out d' = out d2 @ frames'" "list_all2 frameOf (drop backfillPage ?f) frames'"
            using ih(3) [OF true] by blast
          then have "out d' = out d @ (frames @ frames')" "list_all2 frameOf (take backfillPage ?f @ drop backfillPage ?f) (frames @ frames')"
            using fr by (simp_all only: append_assoc list_all2_appendI)
          then show ?thesis by (metis append_take_drop_id)
        qed
        then show ?thesis unfolding loop using h full ih(1,2) dur2 by simp
      qed
    qed
  qed
qed

end

section \<open>A stream in memory\<close>

record streamDb = listDb +
  sdOut :: "frame list"
  sdHub :: hub

definition demoServer :: "streamDb server" where
  "demoServer = apiServer memEngine (fmupd ''demo'' 1 fmempty) (mWatched demoMatcher) decimalCodec
     (\<lambda>fr d. (Inr (), d\<lparr>sdOut := sdOut d @ [fr]\<rparr>)) sdHub (\<lambda>h d. d\<lparr>sdHub := h\<rparr>)"

interpretation memStream: stream_world "memEngine :: streamDb sqlEngine" dbWork dbRows dbProg demoServer sdOut
  by unfold_locales (auto simp: demoServer_def apiServer_def memEngine_def)

section \<open>Properties\<close>

text \<open>
  C30: a replay is complete. On a database that no other goroutine changes meanwhile, reading page
  after page returns, and when the replay reports success, which is that no read and no write
  failed, the client has been sent exactly one frame for every stored leg that changed after its
  cursor, in the order of the feed, each with the status and the time of update of its row,
  however many pages it takes.
\<close>

theorem backfill_complete:
  assumes "stream_world D live dur prog sv out"
    and "\<forall>row \<in> set (dur d). stamped row" and "distinct (map feedPos (dur d))"
  shows "\<exists>r d'. backfill sv ix since d = Some (r, d') \<and> dur d' = dur d \<and>
    (r = Inr True \<longrightarrow> (\<exists>frames. out d' = out d @ frames \<and>
      list_all2 (\<lambda>row fr. \<exists>leg confs wallet. scanLegUpdate row = Inr leg \<and>
          fr = EventFrame (formatNano (luUpdatedAt leg)) (luStatus leg) (replayed sv leg confs wallet))
        (sort_key feedPos (filter (\<lambda>row. formatTime since < rwUpdatedAt row \<and> (ix = '''' \<or> rwIndexer row = ix)) (dur d))) frames))"
proof -
  have "feedFrom ix (sinceCursor since) (dur d) =
      sort_key feedPos (filter (\<lambda>row. formatTime since < rwUpdatedAt row \<and> (ix = '''' \<or> rwIndexer row = ix)) (dur d))"
    by (simp add: feedFrom_def afterCursor_def sinceCursor_def ofIndexer_def)
  then show ?thesis
    using stream_world.backfillLoop_returns [OF assms(1-3), of ix "sinceCursor since" fmempty]
    unfolding backfill_def stream_world.frameOf_def [OF assms(1), abs_def] by simp
qed

definition emptyStream :: streamDb where
  "emptyStream = \<lparr>dbRows = [], dbWork = [], dbProg = (\<lambda>_. None), dbClock = 0, sdOut = [], sdHub = NewHub\<rparr>"

theorem backfill_complete_witness:
  "\<exists>r d'. backfill demoServer '''' 0 (emptyStream\<lparr>dbRows := dbRows twoRows\<rparr>) = Some (r, d') \<and> dbRows d' = dbRows twoRows"
proof -
  let ?d = "emptyStream\<lparr>dbRows := dbRows twoRows\<rparr>"
  have "\<forall>row \<in> set (dbRows ?d). stamped row" "distinct (map feedPos (dbRows ?d))"
    by (auto simp: twoRows_def stamped_def legTxRow_def demoRow_def maxTime_def nsPerDay_def feedPos_def intro!: exI [of _ 1])
  from backfill_complete [OF memStream.stream_world_axioms this] show ?thesis by fastforce
qed

text \<open>
  C31: a replayed event is the event the live stream carried. For a leg of a mined transaction, what
  the API makes of its stored row agrees with the event the indexer emitted when the transaction
  was mined in every field but the timestamp, which is that of the update, and the confirmations,
  which are counted again.
\<close>

theorem replay_mirrors_live:
  assumes "tState tx = stateMined" and "mTxHash m = tHash tx" and "mLogIndex m \<noteq> Some nativeLegIndex"
    and "0 < tFirstSeen tx" "tFirstSeen tx < maxTime" and "0 \<le> tMinedAt tx" "tMinedAt tx < maxTime"
    and "0 < u" "u < maxTime" and "fmlookup (svChains sv) (icName (eCfg E)) = Some (icChainID (eCfg E))"
    and "svCodec sv = eCodec E" and "svWatched sv = mWatched (eMatcher E)"
    and "ForSide (mWatched (eMatcher E)) (HexToAddress (eCodec E) (evFrom live)) (HexToAddress (eCodec E) (evTo live)) (evDirection live) = Inr wallet"
    and "live = legEvent (eCodec E) tx TypeMined confs m"
    and "scanLegUpdate (legTxRow (icName (eCfg E)) (exportTracked (eCodec E) tx) (formatNano u) (exportLeg (eCodec E) m)) = Inr leg"
    and "synthesize sv leg heads d = (Inr (ev, heads'), d')"
  shows "ev = (stamp E now wallet live)\<lparr>evTimestamp := formatNano u, evConfirmations := evConfirmations ev\<rparr>"
proof -
  have t: "parseTime (formatTime (tFirstSeen tx)) = Inr (tFirstSeen tx)" "parseTime (formatTime (tMinedAt tx)) = Inr (tMinedAt tx)"
    using assms(4-7) by (simp_all add: parse_formatTime)
  have "formatTime u = formatNano u" using assms(8) by (simp add: formatTime_def isZero_def)
  then have u: "parseTime (formatNano u) = Inr u" using parse_formatTime [of u] assms(8,9) by simp
  have leg: "leg = \<lparr>luIndexer = icName (eCfg E), luTxHash = hashHex (eCodec E) (tHash tx), luStatus = ''mined'',
      luBlockHash = hashHex (eCodec E) (tBlock tx), luBlockNumber = tBlockNum tx, luFirstSeen = tFirstSeen tx,
      luFirstSeenBlock = tFirstSeenBlock tx, luMinedAt = tMinedAt tx, luReplacedBy = '''', luUpdatedAt = u,
      luLeg = (exportLeg (eCodec E) m)\<lparr>lrTxSender := '''', lrTxNonce := 0\<rparr>\<rparr>"
    using assms(1,3,15) t u
    by (auto simp: scanLegUpdate_def legTxRow_def exportTracked_def wrapParse_def legOfRow_def exportLeg_def loadLogIndex_def
        legLogIndex_def split: option.splits)
  obtain c w where "ev = replayed sv leg c w" and w: "ForSide (svWatched sv) (HexToAddress (svCodec sv) (lrFrom (luLeg leg)))
      (HexToAddress (svCodec sv) (lrTo (luLeg leg))) (lrDirection (luLeg leg)) = Inr w"
    using assms(16) by (auto simp: synthesize_def bindE_def split: prod.splits sum.splits)
  moreover have "w = wallet"
    using w assms(11-14) by (simp add: leg legEvent_def exportLeg_def)
  ultimately show ?thesis
    using assms(1,2,4,10) unfolding assms(14)
    by (auto simp: leg replayed_def stamp_def legEvent_def exportLeg_def isZero_def TypeMined_def emptyEvent_def)
qed

definition minedTx :: trackedTx where
  "minedTx = (freshTx 1 5)\<lparr>tState := stateMined, tMinedAt := 7, tTransfers := [demoLeg 1]\<rparr>"

lemma demo_side: "\<exists>name. ForSide (mWatched demoMatcher) a b dir = Inr name"
  by (rule ForSide_total) (simp add: demoMatcher_def NewMatcher_def demo_name)

lemma demo_synthesize:
  assumes "dbProg d = (\<lambda>_. None)"
  shows "\<exists>r d'. synthesize demoServer leg heads d = (Inr r, d')"
proof -
  have "\<exists>x d'. headOf demoServer ix heads d = (Inr x, d')" for ix
    using assms
    by (auto simp: headOf_def bindE_def attempt_def demoServer_def apiServer_def LoadIndexerState_def lift_def memEngine_def Let_def
        split: option.splits prod.splits sum.splits)
  then obtain h heads' d' where "headOf demoServer (luIndexer leg) heads d = (Inr (h, heads'), d')" by fastforce
  moreover obtain w where "ForSide (svWatched demoServer) (HexToAddress (svCodec demoServer) (lrFrom (luLeg leg)))
      (HexToAddress (svCodec demoServer) (lrTo (luLeg leg))) (lrDirection (luLeg leg)) = Inr w"
    using demo_side [of "HexToAddress decimalCodec (lrFrom (luLeg leg))" "HexToAddress decimalCodec (lrTo (luLeg leg))"
        "lrDirection (luLeg leg)"]
    by (auto simp: demoServer_def apiServer_def)
  ultimately show ?thesis by (simp add: synthesize_def legConfirmations_def bindE_def)
qed

theorem replay_mirrors_live_witness:
  "\<exists>leg ev heads wallet. scanLegUpdate (legTxRow ''demo'' (exportTracked decimalCodec minedTx) (formatNano 9) (exportLeg decimalCodec (demoLeg 1))) = Inr leg \<and>
     fst (synthesize demoServer leg fmempty emptyStream) = Inr (ev, heads) \<and>
     ev = (stamp demoEnv 8 wallet (legEvent decimalCodec minedTx TypeMined 1 (demoLeg 1)))\<lparr>evTimestamp := formatNano 9, evConfirmations := evConfirmations ev\<rparr>"
proof -
  have tm: "0 < (9 :: time)" "9 < maxTime" "5 < maxTime" "7 < maxTime" by (simp_all add: maxTime_def nsPerDay_def)
  obtain leg where leg: "scanLegUpdate (legTxRow ''demo'' (exportTracked decimalCodec minedTx) (formatNano 9) (exportLeg decimalCodec (demoLeg 1))) = Inr leg"
    using scan_saved [of "exportTracked decimalCodec minedTx" 9] tm
    by (auto simp: timesOK_def exportTracked_def minedTx_def freshTx_def)
  obtain ev heads d' where syn: "synthesize demoServer leg fmempty emptyStream = (Inr (ev, heads), d')"
    using demo_synthesize [of emptyStream leg fmempty] by (fastforce simp: emptyStream_def)
  obtain wallet where side: "ForSide (mWatched demoMatcher)
      (HexToAddress decimalCodec (evFrom (legEvent decimalCodec minedTx TypeMined 1 (demoLeg 1))))
      (HexToAddress decimalCodec (evTo (legEvent decimalCodec minedTx TypeMined 1 (demoLeg 1))))
      (evDirection (legEvent decimalCodec minedTx TypeMined 1 (demoLeg 1))) = Inr wallet"
    using demo_side by blast
  have E: "eCfg demoEnv = demoConfig" "eCodec demoEnv = decimalCodec" "eMatcher demoEnv = demoMatcher" "icName demoConfig = ''demo''"
    "icChainID demoConfig = 1"
    by (simp_all add: demoEnv_def demoConfig_def)
  have S: "svCodec demoServer = decimalCodec" "svWatched demoServer = mWatched demoMatcher" "fmlookup (svChains demoServer) ''demo'' = Some 1"
    by (simp_all add: demoServer_def apiServer_def)
  have m: "tState minedTx = stateMined" "mTxHash (demoLeg 1) = tHash minedTx" "mLogIndex (demoLeg 1) \<noteq> Some nativeLegIndex"
    "tFirstSeen minedTx = 5" "tMinedAt minedTx = 7"
    by (simp_all add: minedTx_def freshTx_def demoLeg_def)
  have "ev = (stamp demoEnv 8 wallet (legEvent decimalCodec minedTx TypeMined 1 (demoLeg 1)))\<lparr>evTimestamp := formatNano 9, evConfirmations := evConfirmations ev\<rparr>"
    by (rule replay_mirrors_live [where tx = minedTx and m = "demoLeg 1" and u = 9 and sv = demoServer and E = demoEnv and leg = leg])
      (use tm E S m leg syn side in simp_all)
  then show ?thesis using leg syn by auto
qed

end
