(* ===== verification/HdWallet.thy ===== *)
theory HdWallet
  imports Records Effects
begin

text \<open>
  internal/hdwallet/hdwallet.go: the addresses of a wallet, derived from an extended public key by
  workers that run at once. The key arithmetic of hdkeychain and go-ethereum is a parameter
  (\<open>keyLib\<close>); the heartbeat and the log lines are left out. The errors of two workers race: the
  group keeps the first to arrive, so the order in which the workers end is an argument.
\<close>

section \<open>Wallets and paths\<close>

record wallet =
  wlName :: string
  wlXPub :: string
  wlPath :: string
  wlStart :: u32
  wlCount :: u32

definition nonHardenedMax :: u64 where
  "nonHardenedMax = push_bit 31 1"

record 'k keyLib =
  klParse :: "string \<Rightarrow> goerr + 'k"
  klPrivate :: "'k \<Rightarrow> bool"
  klDerive :: "'k \<Rightarrow> u32 \<Rightarrow> goerr + 'k"
  klPubKey :: "'k \<Rightarrow> goerr + string"
  klAddress :: "string \<Rightarrow> address"

text \<open>\<open>strings.Split\<close> at one byte, and \<open>strconv.ParseUint\<close> in base 10 with 32 bits.\<close>

fun splitAt :: "char \<Rightarrow> string \<Rightarrow> string list" where
  "splitAt sep [] = [[]]"
| "splitAt sep (c # s) =
     (if c = sep then [] # splitAt sep s
      else case splitAt sep s of [] \<Rightarrow> [[c]] | p # ps \<Rightarrow> (c # p) # ps)"

definition parseUint32 :: "string \<Rightarrow> nat option" where
  "parseUint32 s = (if s \<noteq> '''' \<and> list_all isDigit s \<and> natOf s < 2 ^ 32 then Some (natOf s) else None)"

definition derivationPath :: "wallet \<Rightarrow> string" where
  "derivationPath w = (if wlPath w = '''' then ''0/*'' else wlPath w)"

definition hardenedSegment :: "string \<Rightarrow> bool" where
  "hardenedSegment seg \<longleftrightarrow> CHR 0x27 \<in> set seg \<or> CHR ''h'' \<in> set seg"

section \<open>Derivation\<close>

text \<open>The fixed prefix, one segment after the other.\<close>

fun derivePrefix :: "'k keyLib \<Rightarrow> string \<Rightarrow> string list \<Rightarrow> 'k \<Rightarrow> goerr + 'k" where
  "derivePrefix L path [] key = Inr key"
| "derivePrefix L path (seg # segs) key =
     (if hardenedSegment seg
      then Inl (ErrText (''path '' @ path @ '' contains a hardened segment '' @ seg))
      else case parseUint32 seg of
        None \<Rightarrow> Inl (ErrText (''path '' @ path @ '': invalid segment '' @ seg))
      | Some n \<Rightarrow>
          if unat nonHardenedMax \<le> n then Inl (ErrText (''path '' @ path @ '': invalid segment '' @ seg))
          else case klDerive L key (of_nat n) of
            Inl e \<Rightarrow> Inl (Wrap (''deriving path segment '' @ seg) e)
          | Inr key' \<Rightarrow> derivePrefix L path segs key')"

definition childAddress :: "'k keyLib \<Rightarrow> 'k \<Rightarrow> u32 \<Rightarrow> goerr + address" where
  "childAddress L parent idx =
     (case klDerive L parent idx of
        Inl e \<Rightarrow> Inl (Wrap (''deriving index '' @ natString (unat idx)) e)
      | Inr child \<Rightarrow>
     (case klPubKey L child of
        Inl e \<Rightarrow> Inl (Wrap (''index '' @ natString (unat idx)) e)
      | Inr pub \<Rightarrow> Inr (klAddress L pub)))"

text \<open>One worker: it fills its slots of the shared result until an index fails.\<close>

fun deriveSpan :: "'k keyLib \<Rightarrow> 'k \<Rightarrow> u32 \<Rightarrow> nat list \<Rightarrow> address list \<Rightarrow> goerr option \<times> address list" where
  "deriveSpan L parent start [] out = (None, out)"
| "deriveSpan L parent start (off # offs) out =
     (case childAddress L parent (start + of_nat off) of
        Inl e \<Rightarrow> (Some e, out)
      | Inr a \<Rightarrow> deriveSpan L parent start offs (out[off := a]))"

text \<open>
  The slots of each worker. The length \<open>per\<close> is positive where this is called, since the count is
  not 0 by then; a loop with \<open>per = 0\<close> would not end.
\<close>

function spansFrom :: "nat \<Rightarrow> nat \<Rightarrow> nat \<Rightarrow> nat list list" where
  "spansFrom per count lo =
     (if lo < count \<and> 0 < per then [lo ..< min (lo + per) count] # spansFrom per count (lo + per) else [])"
  by pat_completeness auto
termination by (relation "measure (\<lambda>(per, count, lo). count - lo)") auto

declare spansFrom.simps [simp del]

definition workerSpans :: "nat \<Rightarrow> nat \<Rightarrow> nat list list" where
  "workerSpans workers count = spansFrom ((count + workers - 1) div workers) count 0"

text \<open>
  The workers write different slots, so running them one after the other in the order \<open>ord\<close> in
  which they end leaves what running them at once does; the first error stays.
\<close>

definition runSpan :: "'k keyLib \<Rightarrow> 'k \<Rightarrow> u32 \<Rightarrow> nat list list \<Rightarrow> nat \<Rightarrow>
    goerr option \<times> address list \<Rightarrow> goerr option \<times> address list" where
  "runSpan L parent start spans k acc =
     (case deriveSpan L parent start (spans ! k) (snd acc) of
        (e, out) \<Rightarrow> (case fst acc of None \<Rightarrow> e | Some e0 \<Rightarrow> Some e0, out))"

definition deriveAll :: "'k keyLib \<Rightarrow> nat \<Rightarrow> nat list \<Rightarrow> wallet \<Rightarrow> 'k \<Rightarrow> goerr + address list" where
  "deriveAll L cpus ord w parent =
     (let n = unat (wlCount w) in
      case fold (runSpan L parent (wlStart w) (workerSpans cpus n)) ord (None, replicate n 0) of
        (Some e, _) \<Rightarrow> Inl e
      | (None, out) \<Rightarrow> Inr out)"

definition Derive :: "'k keyLib \<Rightarrow> nat \<Rightarrow> nat list \<Rightarrow> wallet \<Rightarrow> goerr + address list" where
  "Derive L cpus ord w =
     (case klParse L (wlXPub w) of
        Inl e \<Rightarrow> Inl (Wrap ''parsing xpub'' e)
      | Inr key \<Rightarrow>
          if klPrivate L key then Inl (ErrText ''extended key is PRIVATE (xprv) - never put private keys in the config; export the public xpub instead'')
          else if wlCount w = 0 then Inl (ErrText ''count is required'')
          else if nonHardenedMax < ucast (wlStart w) + ucast (wlCount w)
            then Inl (ErrText (''index range '' @ natString (unat (wlStart w)) @ ''+'' @ natString (unat (wlCount w)) @
                   '' exceeds the non-hardened maximum (2^31)''))
          else
            (let path = derivationPath w; segments = splitAt CHR ''/'' path in
             if last segments \<noteq> ''*'' then Inl (ErrText (''path '' @ path @ '' must end with the index placeholder''))
             else case derivePrefix L path (butlast segments) key of
               Inl e \<Rightarrow> Inl e
             | Inr parent \<Rightarrow>
                 (case klPubKey L parent of Inl e \<Rightarrow> Inl e | Inr _ \<Rightarrow> deriveAll L cpus ord w parent)))"

section \<open>The slots are cut without overlap\<close>

lemma spansFrom_concat: "0 < per \<Longrightarrow> concat (spansFrom per count lo) = [lo ..< count]"
proof (induction per count lo rule: spansFrom.induct)
  case (1 per count lo)
  show ?case
  proof (cases "lo < count")
    case True
    then have "[lo ..< min (lo + per) count] @ [lo + per ..< count] = [lo ..< count]"
      using upt_add_eq_append [of lo "lo + per" "count - (lo + per)"] by (cases "lo + per \<le> count") (simp_all add: min_def)
    then show ?thesis using True 1 by (subst spansFrom.simps) simp
  qed (simp add: spansFrom.simps)
qed

lemma per_pos: "0 < cpus \<Longrightarrow> 0 < n \<Longrightarrow> 0 < (n + cpus - 1) div (cpus :: nat)"
  by (auto simp: div_greater_zero_iff)

lemma workerSpans_concat: "0 < cpus \<Longrightarrow> concat (workerSpans cpus n) = [0 ..< n]"
  using spansFrom_concat [OF per_pos, of cpus n n 0] by (cases "n = 0") (simp_all add: workerSpans_def spansFrom.simps [of _ 0])

lemma spans_disjoint:
  assumes "distinct (concat xss)" and "j < length xss" and "k < length xss" and "j \<noteq> k"
  shows "set (xss ! j) \<inter> set (xss ! k) = {}"
  using assms
proof (induction xss arbitrary: j k)
  case (Cons xs xss)
  have rest: "i < length xss \<Longrightarrow> x \<in> set (xss ! i) \<Longrightarrow> x \<in> \<Union> (set ` set xss)" for i x using nth_mem by fastforce
  show ?case
    using Cons.prems Cons.IH by (cases j; cases k) (auto dest: rest)
qed simp

section \<open>What the workers leave\<close>

definition spanOK :: "'k keyLib \<Rightarrow> 'k \<Rightarrow> u32 \<Rightarrow> nat list \<Rightarrow> bool" where
  "spanOK L parent start offs \<longleftrightarrow> (\<forall>off \<in> set offs. \<not> isl (childAddress L parent (start + of_nat off)))"

definition slotAddr :: "'k keyLib \<Rightarrow> 'k \<Rightarrow> u32 \<Rightarrow> nat \<Rightarrow> address" where
  "slotAddr L parent start off = projr (childAddress L parent (start + of_nat off))"

lemma deriveSpan_ok:
  assumes "deriveSpan L parent start offs out = (e, out')"
  shows "(e = None \<longleftrightarrow> spanOK L parent start offs) \<and> length out' = length out \<and>
    (\<forall>i. i \<notin> set offs \<longrightarrow> i < length out \<longrightarrow> out' ! i = out ! i) \<and>
    (e = None \<longrightarrow> (\<forall>i \<in> set offs. i < length out \<longrightarrow> out' ! i = slotAddr L parent start i))"
  using assms
proof (induction offs arbitrary: out)
  case (Cons off offs)
  show ?case
  proof (cases "childAddress L parent (start + of_nat off)")
    case (Inl x)
    then show ?thesis using Cons.prems by (auto simp: spanOK_def)
  next
    case (Inr a)
    then have "deriveSpan L parent start offs (out[off := a]) = (e, out')" using Cons.prems by simp
    from Cons.IH [OF this] show ?thesis using Inr
      by (cases "off \<in> set offs") (auto simp: spanOK_def slotAddr_def)
  qed
qed (simp add: spanOK_def)

lemma runSpans_ok:
  assumes "fold (runSpan L parent start spans) ord (None, out) = (e, out')"
  shows "(e = None \<longleftrightarrow> (\<forall>k \<in> set ord. spanOK L parent start (spans ! k))) \<and> length out' = length out \<and>
    (e = None \<longrightarrow> (\<forall>i < length out. out' ! i =
       (if \<exists>k \<in> set ord. i \<in> set (spans ! k) then slotAddr L parent start i else out ! i)))"
  using assms
proof (induction ord arbitrary: e out' rule: rev_induct)
  case (snoc k ord)
  obtain e1 out1 where f: "fold (runSpan L parent start spans) ord (None, out) = (e1, out1)" by fastforce
  obtain e2 out2 where s: "deriveSpan L parent start (spans ! k) out1 = (e2, out2)" by fastforce
  have r: "out' = out2" "e = (case e1 of None \<Rightarrow> e2 | Some x \<Rightarrow> Some x)"
    using snoc.prems f s by (simp_all add: runSpan_def [of _ _ _ _ k])
  note F = snoc.IH [OF f] and S = deriveSpan_ok [OF s]
  show ?case
  proof (cases "e1 = None \<and> e2 = None")
    case False
    then show ?thesis using F S r by (auto split: option.splits)
  next
    case True
    have "out' ! i = (if \<exists>k' \<in> set (ord @ [k]). i \<in> set (spans ! k') then slotAddr L parent start i else out ! i)"
      if i: "i < length out" for i
      using F S r True i by (cases "i \<in> set (spans ! k)") auto
    then show ?thesis using F S r True by auto
  qed
qed simp

lemma ex_nth_set: "(\<exists>k. k < length xss \<and> P (xss ! k)) \<longleftrightarrow> (\<exists>xs \<in> set xss. P xs)"
  by (metis in_set_conv_nth)

lemma deriveAll_exact:
  assumes "0 < cpus" and "set ord = {..< length (workerSpans cpus (unat (wlCount w)))}"
  shows "deriveAll L cpus ord w parent = Inr out \<longleftrightarrow> length out = unat (wlCount w) \<and>
    (\<forall>i < unat (wlCount w). childAddress L parent (wlStart w + of_nat i) = Inr (out ! i))"
proof -
  let ?n = "unat (wlCount w)" and ?spans = "workerSpans cpus (unat (wlCount w))"
  obtain e res where f: "fold (runSpan L parent (wlStart w) ?spans) ord (None, replicate ?n 0) = (e, res)" by fastforce
  have cover: "(\<exists>k \<in> set ord. i \<in> set (?spans ! k)) \<longleftrightarrow> i < ?n" for i
  proof -
    have "(\<exists>k \<in> set ord. i \<in> set (?spans ! k)) \<longleftrightarrow> i \<in> set (concat ?spans)"
      using assms(2) using ex_nth_set [of ?spans "\<lambda>xs. i \<in> set xs"] by (simp add: Bex_def)
    then show ?thesis using workerSpans_concat [OF assms(1), of ?n] by simp
  qed
  have all: "(\<forall>k \<in> set ord. spanOK L parent (wlStart w) (?spans ! k)) \<longleftrightarrow>
      (\<forall>i < ?n. \<not> isl (childAddress L parent (wlStart w + of_nat i)))"
    using cover unfolding spanOK_def by blast
  note R = runSpans_ok [OF f]
  show ?thesis
  proof (cases e)
    case (Some x)
    then have "\<exists>i < ?n. isl (childAddress L parent (wlStart w + of_nat i))" using R all by auto
    then show ?thesis using f Some by (auto simp: deriveAll_def Let_def)
  next
    case None
    then have ok: "\<forall>i < ?n. \<not> isl (childAddress L parent (wlStart w + of_nat i))" using R all by auto
    have res: "length res = ?n" "\<forall>i < ?n. res ! i = slotAddr L parent (wlStart w) i"
      using R None cover by simp_all
    have d: "deriveAll L cpus ord w parent = Inr res" using f None by (simp add: deriveAll_def Let_def)
    have val: "i < ?n \<Longrightarrow> childAddress L parent (wlStart w + of_nat i) = Inr (res ! i)" for i
      using ok res by (simp add: slotAddr_def)
    show ?thesis
    proof
      assume "deriveAll L cpus ord w parent = Inr out"
      then show "length out = ?n \<and> (\<forall>i < ?n. childAddress L parent (wlStart w + of_nat i) = Inr (out ! i))"
        using d val res by simp
    next
      assume "length out = ?n \<and> (\<forall>i < ?n. childAddress L parent (wlStart w + of_nat i) = Inr (out ! i))"
      then have "out = res" using val res by (auto intro: nth_equalityI)
      then show "deriveAll L cpus ord w parent = Inr out" using d by simp
    qed
  qed
qed

lemma range_guard_iff:
  "nonHardenedMax < ucast (start :: u32) + ucast (cnt :: u32) \<longleftrightarrow> 2 ^ 31 < unat start + unat cnt"
proof -
  have "unat start < 2 ^ 32" "unat cnt < 2 ^ 32" using unsigned_less [of start] unsigned_less [of cnt] by simp_all
  then have "unat (ucast start + ucast cnt :: u64) = unat start + unat cnt"
    by (simp add: unat_word_ariths unsigned_ucast_eq take_bit_nat_eq_self)
  then show ?thesis by (simp add: word_less_nat_alt nonHardenedMax_def)
qed

lemma derivePrefix_segments:
  "derivePrefix L path segs key = Inr parent \<Longrightarrow>
    (\<forall>seg \<in> set segs. \<not> hardenedSegment seg \<and> (\<exists>n < 2 ^ 31. parseUint32 seg = Some n))"
  by (induction segs arbitrary: key) (auto simp: nonHardenedMax_def split: if_splits option.splits sum.splits)

lemma Derive_iff:
  assumes "0 < cpus" and "set ord = {..< length (workerSpans cpus (unat (wlCount w)))}"
  shows "Derive L cpus ord w = Inr out \<longleftrightarrow>
    (\<exists>key parent pub. klParse L (wlXPub w) = Inr key \<and> \<not> klPrivate L key \<and> 0 < unat (wlCount w) \<and>
      unat (wlStart w) + unat (wlCount w) \<le> 2 ^ 31 \<and>
      last (splitAt CHR ''/'' (derivationPath w)) = ''*'' \<and>
      (\<forall>seg \<in> set (butlast (splitAt CHR ''/'' (derivationPath w))). \<not> hardenedSegment seg \<and> (\<exists>n < 2 ^ 31. parseUint32 seg = Some n)) \<and>
      derivePrefix L (derivationPath w) (butlast (splitAt CHR ''/'' (derivationPath w))) key = Inr parent \<and>
      klPubKey L parent = Inr pub \<and> length out = unat (wlCount w) \<and>
      (\<forall>i < unat (wlCount w). unat (wlStart w + of_nat i) = unat (wlStart w) + i \<and>
        childAddress L parent (wlStart w + of_nat i) = Inr (out ! i)))"
    (is "?lhs \<longleftrightarrow> ?rhs")
proof -
  have idx: "unat (wlStart w + of_nat i) = unat (wlStart w) + i"
    if "unat (wlStart w) + unat (wlCount w) \<le> 2 ^ 31" and "i < unat (wlCount w)" for i
    using that by (simp add: unat_word_ariths unat_of_nat)
  have pos: "wlCount w = 0 \<longleftrightarrow> \<not> 0 < unat (wlCount w)" by (simp add: unat_eq_0)
  show ?thesis
  proof
    assume ?lhs
    then show ?rhs
      using idx pos
      by (auto simp: Derive_def Let_def range_guard_iff deriveAll_exact [OF assms] dest: derivePrefix_segments
          split: sum.splits if_splits)
  next
    assume ?rhs
    then show ?lhs
      using pos by (auto simp: Derive_def Let_def range_guard_iff deriveAll_exact [OF assms])
  qed
qed

definition demoKeys :: "u32 list keyLib" where
  "demoKeys = \<lparr>klParse = (\<lambda>s. if s = ''xpub'' then Inr [] else Inl (ErrText ''bad key'')), klPrivate = (\<lambda>_. False),
     klDerive = (\<lambda>k i. Inr (i # k)), klPubKey = (\<lambda>k. Inr (concat (map (\<lambda>i. natString (unat i)) k))),
     klAddress = (\<lambda>s. of_nat (natOf s))\<rparr>"

definition demoWallet :: wallet where
  "demoWallet = \<lparr>wlName = ''deposits'', wlXPub = ''xpub'', wlPath = '''', wlStart = 5, wlCount = 3\<rparr>"

lemma demo_order: "set [1, 0] = {..< length (workerSpans 2 (unat (wlCount demoWallet)))}"
proof -
  have "workerSpans 2 (unat (wlCount demoWallet)) = [[0, 1], [2]]"
    by (simp add: demoWallet_def workerSpans_def spansFrom.simps upt_rec)
  then show ?thesis by auto
qed

lemma demo_derive:
  "Derive demoKeys 2 [1, 0] demoWallet = Inr [50, 60, 70]"
proof -
  note ord = demo_order
  have path: "splitAt CHR ''/'' (derivationPath demoWallet) = [''0'', ''*'']" by (simp add: derivationPath_def demoWallet_def)
  have small: "i < 3 \<longleftrightarrow> i = 0 \<or> i = 1 \<or> i = 2" for i :: nat by auto
  have "\<exists>key parent pub. klParse demoKeys (wlXPub demoWallet) = Inr key \<and> \<not> klPrivate demoKeys key \<and>
      derivePrefix demoKeys (derivationPath demoWallet) (butlast [''0'', ''*'']) key = Inr parent \<and> klPubKey demoKeys parent = Inr pub \<and>
      (\<forall>i < unat (wlCount demoWallet). unat (wlStart demoWallet + of_nat i) = unat (wlStart demoWallet) + i \<and>
        childAddress demoKeys parent (wlStart demoWallet + of_nat i) = Inr ([50, 60, 70] ! i))"
    by (simp add: demoKeys_def demoWallet_def hardenedSegment_def parseUint32_def isDigit_def natOf_def digitVal_def
        nonHardenedMax_def small childAddress_def natString.simps digitChar_def)
  then show ?thesis
    by (subst Derive_iff [OF _ ord])
      (simp_all add: path, auto simp: demoWallet_def hardenedSegment_def parseUint32_def isDigit_def natOf_def digitVal_def)
qed

section \<open>Properties\<close>

text \<open>
  C36: deriving in parallel is deriving one after the other. Whatever the number of processors and
  the order in which the workers end, \<open>Derive\<close> succeeds exactly when the key is a public one, the
  range is not empty and ends at most at \<open>2 ^ 31\<close>, the path ends in the placeholder, its fixed part
  derives, and every index of the range derives; the result then holds the address of every index
  of the range at its place. No hardened index is ever derived: neither a segment of the path nor
  an index reaches \<open>2 ^ 31\<close>, and the 32-bit index does not wrap.
\<close>

theorem Derive_exact:
  assumes "0 < cpus" and "set ord = {..< length (workerSpans cpus (unat (wlCount w)))}"
  shows "Derive L cpus ord w = Inr out \<longleftrightarrow>
    (\<exists>key parent pub. klParse L (wlXPub w) = Inr key \<and> \<not> klPrivate L key \<and> 0 < unat (wlCount w) \<and>
      unat (wlStart w) + unat (wlCount w) \<le> 2 ^ 31 \<and>
      last (splitAt CHR ''/'' (derivationPath w)) = ''*'' \<and>
      (\<forall>seg \<in> set (butlast (splitAt CHR ''/'' (derivationPath w))). \<not> hardenedSegment seg \<and> (\<exists>n < 2 ^ 31. parseUint32 seg = Some n)) \<and>
      derivePrefix L (derivationPath w) (butlast (splitAt CHR ''/'' (derivationPath w))) key = Inr parent \<and>
      klPubKey L parent = Inr pub \<and> length out = unat (wlCount w) \<and>
      (\<forall>i < unat (wlCount w). unat (wlStart w + of_nat i) = unat (wlStart w) + i \<and>
        childAddress L parent (wlStart w + of_nat i) = Inr (out ! i)))"
  by (rule Derive_iff [OF assms])

theorem Derive_exact_witness:
  "\<exists>parent. \<forall>i < 3. childAddress demoKeys parent (5 + of_nat i) = Inr ([50, 60, 70] ! i)"
  using Derive_exact [OF _ demo_order, of demoKeys "[50, 60, 70]"] demo_derive by (auto simp: demoWallet_def)

end
