(* ===== verification/Validate.thy ===== *)
theory Validate
  imports Config HdWallet
begin

text \<open>
  internal/config/config.go: from the text of the configuration file to the settings the program
  runs on. References to environment variables are expanded, the YAML is decoded, and validation
  fills in defaults, parses addresses and tokens and builds the watched set. The environment, the
  YAML decoder, \<open>net/url\<close>, the hex parsing of go-ethereum and the key arithmetic are parameters
  (\<open>configLib\<close>).
\<close>

section \<open>Data\<close>

record addressEntry =
  aeName :: string
  aeAddress :: string

record config =
  cDatabase :: string
  cMetrics :: string
  cAPI :: string
  cAddresses :: "addressEntry list"
  cHDWallets :: "wallet list"
  cIndexers :: "indexerConfig list"
  cWatched :: "watchedSet option"

record goURL =
  urScheme :: string
  urRest :: string

record 'k configLib =
  clReadFile :: "string \<Rightarrow> goerr + string"
  clEnv :: "string \<Rightarrow> string option"
  clYaml :: "string \<Rightarrow> goerr + config"
  clURL :: "string \<Rightarrow> goURL option"
  clURLString :: "goURL \<Rightarrow> string"
  clIsHex :: "string \<Rightarrow> bool"
  clCodec :: hexcodec
  clKeys :: "'k keyLib"
  clCPUs :: nat
  clDone :: "wallet \<Rightarrow> nat list"

text \<open>The sequence of two steps that can fail.\<close>

definition andThen :: "goerr + 'a \<Rightarrow> ('a \<Rightarrow> goerr + 'b) \<Rightarrow> goerr + 'b" where
  "andThen r f = (case r of Inl e \<Rightarrow> Inl e | Inr x \<Rightarrow> f x)"

section \<open>YAML nodes\<close>

text \<open>What decoding a node into a number, a string or an entry gives.\<close>

record yamlNode =
  ynScalar :: bool
  ynUint :: "goerr + u64"
  ynString :: "goerr + string"
  ynEntry :: "goerr + addressEntry"
  ynValue :: string

definition UnmarshalConfirmations :: "yamlNode \<Rightarrow> confirmations \<Rightarrow> goerr + confirmations" where
  "UnmarshalConfirmations node c =
     (case ynUint node of
        Inr d \<Rightarrow> Inr (c\<lparr>cfDepth := d\<rparr>)
      | Inl _ \<Rightarrow>
          (case ynString node of
             Inr tag \<Rightarrow>
               if tag = ''finalized'' \<or> tag = ''safe'' then Inr (c\<lparr>cfTag := tag\<rparr>)
               else Inl (ErrText (''confirmations must be a number, finalized or safe, got '' @ ynValue node))
           | Inl _ \<Rightarrow> Inl (ErrText (''confirmations must be a number, finalized or safe, got '' @ ynValue node))))"

definition confirmationsString :: "confirmations \<Rightarrow> string" where
  "confirmationsString c = (if cfTag c \<noteq> '''' then cfTag c else natString (unat (cfDepth c)))"

definition UnmarshalEntry :: "yamlNode \<Rightarrow> addressEntry \<Rightarrow> goerr + addressEntry" where
  "UnmarshalEntry node e =
     (if ynScalar node then (case ynString node of Inl er \<Rightarrow> Inl er | Inr a \<Rightarrow> Inr (e\<lparr>aeAddress := a\<rparr>))
      else ynEntry node)"

section \<open>Environment references\<close>

text \<open>A match of \<open>envRef\<close> at the start of a text: the name, and what follows the reference.\<close>

definition isNameStart :: "char \<Rightarrow> bool" where
  "isNameStart c \<longleftrightarrow> (CHR ''A'' \<le> c \<and> c \<le> CHR ''Z'') \<or> (CHR ''a'' \<le> c \<and> c \<le> CHR ''z'') \<or> c = CHR ''_''"

definition isNameChar :: "char \<Rightarrow> bool" where
  "isNameChar c \<longleftrightarrow> isNameStart c \<or> (CHR ''0'' \<le> c \<and> c \<le> CHR ''9'')"

definition matchRef :: "string \<Rightarrow> (string \<times> string) option" where
  "matchRef s =
     (if take 2 s = ''${''
      then let n = takeWhile isNameChar (drop 2 s); r = dropWhile isNameChar (drop 2 s) in
        if n \<noteq> [] \<and> isNameStart (hd n) \<and> r \<noteq> [] \<and> hd r = CHR ''}'' then Some (n, tl r) else None
      else None)"

lemma matchRef_shorter: "matchRef s = Some (n, r) \<Longrightarrow> length r < length s"
proof -
  assume m: "matchRef s = Some (n, r)"
  let ?d = "dropWhile isNameChar (drop 2 s)"
  have "r = tl ?d" "?d \<noteq> []" using m by (auto simp: matchRef_def Let_def split: if_splits)
  then have "length r < length ?d" by (cases ?d) simp_all
  also have "\<dots> \<le> length (drop 2 s)" by (rule length_dropWhile_le)
  finally show ?thesis by simp
qed

text \<open>\<open>ReplaceAllStringFunc\<close>: the leftmost references in turn, the names of the unset ones kept.\<close>

function expandRefs :: "(string \<Rightarrow> string option) \<Rightarrow> string \<Rightarrow> string \<times> string list" where
  "expandRefs env s =
     (case s of
        [] \<Rightarrow> ([], [])
      | c # cs \<Rightarrow>
          (case matchRef s of
             None \<Rightarrow> (case expandRefs env cs of (out, missing) \<Rightarrow> (c # out, missing))
           | Some (n, rest) \<Rightarrow>
               (case expandRefs env rest of (out, missing) \<Rightarrow>
                  (case env n of
                     Some v \<Rightarrow> (v @ out, missing)
                   | None \<Rightarrow> (''${'' @ n @ ''}'' @ out, n # missing)))))"
  by pat_completeness auto
termination by (relation "measure (\<lambda>(env, s). length s)") (auto dest: matchRef_shorter)

declare expandRefs.simps [simp del]

fun joinComma :: "string list \<Rightarrow> string" where
  "joinComma [] = ''''"
| "joinComma [s] = s"
| "joinComma (s # ss) = s @ '', '' @ joinComma ss"

definition expandEnv :: "(string \<Rightarrow> string option) \<Rightarrow> string \<Rightarrow> goerr + string" where
  "expandEnv env s =
     (case expandRefs env s of (out, missing) \<Rightarrow>
        if missing \<noteq> [] then Inl (ErrText (''config references unset environment variable(s): '' @ joinComma missing))
        else Inr out)"

section \<open>Validation\<close>

definition parseAddress :: "'k configLib \<Rightarrow> string \<Rightarrow> goerr + address" where
  "parseAddress L s =
     (if \<not> clIsHex L s then Inl (ErrText (''invalid address '' @ s)) else Inr (HexToAddress (clCodec L) s))"

definition httpURL :: "'k configLib \<Rightarrow> goURL \<Rightarrow> indexerConfig \<Rightarrow> goerr + indexerConfig" where
  "httpURL L u ix =
     (if icHTTPRPCURL ix = ''''
      then Inr (ix\<lparr>icHTTPRPCURL := clURLString L (u\<lparr>urScheme := (if urScheme u = ''ws'' then ''http'' else ''https'')\<rparr>)\<rparr>)
      else case clURL L (icHTTPRPCURL ix) of
        None \<Rightarrow> Inl (ErrText (''http_rpc_url is not a valid URL: '' @ icHTTPRPCURL ix))
      | Some hu \<Rightarrow>
          if urScheme hu = '''' then Inl (ErrText (''http_rpc_url is not a valid URL: '' @ icHTTPRPCURL ix)) else Inr ix)"

definition defaultTimeout :: duration where
  "defaultTimeout = 30 * 60 * 1000000000"

definition validateLimits :: "indexerConfig \<Rightarrow> goerr + indexerConfig" where
  "validateLimits ix =
     (let ix = (if cfDepth (icConfirmations ix) = 0 \<and> cfTag (icConfirmations ix) = ''''
                then ix\<lparr>icConfirmations := (icConfirmations ix)\<lparr>cfDepth := 12\<rparr>\<rparr> else ix);
          ix = (if icPendingTimeout ix = 0 then ix\<lparr>icPendingTimeout := defaultTimeout\<rparr> else ix) in
      if icPendingTimeout ix < 0 then Inl (ErrText ''pending_timeout must be positive'')
      else
        (let ix = (if icConcurrency ix = 0 then ix\<lparr>icConcurrency := 8\<rparr> else ix) in
         if icConcurrency ix < 0 then Inl (ErrText ''concurrency must be positive'')
         else
           (let ix = (if icNativeSymbol ix = '''' then ix\<lparr>icNativeSymbol := ''ETH''\<rparr> else ix);
                ix = (if icBatchBlocks ix = 0 then ix\<lparr>icBatchBlocks := 10\<rparr> else ix) in
            if icBatchBlocks ix < 0 then Inl (ErrText ''batch_blocks must be positive'')
            else if icMaxCatchupAge ix < 0 then Inl (ErrText ''max_catchup_age must be positive'')
            else Inr ix)))"

fun parseTokens :: "'k configLib \<Rightarrow> address fset \<Rightarrow> token list \<Rightarrow> indexerConfig \<Rightarrow> goerr + indexerConfig" where
  "parseTokens L seen [] ix = Inr ix"
| "parseTokens L seen (t # ts) ix =
     (case parseAddress L (tkAddress t) of
        Inl e \<Rightarrow> Inl (Wrap (''token '' @ tkSymbol t) e)
      | Inr a \<Rightarrow>
          if tkSymbol t = '''' then Inl (ErrText (''token '' @ addrHex (clCodec L) a @ '' has no symbol''))
          else if a |\<in>| seen then Inl (ErrText (''duplicate token address '' @ addrHex (clCodec L) a))
          else parseTokens L (finsert a seen) ts
            (ix\<lparr>icTokenList := icTokenList ix @ [\<lparr>ptAddress = a, ptSymbol = tkSymbol t, ptDecimals = tkDecimals t\<rparr>]\<rparr>))"

definition validateIndexer :: "'k configLib \<Rightarrow> indexerConfig \<Rightarrow> goerr + indexerConfig" where
  "validateIndexer L ix =
     (if icChainID ix = 0 then Inl (ErrText ''chain_id is required'')
      else case clURL L (icRPCURL ix) of
        None \<Rightarrow> Inl (ErrText (''rpc_url must be a ws:// or wss:// URL, got '' @ icRPCURL ix))
      | Some u \<Rightarrow>
          if urScheme u \<noteq> ''ws'' \<and> urScheme u \<noteq> ''wss''
          then Inl (ErrText (''rpc_url must be a ws:// or wss:// URL, got '' @ icRPCURL ix))
          else andThen (httpURL L u ix) (\<lambda>ix1. andThen (validateLimits ix1) (\<lambda>ix2. parseTokens L {||} (icTokens ix2) ix2)))"

fun addEntries :: "'k configLib \<Rightarrow> addressEntry list \<Rightarrow> watchedSet \<Rightarrow> goerr + watchedSet" where
  "addEntries L [] s = Inr s"
| "addEntries L (e # es) s =
     (case parseAddress L (aeAddress e) of
        Inl er \<Rightarrow> Inl er
      | Inr a \<Rightarrow>
          (case intern (aeName e) s of (li, s1) \<Rightarrow>
            (case addWatched a li s1 of (fresh, s2) \<Rightarrow>
               if \<not> fresh then Inl (ErrText (''duplicate watched address '' @ addrHex (clCodec L) a))
               else addEntries L es s2)))"

fun addDerived :: "'k configLib \<Rightarrow> nat \<Rightarrow> i32 \<Rightarrow> address list \<Rightarrow> watchedSet \<Rightarrow> goerr + watchedSet" where
  "addDerived L i li [] s = Inr s"
| "addDerived L i li (a # as) s =
     (case addWatched a li s of (fresh, s') \<Rightarrow>
        if \<not> fresh
        then Inl (ErrText (''hd_wallets['' @ natString i @ '']: derived address '' @ addrHex (clCodec L) a @ '' is already watched''))
        else addDerived L i li as s')"

definition walletLabel :: "wallet \<Rightarrow> string" where
  "walletLabel w = (if wlName w = '''' then wlXPub w else wlName w)"

fun addWallets :: "'k configLib \<Rightarrow> nat \<Rightarrow> wallet list \<Rightarrow> watchedSet \<Rightarrow> goerr + watchedSet" where
  "addWallets L i [] s = Inr s"
| "addWallets L i (w # ws) s =
     (case Derive (clKeys L) (clCPUs L) (clDone L w) w of
        Inl e \<Rightarrow> Inl (Wrap (''hd_wallets['' @ natString i @ '']'') e)
      | Inr derived \<Rightarrow>
          (case intern (walletLabel w) s of (li, s1) \<Rightarrow>
             andThen (addDerived L i li derived s1) (\<lambda>s2. addWallets L (Suc i) ws s2)))"

fun validateIndexers :: "'k configLib \<Rightarrow> nat \<Rightarrow> string fset \<Rightarrow> indexerConfig list \<Rightarrow> goerr + indexerConfig list" where
  "validateIndexers L i names [] = Inr []"
| "validateIndexers L i names (ix # ixs) =
     (if icName ix = '''' then Inl (ErrText (''indexer '' @ natString i @ '': name is required''))
      else if icName ix |\<in>| names then Inl (ErrText (''duplicate indexer name '' @ icName ix))
      else case validateIndexer L ix of
        Inl e \<Rightarrow> Inl (Wrap (''indexer '' @ icName ix) e)
      | Inr ix' \<Rightarrow> andThen (validateIndexers L (Suc i) (finsert (icName ix) names) ixs) (\<lambda>ixs'. Inr (ix' # ixs')))"

definition validate :: "'k configLib \<Rightarrow> config \<Rightarrow> goerr + config" where
  "validate L c0 =
     (let c = (if cDatabase c0 = '''' then c0\<lparr>cDatabase := ''ethindex.db''\<rparr> else c0) in
      if cAddresses c = [] \<and> cHDWallets c = [] then Inl (ErrText ''at least one watched address or hd wallet is required'')
      else andThen (addEntries L (cAddresses c) newWatchedSet) (\<lambda>s1.
           andThen (addWallets L 0 (cHDWallets c) s1) (\<lambda>s2.
             if cIndexers c = [] then Inl (ErrText ''at least one indexer is required'')
             else andThen (validateIndexers L 0 {||} (cIndexers c)) (\<lambda>ixs.
               Inr (c\<lparr>cWatched := Some s2, cIndexers := ixs\<rparr>)))))"

definition Parse :: "'k configLib \<Rightarrow> string \<Rightarrow> goerr + config" where
  "Parse L data =
     andThen (expandEnv (clEnv L) data) (\<lambda>expanded.
       case clYaml L expanded of
         Inl e \<Rightarrow> Inl (Wrap ''parsing config'' e)
       | Inr c \<Rightarrow> validate L c)"

definition Load :: "'k configLib \<Rightarrow> string \<Rightarrow> goerr + config" where
  "Load L path = (case clReadFile L path of Inl e \<Rightarrow> Inl (Wrap ''reading config'' e) | Inr data \<Rightarrow> Parse L data)"

end
