(* ===== verification/ValidateProps.thy ===== *)
theory ValidateProps
  imports Validate
begin

text \<open>
  What validation promises: the expansion of references is the substitution it describes, a
  configuration is accepted exactly when its indexers are acceptable, and the settings an accepted
  one leaves are those the rest of the program relies on.
\<close>

section \<open>Environment references\<close>

text \<open>A text as single characters and references; a literal \<open>$\<close> does not start a reference.\<close>

datatype piece = Lit char | Ref string

definition isName :: "string \<Rightarrow> bool" where
  "isName n \<longleftrightarrow> n \<noteq> [] \<and> isNameStart (hd n) \<and> list_all isNameChar n"

fun renderPieces :: "piece list \<Rightarrow> string" where
  "renderPieces [] = []"
| "renderPieces (Lit c # ps) = c # renderPieces ps"
| "renderPieces (Ref n # ps) = ''${'' @ n @ ''}'' @ renderPieces ps"

fun wfPieces :: "piece list \<Rightarrow> bool" where
  "wfPieces [] = True"
| "wfPieces (Lit c # ps) = ((\<nexists>n r. isName n \<and> c # renderPieces ps = ''${'' @ n @ ''}'' @ r) \<and> wfPieces ps)"
| "wfPieces (Ref n # ps) = (isName n \<and> wfPieces ps)"

fun unsetNames :: "(string \<Rightarrow> string option) \<Rightarrow> piece list \<Rightarrow> string list" where
  "unsetNames env [] = []"
| "unsetNames env (Lit c # ps) = unsetNames env ps"
| "unsetNames env (Ref n # ps) = (if env n = None then n # unsetNames env ps else unsetNames env ps)"

fun substPieces :: "(string \<Rightarrow> string option) \<Rightarrow> piece list \<Rightarrow> string" where
  "substPieces env [] = []"
| "substPieces env (Lit c # ps) = c # substPieces env ps"
| "substPieces env (Ref n # ps) = (case env n of Some v \<Rightarrow> v | None \<Rightarrow> ''${'' @ n @ ''}'') @ substPieces env ps"

lemma brace_no_name: "\<not> isNameChar CHR ''}''"
  by (simp add: isNameChar_def isNameStart_def)

lemma matchRef_ref:
  assumes "isName n"
  shows "matchRef (''${'' @ n @ ''}'' @ r) = Some (n, r)"
proof -
  define t where "t = n @ CHR ''}'' # r"
  have n: "\<forall>c \<in> set n. isNameChar c" "n \<noteq> []" "isNameStart (hd n)" using assms by (simp_all add: isName_def list_all_iff)
  have t: "takeWhile isNameChar t = n" "dropWhile isNameChar t = CHR ''}'' # r"
    unfolding t_def using n(1) brace_no_name by (simp_all add: takeWhile_append2 dropWhile_append2)
  have "matchRef (CHR ''$'' # CHR ''{'' # t) = Some (n, r)"
    unfolding matchRef_def by (simp add: t n(2,3))
  then show ?thesis by (simp add: t_def)
qed

lemma matchRef_Some: "matchRef s = Some (n, r) \<Longrightarrow> isName n \<and> s = ''${'' @ n @ ''}'' @ r"
proof -
  assume m: "matchRef s = Some (n, r)"
  let ?t = "drop 2 s"
  have e: "take 2 s = ''${'' \<and> n = takeWhile isNameChar ?t \<and> n \<noteq> [] \<and> isNameStart (hd n) \<and>
      dropWhile isNameChar ?t \<noteq> [] \<and> hd (dropWhile isNameChar ?t) = CHR ''}'' \<and> r = tl (dropWhile isNameChar ?t)"
    using m unfolding matchRef_def Let_def by (simp split: if_split_asm)
  have d: "take 2 s = ''${''" "n = takeWhile isNameChar ?t" "n \<noteq> []" "isNameStart (hd n)"
    "dropWhile isNameChar ?t = CHR ''}'' # r"
    using e list.collapse [of "dropWhile isNameChar ?t"] by metis+
  then have "?t = n @ CHR ''}'' # r" by (metis takeWhile_dropWhile_id)
  then have "s = ''${'' @ n @ ''}'' @ r" using d(1) append_take_drop_id [of 2 s] by simp
  moreover have "list_all isNameChar n" unfolding d(2) list_all_iff by (auto dest: set_takeWhileD)
  ultimately show ?thesis using d(3,4) by (simp add: isName_def)
qed

lemma expandRefs_pieces:
  "wfPieces ps \<Longrightarrow> expandRefs env (renderPieces ps) = (substPieces env ps, unsetNames env ps)"
proof (induction ps)
  case Nil
  then show ?case by (simp add: expandRefs.simps)
next
  case (Cons p ps)
  show ?case
  proof (cases p)
    case (Lit c)
    then have "matchRef (c # renderPieces ps) = None"
      using Cons.prems matchRef_Some by (cases "matchRef (c # renderPieces ps)") fastforce+
    then show ?thesis using Cons Lit by (subst expandRefs.simps) simp
  next
    case (Ref n)
    then have "matchRef (''${'' @ n @ ''}'' @ renderPieces ps) = Some (n, renderPieces ps)"
      using Cons.prems by (intro matchRef_ref) simp
    then show ?thesis using Cons Ref by (subst expandRefs.simps) (simp split: option.splits)
  qed
qed

lemma pieces_exist: "\<exists>ps. wfPieces ps \<and> renderPieces ps = s"
proof (induction "length s" arbitrary: s rule: less_induct)
  case less
  show ?case
  proof (cases s)
    case Nil
    then show ?thesis by (intro exI [of _ "[]"]) simp
  next
    case (Cons c cs)
    show ?thesis
    proof (cases "matchRef s")
      case None
      obtain ps where "wfPieces ps" "renderPieces ps = cs" using less [of cs] Cons by auto
      moreover have "\<nexists>n r. isName n \<and> c # cs = ''${'' @ n @ ''}'' @ r" using None Cons matchRef_ref by fastforce
      ultimately show ?thesis using Cons by (intro exI [of _ "Lit c # ps"]) simp
    next
      case (Some m)
      obtain n r where m: "m = (n, r)" by (cases m)
      then have s: "isName n" "s = ''${'' @ n @ ''}'' @ r" using matchRef_Some Some by auto
      obtain ps where "wfPieces ps" "renderPieces ps = r" using less [of r] s(2) by auto
      then show ?thesis using s by (intro exI [of _ "Ref n # ps"]) simp
    qed
  qed
qed

text \<open>
  What a reference expands to. Every text is a sequence of characters and \<open>${NAME}\<close> references
  in which no \<open>$\<close> left as a character starts a reference; expanding it replaces exactly the
  references by the values of their variables, does not expand the values again, keeps everything
  else, and fails naming every unset variable in the order of the text when there is one.
\<close>

theorem expandEnv_exact:
  "\<exists>ps. wfPieces ps \<and> renderPieces ps = s \<and>
     expandEnv env s = (if unsetNames env ps = [] then Inr (substPieces env ps)
       else Inl (ErrText (''config references unset environment variable(s): '' @ joinComma (unsetNames env ps))))"
proof -
  obtain ps where ps: "wfPieces ps" "renderPieces ps = s" using pieces_exist by blast
  then have "expandRefs env s = (substPieces env ps, unsetNames env ps)" using expandRefs_pieces by blast
  then show ?thesis using ps by (intro exI [of _ ps]) (simp add: expandEnv_def)
qed

section \<open>The settings of an indexer\<close>

definition tokensOK :: "'k configLib \<Rightarrow> token list \<Rightarrow> bool" where
  "tokensOK L ts \<longleftrightarrow> (\<forall>t \<in> set ts. clIsHex L (tkAddress t) \<and> tkSymbol t \<noteq> '''') \<and>
     distinct (map (\<lambda>t. HexToAddress (clCodec L) (tkAddress t)) ts)"

definition parsedTokens :: "'k configLib \<Rightarrow> token list \<Rightarrow> parsedToken list" where
  "parsedTokens L ts = map (\<lambda>t. \<lparr>ptAddress = HexToAddress (clCodec L) (tkAddress t), ptSymbol = tkSymbol t, ptDecimals = tkDecimals t\<rparr>) ts"

lemma parseTokens_exact:
  "parseTokens L seen ts ix = Inr ix' \<longleftrightarrow> tokensOK L ts \<and>
     (\<forall>t \<in> set ts. HexToAddress (clCodec L) (tkAddress t) |\<notin>| seen) \<and>
     ix' = ix\<lparr>icTokenList := icTokenList ix @ parsedTokens L ts\<rparr>"
proof (induction ts arbitrary: seen ix)
  case (Cons t ts)
  show ?case
    by (auto simp: Cons.IH parseAddress_def tokensOK_def parsedTokens_def image_iff split: if_splits)
qed (auto simp: tokensOK_def parsedTokens_def)

definition limitsOK :: "indexerConfig \<Rightarrow> bool" where
  "limitsOK ix \<longleftrightarrow> 0 \<le> icPendingTimeout ix \<and> 0 \<le> icConcurrency ix \<and> 0 \<le> icBatchBlocks ix \<and> 0 \<le> icMaxCatchupAge ix"

definition filledLimits :: "indexerConfig \<Rightarrow> indexerConfig" where
  "filledLimits ix = ix\<lparr>
     icConfirmations := (if cfDepth (icConfirmations ix) = 0 \<and> cfTag (icConfirmations ix) = ''''
       then (icConfirmations ix)\<lparr>cfDepth := 12\<rparr> else icConfirmations ix),
     icPendingTimeout := (if icPendingTimeout ix = 0 then defaultTimeout else icPendingTimeout ix),
     icConcurrency := (if icConcurrency ix = 0 then 8 else icConcurrency ix),
     icNativeSymbol := (if icNativeSymbol ix = '''' then ''ETH'' else icNativeSymbol ix),
     icBatchBlocks := (if icBatchBlocks ix = 0 then 10 else icBatchBlocks ix)\<rparr>"

lemma validateLimits_exact: "validateLimits ix = Inr ix' \<longleftrightarrow> limitsOK ix \<and> ix' = filledLimits ix"
  by (cases ix) (auto simp: validateLimits_def limitsOK_def filledLimits_def Let_def defaultTimeout_def)

definition urlsOK :: "'k configLib \<Rightarrow> indexerConfig \<Rightarrow> goURL \<Rightarrow> bool" where
  "urlsOK L ix u \<longleftrightarrow> clURL L (icRPCURL ix) = Some u \<and> (urScheme u = ''ws'' \<or> urScheme u = ''wss'') \<and>
     (icHTTPRPCURL ix = '''' \<or> (\<exists>hu. clURL L (icHTTPRPCURL ix) = Some hu \<and> urScheme hu \<noteq> ''''))"

definition requestURL :: "'k configLib \<Rightarrow> indexerConfig \<Rightarrow> goURL \<Rightarrow> string" where
  "requestURL L ix u = (if icHTTPRPCURL ix \<noteq> '''' then icHTTPRPCURL ix
     else clURLString L (u\<lparr>urScheme := (if urScheme u = ''ws'' then ''http'' else ''https'')\<rparr>))"

lemma httpURL_exact:
  "httpURL L u ix = Inr ix' \<longleftrightarrow> (icHTTPRPCURL ix = '''' \<or> (\<exists>hu. clURL L (icHTTPRPCURL ix) = Some hu \<and> urScheme hu \<noteq> '''')) \<and>
     ix' = ix\<lparr>icHTTPRPCURL := requestURL L ix u\<rparr>"
  by (cases ix) (auto simp: httpURL_def requestURL_def split: option.splits)

lemma andThen_Inr: "andThen r f = Inr y \<longleftrightarrow> (\<exists>x. r = Inr x \<and> f x = Inr y)"
  by (cases r) (auto simp: andThen_def)

lemma filled_fields [simp]: "icTokens (filledLimits ix) = icTokens ix" "icTokenList (filledLimits ix) = icTokenList ix"
  "filledLimits (ix\<lparr>icHTTPRPCURL := x\<rparr>) = (filledLimits ix)\<lparr>icHTTPRPCURL := x\<rparr>"
  by (simp_all add: filledLimits_def)

lemma validateIndexer_Inr:
  "validateIndexer L ix = Inr ix' \<longleftrightarrow> icChainID ix \<noteq> 0 \<and> limitsOK ix \<and> tokensOK L (icTokens ix) \<and>
     (\<exists>u. urlsOK L ix u \<and> ix' = (filledLimits ix)\<lparr>icHTTPRPCURL := requestURL L ix u,
        icTokenList := icTokenList ix @ parsedTokens L (icTokens ix)\<rparr>)"
proof -
  have fill: "limitsOK (ix\<lparr>icHTTPRPCURL := x\<rparr>) = limitsOK ix"
    "parseTokens L {||} (icTokens (filledLimits (ix\<lparr>icHTTPRPCURL := x\<rparr>))) (filledLimits (ix\<lparr>icHTTPRPCURL := x\<rparr>)) = Inr ix' \<longleftrightarrow>
      tokensOK L (icTokens ix) \<and> ix' = (filledLimits ix)\<lparr>icHTTPRPCURL := x, icTokenList := icTokenList ix @ parsedTokens L (icTokens ix)\<rparr>" for x
    by (simp_all add: limitsOK_def parseTokens_exact)
  have steps: "andThen (httpURL L u ix) (\<lambda>ix1. andThen (validateLimits ix1) (\<lambda>ix2. parseTokens L {||} (icTokens ix2) ix2)) = Inr ix' \<longleftrightarrow>
      (icHTTPRPCURL ix = '''' \<or> (\<exists>hu. clURL L (icHTTPRPCURL ix) = Some hu \<and> urScheme hu \<noteq> '''')) \<and> limitsOK ix \<and>
      tokensOK L (icTokens ix) \<and> ix' = (filledLimits ix)\<lparr>icHTTPRPCURL := requestURL L ix u, icTokenList := icTokenList ix @ parsedTokens L (icTokens ix)\<rparr>" for u
    unfolding andThen_Inr httpURL_exact validateLimits_exact using fill [of "requestURL L ix u"] by blast
  have "validateIndexer L ix = Inr ix' \<longleftrightarrow> icChainID ix \<noteq> 0 \<and>
      (\<exists>u. clURL L (icRPCURL ix) = Some u \<and> (urScheme u = ''ws'' \<or> urScheme u = ''wss'') \<and>
        andThen (httpURL L u ix) (\<lambda>ix1. andThen (validateLimits ix1) (\<lambda>ix2. parseTokens L {||} (icTokens ix2) ix2)) = Inr ix')"
    by (simp add: validateIndexer_def split: option.splits)
  then show ?thesis unfolding steps urlsOK_def by blast
qed

text \<open>
  C35: which indexer settings are accepted, and what becomes of them. Exactly those with a chain id,
  a WebSocket URL, an explicit HTTP URL only if it has a scheme, no negative limit, and tokens with
  valid, different addresses and a symbol. An accepted one keeps every setting that was given; the
  zero ones become the documented defaults, the HTTP URL is the WebSocket URL with its scheme
  changed, and the tokens are parsed in order.
\<close>

theorem validateIndexer_exact:
  "validateIndexer L ix = Inr ix' \<longleftrightarrow>
     icChainID ix \<noteq> 0 \<and>
     0 \<le> icPendingTimeout ix \<and> 0 \<le> icConcurrency ix \<and> 0 \<le> icBatchBlocks ix \<and> 0 \<le> icMaxCatchupAge ix \<and>
     (\<forall>t \<in> set (icTokens ix). clIsHex L (tkAddress t) \<and> tkSymbol t \<noteq> '''') \<and>
     distinct (map (\<lambda>t. HexToAddress (clCodec L) (tkAddress t)) (icTokens ix)) \<and>
     (\<exists>u. clURL L (icRPCURL ix) = Some u \<and> (urScheme u = ''ws'' \<or> urScheme u = ''wss'') \<and>
        (icHTTPRPCURL ix = '''' \<or> (\<exists>hu. clURL L (icHTTPRPCURL ix) = Some hu \<and> urScheme hu \<noteq> '''')) \<and>
        ix' = (filledLimits ix)\<lparr>icHTTPRPCURL := requestURL L ix u,
          icTokenList := icTokenList ix @ parsedTokens L (icTokens ix)\<rparr>)"
  using validateIndexer_Inr [of L ix ix'] unfolding limitsOK_def tokensOK_def urlsOK_def by (auto simp: conj_ac)

section \<open>The watched set\<close>

text \<open>Adding an address under an index that is in the table.\<close>

definition labelAt :: "i32 \<Rightarrow> string \<Rightarrow> watchedSet \<Rightarrow> bool" where
  "labelAt i label s \<longleftrightarrow> 0 \<le> sint i \<and> nat (sint i) < length (wsLabels s) \<and> wsLabels s ! nat (sint i) = label"

lemma add_fresh:
  assumes "watchedInv s" and "labelAt i label s" and "addWatched a i s = (True, s')"
  shows "watchedInv s' \<and> wsLabels s' = wsLabels s \<and> \<not> Contains s a \<and> fmdom' (wsIdx s') = insert a (fmdom' (wsIdx s)) \<and>
    (\<forall>b. Name s' b = (if b = a then Inr label else Name s b))"
proof -
  have n: "fmlookup (wsIdx s) a = None" and s': "s' = s\<lparr>wsIdx := fmupd a i (wsIdx s)\<rparr>"
    using assms(3) by (auto simp: addWatched_def split: option.splits)
  have inv': "watchedInv s'" using assms(1,2) unfolding s' by (auto simp: watchedInv_def labelAt_def)
  have "Name s' b = (if b = a then Inr label else Name s b)" for b
    using assms(1,2) inv' by (auto simp: Name_Inr_iff labelAt_def s' split: option.splits)
  then show ?thesis using inv' n by (auto simp: s' Contains_def fmdom'_fmupd)
qed

lemma intern_label:
  assumes "watchedInv s" and "length (wsLabels s) < 2 ^ 31" and "intern label s = (i, s')"
  shows "watchedInv s' \<and> labelAt i label s' \<and> wsIdx s' = wsIdx s \<and> length (wsLabels s') \<le> Suc (length (wsLabels s)) \<and>
    (\<forall>b. Name s' b = Name s b)"
proof -
  note I = intern_inv [OF assms]
  then obtain x where x: "wsLabels s' = wsLabels s @ x" "length x \<le> 1" by blast
  have "Name s' b = Name s b" for b
    using I x assms(1) by (auto simp: Name_Inr_iff watchedInv_def nth_append split: option.splits)
  then show ?thesis using I x by (auto simp: labelAt_def)
qed

text \<open>
  The names a configuration gives: one pair per address entry, then one per derived address.
  \<open>extends\<close> is what adding them to a set does.
\<close>

definition extends :: "(address \<times> string) list \<Rightarrow> watchedSet \<Rightarrow> watchedSet \<Rightarrow> bool" where
  "extends xs s s' \<longleftrightarrow> watchedInv s' \<and> distinct (map fst xs) \<and> (\<forall>x \<in> set xs. \<not> Contains s (fst x)) \<and>
     fmdom' (wsIdx s') = fmdom' (wsIdx s) \<union> fst ` set xs \<and>
     (\<forall>b. Name s' b = (case map_of xs b of None \<Rightarrow> Name s b | Some n \<Rightarrow> Inr n))"

lemma contains_dom: "Contains s a \<longleftrightarrow> a \<in> fmdom' (wsIdx s)"
  by (auto simp: Contains_def fmlookup_dom'_iff)

lemma extends_refl: "watchedInv s \<Longrightarrow> extends [] s s"
  by (simp add: extends_def)

lemma extends_trans:
  assumes "extends xs s s1" and "extends ys s1 s2"
  shows "extends (xs @ ys) s s2"
proof -
  have d: "fmdom' (wsIdx s1) = fmdom' (wsIdx s) \<union> fst ` set xs" "\<forall>x \<in> set ys. fst x \<notin> fmdom' (wsIdx s1)"
    using assms unfolding extends_def contains_dom by blast+
  then have "\<forall>x \<in> set ys. fst x \<notin> fst ` set xs" unfolding d(1) by blast
  then have dis: "fst ` set xs \<inter> fst ` set ys = {}" by (force intro: rev_image_eqI)
  have "Name s2 b = (case map_of (xs @ ys) b of None \<Rightarrow> Name s b | Some n \<Rightarrow> Inr n)" for b
  proof (cases "map_of ys b")
    case None
    then show ?thesis using assms by (simp add: extends_def map_of_append map_add_def split: option.split)
  next
    case (Some n)
    then have "b \<in> fst ` set ys" by (metis domI dom_map_of_conv_image_fst)
    then have "map_of xs b = None" using dis by (auto simp: map_of_eq_None_iff)
    then show ?thesis using assms Some by (simp add: extends_def map_of_append map_add_def)
  qed
  then show ?thesis using assms dis unfolding extends_def contains_dom by auto
qed

lemma addDerived_extends:
  assumes "addDerived L i li as s = Inr s'" and "watchedInv s" and "labelAt li label s"
  shows "extends (map (\<lambda>a. (a, label)) as) s s' \<and> wsLabels s' = wsLabels s"
  using assms
proof (induction as arbitrary: s)
  case (Cons a as)
  obtain fresh s1 where add: "addWatched a li s = (fresh, s1)" by (cases "addWatched a li s")
  have rest: "fresh" "addDerived L i li as s1 = Inr s'" using Cons.prems(1) add by (auto split: if_splits)
  note A = add_fresh [OF Cons.prems(2,3)] 
  have one: "extends [(a, label)] s s1" and lab: "wsLabels s1 = wsLabels s" using A [of a s1] add rest(1) by (auto simp: extends_def)
  have "labelAt li label s1" using Cons.prems(3) lab by (simp add: labelAt_def)
  then show ?case using Cons.IH [OF rest(2)] one extends_trans [OF one] lab by (auto simp: extends_def [of _ _ s1])
qed (simp add: extends_refl)

definition entryNames :: "'k configLib \<Rightarrow> addressEntry list \<Rightarrow> (address \<times> string) list" where
  "entryNames L es = map (\<lambda>e. (HexToAddress (clCodec L) (aeAddress e), aeName e)) es"

definition walletNames :: "'k configLib \<Rightarrow> wallet list \<Rightarrow> (address \<times> string) list" where
  "walletNames L ws = concat (map (\<lambda>w. case Derive (clKeys L) (clCPUs L) (clDone L w) w of
     Inl e \<Rightarrow> [] | Inr as \<Rightarrow> map (\<lambda>a. (a, walletLabel w)) as) ws)"

lemma addEntries_extends:
  assumes "addEntries L es s = Inr s'" and "watchedInv s" and "length (wsLabels s) + length es \<le> 2 ^ 31"
  shows "extends (entryNames L es) s s' \<and> length (wsLabels s') \<le> length (wsLabels s) + length es \<and>
    (\<forall>e \<in> set es. clIsHex L (aeAddress e))"
  using assms
proof (induction es arbitrary: s)
  case (Cons e es)
  let ?a = "HexToAddress (clCodec L) (aeAddress e)"
  obtain li s1 where i: "intern (aeName e) s = (li, s1)" by (cases "intern (aeName e) s")
  obtain fresh s2 where add: "addWatched ?a li s1 = (fresh, s2)" by (cases "addWatched ?a li s1")
  have rest: "clIsHex L (aeAddress e)" "fresh" "addEntries L es s2 = Inr s'"
    using Cons.prems(1) i add by (auto simp: parseAddress_def split: if_splits)
  have len: "length (wsLabels s) < 2 ^ 31" using Cons.prems(3) by simp
  note I = intern_label [OF Cons.prems(2) len i]
  have A: "watchedInv s2 \<and> wsLabels s2 = wsLabels s1 \<and> \<not> Contains s1 ?a \<and> fmdom' (wsIdx s2) = insert ?a (fmdom' (wsIdx s1)) \<and>
    (\<forall>b. Name s2 b = (if b = ?a then Inr (aeName e) else Name s1 b))"
    using add_fresh [of s1 li "aeName e" ?a s2] I add rest(2) by simp
  have one: "extends [(?a, aeName e)] s s2" using A I by (auto simp: extends_def contains_dom)
  have "extends (entryNames L es) s2 s' \<and> length (wsLabels s') \<le> length (wsLabels s2) + length es \<and>
    (\<forall>e \<in> set es. clIsHex L (aeAddress e))"
    using Cons.IH [OF rest(3)] A I Cons.prems(3) by simp
  then show ?case using extends_trans [OF one, of "entryNames L es" s'] A I rest(1) by (auto simp: entryNames_def)
qed (simp add: extends_refl entryNames_def)

lemma addWallets_extends:
  assumes "addWallets L i ws s = Inr s'" and "watchedInv s" and "length (wsLabels s) + length ws \<le> 2 ^ 31"
  shows "extends (walletNames L ws) s s' \<and> (\<forall>w \<in> set ws. \<not> isl (Derive (clKeys L) (clCPUs L) (clDone L w) w))"
  using assms
proof (induction ws arbitrary: i s)
  case (Cons w ws)
  obtain as where d: "Derive (clKeys L) (clCPUs L) (clDone L w) w = Inr as"
    using Cons.prems(1) by (cases "Derive (clKeys L) (clCPUs L) (clDone L w) w") auto
  obtain li s1 where n: "intern (walletLabel w) s = (li, s1)" by (cases "intern (walletLabel w) s")
  obtain s2 where s2: "addDerived L i li as s1 = Inr s2" "addWallets L (Suc i) ws s2 = Inr s'"
    using Cons.prems(1) d n by (auto simp: andThen_Inr)
  have len: "length (wsLabels s) < 2 ^ 31" using Cons.prems(3) by simp
  note I = intern_label [OF Cons.prems(2) len n]
  have D: "extends (map (\<lambda>a. (a, walletLabel w)) as) s1 s2" "wsLabels s2 = wsLabels s1"
    using addDerived_extends [OF s2(1)] I by blast+
  then have one: "extends (map (\<lambda>a. (a, walletLabel w)) as) s s2"
    using I by (simp add: extends_def contains_dom cong: option.case_cong)
  have "extends (walletNames L ws) s2 s' \<and> (\<forall>w \<in> set ws. \<not> isl (Derive (clKeys L) (clCPUs L) (clDone L w) w))"
    using Cons.IH [OF s2(2)] D I Cons.prems(3) by (simp add: extends_def)
  then show ?case using extends_trans [OF one, of "walletNames L ws" s'] d by (simp add: walletNames_def)
qed (simp add: extends_refl walletNames_def)

section \<open>Accepted configurations\<close>

lemma validateIndexers_Inr:
  assumes "validateIndexers L i names ixs = Inr ixs'"
  shows "list_all2 (\<lambda>ix ix'. icName ix \<noteq> '''' \<and> validateIndexer L ix = Inr ix') ixs ixs' \<and> distinct (map icName ixs) \<and>
    (\<forall>ix \<in> set ixs. icName ix |\<notin>| names)"
  using assms
proof (induction ixs arbitrary: i names ixs')
  case (Cons ix ixs)
  obtain ix' rest where v: "icName ix \<noteq> ''''" "icName ix |\<notin>| names" "validateIndexer L ix = Inr ix'"
    "validateIndexers L (Suc i) (finsert (icName ix) names) ixs = Inr rest" "ixs' = ix' # rest"
    using Cons.prems by (auto simp: andThen_Inr split: if_splits sum.splits)
  show ?case using Cons.IH [OF v(4)] v by auto
qed simp

lemma validate_Inr:
  assumes "validate L c = Inr c'"
  obtains s1 s2 ixs where "addEntries L (cAddresses c) newWatchedSet = Inr s1" "addWallets L 0 (cHDWallets c) s1 = Inr s2"
    "validateIndexers L 0 {||} (cIndexers c) = Inr ixs" "cIndexers c \<noteq> []" "cAddresses c \<noteq> [] \<or> cHDWallets c \<noteq> []"
    "c' = c\<lparr>cDatabase := (if cDatabase c = '''' then ''ethindex.db'' else cDatabase c), cWatched := Some s2, cIndexers := ixs\<rparr>"
  using assms by (auto simp: validate_def Let_def andThen_Inr split: if_splits)

lemma validate_extends:
  assumes "validate L c = Inr c'" and "length (cAddresses c) + length (cHDWallets c) < 2 ^ 31"
  shows "\<exists>s. cWatched c' = Some s \<and> extends (entryNames L (cAddresses c) @ walletNames L (cHDWallets c)) newWatchedSet s"
proof -
  obtain s1 s2 ixs where v: "addEntries L (cAddresses c) newWatchedSet = Inr s1" "addWallets L 0 (cHDWallets c) s1 = Inr s2"
    "c' = c\<lparr>cDatabase := (if cDatabase c = '''' then ''ethindex.db'' else cDatabase c), cWatched := Some s2, cIndexers := ixs\<rparr>"
    using assms(1) by (rule validate_Inr)
  have one: "length (wsLabels newWatchedSet) = 1" by (simp add: newWatchedSet_def)
  have E: "extends (entryNames L (cAddresses c)) newWatchedSet s1" "length (wsLabels s1) \<le> 1 + length (cAddresses c)"
    using addEntries_extends [OF v(1) watchedInv_new] assms(2) one by simp_all
  then have W: "extends (walletNames L (cHDWallets c)) s1 s2"
    using addWallets_extends [OF v(2)] assms(2) by (simp add: extends_def)
  show ?thesis using v(3) extends_trans [OF E(1) W] by simp
qed

text \<open>A configuration: one entry, one wallet of three addresses and one indexer with one token.\<close>

definition demoLib :: "u32 list configLib" where
  "demoLib = \<lparr>clReadFile = (\<lambda>_. Inl NotFound), clEnv = (\<lambda>_. None), clYaml = (\<lambda>_. Inl NotFound),
     clURL = (\<lambda>s. Some \<lparr>urScheme = takeWhile (\<lambda>c. c \<noteq> CHR '':'') s, urRest = dropWhile (\<lambda>c. c \<noteq> CHR '':'') s\<rparr>),
     clURLString = (\<lambda>u. urScheme u @ urRest u), clIsHex = (\<lambda>s. s \<noteq> '''' \<and> list_all isDigit s), clCodec = decimalCodec,
     clKeys = demoKeys, clCPUs = 2, clDone = (\<lambda>_. [1, 0])\<rparr>"

definition bareIndexer :: indexerConfig where
  "bareIndexer = \<lparr>icName = ''main'', icChainID = 1, icRPCURL = ''wss://node'', icHTTPRPCURL = '''',
     icConfirmations = \<lparr>cfDepth = 0, cfTag = ''''\<rparr>, icPendingTimeout = 0, icNativeSymbol = '''', icConcurrency = 0,
     icBatchBlocks = 0, icMaxCatchupAge = 0, icTokens = [\<lparr>tkAddress = ''9'', tkSymbol = ''USDT'', tkDecimals = 6\<rparr>], icTokenList = []\<rparr>"

definition demoFile :: config where
  "demoFile = \<lparr>cDatabase = '''', cMetrics = '''', cAPI = '''', cAddresses = [\<lparr>aeName = ''hot'', aeAddress = ''7''\<rparr>],
     cHDWallets = [demoWallet], cIndexers = [bareIndexer], cWatched = None\<rparr>"

lemma demoLib_simps [simp]:
  "Derive (clKeys demoLib) (clCPUs demoLib) (clDone demoLib demoWallet) demoWallet = Inr [50, 60, 70]"
  "clCodec demoLib = decimalCodec" "clIsHex demoLib s \<longleftrightarrow> s \<noteq> '''' \<and> list_all isDigit s"
  using demo_derive by (simp_all add: demoLib_def)

lemma demo_label [simp]: "walletLabel demoWallet = ''deposits''"
  by (simp add: walletLabel_def demoWallet_def)

lemma demo_walletNames: "walletNames demoLib [demoWallet] = [(50, ''deposits''), (60, ''deposits''), (70, ''deposits'')]"
  by (simp add: walletNames_def)

theorem validateIndexer_exact_witness:
  "\<exists>ix. validateIndexer demoLib bareIndexer = Inr ix \<and> icHTTPRPCURL ix = ''https://node''"
proof -
  let ?u = "\<lparr>urScheme = ''wss'', urRest = ''://node''\<rparr>"
  have u: "clURL demoLib (icRPCURL bareIndexer) = Some ?u" "requestURL demoLib bareIndexer ?u = ''https://node''"
    by (simp_all add: demoLib_def bareIndexer_def requestURL_def)
  have f: "icChainID bareIndexer = 1" "icPendingTimeout bareIndexer = 0" "icConcurrency bareIndexer = 0" "icBatchBlocks bareIndexer = 0"
    "icMaxCatchupAge bareIndexer = 0" "icHTTPRPCURL bareIndexer = ''''"
    "icTokens bareIndexer = [\<lparr>tkAddress = ''9'', tkSymbol = ''USDT'', tkDecimals = 6\<rparr>]"
    by (simp_all add: bareIndexer_def)
  have "validateIndexer demoLib bareIndexer = Inr ((filledLimits bareIndexer)\<lparr>icHTTPRPCURL := requestURL demoLib bareIndexer ?u,
      icTokenList := icTokenList bareIndexer @ parsedTokens demoLib (icTokens bareIndexer)\<rparr>)"
    unfolding validateIndexer_exact using u(1) by (simp add: f isDigit_def)
  then show ?thesis using u(2) by simp
qed

lemma demo_validates: "\<exists>c. validate demoLib demoFile = Inr c"
proof -
  have "urlsOK demoLib bareIndexer \<lparr>urScheme = ''wss'', urRest = ''://node''\<rparr>" "tokensOK demoLib (icTokens bareIndexer)"
    by (simp_all add: urlsOK_def demoLib_def bareIndexer_def tokensOK_def isDigit_def)
  then have "\<exists>ix. validateIndexer demoLib bareIndexer = Inr ix"
    unfolding validateIndexer_Inr by (auto simp: bareIndexer_def limitsOK_def)
  then obtain ix where "validateIndexer demoLib bareIndexer = Inr ix" ..
  then have "validateIndexers demoLib 0 {||} (cIndexers demoFile) = Inr [ix]"
    by (simp add: demoFile_def andThen_def) (simp add: bareIndexer_def)
  moreover have "\<exists>s. addEntries demoLib (cAddresses demoFile) newWatchedSet = Inr s \<and> (\<exists>s'. addWallets demoLib 0 [demoWallet] s = Inr s')"
    by (simp add: demoFile_def parseAddress_def isDigit_def decimalCodec_def natOf_def digitVal_def intern_def newWatchedSet_def
        addWatched_def andThen_def Let_def)
  ultimately show ?thesis by (auto simp: validate_def andThen_def demoFile_def Let_def)
qed

text \<open>
  C33: the watched set of an accepted configuration is exactly what the file names. Its addresses
  are those of the address entries and those the wallets derive, all different; each reads back the
  label of its entry, or the name of its wallet (the extended key when the wallet has none); every
  other address reads as unwatched and unnamed; and no lookup of a label indexes outside the table,
  as long as there are fewer than \<open>2 ^ 31\<close> entries and wallets.
\<close>

theorem validate_watched:
  assumes "validate L c = Inr c'" and "length (cAddresses c) + length (cHDWallets c) < 2 ^ 31"
  shows "\<exists>s. cWatched c' = Some s \<and>
    (let names = map (\<lambda>e. (HexToAddress (clCodec L) (aeAddress e), aeName e)) (cAddresses c) @ walletNames L (cHDWallets c) in
      distinct (map fst names) \<and> watchedCount s = length names \<and>
      (\<forall>a. (Contains s a \<longleftrightarrow> a \<in> fst ` set names) \<and>
        Name s a = Inr (case map_of names a of None \<Rightarrow> '''' | Some n \<Rightarrow> n)))"
proof -
  let ?names = "map (\<lambda>e. (HexToAddress (clCodec L) (aeAddress e), aeName e)) (cAddresses c) @ walletNames L (cHDWallets c)"
  obtain s where s: "cWatched c' = Some s" "extends ?names newWatchedSet s"
    using validate_extends [OF assms] unfolding entryNames_def by blast
  have empty: "fmdom' (wsIdx newWatchedSet) = {}" "Name newWatchedSet a = Inr ''''" for a
    by (simp_all add: newWatchedSet_def Name_def)
  then have dom: "fmdom' (wsIdx s) = fst ` set ?names" and dist: "distinct (map fst ?names)" using s(2) by (simp_all add: extends_def)
  have "watchedCount s = card (set (map fst ?names))" unfolding watchedCount_def goLen_card dom list.set_map ..
  also have "\<dots> = length (map fst ?names)" using dist by (rule distinct_card)
  finally have "watchedCount s = length ?names" by simp
  moreover have "Name s a = Inr (case map_of ?names a of None \<Rightarrow> '''' | Some n \<Rightarrow> n)" for a
    using s(2) empty(2) unfolding extends_def by (auto split: option.splits)
  ultimately show ?thesis using s(1) dom dist by (intro exI [of _ s]) (simp add: Let_def contains_dom)
qed

theorem validate_watched_witness:
  "\<exists>c s. validate demoLib demoFile = Inr c \<and> cWatched c = Some s \<and> watchedCount s = 4 \<and> Name s 60 = Inr ''deposits''"
proof -
  obtain c where c: "validate demoLib demoFile = Inr c" using demo_validates ..
  have "map (\<lambda>e. (HexToAddress (clCodec demoLib) (aeAddress e), aeName e)) (cAddresses demoFile) = [(7, ''hot'')]"
    by (simp add: demoFile_def demoLib_def decimalCodec_def natOf_def digitVal_def)
  moreover have "cHDWallets demoFile = [demoWallet]" by (simp add: demoFile_def)
  ultimately show ?thesis using validate_watched [OF c] c by (simp add: demo_walletNames Let_def) (auto simp: demoFile_def)
qed

lemma accepted_config:
  assumes "validate L c = Inr c'" and "\<forall>ix \<in> set (cIndexers c). icTokenList ix = []"
  shows "cDatabase c' \<noteq> '''' \<and> cIndexers c' \<noteq> [] \<and> distinct (map icName (cIndexers c')) \<and>
    (\<forall>ix \<in> set (cIndexers c'). icName ix \<noteq> '''' \<and> icChainID ix \<noteq> 0 \<and> 0 < icConcurrency ix \<and> 0 < icBatchBlocks ix \<and>
      0 < icPendingTimeout ix \<and> 0 \<le> icMaxCatchupAge ix \<and> icNativeSymbol ix \<noteq> '''' \<and> RingDepth (icConfirmations ix) \<noteq> 0 \<and>
      length (icTokenList ix) = length (icTokens ix) \<and> distinct (map ptAddress (icTokenList ix)) \<and>
      (\<forall>t \<in> set (icTokenList ix). ptSymbol t \<noteq> ''''))"
proof -
  obtain ixs where v: "validateIndexers L 0 {||} (cIndexers c) = Inr ixs" "cIndexers c \<noteq> []" "cIndexers c' = ixs" "cDatabase c' \<noteq> ''''"
    using assms(1) by (rule validate_Inr) auto
  note V = validateIndexers_Inr [OF v(1)]
  have names: "list_all2 (\<lambda>ix ix'. icName ix' = icName ix) (cIndexers c) ixs"
    using V by (auto intro: list_all2_mono simp: validateIndexer_Inr filledLimits_def)
  then have "map icName ixs = map icName (cIndexers c)" by (induction rule: list_all2_induct) simp_all
  then have dist: "distinct (map icName ixs)" "ixs \<noteq> []" using V v(2) by auto
  have "icName ix' \<noteq> '''' \<and> icChainID ix' \<noteq> 0 \<and> 0 < icConcurrency ix' \<and> 0 < icBatchBlocks ix' \<and>
      0 < icPendingTimeout ix' \<and> 0 \<le> icMaxCatchupAge ix' \<and> icNativeSymbol ix' \<noteq> '''' \<and> RingDepth (icConfirmations ix') \<noteq> 0 \<and>
      length (icTokenList ix') = length (icTokens ix') \<and> distinct (map ptAddress (icTokenList ix')) \<and>
      (\<forall>t \<in> set (icTokenList ix'). ptSymbol t \<noteq> '''')" if ix': "ix' \<in> set ixs" for ix'
  proof -
    obtain ix where ix: "ix \<in> set (cIndexers c)" "icName ix \<noteq> ''''" "validateIndexer L ix = Inr ix'"
      using V ix' by (auto simp: list_all2_conv_all_nth in_set_conv_nth) metis
    then obtain u where r: "icChainID ix \<noteq> 0" "limitsOK ix" "tokensOK L (icTokens ix)"
      "ix' = (filledLimits ix)\<lparr>icHTTPRPCURL := requestURL L ix u, icTokenList := parsedTokens L (icTokens ix)\<rparr>"
      using assms(2) by (auto simp: validateIndexer_Inr)
    have "distinct (map ptAddress (parsedTokens L (icTokens ix)))" "\<forall>t \<in> set (parsedTokens L (icTokens ix)). ptSymbol t \<noteq> ''''"
      using r(3) by (simp_all add: tokensOK_def parsedTokens_def comp_def)
    moreover have "RingDepth (icConfirmations (filledLimits ix)) \<noteq> 0" by (auto simp: RingDepth_def filledLimits_def)
    ultimately show ?thesis using r ix(2) by (simp add: filledLimits_def limitsOK_def defaultTimeout_def parsedTokens_def)
  qed
  then show ?thesis using v dist by simp
qed

lemma accepted_indexers:
  assumes "validate L c = Inr c'" and "\<forall>ix \<in> set (cIndexers c). icTokenList ix = []"
  shows "distinct (map icName (cIndexers c'))" "ix \<in> set (cIndexers c') \<Longrightarrow> RingDepth (icConfirmations ix) \<noteq> 0"
  using accepted_config [OF assms] by blast+

text \<open>
  C34: an accepted configuration is well formed. It names a database; it has at least one indexer,
  with different, non-empty names; and every indexer has a chain id, positive concurrency, batch
  size and pending timeout, a native symbol, a finality threshold, so that the header ring has at least one slot, and different token addresses.
\<close>

theorem validate_well_formed:
  assumes "validate L c = Inr c'" and "\<forall>ix \<in> set (cIndexers c). icTokenList ix = []"
  shows "cDatabase c' \<noteq> '''' \<and> cIndexers c' \<noteq> [] \<and> distinct (map icName (cIndexers c')) \<and>
    (\<forall>ix \<in> set (cIndexers c'). icName ix \<noteq> '''' \<and> icChainID ix \<noteq> 0 \<and> 0 < icConcurrency ix \<and> 0 < icBatchBlocks ix \<and>
      0 < icPendingTimeout ix \<and> 0 \<le> icMaxCatchupAge ix \<and> icNativeSymbol ix \<noteq> '''' \<and> RingDepth (icConfirmations ix) \<noteq> 0 \<and>
      length (icTokenList ix) = length (icTokens ix) \<and> distinct (map ptAddress (icTokenList ix)) \<and>
      (\<forall>t \<in> set (icTokenList ix). ptSymbol t \<noteq> ''''))"
  by (rule accepted_config [OF assms])

theorem validate_well_formed_witness:
  "\<exists>c. validate demoLib demoFile = Inr c \<and> cDatabase c \<noteq> '''' \<and> (\<forall>ix \<in> set (cIndexers c). 0 < icConcurrency ix)"
proof -
  obtain c where c: "validate demoLib demoFile = Inr c" using demo_validates ..
  show ?thesis using validate_well_formed [OF c] c by (simp add: demoFile_def bareIndexer_def)
qed

end
