(* ===== verification/Program.thy ===== *)
theory Program
  imports ApiProps ValidateProps
begin

text \<open>
  cmd/ethindex/main.go and the constructor of the indexer: how the parts are wired. The validated
  configuration gives each indexer its settings and its matcher, all share the watched set, the
  database and the sinks, and the API reads the database and the hub.
\<close>

section \<open>Wiring\<close>

definition chainTable :: "indexerConfig list \<Rightarrow> (string, u64) fmap" where
  "chainTable ixs = fold (\<lambda>ix. fmupd (icName ix) (icChainID ix)) ixs fmempty"

text \<open>The sinks: the emitter on standard output when asked for, the hub when the API is served.\<close>

definition programSinks :: "bool \<Rightarrow> config \<Rightarrow> 'w sink \<Rightarrow> 'w sink \<Rightarrow> 'w sink option list" where
  "programSinks printEvents c emitter hub =
     (if printEvents then [Some emitter] else []) @ (if cAPI c \<noteq> '''' then [Some hub] else [])"

text \<open>
  What one indexer runs in; \<open>base\<close> is the rest of its surroundings (the client, the clock, what
  its selects receive, the order of map loops).
\<close>

definition programEnv :: "'d sqlEngine \<Rightarrow> bool \<Rightarrow> bool \<Rightarrow> 'd sink option \<Rightarrow> watchedSet \<Rightarrow> indexerConfig \<Rightarrow> 'd env \<Rightarrow> 'd env" where
  "programEnv D resume jsonLogs emit watched entry base =
     base\<lparr>eCfg := entry, eMatcher := NewMatcher watched (icTokenList entry) (icNativeSymbol entry), eSink := emit,
       eStore := Some (sqliteStore D), eResume := resume, eFullEventLogs := jsonLogs\<rparr>"

definition programServer :: "'d sqlEngine \<Rightarrow> config \<Rightarrow> watchedSet \<Rightarrow> hexcodec \<Rightarrow> (frame \<Rightarrow> ('d, unit) goM) \<Rightarrow>
    ('d \<Rightarrow> hub) \<Rightarrow> (hub \<Rightarrow> 'd \<Rightarrow> 'd) \<Rightarrow> 'd server" where
  "programServer D c watched codec write hubOf setHub =
     apiServer D (chainTable (cIndexers c)) watched codec write hubOf setHub"

section \<open>The database as a store that fails with errors\<close>

definition calmEngine :: "'d sqlEngine \<Rightarrow> bool" where
  "calmEngine D \<longleftrightarrow> calm (sqBegin D) \<and> (\<forall>P. calm (sqDelete D P)) \<and> (\<forall>r. calm (sqInsert D r)) \<and> calm (sqCommit D) \<and>
     (\<forall>P f. calm (sqUpdate D P f))"

lemma calm_now: "calm (nowString D)"
  by (auto simp: calm_def nowString_def split: prod.splits)

lemma calm_rollingBack: "calm m \<Longrightarrow> calm (rollingBack D m)"
  by (auto simp: calm_def rollingBack_def split: prod.splits)

lemma calm_store:
  assumes "calmEngine D"
  shows "calm (soSaveTransaction (sqliteStore D) n tx)" "calm (soUpdateTransactionStatus (sqliteStore D) n h t r)"
  using assms
  by (auto simp: sqliteStore_def SaveTransaction_def UpdateTransactionStatus_def calmEngine_def
      intro!: calm_seq calm_rollingBack calm_now calm_forEach calm_any)

section \<open>Properties\<close>

lemma chainTable_lookup:
  assumes "distinct (map icName ixs)" and "ix \<in> set ixs"
  shows "fmlookup (chainTable ixs) (icName ix) = Some (icChainID ix)"
proof -
  have keep: "fmlookup (fold (\<lambda>ix. fmupd (icName ix) (icChainID ix)) ixs m) k = fmlookup m k"
    if "k \<notin> set (map icName ixs)" for k ixs and m :: "(string, u64) fmap"
    using that by (induction ixs arbitrary: m) auto
  have "fmlookup (fold (\<lambda>ix. fmupd (icName ix) (icChainID ix)) ixs m) (icName ix) = Some (icChainID ix)" for m
    using assms
  proof (induction ixs arbitrary: m)
    case (Cons i ixs)
    then show ?case using keep [of "icName ix" ixs] by (cases "ix = i") auto
  qed simp
  then show ?thesis by (simp add: chainTable_def)
qed

lemma watched_side:
  assumes "validate L c = Inr c'" and "length (cAddresses c) + length (cHDWallets c) < 2 ^ 31" and "cWatched c' = Some s"
  shows "\<exists>name. ForSide s a b dir = Inr name"
proof (rule ForSide_total)
  fix a
  have "watchedInv s" using validate_extends [OF assms(1,2)] assms(3) by (auto simp: extends_def)
  then show "\<exists>name. Name s a = Inr name" by (simp add: Name_Inr_iff)
qed

text \<open>
  C32: the parts fit together. For every indexer of an accepted configuration, what the program
  builds satisfies what the parts rely on: no lookup of a label can panic and the store fails only
  with errors, so no step of the indexer panics when the database driver and the node client keep
  to their contracts; the API knows the chain id of the indexer and reads labels from the set
  the indexer matches with; and the header ring has a slot.
\<close>

theorem program_fits:
  assumes "validate L c = Inr c'" and "length (cAddresses c) + length (cHDWallets c) < 2 ^ 31"
    and "\<forall>ix \<in> set (cIndexers c). icTokenList ix = []" and "cWatched c' = Some s" and "entry \<in> set (cIndexers c')"
    and "calmEngine D" and "chain_client (eClient base)" and "\<forall>w e w'. eWait base w = (Some e, w') \<longrightarrow> \<not> isPanic e"
  shows "safeEnv (programEnv D resume jsonLogs emit s entry base) \<and>
    fmlookup (svChains (programServer D c' s codec write hubOf setHub)) (icName entry) = Some (icChainID entry) \<and>
    svWatched (programServer D c' s codec write hubOf setHub) = mWatched (eMatcher (programEnv D resume jsonLogs emit s entry base)) \<and>
    RingDepth (icConfirmations entry) \<noteq> 0"
proof -
  have "safeEnv (programEnv D resume jsonLogs emit s entry base)"
    using watched_side [OF assms(1,2,4)] assms(7,8) calm_store [OF assms(6)]
    by (simp add: safeEnv_def programEnv_def NewMatcher_def)
  moreover have "distinct (map icName (cIndexers c'))" "RingDepth (icConfirmations entry) \<noteq> 0"
    using assms(1,3,5) accepted_indexers by blast+
  ultimately show ?thesis
    using chainTable_lookup [OF _ assms(5)] by (simp add: programServer_def apiServer_def programEnv_def NewMatcher_def)
qed

definition programBase :: "listDb env" where
  "programBase = \<lparr>eCfg = demoConfig, eCodec = decimalCodec, eMatcher = demoMatcher, eTokenOrder = [], eWatchedOrder = [],
     eClient = rpcClient demoTransport, eSink = None, eStore = None, eResume = False, eFullEventLogs = False,
     eLogLine = (\<lambda>_ _ w. w), eNow = (\<lambda>w. (1000, w)), eWait = (\<lambda>w. (None, w)),
     eTxOrder = (\<lambda>_ t. sorted_list_of_fset (fmdom (trTxs t))), eCtx = (\<lambda>w. (None, w)), eLive = (\<lambda>w. ([], w)),
     eSchedule = (\<lambda>w. ([], w))\<rparr>"

lemma memEngine_calm: "calmEngine (memEngine :: 'x listDb_scheme sqlEngine)"
  by (auto simp: calmEngine_def calm_def memEngine_def split: if_splits)

theorem program_fits_witness:
  "\<exists>c s. validate demoLib demoFile = Inr c \<and> cWatched c = Some s \<and>
     (\<forall>entry \<in> set (cIndexers c). safeEnv (programEnv memEngine True False None s entry programBase) \<and>
        fmlookup (chainTable (cIndexers c)) (icName entry) = Some (icChainID entry))"
proof -
  obtain c where c: "validate demoLib demoFile = Inr c" using demo_validates ..
  have len: "length (cAddresses demoFile) + length (cHDWallets demoFile) < 2 ^ 31"
    and raw: "\<forall>ix \<in> set (cIndexers demoFile). icTokenList ix = []" by (simp_all add: demoFile_def bareIndexer_def)
  obtain s where s: "cWatched c = Some s" using validate_extends [OF c len] by blast
  have base: "chain_client (eClient programBase)" "\<forall>w e w'. eWait programBase w = (Some e, w') \<longrightarrow> \<not> isPanic e"
    by (simp_all add: programBase_def rpc.chain_client_axioms)
  show ?thesis
    using program_fits [OF c len raw s _ memEngine_calm base] c s by (fastforce simp: programServer_def apiServer_def)
qed

end
