(* ===== verification/Mirror.thy ===== *)
theory Mirror
  imports Silent RestartProps Delivered Program
begin

text \<open>
  The database over a run. Each operation of the tracker is followed by \<open>persistEvents\<close> for the
  events it returned; so the table follows the tracker through a whole run of the dispatch loop, up
  to what the tracker does without an event and to the failures the log tells of.
\<close>

section \<open>A table that follows the tracker\<close>

text \<open>
  Of a tracked transaction the table has the legs and the record as they are but for the start of
  the staleness timer, which may be an earlier one while the transaction is pending; of any other
  transaction no row says that it is mined.
\<close>

definition followsTx :: "hexcodec \<Rightarrow> string \<Rightarrow> txRow list \<Rightarrow> tracker \<Rightarrow> hash \<Rightarrow> bool" where
  "followsTx c ix rows t h \<longleftrightarrow>
     (case fmlookup (trTxs t) h of
        Some tx \<Rightarrow> \<exists>now since. (tState tx = stateMined \<longrightarrow> since = tPendingSince tx) \<and>
          filter (ofTx ix (hashHex c h)) rows =
            map (legTxRow ix (exportTracked c (tx\<lparr>tPendingSince := since\<rparr>)) now) (stTransfers (exportTracked c tx))
      | None \<Rightarrow> \<forall>r \<in> set (filter (ofTx ix (hashHex c h)) rows). rwStatus r \<noteq> ''mined'')"

lemma follows_cong:
  "filter (ofTx ix (hashHex c h)) rows' = filter (ofTx ix (hashHex c h)) rows \<Longrightarrow> followsTx c ix rows t h \<Longrightarrow> followsTx c ix rows' t h"
  unfolding followsTx_def by (simp only:)

lemma mirrors_follows:
  assumes "mirrorsTx c ix rows t h"
  shows "followsTx c ix rows t h"
proof (cases "fmlookup (trTxs t) h")
  case None
  then show ?thesis using assms by (auto simp: mirrorsTx_def followsTx_def activeStatuses_def)
next
  case (Some tx)
  then obtain now where "filter (ofTx ix (hashHex c h)) rows = map (legTxRow ix (exportTracked c tx) now) (stTransfers (exportTracked c tx))"
    using assms by (auto simp only: mirrorsTx_def option.case)
  then show ?thesis unfolding followsTx_def Some option.case by (intro exI [of _ now] exI [of _ "tPendingSince tx"]) simp
qed

lemma follows_silent:
  assumes "silentChange (fmlookup (trTxs t) h) (fmlookup (trTxs t') h)" and "followsTx c ix rows t h"
  shows "followsTx c ix rows t' h"
proof (cases "fmlookup (trTxs t') h = fmlookup (trTxs t) h")
  case True
  then show ?thesis using assms(2) by (simp only: followsTx_def)
next
  case False
  then obtain tx where tx: "fmlookup (trTxs t) h = Some tx" "tState tx = statePending"
    and new: "fmlookup (trTxs t') h = None \<or> (\<exists>since. fmlookup (trTxs t') h = Some (tx\<lparr>tPendingSince := since\<rparr>))"
    using assms(1) by (auto simp: silentChange_def)
  obtain now since where rows: "filter (ofTx ix (hashHex c h)) rows =
      map (legTxRow ix (exportTracked c (tx\<lparr>tPendingSince := since\<rparr>)) now) (stTransfers (exportTracked c tx))"
    using assms(2) tx(1) by (auto simp only: followsTx_def option.case)
  from new show ?thesis
  proof (elim disjE exE)
    assume "fmlookup (trTxs t') h = None"
    then show ?thesis using tx(2) unfolding followsTx_def rows by (auto simp: legTxRow_def exportTracked_def)
  next
    fix new assume n: "fmlookup (trTxs t') h = Some (tx\<lparr>tPendingSince := new\<rparr>)"
    show ?thesis unfolding followsTx_def n option.case rows using tx(2)
      by (intro exI [of _ now] exI [of _ since]) (simp add: exportTracked_def)
  qed
qed

section \<open>Endings\<close>

inductive_cases lifecycle_told: "lifecycle p (Some ty) q"

text \<open>An operation that tells of a transaction and forgets it, tells that it ended.\<close>

lemma told_ending:
  assumes "hexOK c" and "trackerInv t" and "trackerOpOK op t" and "fmlookup (trTxs (snd (trackerExec c op t))) h = None"
  shows "typesFor c h (fst (trackerExec c op t)) \<subseteq> endingTypes"
proof -
  let ?r = "trackerExec c op t"
  obtain e p where e: "lifecycle (phaseOf t h) e p" "decays p (phaseOf (snd ?r) h)" "typesFor c h (fst ?r) = set_option e"
    using trackerExec_conforms [OF assms(1-3), of h] unfolding conforms_def by blast
  have "p = Unknown \<or> (\<exists>ty. p = Ended ty)"
    using e(2) assms(4) phase_untracked [of "snd ?r" h] by (auto simp: decays_def)
  then show ?thesis using e(1,3) by (cases e) (auto simp: endingTypes_def elim!: lifecycle_told)
qed

section \<open>Grouping\<close>

lemma groupEvents_groups:
  assumes "groupEvents evs order byHash = (order', byHash')"
    and "distinct order" and "\<And>k. k \<in> set order \<longleftrightarrow> fmlookup byHash k \<noteq> None"
  shows "distinct order' \<and> set order' = set order \<union> evTxHash ` set evs \<and>
    getSlice byHash' k = getSlice byHash k @ filter (\<lambda>e. evTxHash e = k) evs"
  using assms
proof (induction evs arbitrary: order byHash)
  case (Cons ev evs)
  let ?h = "evTxHash ev"
  let ?order = "if fmlookup byHash ?h = None then order @ [?h] else order"
  have "distinct ?order" "\<And>k. k \<in> set ?order \<longleftrightarrow> fmlookup (fmupd ?h (getSlice byHash ?h @ [ev]) byHash) k \<noteq> None"
    using Cons.prems(2,3) by auto
  from Cons.IH [OF Cons.prems(1) [simplified] this] show ?case
    using Cons.prems(3) [of ?h] by (auto simp: getSlice_def)
qed simp

section \<open>Persisting\<close>

text \<open>
  What a reader of the table and of the log can rely on: the rows of one transaction stay, and the
  log only grows.
\<close>

definition rowsKept :: "('w \<Rightarrow> txRow list) \<Rightarrow> ('w \<Rightarrow> (string \<times> logAttr list) list) \<Rightarrow> string \<Rightarrow> string \<Rightarrow> 'w \<Rightarrow> 'w \<Rightarrow> bool" where
  "rowsKept dur logged ix k w w' \<longleftrightarrow>
     filter (ofTx ix k) (dur w') = filter (ofTx ix k) (dur w) \<and> prefix (logged w) (logged w')"

text \<open>
  The same for all rows of an indexer. Nothing but the saving of transactions writes them: the
  client, the clock, the sink and what other goroutines do meanwhile keep them and may add to the log,
  and \<open>eLogLine\<close> adds its line.
\<close>

definition ownKept :: "('w \<Rightarrow> txRow list) \<Rightarrow> ('w \<Rightarrow> (string \<times> logAttr list) list) \<Rightarrow> string \<Rightarrow> 'w \<Rightarrow> 'w \<Rightarrow> bool" where
  "ownKept dur logged ix w w' \<longleftrightarrow> ownRows ix (dur w') = ownRows ix (dur w) \<and> prefix (logged w) (logged w')"

definition soleWriter :: "('w \<Rightarrow> txRow list) \<Rightarrow> ('w \<Rightarrow> (string \<times> logAttr list) list) \<Rightarrow> 'w env \<Rightarrow> bool" where
  "soleWriter dur logged E \<longleftrightarrow>
     quietWorld (ownKept dur logged (icName (eCfg E))) E \<and> quietSink (ownKept dur logged (icName (eCfg E))) E \<and>
     quietSaves (\<lambda>w w'. prefix (logged w) (logged w')) E \<and>
     (\<forall>msg attrs w. logged (eLogLine E msg attrs w) = logged w @ [(msg, attrs)])"

definition complains :: "hexcodec \<Rightarrow> hash \<Rightarrow> string \<times> logAttr list \<Rightarrow> bool" where
  "complains c h line \<longleftrightarrow> (\<exists>e. line = (''persisting transaction'', [StrAttr ''tx'' (hashHex c h), ErrAttr ''err'' e]))"

lemma quietWorld_mono:
  assumes "quietWorld same E" and imp: "\<And>a b. same a b \<Longrightarrow> same' a b"
    and "\<And>w. same' w w" and "\<And>a b c. same' a b \<Longrightarrow> same' b c \<Longrightarrow> same' a c"
  shows "quietWorld same' E"
proof -
  have "quietClient same' (eClient E)" using assms(1) by (simp add: quietWorld_def quietClient_def keeps_def imp)
  then show ?thesis using assms(1) by (simp add: quietWorld_def keeps_def imp assms(3)) (metis assms(4))
qed

lemma own_rows: "ownKept dur logged ix w w' \<Longrightarrow> rowsKept dur logged ix k w w'"
  using own_ofTx [of ix "dur w'" "dur w" k] by (simp add: ownKept_def rowsKept_def)

lemma rows_world:
  assumes "soleWriter dur logged E"
  shows "quiet_world E (rowsKept dur logged (icName (eCfg E)) k)"
proof -
  let ?ix = "icName (eCfg E)"
  have "quietWorld (ownKept dur logged ?ix) E" using assms by (simp add: soleWriter_def)
  then have "quietWorld (rowsKept dur logged ?ix k) E"
    by (rule quietWorld_mono) (simp add: own_rows, auto simp: rowsKept_def intro: prefix_order.trans)
  then show ?thesis by (simp add: quiet_world_def)
qed

text \<open>Saving one transaction keeps the rows of the others, whether it succeeds or fails.\<close>

context quiet_world
begin

lemma steady_persistTx:
  assumes "hexOK (eCodec E)" and "trackerInv (ixTracker s)"
    and "evs \<noteq> []" and "\<forall>ev \<in> set evs. evTxHash ev = hashHex (eCodec E) h"
    and save: "\<And>tx. stHash tx = hashHex (eCodec E) h \<Longrightarrow> keeps same (soSaveTransaction st (icName (eCfg E)) tx)"
    and update: "\<And>ty by. keeps same (soUpdateTransactionStatus st (icName (eCfg E)) (hashHex (eCodec E) h) ty by)"
  shows "steady same s (snd (persistTx E st (hashHex (eCodec E) h) evs s))"
proof (cases "fmlookup (trTxs (ixTracker s)) h")
  case None
  have "stHash (txFromEvents now evs) = hashHex (eCodec E) h" for now
    using assms(3,4) by (cases evs) (simp_all add: txFromEvents_def Let_def)
  then have "frame.within (bindE (world (soUpdateTransactionStatus st (icName (eCfg E)) (hashHex (eCodec E) h) (evType (last evs)) (evReplacedBy (last evs))))
     (\<lambda>updated. if updated then ok () else bindE (clock E) (\<lambda>now. world (soSaveTransaction st (icName (eCfg E)) (txFromEvents now evs)))))"
    by (intro frame.within_rules frame_clock frame_world update save)
  then show ?thesis using None
    by (simp add: persistTx_def frame.within_def bindE_def [of "gets _"] ExportTx_def hexOK_simps [OF assms(1)])
next
  case (Some tx)
  have "stHash (exportTracked (eCodec E) tx) = hashHex (eCodec E) h"
    using trackerInv_tx [OF assms(2) Some] by (simp add: txOK_def export_hash)
  then have "frame.within (world (soSaveTransaction st (icName (eCfg E)) (exportTracked (eCodec E) tx)))"
    by (intro frame_world save)
  then show ?thesis using Some
    by (simp add: persistTx_def frame.within_def bindE_def [of "gets _"] ExportTx_def hexOK_simps [OF assms(1)])
qed

end

lemma save_kept:
  assumes "sql_engine D live dur prog" and "stHash tx \<noteq> k"
  shows "filter (ofTx ix k) (dur (snd (SaveTransaction D ix tx w))) = filter (ofTx ix k) (dur w)"
proof -
  obtain r w' where r: "SaveTransaction D ix tx w = (r, w')" by (cases "SaveTransaction D ix tx w")
  have "(\<lambda>row. \<not> ofTx ix (stHash tx) row \<and> ofTx ix k row) = ofTx ix k" using assms(2) by (auto simp: ofTx_def)
  then show ?thesis
    using sql_engine.save_steps [OF assms(1) r] assms(2) r
    by (cases r) (auto simp: filter_empty_conv ofTx_row)
qed

lemma update_kept:
  assumes "sql_engine D live dur prog" and "h \<noteq> k"
  shows "filter (ofTx ix k) (dur (snd (UpdateTransactionStatus D ix h ty by w))) = filter (ofTx ix k) (dur w)"
proof -
  obtain r w' where r: "UpdateTransactionStatus D ix h ty by w = (r, w')" by (cases "UpdateTransactionStatus D ix h ty by w")
  have "filter (ofTx ix k) (map (\<lambda>row. if ofTx ix h row then setStatus ty by now row else row) rows) = filter (ofTx ix k) rows"
    for now and rows :: "txRow list"
    using assms(2) by (induction rows) (auto simp: ofTx_def setStatus_def)
  then show ?thesis using sql_engine.update_steps [OF assms(1) r] r by (cases r) auto
qed

lemma persistTx_kept:
  assumes "sql_engine D live dur prog" and "eStore E = Some (sqliteStore D)" and "hexOK (eCodec E)" and "soleWriter dur logged E"
    and "trackerInv (ixTracker s)" and "evs \<noteq> []" and "\<forall>ev \<in> set evs. evTxHash ev = hashHex (eCodec E) h"
    and k: "k \<noteq> hashHex (eCodec E) h"
  shows "steady (rowsKept dur logged (icName (eCfg E)) k) s (snd (persistTx E (sqliteStore D) (hashHex (eCodec E) h) evs s))"
proof (rule quiet_world.steady_persistTx [OF rows_world [OF assms(4)] assms(3,5-7)])
  have grow: "prefix (logged w) (logged (snd (SaveTransaction D ix tx w)))"
    "prefix (logged w) (logged (snd (UpdateTransactionStatus D ix h ty by w)))" for ix tx h ty "by" w
    using assms(2,4) by (simp_all add: soleWriter_def quietSaves_def keeps_def sqliteStore_def)
  show "keeps (rowsKept dur logged (icName (eCfg E)) k) (soSaveTransaction (sqliteStore D) (icName (eCfg E)) tx)"
    if "stHash tx = hashHex (eCodec E) h" for tx
    using that k save_kept [OF assms(1)] grow by (simp add: keeps_def rowsKept_def sqliteStore_def)
  show "keeps (rowsKept dur logged (icName (eCfg E)) k) (soUpdateTransactionStatus (sqliteStore D) (icName (eCfg E)) (hashHex (eCodec E) h) ty by)"
    for ty "by"
    using k update_kept [OF assms(1)] grow by (simp add: keeps_def rowsKept_def sqliteStore_def)
qed

section \<open>The loop of persistEvents\<close>

text \<open>What the lemmas below assume of the surroundings.\<close>

definition keepsTable :: "'w sqlEngine \<Rightarrow> ('w \<Rightarrow> txRow list) \<Rightarrow> ('w \<Rightarrow> (string \<times> logAttr list) list) \<Rightarrow> 'w env \<Rightarrow> bool" where
  "keepsTable D dur logged E \<longleftrightarrow> (\<exists>live prog. sql_engine D live dur prog) \<and> eStore E = Some (sqliteStore D) \<and>
     hexOK (eCodec E) \<and> soleWriter dur logged E \<and> safeEnv E"

text \<open>
  A piece of code that tells of a transaction leaves its rows following the tracker or a complaint in
  the log; one that does not leaves them alone.
\<close>

definition persisted :: "('w \<Rightarrow> txRow list) \<Rightarrow> ('w \<Rightarrow> (string \<times> logAttr list) list) \<Rightarrow> 'w env \<Rightarrow> hash \<Rightarrow> bool \<Rightarrow>
    'w indexer \<Rightarrow> 'w indexer \<Rightarrow> bool" where
  "persisted dur logged E h told s s' \<longleftrightarrow> ixTracker s' = ixTracker s \<and>
     (\<exists>new. logged (ixWorld s') = logged (ixWorld s) @ new \<and>
       (if told then followsTx (eCodec E) (icName (eCfg E)) (dur (ixWorld s')) (ixTracker s') h \<or> (\<exists>l \<in> set new. complains (eCodec E) h l)
        else filter (ofTx (icName (eCfg E)) (hashHex (eCodec E) h)) (dur (ixWorld s')) =
          filter (ofTx (icName (eCfg E)) (hashHex (eCodec E) h)) (dur (ixWorld s))))"

lemma persisted_before: "persisted dur logged E h False s0 s1 \<Longrightarrow> persisted dur logged E h told s1 s2 \<Longrightarrow> persisted dur logged E h told s0 s2"
  unfolding persisted_def by (cases told) force+

lemma persisted_after:
  assumes "persisted dur logged E h told s0 s1" and "persisted dur logged E h False s1 s2"
  shows "persisted dur logged E h told s0 s2"
proof -
  have "followsTx (eCodec E) (icName (eCfg E)) (dur (ixWorld s2)) (ixTracker s2) h"
    if "followsTx (eCodec E) (icName (eCfg E)) (dur (ixWorld s1)) (ixTracker s1) h"
    using assms(2) that by (auto simp: persisted_def elim: follows_cong)
  then show ?thesis using assms unfolding persisted_def by (cases told) force+
qed

lemma persisted_steady:
  "steady (rowsKept dur logged (icName (eCfg E)) (hashHex (eCodec E) h)) s s' \<Longrightarrow> persisted dur logged E h False s s'"
  by (auto simp: persisted_def steady_def rowsKept_def prefix_def)

lemma persisted_own: "steady (ownKept dur logged (icName (eCfg E))) s s' \<Longrightarrow> persisted dur logged E h False s s'"
  by (rule persisted_steady) (auto simp: steady_def own_rows)

definition persistOne :: "'w env \<Rightarrow> 'w store \<Rightarrow> event list \<Rightarrow> string \<Rightarrow> ('w, unit) ixM" where
  "persistOne E st evs h = bindE (attempt (persistTx E st h evs)) (\<lambda>res.
     case res of
       Inl e \<Rightarrow> logError E ''persisting transaction'' [StrAttr ''tx'' h, ErrAttr ''err'' e]
     | Inr _ \<Rightarrow> ok ())"

lemma persistEvents_loop:
  "eStore E = Some st \<Longrightarrow> groupEvents evs [] fmempty = (order, byHash) \<Longrightarrow>
    persistEvents E evs = forEach (\<lambda>h. persistOne E st (getSlice byHash h) h) order"
  by (simp only: persistEvents_def persistOne_def option.case prod.case)

lemma persistOne_cases:
  assumes "safeEnv E" and "eStore E = Some st"
  obtains (saved) s' where "persistTx E st h evs s = (Inr (), s')" and "persistOne E st evs h s = (Inr (), s')"
    | (failed) e s1 where "persistTx E st h evs s = (Inl e, s1)" and
        "persistOne E st evs h s = (Inr (), s1\<lparr>ixWorld := eLogLine E ''persisting transaction'' [StrAttr ''tx'' h, ErrAttr ''err'' e] (ixWorld s1)\<rparr>)"
proof -
  obtain r s1 where r: "persistTx E st h evs s = (r, s1)" by (cases "persistTx E st h evs s")
  have "\<not> isPanic e" if "r = Inl e" for e using calm_persistTx [OF assms, of h evs] r that by (auto simp: calm_def)
  then show ?thesis using r that
    by (cases r) (auto simp: persistOne_def bindE_def attempt_def logError_def world_def)
qed

lemma log_world:
  assumes "soleWriter dur logged E"
  shows "quiet_world E (\<lambda>w w'. prefix (logged w) (logged w'))"
proof -
  have "quietWorld (ownKept dur logged (icName (eCfg E))) E" using assms by (simp add: soleWriter_def)
  then have "quietWorld (\<lambda>w w'. prefix (logged w) (logged w')) E"
    by (rule quietWorld_mono) (auto simp: ownKept_def intro: prefix_order.trans)
  then show ?thesis by (simp add: quiet_world_def)
qed

lemma log_grows:
  assumes "eStore E = Some (sqliteStore D)" and "hexOK (eCodec E)" and "soleWriter dur logged E" and "trackerInv (ixTracker s)"
    and "evs \<noteq> []" and "\<forall>ev \<in> set evs. evTxHash ev = hashHex (eCodec E) h"
  shows "steady (\<lambda>w w'. prefix (logged w) (logged w')) s (snd (persistTx E (sqliteStore D) (hashHex (eCodec E) h) evs s))"
  by (rule quiet_world.steady_persistTx [OF log_world [OF assms(3)] assms(2,4-6)])
    (use assms(1,3) in \<open>simp_all add: soleWriter_def quietSaves_def\<close>)

text \<open>One round of the loop.\<close>

lemma logged_line: "soleWriter dur logged E \<Longrightarrow> logged (eLogLine E msg attrs w) = logged w @ [(msg, attrs)]"
  by (simp add: soleWriter_def)

lemma persist_told:
  assumes T: "keepsTable D dur logged E" and inv: "trackerInv (ixTracker s)"
    and evs: "evs \<noteq> []" "\<forall>ev \<in> set evs. evTxHash ev = hashHex (eCodec E) h"
    and ended: "fmlookup (trTxs (ixTracker s)) h = None \<Longrightarrow> \<forall>ev \<in> set evs. evType ev \<in> endingTypes"
  shows "\<exists>s'. persistOne E (sqliteStore D) evs (hashHex (eCodec E) h) s = (Inr (), s') \<and> persisted dur logged E h True s s'"
proof -
  obtain live prog where D: "sql_engine D live dur prog" and st: "eStore E = Some (sqliteStore D)" and hex: "hexOK (eCodec E)"
    and W: "soleWriter dur logged E" and safe: "safeEnv E" using T unfolding keepsTable_def by blast
  note grows = log_grows [OF st hex W inv evs]
  from safe st show ?thesis
  proof (cases rule: persistOne_cases [where h = "hashHex (eCodec E) h" and evs = evs and s = s])
    case (saved s')
    have clock: "ownRows (icName (eCfg E)) (dur (snd (eNow E w))) = ownRows (icName (eCfg E)) (dur w)" for w
      using W by (simp add: soleWriter_def quietWorld_def ownKept_def)
    have "followsTx (eCodec E) (icName (eCfg E)) (dur (ixWorld s')) (ixTracker s') h" "ixTracker s' = ixTracker s"
      using persistTx_mirrors [OF D st refl hex inv clock evs ended saved(1)] mirrors_follows by simp_all
    then show ?thesis using saved grows by (auto simp: persisted_def steady_def prefix_def)
  next
    case (failed e s1)
    have "complains (eCodec E) h (''persisting transaction'', [StrAttr ''tx'' (hashHex (eCodec E) h), ErrAttr ''err'' e])"
      by (simp add: complains_def)
    then show ?thesis using failed grows by (auto simp: persisted_def steady_def prefix_def logged_line [OF W])
  qed
qed

lemma persist_other:
  assumes T: "keepsTable D dur logged E" and inv: "trackerInv (ixTracker s)" and ne: "h' \<noteq> h"
    and evs: "evs \<noteq> []" "\<forall>ev \<in> set evs. evTxHash ev = hashHex (eCodec E) h'"
  shows "\<exists>s'. persistOne E (sqliteStore D) evs (hashHex (eCodec E) h') s = (Inr (), s') \<and> persisted dur logged E h False s s'"
proof -
  obtain live prog where D: "sql_engine D live dur prog" and st: "eStore E = Some (sqliteStore D)" and hex: "hexOK (eCodec E)"
    and W: "soleWriter dur logged E" and safe: "safeEnv E" using T unfolding keepsTable_def by blast
  have "hashHex (eCodec E) h \<noteq> hashHex (eCodec E) h'" using ne hexOK_inj(1) [OF hex] by auto
  note kept = persistTx_kept [OF D st hex W inv evs this]
  have line: "rowsKept dur logged (icName (eCfg E)) k w (eLogLine E msg attrs w)" for k msg attrs w
    by (rule quiet_world.quiet_steps(6) [OF rows_world [OF W]])
  from safe st show ?thesis
  proof (cases rule: persistOne_cases [where h = "hashHex (eCodec E) h'" and evs = evs and s = s])
    case (saved s')
    then show ?thesis using kept persisted_steady by fastforce
  next
    case (failed e s1)
    let ?s' = "s1\<lparr>ixWorld := eLogLine E ''persisting transaction'' [StrAttr ''tx'' (hashHex (eCodec E) h'), ErrAttr ''err'' e] (ixWorld s1)\<rparr>"
    have "persisted dur logged E h False s s1" using kept failed(1) persisted_steady by fastforce
    moreover have "persisted dur logged E h False s1 ?s'" by (rule persisted_steady) (simp add: steady_def line)
    ultimately show ?thesis using failed(2) persisted_before by blast
  qed
qed

text \<open>The groups of a list of events, as the loop sees them.\<close>

definition groupsOK :: "hexcodec \<Rightarrow> tracker \<Rightarrow> (string \<Rightarrow> event list) \<Rightarrow> string list \<Rightarrow> bool" where
  "groupsOK c t grp order \<longleftrightarrow> distinct order \<and> (\<forall>k \<in> set order. \<exists>h. k = hashHex c h \<and> grp k \<noteq> [] \<and>
     (\<forall>ev \<in> set (grp k). evTxHash ev = k) \<and>
     (fmlookup (trTxs t) h = None \<longrightarrow> (\<forall>ev \<in> set (grp k). evType ev \<in> endingTypes)))"

lemma persist_loop:
  assumes T: "keepsTable D dur logged E" and "trackerInv (ixTracker s)" and "groupsOK (eCodec E) (ixTracker s) grp order"
  shows "\<exists>s'. forEach (\<lambda>k. persistOne E (sqliteStore D) (grp k) k) order s = (Inr (), s') \<and>
    persisted dur logged E h (hashHex (eCodec E) h \<in> set order) s s'"
  using assms(2,3)
proof (induction order arbitrary: s)
  case Nil
  then show ?case by (simp add: persisted_def)
next
  case (Cons k order)
  have hex: "hexOK (eCodec E)" using T by (simp add: keepsTable_def)
  obtain h' where k: "k = hashHex (eCodec E) h'" "grp k \<noteq> []" "\<forall>ev \<in> set (grp k). evTxHash ev = k"
    "fmlookup (trTxs (ixTracker s)) h' = None \<Longrightarrow> \<forall>ev \<in> set (grp k). evType ev \<in> endingTypes"
    using Cons.prems(2) unfolding groupsOK_def by force
  have mem: "hashHex (eCodec E) h = k \<longleftrightarrow> h = h'" using hexOK_inj [OF hex] k(1) by auto
  obtain s1 where s1: "persistOne E (sqliteStore D) (grp k) k s = (Inr (), s1)" "persisted dur logged E h (h = h') s s1"
  proof (cases "h = h'")
    case True
    then show ?thesis using persist_told [OF T Cons.prems(1) k(2) _ k(4)] k(1,3) that by auto
  next
    case False
    then show ?thesis using persist_other [OF T Cons.prems(1) _ k(2), of h' h] k(1,3) that by auto
  qed
  have t: "ixTracker s1 = ixTracker s" using s1(2) by (simp add: persisted_def)
  have "groupsOK (eCodec E) (ixTracker s1) grp order" using Cons.prems(2) t by (simp add: groupsOK_def)
  then obtain s2 where s2: "forEach (\<lambda>k. persistOne E (sqliteStore D) (grp k) k) order s1 = (Inr (), s2)"
    "persisted dur logged E h (hashHex (eCodec E) h \<in> set order) s1 s2"
    using Cons.IH [of s1] Cons.prems(1) t by auto
  have "persisted dur logged E h (hashHex (eCodec E) h \<in> set (k # order)) s s2"
  proof (cases "h = h'")
    case True
    then have "hashHex (eCodec E) h \<notin> set order" using Cons.prems(2) mem by (auto simp: groupsOK_def)
    then show ?thesis using persisted_after [OF s1(2)] s2(2) True mem by simp
  next
    case False
    then show ?thesis using persisted_before s1(2) s2(2) mem by auto
  qed
  then show ?case using s1(1) s2(1) by (simp add: bindE_def)
qed

lemma exec_groups:
  assumes hex: "hexOK c" and "trackerInv t" and "trackerOpOK op t"
    and g: "groupEvents (fst (trackerExec c op t)) [] fmempty = (order, byHash)"
  shows "groupsOK c (snd (trackerExec c op t)) (getSlice byHash) order"
    and "hashHex c h \<in> set order \<longleftrightarrow> typesFor c h (fst (trackerExec c op t)) \<noteq> {}"
proof -
  let ?evs = "fst (trackerExec c op t)"
  have o: "distinct order" "set order = evTxHash ` set ?evs" and grp: "getSlice byHash k = filter (\<lambda>e. evTxHash e = k) ?evs" for k
    using groupEvents_groups [OF g] by (simp_all add: getSlice_def)
  have "\<exists>h. k = hashHex c h \<and> getSlice byHash k \<noteq> [] \<and> (\<forall>ev \<in> set (getSlice byHash k). evTxHash ev = k) \<and>
     (fmlookup (trTxs (snd (trackerExec c op t))) h = None \<longrightarrow> (\<forall>ev \<in> set (getSlice byHash k). evType ev \<in> endingTypes))"
    if k: "k \<in> set order" for k
  proof -
    obtain ev where ev: "ev \<in> set ?evs" "evTxHash ev = k" using k o(2) by auto
    then obtain h where h: "k = hashHex c h" using named_exec [of c op t] unfolding named_def by metis
    have "evType e \<in> endingTypes" if "fmlookup (trTxs (snd (trackerExec c op t))) h = None" "e \<in> set ?evs" "evTxHash e = k" for e
      using told_ending [OF assms(1-3) that(1)] that(2,3) h by (auto simp: typesFor_def)
    then show ?thesis using ev h unfolding grp by (auto simp: filter_empty_conv)
  qed
  then show "groupsOK c (snd (trackerExec c op t)) (getSlice byHash) order" using o(1) unfolding groupsOK_def by blast
  show "hashHex c h \<in> set order \<longleftrightarrow> typesFor c h ?evs \<noteq> {}" unfolding o(2) typesFor_def by (auto simp: image_iff) (metis)
qed

section \<open>Emitting\<close>

lemma toSink_returns: "\<exists>s'. toSink E ev s = (Inr (), s')"
proof (cases "eSink E")
  case (Some sink)
  then show ?thesis
    by (cases "fst (sink ev (ixWorld s))") (simp_all add: toSink_def bindE_def world_def logError_def split_def)
qed (simp add: toSink_def)

context quiet_world
begin

lemma steady_emits: "quietSink same E \<Longrightarrow> forEach (emitOne E) evs s = (r, s') \<Longrightarrow> steady same s s'"
  using frame.within_run frame_emits by blast

end

lemma emits_return:
  assumes "labelled E"
  shows "\<exists>s'. forEach (emitOne E) evs s = (Inr (), s')"
proof (induction evs arbitrary: s)
  case (Cons ev evs)
  obtain name where name: "ForSide (mWatched (eMatcher E)) (HexToAddress (eCodec E) (evFrom ev))
      (HexToAddress (eCodec E) (evTo ev)) (evDirection ev) = Inr name" using assms unfolding labelled_def by blast
  obtain now s1 where s1: "clock E s = (Inr now, s1)" by (cases "eNow E (ixWorld s)") (simp add: clock_def)
  obtain s2 where s2: "logEvent E (stamp E now name ev) s1 = (Inr (), s2)" using logEvent_returns by blast
  obtain s3 where "toSink E (stamp E now name ev) s2 = (Inr (), s3)" using toSink_returns by blast
  then have "emitOne E ev s = (Inr (), s3)" by (simp add: emitOne_def bindE_def s1 name s2)
  then show ?case using Cons.IH [of s3] by (simp add: bindE_def)
qed simp

lemma safe_labelled: "safeEnv E \<Longrightarrow> labelled E"
  by (simp add: safeEnv_def labelled_def)

lemma emit_persists:
  assumes T: "keepsTable D dur logged E" and inv: "trackerInv t" and op: "trackerOpOK op t"
    and s: "ixTracker s = snd (trackerExec (eCodec E) op t)"
  shows "persisted dur logged E h (typesFor (eCodec E) h (fst (trackerExec (eCodec E) op t)) \<noteq> {}) s
    (snd (emitAll E (fst (trackerExec (eCodec E) op t)) s))"
proof -
  let ?evs = "fst (trackerExec (eCodec E) op t)"
  have st: "eStore E = Some (sqliteStore D)" and hex: "hexOK (eCodec E)" and W: "soleWriter dur logged E" and safe: "safeEnv E"
    using T unfolding keepsTable_def by blast+
  obtain s1 where s1: "forEach (emitOne E) ?evs s = (Inr (), s1)" using emits_return [OF safe_labelled [OF safe]] by blast
  have "steady (ownKept dur logged (icName (eCfg E))) s s1"
    using W by (intro quiet_world.steady_emits [OF _ _ s1]) (simp_all add: soleWriter_def quiet_world_def)
  then have before: "persisted dur logged E h False s s1" by (rule persisted_own)
  obtain order byHash where g: "groupEvents ?evs [] fmempty = (order, byHash)" by (cases "groupEvents ?evs [] fmempty")
  have t: "ixTracker s1 = snd (trackerExec (eCodec E) op t)" using before s by (simp add: persisted_def)
  obtain s2 where s2: "forEach (\<lambda>k. persistOne E (sqliteStore D) (getSlice byHash k) k) order s1 = (Inr (), s2)"
    "persisted dur logged E h (hashHex (eCodec E) h \<in> set order) s1 s2"
    using persist_loop [OF T, of s1 "getSlice byHash" order h] exec_groups(1) [OF hex inv op g] trackerExec_inv [OF inv op] t by auto
  have "emitAll E ?evs s = (Inr (), s2)" using s1 s2(1) persistEvents_loop [OF st g] by (simp add: emitAll_def bindE_def)
  then show ?thesis using persisted_before [OF before s2(2)] exec_groups(2) [OF hex inv op g, of h] by simp
qed

section \<open>Runs\<close>

text \<open>What a piece of code does to a table that follows the tracker.\<close>

definition keepsUp :: "('w \<Rightarrow> txRow list) \<Rightarrow> ('w \<Rightarrow> (string \<times> logAttr list) list) \<Rightarrow> 'w env \<Rightarrow> hash \<Rightarrow> 'w indexer \<Rightarrow> 'w indexer \<Rightarrow> bool" where
  "keepsUp dur logged E h s s' \<longleftrightarrow> (trackerInv (ixTracker s) \<longrightarrow> trackerInv (ixTracker s') \<and>
     (\<exists>new. logged (ixWorld s') = logged (ixWorld s) @ new \<and>
       (followsTx (eCodec E) (icName (eCfg E)) (dur (ixWorld s)) (ixTracker s) h \<longrightarrow>
        followsTx (eCodec E) (icName (eCfg E)) (dur (ixWorld s')) (ixTracker s') h \<or> (\<exists>l \<in> set new. complains (eCodec E) h l))))"

lemma keepsUp_trans:
  assumes "keepsUp dur logged E h s0 s1" and "keepsUp dur logged E h s1 s2"
  shows "keepsUp dur logged E h s0 s2"
  unfolding keepsUp_def
proof
  assume inv: "trackerInv (ixTracker s0)"
  obtain n1 where 1: "trackerInv (ixTracker s1)" "logged (ixWorld s1) = logged (ixWorld s0) @ n1"
    "followsTx (eCodec E) (icName (eCfg E)) (dur (ixWorld s0)) (ixTracker s0) h \<longrightarrow>
       followsTx (eCodec E) (icName (eCfg E)) (dur (ixWorld s1)) (ixTracker s1) h \<or> (\<exists>l \<in> set n1. complains (eCodec E) h l)"
    using assms(1) inv unfolding keepsUp_def by blast
  obtain n2 where 2: "trackerInv (ixTracker s2)" "logged (ixWorld s2) = logged (ixWorld s1) @ n2"
    "followsTx (eCodec E) (icName (eCfg E)) (dur (ixWorld s1)) (ixTracker s1) h \<longrightarrow>
       followsTx (eCodec E) (icName (eCfg E)) (dur (ixWorld s2)) (ixTracker s2) h \<or> (\<exists>l \<in> set n2. complains (eCodec E) h l)"
    using assms(2) 1(1) unfolding keepsUp_def by blast
  show "trackerInv (ixTracker s2) \<and> (\<exists>new. logged (ixWorld s2) = logged (ixWorld s0) @ new \<and>
      (followsTx (eCodec E) (icName (eCfg E)) (dur (ixWorld s0)) (ixTracker s0) h \<longrightarrow>
       followsTx (eCodec E) (icName (eCfg E)) (dur (ixWorld s2)) (ixTracker s2) h \<or> (\<exists>l \<in> set new. complains (eCodec E) h l)))"
    using 1 2 by (intro conjI exI [of _ "n1 @ n2"]) auto
qed

lemma keepsUp_silent:
  assumes "persisted dur logged E h False s1 s'" and "trackerInv (ixTracker s) \<Longrightarrow> trackerInv (ixTracker s')"
    and "ixWorld s1 = ixWorld s"
    and "trackerInv (ixTracker s) \<Longrightarrow> silentChange (fmlookup (trTxs (ixTracker s)) h) (fmlookup (trTxs (ixTracker s')) h)"
  shows "keepsUp dur logged E h s s'"
  unfolding keepsUp_def
proof
  assume inv: "trackerInv (ixTracker s)"
  obtain new where new: "logged (ixWorld s') = logged (ixWorld s) @ new"
    and rows: "filter (ofTx (icName (eCfg E)) (hashHex (eCodec E) h)) (dur (ixWorld s')) =
      filter (ofTx (icName (eCfg E)) (hashHex (eCodec E) h)) (dur (ixWorld s))"
    using assms(1,3) unfolding persisted_def by auto
  have "followsTx (eCodec E) (icName (eCfg E)) (dur (ixWorld s')) (ixTracker s') h"
    if "followsTx (eCodec E) (icName (eCfg E)) (dur (ixWorld s)) (ixTracker s) h"
    using follows_silent [OF assms(4) [OF inv] follows_cong [OF rows that]] by simp
  then show "trackerInv (ixTracker s') \<and> (\<exists>new. logged (ixWorld s') = logged (ixWorld s) @ new \<and>
     (followsTx (eCodec E) (icName (eCfg E)) (dur (ixWorld s)) (ixTracker s) h \<longrightarrow>
      followsTx (eCodec E) (icName (eCfg E)) (dur (ixWorld s')) (ixTracker s') h \<or> (\<exists>l \<in> set new. complains (eCodec E) h l)))"
    using assms(2) [OF inv] new by blast
qed

lemma persisted_refl: "persisted dur logged E h False s s"
  by (simp add: persisted_def)

lemma keepsUp_same:
  "persisted dur logged E h False s s' \<Longrightarrow> keepsUp dur logged E h s s'"
  by (rule keepsUp_silent) (auto simp: persisted_def silent_refl)

lemma keepsUp_relation:
  fixes E :: "'w env"
  assumes T: "keepsTable D dur logged E"
  shows "indexer_relation E (ownKept dur logged (icName (eCfg E))) (keepsUp dur logged E h)"
proof -
  let ?exec = "\<lambda>op s. trackerExec (eCodec E) op (ixTracker s)"
  have hex: "hexOK (eCodec E)" and W: "soleWriter dur logged E" using T by (simp_all add: keepsTable_def)
  have quiet: "silentChange (fmlookup (trTxs (ixTracker s)) h) (fmlookup (trTxs (snd (?exec op s))) h)"
    if "trackerInv (ixTracker s)" "trackerOpOK op (ixTracker s)" "typesFor (eCodec E) h (fst (?exec op s)) = {}" for op and s :: "'w indexer"
    using trackerExec_quietly [OF hex that(1,2), of h] that(3) by (simp add: quietly_def)
  show ?thesis
  proof unfold_locales
    show "quietWorld (ownKept dur logged (icName (eCfg E))) E" using W by (simp add: soleWriter_def)
    show "keepsUp dur logged E h s s" for s :: "'w indexer" by (rule keepsUp_same [OF persisted_refl])
    show "keepsUp dur logged E h s s'" if "steady (ownKept dur logged (icName (eCfg E))) s s'" for s s' :: "'w indexer"
      by (rule keepsUp_same [OF persisted_own [OF that]])
    show "keepsUp dur logged E h s (s\<lparr>ixChain := ch\<rparr>)" for ch and s :: "'w indexer"
      by (rule keepsUp_same) (simp add: persisted_def)
    show "keepsUp dur logged E h s (s\<lparr>ixTracker := snd (?exec op s)\<rparr>)"
      if "trackerOpOK op (ixTracker s)" and "fst (?exec op s) = []" for op and s :: "'w indexer"
      using that quiet trackerExec_inv by (intro keepsUp_silent [OF persisted_refl]) (simp_all add: phase_simps)
    show "keepsUp dur logged E h s (snd (bindE (track (trackerExec (eCodec E) op)) (emitAll E) s))"
      if op: "trackerOpOK op (ixTracker s)" for op and s :: "'w indexer"
    proof (cases "trackerInv (ixTracker s)")
      case inv: True
      let ?s = "s\<lparr>ixTracker := snd (?exec op s)\<rparr>" and ?s' = "snd (bindE (track (trackerExec (eCodec E) op)) (emitAll E) s)"
      have p: "persisted dur logged E h (typesFor (eCodec E) h (fst (?exec op s)) \<noteq> {}) ?s ?s'"
        using emit_persists [OF T inv op, of ?s h] by (simp add: bindE_def track_def split_def)
      then have t: "ixTracker ?s' = snd (?exec op s)" by (simp add: persisted_def)
      show ?thesis
      proof (cases "typesFor (eCodec E) h (fst (?exec op s)) = {}")
        case True
        then show ?thesis using p quiet [OF inv op True] trackerExec_inv [OF inv op] t
          by (intro keepsUp_silent [of _ _ _ _ ?s]) simp_all
      next
        case False
        then show ?thesis using p trackerExec_inv [OF inv op] t by (auto simp: keepsUp_def persisted_def)
      qed
    qed (simp add: keepsUp_def)
    show "keepsUp dur logged E h s s'" if "trackerInv (ixTracker s) \<Longrightarrow> keepsUp dur logged E h s s'" for s s' :: "'w indexer"
      using that unfolding keepsUp_def by blast
  qed (rule keepsUp_trans)
qed

lemma run_keepsUp:
  assumes "ordersOK E" and "receiptsOK E" and "liveOK E" and "\<forall>sn \<in> set sns. scriptOK sn" and "keepsTable D dur logged E"
  shows "keepsUp dur logged E h s (snd (runLoop E sns backoff s))"
proof -
  note rel = keepsUp_relation [OF assms(5), of h]
  show ?thesis using indexer_relation.within_runLoop [OF rel assms(1-4)] indexer_relation.axioms(2) [OF rel]
    by (simp add: state_relation.within_def)
qed

lemma run_follows:
  assumes "ordersOK E" and "receiptsOK E" and "liveOK E" and "\<forall>sn \<in> set sns. scriptOK sn" and "keepsTable D dur logged E"
    and "trackerInv (ixTracker s)" and "\<forall>h. followsTx (eCodec E) (icName (eCfg E)) (dur (ixWorld s)) (ixTracker s) h"
  obtains new where "logged (ixWorld (snd (runLoop E sns backoff s))) = logged (ixWorld s) @ new"
    and "\<And>h. followsTx (eCodec E) (icName (eCfg E)) (dur (ixWorld (snd (runLoop E sns backoff s)))) (ixTracker (snd (runLoop E sns backoff s))) h \<or>
      (\<exists>l \<in> set new. complains (eCodec E) h l)"
proof -
  let ?s' = "snd (runLoop E sns backoff s)"
  have up: "keepsUp dur logged E h s ?s'" for h by (rule run_keepsUp [OF assms(1-5)])
  obtain new where new: "logged (ixWorld ?s') = logged (ixWorld s) @ new"
    using up assms(6) unfolding keepsUp_def by blast
  have "followsTx (eCodec E) (icName (eCfg E)) (dur (ixWorld ?s')) (ixTracker ?s') h \<or> (\<exists>l \<in> set new. complains (eCodec E) h l)" for h
    using up [of h] assms(6,7) new unfolding keepsUp_def by auto
  then show thesis using that new by blast
qed

section \<open>Property\<close>

text \<open>
  C4: the database follows the tracker. Start the dispatch loop with a table that follows the
  tracker, as an empty one follows a new tracker, and run it over any sessions, with live matches
  that come one transaction at a time, a node that answers with anything but whose receipts carry only
  logs of the transaction asked for, a sink that may fail, and a database any statement of which may fail. Then for every
  transaction, either the table follows the tracker at the end (of a tracked transaction it has
  exactly the legs, the status and the block, the sender and nonce and the first-seen data; of any
  other no row that says it is mined), or the log got a line that persisting this very transaction failed.
\<close>

theorem database_follows_tracker:
  assumes "ordersOK E" and "receiptsOK E" and "liveOK E" and "\<forall>sn \<in> set sns. scriptOK sn"
    and "sql_engine D live dur prog" and "eStore E = Some (sqliteStore D)" and "soleWriter dur logged E"
    and "safeEnv E" and "hexOK (eCodec E)" and "trackerInv (ixTracker s)"
    and "\<forall>h. followsTx (eCodec E) (icName (eCfg E)) (dur (ixWorld s)) (ixTracker s) h"
  shows "let s' = snd (runLoop E sns backoff s) in
    \<exists>new. logged (ixWorld s') = logged (ixWorld s) @ new \<and>
      (\<forall>h. followsTx (eCodec E) (icName (eCfg E)) (dur (ixWorld s')) (ixTracker s') h \<or> (\<exists>l \<in> set new. complains (eCodec E) h l))"
proof -
  have "keepsTable D dur logged E" using assms(5-9) unfolding keepsTable_def by blast
  from run_follows [OF assms(1-4) this assms(10,11)] show ?thesis unfolding Let_def by metis
qed

text \<open>A world with a table and a log, and an indexer in it.\<close>

record loggedDb = listDb +
  dbLog :: "(string \<times> logAttr list) list"

definition tableEnv :: "loggedDb env" where
  "tableEnv = \<lparr>eCfg = demoConfig, eCodec = decimalCodec, eMatcher = demoMatcher, eTokenOrder = [], eWatchedOrder = [],
     eClient = rpcClient demoTransport, eSink = None, eStore = Some (sqliteStore memEngine), eResume = False,
     eFullEventLogs = False, eLogLine = (\<lambda>msg attrs w. w\<lparr>dbLog := dbLog w @ [(msg, attrs)]\<rparr>), eNow = (\<lambda>w. (1000, w)),
     eWait = (\<lambda>w. (None, w)), eTxOrder = (\<lambda>_ t. sorted_list_of_fset (fmdom (trTxs t))), eCtx = (\<lambda>w. (None, w)),
     eLive = (\<lambda>w. ([], w)), eSchedule = (\<lambda>w. ([1, 0], w))\<rparr>"

definition emptyDb :: loggedDb where
  "emptyDb = \<lparr>dbRows = [], dbWork = [], dbProg = (\<lambda>_. None), dbClock = 0, dbLog = []\<rparr>"

text \<open>What the statements of a database leave alone, the store leaves alone.\<close>

context state_relation
begin

lemma within_now: "(\<And>d. R d (snd (sqNow D d))) \<Longrightarrow> within (nowString D)"
  by (simp add: within_def nowString_def split_def)

lemma within_lift: "within (lift r)"
  by (cases r) (simp_all add: within_def lift_def rel_refl)

lemma within_SaveIndexerState:
  assumes "\<And>d. R d (snd (sqNow D d))" and "\<And>ix v d. R d (snd (sqPutState D ix v d))"
  shows "within (SaveIndexerState D ix st)"
proof -
  have "within (sqPutState D ix v)" for v using assms(2) by (simp add: within_def)
  then show ?thesis unfolding SaveIndexerState_def by (intro within_bind within_lift within_now assms)
qed

lemma within_SaveTransaction:
  assumes "\<And>d. R d (snd (sqNow D d))" and "\<And>d. R d (snd (sqBegin D d))" and "\<And>P d. R d (snd (sqDelete D P d))"
    and "\<And>row d. R d (snd (sqInsert D row d))" and "\<And>d. R d (snd (sqCommit D d))" and "\<And>d. R d (sqRollback D d)"
  shows "within (SaveTransaction D ix tx)"
proof -
  have body: "within (bindE (sqDelete D P) (\<lambda>_. bindE (nowString D) (\<lambda>now.
      bindE (forEach (\<lambda>leg. sqInsert D (legTxRow ix tx now leg)) legs) (\<lambda>_. sqCommit D))))" for P legs
    using assms(3-5) by (intro within_bind within_now within_forEach assms(1)) (simp_all add: within_def)
  have "within (rollingBack D m)" if "within m" for m :: "('s, unit) goM"
    using that assms(6) rel_trans unfolding within_def rollingBack_def by (fastforce simp: split_def)
  then show ?thesis using body assms(2) unfolding SaveTransaction_def by (intro within_bind) (simp_all add: within_def)
qed

lemma within_UpdateTransactionStatus:
  assumes "\<And>d. R d (snd (sqNow D d))" and "\<And>P f d. R d (snd (sqUpdate D P f d))"
  shows "within (UpdateTransactionStatus D ix h ty by)"
proof -
  have "within (sqUpdate D P f)" for P f using assms(2) by (simp add: within_def)
  then show ?thesis unfolding UpdateTransactionStatus_def by (intro within_bind within_now within_ok assms)
qed

end

abbreviation loggedEngine :: "loggedDb sqlEngine" where
  "loggedEngine \<equiv> memEngine"

lemma logKept: "state_relation (\<lambda>w w' :: loggedDb. dbLog w' = dbLog w)"
  by unfold_locales auto

lemma ownKept_relation: "state_relation (ownKept dur logged ix)"
  by unfold_locales (auto simp: ownKept_def intro: prefix_order.trans)

lemma loggedEngine_log:
  "dbLog (snd (SaveTransaction loggedEngine n tx w)) = dbLog w"
  "dbLog (snd (UpdateTransactionStatus loggedEngine n h ty by w)) = dbLog w"
proof -
  have "state_relation.within (\<lambda>w w'. dbLog w' = dbLog w) (SaveTransaction loggedEngine n tx)"
    by (rule state_relation.within_SaveTransaction [OF logKept]) (simp_all add: memEngine_def)
  moreover have "state_relation.within (\<lambda>w w'. dbLog w' = dbLog w) (UpdateTransactionStatus loggedEngine n h ty by)"
    by (rule state_relation.within_UpdateTransactionStatus [OF logKept]) (simp_all add: memEngine_def)
  ultimately show "dbLog (snd (SaveTransaction loggedEngine n tx w)) = dbLog w"
    "dbLog (snd (UpdateTransactionStatus loggedEngine n h ty by w)) = dbLog w"
    by (simp_all add: state_relation.within_def [OF logKept])
qed

lemma tableEnv_writes: "soleWriter dbRows dbLog tableEnv"
proof -
  let ?same = "ownKept dbRows dbLog ''demo'' :: loggedDb \<Rightarrow> loggedDb \<Rightarrow> bool"
  note rel = ownKept_relation [of dbRows dbLog "''demo''"]
  have refl: "?same w w" for w by (rule state_relation.rel_refl [OF rel])
  have trans: "\<forall>a b c. ?same a b \<longrightarrow> ?same b c \<longrightarrow> ?same a c" using state_relation.rel_trans [OF rel] by blast
  have "quietTransport ?same demoTransport" by (simp add: quietTransport_def demoTransport_def refl)
  then have client: "quietClient ?same (eClient tableEnv)"
    using state_relation.rpcClient_quiet [OF rel] by (simp add: tableEnv_def)
  have "state_relation.within ?same (SaveIndexerState loggedEngine n x)" for n x
    by (rule state_relation.within_SaveIndexerState [OF rel]) (simp_all add: memEngine_def ownKept_def)
  then have saves: "keeps ?same (soSaveIndexerState (sqliteStore loggedEngine) n x)" for n x
    by (simp add: state_relation.within_def [OF rel] keeps_def sqliteStore_def)
  have line: "?same w (w\<lparr>dbLog := dbLog w @ [l]\<rparr>)" for l w by (simp add: ownKept_def)
  have "quietWorld ?same tableEnv"
    using client trans refl saves line unfolding quietWorld_def by (simp add: tableEnv_def)
  then show ?thesis using loggedEngine_log
    by (simp add: soleWriter_def quietSink_def quietSaves_def keeps_def) (simp add: tableEnv_def demoConfig_def sqliteStore_def)
qed

lemma tableEnv_safe: "safeEnv tableEnv"
  using demoEnv_safe calm_store [of loggedEngine, OF memEngine_calm]
  by (simp add: safeEnv_def) (simp add: tableEnv_def demoEnv_def rpc.chain_client_axioms)

theorem database_follows_tracker_witness:
  "let s' = snd (runLoop tableEnv
     [\<lparr>snDialErr = None, snSubscribeErr = None, snInputs = [InLive (LiveMatches [demoLeg 1]), InHeadErr (ErrText ''gone'')]\<rparr>]
     backoffMin (newIndexer tableEnv (\<lambda>n. int n) emptyDb))
   in followsTx decimalCodec ''demo'' (dbRows (ixWorld s')) (ixTracker s') 1 \<or> (\<exists>l \<in> set (dbLog (ixWorld s')). complains decimalCodec 1 l)"
proof -
  let ?sn = "\<lparr>snDialErr = None, snSubscribeErr = None, snInputs = [InLive (LiveMatches [demoLeg 1]), InHeadErr (ErrText ''gone'')]\<rparr>"
  let ?s = "newIndexer tableEnv (\<lambda>n. int n) emptyDb"
  have s: "ixTracker ?s = NewTracker (icConfirmations (eCfg tableEnv)) (icPendingTimeout (eCfg tableEnv)) (\<lambda>n. int n)" "ixWorld ?s = emptyDb"
    by (simp_all add: newIndexer_def)
  have E: "eCodec tableEnv = decimalCodec" "icName (eCfg tableEnv) = ''demo''" "eStore tableEnv = Some (sqliteStore memEngine)"
    by (simp_all add: tableEnv_def demoConfig_def)
  have "ordersOK tableEnv" "receiptsOK tableEnv" "liveOK tableEnv"
    by (simp_all add: sorted_orders demoTransport_receipts liveOK_def tableEnv_def)
  moreover have "\<forall>sn \<in> set [?sn]. scriptOK sn" by (simp add: scriptOK_def oneTx_def)
  moreover have "hexOK (eCodec tableEnv)" "trackerInv (ixTracker ?s)" using decimalCodec_OK trackerInv_new by (simp_all add: E s)
  moreover have "\<forall>h. followsTx (eCodec tableEnv) (icName (eCfg tableEnv)) (dbRows (ixWorld ?s)) (ixTracker ?s) h"
    unfolding s followsTx_def by (simp add: NewTracker_def emptyDb_def)
  moreover have "dbLog (ixWorld ?s) = []" unfolding s by (simp add: emptyDb_def)
  ultimately show ?thesis
    using database_follows_tracker [OF _ _ _ _ mem.sql_engine_axioms E(3) tableEnv_writes tableEnv_safe, of "[?sn]" ?s backoffMin]
    unfolding E Let_def by auto
qed

end
