(* ===== verification/Recovery.thy ===== *)
theory Recovery
  imports Mirror
begin

text \<open>
  A crash and a restart. The table stays well formed over a run, and a new process that restores
  from a table which follows a tracker has the tracker back, but for what a table that
  follows may be behind in.
\<close>

section \<open>A well-formed table\<close>

text \<open>No key twice among the rows of the indexer, and each under the hash of a transaction.\<close>

definition tidyTable :: "hexcodec \<Rightarrow> string \<Rightarrow> txRow list \<Rightarrow> bool" where
  "tidyTable c ix rows \<longleftrightarrow> distinct (map rowKey (ownRows ix rows)) \<and> (\<forall>r \<in> set (ownRows ix rows). \<exists>h. rwTxHash r = hashHex c h)"

definition tidyKept :: "('w \<Rightarrow> txRow list) \<Rightarrow> 'w env \<Rightarrow> 'w \<Rightarrow> 'w \<Rightarrow> bool" where
  "tidyKept dur E w w' \<longleftrightarrow> (tidyTable (eCodec E) (icName (eCfg E)) (dur w) \<longrightarrow> tidyTable (eCodec E) (icName (eCfg E)) (dur w'))"

lemma save_tidy:
  assumes "sql_engine D live dur prog" and "stHash tx = hashHex c h" and "tidyTable c ix (dur w)"
  shows "tidyTable c ix (dur (snd (SaveTransaction D ix tx w)))"
proof -
  obtain r w' where r: "SaveTransaction D ix tx w = (r, w')" by (cases "SaveTransaction D ix tx w")
  show ?thesis
  proof (cases r)
    case (Inl e)
    then show ?thesis using sql_engine.save_steps [OF assms(1) r] assms(3) r by simp
  next
    case (Inr u)
    then obtain now where d: "dur w' = filter (\<lambda>row. \<not> ofTx ix (stHash tx) row) (dur w) @ map (legTxRow ix tx now) (stTransfers tx)"
      "freshKeys (filter (\<lambda>row. \<not> ofTx ix (stHash tx) row) (dur w)) (map (legTxRow ix tx now) (stTransfers tx))"
      using sql_engine.save_steps [OF assms(1) r] by auto
    let ?kept = "filter (\<lambda>row. \<not> ofTx ix (stHash tx) row) (ownRows ix (dur w))"
    have own: "ownRows ix (dur w') = ?kept @ map (legTxRow ix tx now) (stTransfers tx)"
      unfolding d(1) ownRows_def by (simp add: filter_id_conv legTxRow_def conj_commute)
    have "freshKeys ?kept (map (legTxRow ix tx now) (stTransfers tx))"
      using d(2) by (auto simp: freshKeys_def ownRows_def)
    moreover have "distinct (map rowKey ?kept)" using assms(3) by (simp add: tidyTable_def distinct_map_filter)
    ultimately have "distinct (map rowKey (ownRows ix (dur w')))" unfolding own by (rule freshKeys_distinct)
    moreover have "\<exists>h. rwTxHash row = hashHex c h" if "row \<in> set (ownRows ix (dur w'))" for row
      using that assms(2,3) unfolding own by (auto simp: tidyTable_def legTxRow_def)
    ultimately show ?thesis using r by (simp add: tidyTable_def)
  qed
qed

lemma update_tidy:
  assumes "sql_engine D live dur prog" and "tidyTable c ix (dur w)"
  shows "tidyTable c ix (dur (snd (UpdateTransactionStatus D ix k ty by w)))"
proof -
  obtain r w' where r: "UpdateTransactionStatus D ix k ty by w = (r, w')" by (cases "UpdateTransactionStatus D ix k ty by w")
  have "tidyTable c ix (map f rows)" if "tidyTable c ix rows"
    and f: "\<And>row. rwIndexer (f row) = rwIndexer row \<and> rwTxHash (f row) = rwTxHash row \<and> rowKey (f row) = rowKey row"
    for f and rows :: "txRow list"
  proof -
    have "ownRows ix (map f rows) = map f (ownRows ix rows)" unfolding ownRows_def filter_map comp_def using f by simp
    then show ?thesis using that(1) f by (simp add: tidyTable_def comp_def)
  qed
  note upd = this
  show ?thesis
  proof (cases r)
    case (Inl e)
    then show ?thesis using sql_engine.update_steps [OF assms(1) r] assms(2) r by simp
  next
    case (Inr known)
    then obtain now where "dur w' = map (\<lambda>row. if ofTx ix k row then setStatus ty by now row else row) (dur w)"
      using sql_engine.update_steps [OF assms(1) r] by auto
    then show ?thesis using upd [OF assms(2)] r by (simp add: setStatus_def rowKey_def)
  qed
qed

lemma own_tidy: "ownKept dur logged (icName (eCfg E)) w w' \<Longrightarrow> tidyKept dur E w w'"
  by (simp add: ownKept_def tidyKept_def tidyTable_def)

lemma tidy_world:
  assumes "soleWriter dur logged E"
  shows "quiet_world E (tidyKept dur E)"
proof -
  have "quietWorld (ownKept dur logged (icName (eCfg E))) E" using assms by (simp add: soleWriter_def)
  then have "quietWorld (tidyKept dur E) E"
    by (rule quietWorld_mono) (simp add: own_tidy, simp_all add: tidyKept_def)
  then show ?thesis by (simp add: quiet_world_def)
qed

text \<open>The loop of \<open>persistEvents\<close> stays within whatever the two statements on its transactions stay within.\<close>

context quiet_world
begin

lemma steady_persistOne:
  assumes "safeEnv E" and "eStore E = Some st" and "hexOK (eCodec E)" and "trackerInv (ixTracker s)"
    and "evs \<noteq> []" and "\<forall>ev \<in> set evs. evTxHash ev = hashHex (eCodec E) h"
    and "\<And>tx. stHash tx = hashHex (eCodec E) h \<Longrightarrow> keeps same (soSaveTransaction st (icName (eCfg E)) tx)"
    and "\<And>ty by. keeps same (soUpdateTransactionStatus st (icName (eCfg E)) (hashHex (eCodec E) h) ty by)"
  shows "\<exists>s'. persistOne E st evs (hashHex (eCodec E) h) s = (Inr (), s') \<and> steady same s s'"
  using assms(1,2)
proof (cases rule: persistOne_cases [where h = "hashHex (eCodec E) h" and evs = evs and s = s])
  case (saved s')
  then show ?thesis using steady_persistTx [OF assms(3-8)] by simp
next
  case (failed e s1)
  let ?s' = "s1\<lparr>ixWorld := eLogLine E ''persisting transaction'' [StrAttr ''tx'' (hashHex (eCodec E) h), ErrAttr ''err'' e] (ixWorld s1)\<rparr>"
  have "steady same s s1" using failed(1) steady_persistTx [OF assms(3-8)] by simp
  moreover have "steady same s1 ?s'" by (simp add: steady_def quiet_steps)
  ultimately show ?thesis using failed(2) frame.rel_trans by blast
qed

lemma steady_persist_loop:
  assumes "safeEnv E" and "eStore E = Some st" and "hexOK (eCodec E)"
    and save: "\<And>tx h. stHash tx = hashHex (eCodec E) h \<Longrightarrow> keeps same (soSaveTransaction st (icName (eCfg E)) tx)"
    and update: "\<And>k ty by. keeps same (soUpdateTransactionStatus st (icName (eCfg E)) k ty by)"
    and "trackerInv (ixTracker s)" and "groupsOK (eCodec E) (ixTracker s) grp order"
  shows "steady same s (snd (forEach (\<lambda>k. persistOne E st (grp k) k) order s))"
  using assms(6,7)
proof (induction order arbitrary: s)
  case Nil
  then show ?case by (simp add: frame.rel_refl)
next
  case (Cons k order)
  obtain h where k: "k = hashHex (eCodec E) h" "grp k \<noteq> []" "\<forall>ev \<in> set (grp k). evTxHash ev = hashHex (eCodec E) h"
    using Cons.prems(2) unfolding groupsOK_def by force
  obtain s1 where s1: "persistOne E st (grp k) k s = (Inr (), s1)" "steady same s s1"
    using steady_persistOne [OF assms(1-3) Cons.prems(1) k(2,3) save [of _ h] update] k(1) by auto
  have "groupsOK (eCodec E) (ixTracker s1) grp order" "trackerInv (ixTracker s1)"
    using Cons.prems s1(2) by (simp_all add: groupsOK_def steady_def)
  then have "steady same s1 (snd (forEach (\<lambda>k. persistOne E st (grp k) k) order s1))" by (rule Cons.IH [rotated])
  then show ?case using s1 frame.rel_trans by (simp add: bindE_def)
qed

end

section \<open>The table stays well formed\<close>

definition staysTidy :: "('w \<Rightarrow> txRow list) \<Rightarrow> 'w env \<Rightarrow> 'w indexer \<Rightarrow> 'w indexer \<Rightarrow> bool" where
  "staysTidy dur E s s' \<longleftrightarrow> (trackerInv (ixTracker s) \<longrightarrow> trackerInv (ixTracker s') \<and> tidyKept dur E (ixWorld s) (ixWorld s'))"

lemma emit_tidy:
  assumes T: "keepsTable D dur logged E" and inv: "trackerInv t" and op: "trackerOpOK op t"
    and s: "ixTracker s = snd (trackerExec (eCodec E) op t)"
  shows "steady (tidyKept dur E) s (snd (emitAll E (fst (trackerExec (eCodec E) op t)) s))"
proof -
  let ?evs = "fst (trackerExec (eCodec E) op t)"
  obtain live prog where D: "sql_engine D live dur prog" and st: "eStore E = Some (sqliteStore D)" and hex: "hexOK (eCodec E)"
    and W: "soleWriter dur logged E" and safe: "safeEnv E" using T unfolding keepsTable_def by blast
  note q = tidy_world [OF W]
  obtain s1 where s1: "forEach (emitOne E) ?evs s = (Inr (), s1)" using emits_return [OF safe_labelled [OF safe]] by blast
  have "quietSink (tidyKept dur E) E"
    using W by (auto simp: soleWriter_def quietSink_def intro: own_tidy)
  then have before: "steady (tidyKept dur E) s s1" by (rule quiet_world.steady_emits [OF q _ s1])
  obtain order byHash where g: "groupEvents ?evs [] fmempty = (order, byHash)" by (cases "groupEvents ?evs [] fmempty")
  have t: "ixTracker s1 = snd (trackerExec (eCodec E) op t)" using before s by (simp add: steady_def)
  have "steady (tidyKept dur E) s1 (snd (forEach (\<lambda>k. persistOne E (sqliteStore D) (getSlice byHash k) k) order s1))"
  proof (rule quiet_world.steady_persist_loop [OF q safe st hex])
    show "keeps (tidyKept dur E) (soSaveTransaction (sqliteStore D) (icName (eCfg E)) tx)" if "stHash tx = hashHex (eCodec E) h" for tx h
      using save_tidy [OF D that] by (simp add: keeps_def tidyKept_def sqliteStore_def)
    show "keeps (tidyKept dur E) (soUpdateTransactionStatus (sqliteStore D) (icName (eCfg E)) k ty by)" for k ty "by"
      using update_tidy [OF D] by (simp add: keeps_def tidyKept_def sqliteStore_def)
  qed (use exec_groups(1) [OF hex inv op g] trackerExec_inv [OF inv op] t in simp_all)
  then have "steady (tidyKept dur E) s1 (snd (persistEvents E ?evs s1))" using persistEvents_loop [OF st g] by simp
  moreover have "emitAll E ?evs s = persistEvents E ?evs s1" by (simp add: emitAll_def bindE_def s1)
  ultimately show ?thesis using before by (auto simp: steady_def tidyKept_def)
qed

lemma tidy_relation:
  fixes E :: "'w env"
  assumes T: "keepsTable D dur logged E"
  shows "indexer_relation E (tidyKept dur E) (staysTidy dur E)"
proof -
  have q: "quiet_world E (tidyKept dur E)" using T tidy_world by (auto simp: keepsTable_def)
  show ?thesis
  proof unfold_locales
    show "quietWorld (tidyKept dur E) E" using q by (simp add: quiet_world_def)
    show "staysTidy dur E s (snd (bindE (track (trackerExec (eCodec E) op)) (emitAll E) s))"
      if op: "trackerOpOK op (ixTracker s)" for op and s :: "'w indexer"
      using emit_tidy [OF T _ op, of "s\<lparr>ixTracker := snd (trackerExec (eCodec E) op (ixTracker s))\<rparr>"] trackerExec_inv [OF _ op]
      by (auto simp: staysTidy_def steady_def bindE_def track_def split_def)
    show "staysTidy dur E s s'" if "trackerInv (ixTracker s) \<Longrightarrow> staysTidy dur E s s'" for s s' :: "'w indexer"
      using that by (simp add: staysTidy_def)
  qed (auto simp: staysTidy_def steady_def tidyKept_def trackerExec_inv)
qed

lemma run_tidy:
  assumes "ordersOK E" and "receiptsOK E" and "liveOK E" and "\<forall>sn \<in> set sns. scriptOK sn" and "keepsTable D dur logged E"
    and "trackerInv (ixTracker s)" and "tidyTable (eCodec E) (icName (eCfg E)) (dur (ixWorld s))"
  shows "trackerInv (ixTracker (snd (runLoop E sns backoff s))) \<and>
    tidyTable (eCodec E) (icName (eCfg E)) (dur (ixWorld (snd (runLoop E sns backoff s))))"
proof -
  note rel = tidy_relation [OF assms(5)]
  have "staysTidy dur E s (snd (runLoop E sns backoff s))"
    using indexer_relation.within_runLoop [OF rel assms(1-4)] indexer_relation.axioms(2) [OF rel]
    by (simp add: state_relation.within_def)
  then show ?thesis using assms(6,7) by (simp add: staysTidy_def tidyKept_def)
qed

section \<open>What a restart reads from such a table\<close>

text \<open>A row gives its record back, but for a time out of the range of the layout.\<close>

lemma txOfRow_since:
  assumes "storable (tx\<lparr>tPendingSince := 0\<rparr>)" and "txOfRow (legTxRow ix (exportTracked c tx) now leg) = Inr t"
  shows "\<exists>since. (storable tx \<longrightarrow> since = tPendingSince tx) \<and> t = (exportTracked c (tx\<lparr>tPendingSince := since\<rparr>))\<lparr>stTransfers := []\<rparr>"
proof -
  have "parseTime (formatTime (tFirstSeen tx)) = Inr (tFirstSeen tx)" "parseTime (formatTime (tMinedAt tx)) = Inr (tMinedAt tx)"
    using assms(1) by (simp_all add: storable_def parse_formatTime)
  moreover from this obtain since where "parseTime (formatTime (tPendingSince tx)) = Inr since"
    using assms(2) by (auto simp: txOfRow_def legTxRow_def wrapParse_def exportTracked_def split: sum.splits)
  moreover from this have "since = tPendingSince tx" if "storable tx"
    using that by (simp add: storable_def parse_formatTime)
  ultimately show ?thesis using assms(2)
    by (intro exI [of _ since]) (auto simp: txOfRow_def legTxRow_def wrapParse_def exportTracked_def)
qed

lemma txOK_restored: "txOK h tx \<Longrightarrow> txOK h (asRestored (tx\<lparr>tPendingSince := since\<rparr>))"
proof -
  assume ok: "txOK h tx"
  then have "sort_key logPos (tTransfers tx) \<noteq> []" by (metis set_empty set_sort txOK_def)
  then show ?thesis using ok by (auto simp: txOK_def asRestored_def)
qed

lemma read_tracked:
  assumes follows: "followsTx c ix tbl t h" and inv: "trackerInv t" and tx: "fmlookup (trTxs t) h = Some tx" and ok: "storable tx"
    and keys: "distinct (map rowKey (ownRows ix tbl))"
    and rows: "foldl assembleRow (Inr []) rows = Inr txs" "mset rows = mset (filter (activeRow ix) tbl)" "sorted (map txPos rows)"
  shows "\<exists>since. (tState tx = stateMined \<longrightarrow> since = tPendingSince tx) \<and>
    filter (\<lambda>x. stHash x = hashHex c h) txs = [exportTracked c (asRestored (tx\<lparr>tPendingSince := since\<rparr>))]"
proof -
  obtain now s0 where s0: "tState tx = stateMined \<longrightarrow> s0 = tPendingSince tx"
    and now: "filter (ofTx ix (hashHex c h)) tbl =
      map (legTxRow ix (exportTracked c (tx\<lparr>tPendingSince := s0\<rparr>)) now) (stTransfers (exportTracked c tx))"
    using follows tx by (auto simp only: followsTx_def option.case)
  let ?tx = "tx\<lparr>tPendingSince := s0\<rparr>"
  have "stTransfers (exportTracked c ?tx) = stTransfers (exportTracked c tx)" by (simp add: exportTracked_def)
  then have now': "filter (ofTx ix (hashHex c h)) tbl = map (legTxRow ix (exportTracked c ?tx) now) (stTransfers (exportTracked c ?tx))"
    using now by simp
  have h: "tHash ?tx = h" "tTransfers ?tx \<noteq> []" using trackerInv_tx [OF inv tx] by (simp_all add: txOK_def)
  from load_rows_tx [OF h _ now' keys rows] ok obtain leg x where
    x: "txOfRow (legTxRow ix (exportTracked c ?tx) now leg) = Inr x"
      "filter (\<lambda>y. stHash y = hashHex c h) txs = [x\<lparr>stTransfers := restoredLegs c ?tx\<rparr>]" by (auto simp: storable_def)
  have "storable (?tx\<lparr>tPendingSince := 0\<rparr>)" using ok by (simp add: storable_def maxTime_def nsPerDay_def)
  then obtain since where since: "storable ?tx \<longrightarrow> since = s0" "x = (exportTracked c (tx\<lparr>tPendingSince := since\<rparr>))\<lparr>stTransfers := []\<rparr>"
    using txOfRow_since [OF _ x(1)] by auto
  have "restoredLegs c ?tx = restoredLegs c (tx\<lparr>tPendingSince := since\<rparr>)" by (simp add: restoredLegs_def)
  then have "x\<lparr>stTransfers := restoredLegs c ?tx\<rparr> = exportTracked c (asRestored (tx\<lparr>tPendingSince := since\<rparr>))"
    using since(2) by (simp add: export_restored restoredLegs_def)
  moreover have "since = tPendingSince tx" if "tState tx = stateMined" using s0 since(1) ok that by auto
  ultimately show ?thesis using x(2) by auto
qed

text \<open>Every transaction read has a row it is of.\<close>

lemma read_rows:
  "foldl assembleRow (Inr []) rows = Inr txs \<Longrightarrow> x \<in> set txs \<Longrightarrow> \<exists>r \<in> set rows. stHash x = rwTxHash r \<and> stStatus x = rwStatus r"
proof (induction rows arbitrary: txs x rule: rev_induct)
  case (snoc r rows)
  obtain out where o: "foldl assembleRow (Inr []) rows = Inr out" "foldl assembleRow (Inr out) [r] = Inr txs"
    by (rule foldl_assemble_append [OF snoc.prems(1)])
  have "x \<in> set out \<or> (\<exists>y. y \<in> set out \<and> stHash x = stHash y \<and> stStatus x = stStatus y) \<or> (stHash x = rwTxHash r \<and> stStatus x = rwStatus r)"
  proof (cases "out = [] \<or> stHash (last out) \<noteq> rwTxHash r")
    case True
    then obtain tx where tx: "txOfRow r = Inr tx" "txs = out @ [addLeg (legOfRow r) tx]"
      using o(2) by (auto simp: assembleRow_def split: sum.splits)
    have "stHash tx = rwTxHash r" "stStatus tx = rwStatus r" using tx(1) by (auto simp: txOfRow_def split: sum.splits)
    then show ?thesis using tx(2) snoc.prems(2) by (auto simp: addLeg_def)
  next
    case False
    then have "txs = butlast out @ [addLeg (legOfRow r) (last out)]" using o(2) by (simp add: assembleRow_def)
    moreover have "last out \<in> set out" using False by simp
    ultimately show ?thesis using snoc.prems(2) by (auto simp: addLeg_def dest: in_set_butlastD)
  qed
  then show ?case using snoc.IH [OF o(1)] by fastforce
qed simp

section \<open>What it restores\<close>

text \<open>Of one hash, the import leaves the last record of it that can be read.\<close>

definition importAt :: "hexcodec \<Rightarrow> hash \<Rightarrow> storedTx \<Rightarrow> trackedTx option \<Rightarrow> trackedTx option" where
  "importAt c h x acc = (case importTracked c x of Inl _ \<Rightarrow> acc | Inr tx \<Rightarrow> if tHash tx = h then Some tx else acc)"

lemma Import_at: "fmlookup (trTxs (snd (Import c txs t))) h = fold (importAt c h) txs (fmlookup (trTxs t) h)"
proof -
  have "fmlookup (trTxs (snd (fold (importOne c) txs (e, t)))) h = fold (importAt c h) txs (fmlookup (trTxs t) h)" for e
  proof (induction txs arbitrary: e t)
    case (Cons x txs)
    obtain e' t' where s: "importOne c x (e, t) = (e', t')" by (cases "importOne c x (e, t)")
    have "fmlookup (trTxs t') h = importAt c h x (fmlookup (trTxs t) h)"
      using s by (auto simp: importOne_def importAt_def Let_def tracker_simps split: sum.splits if_splits)
    then show ?case using Cons.IH [of e' t'] s by simp
  qed simp
  then show ?thesis by (simp add: Import_def)
qed

lemma importTracked_fields:
  "importTracked c x = Inr tx \<Longrightarrow> tHash tx = HexToHash c (stHash x) \<and> (stStatus x = ''pending'' \<longrightarrow> tState tx = statePending)"
  by (auto simp: importTracked_def split: if_splits sum.splits)

lemma fold_importAt:
  "fold (importAt c h) txs acc = fold (importAt c h) (filter (\<lambda>x. HexToHash c (stHash x) = h) txs) acc"
proof (induction txs arbitrary: acc)
  case (Cons x txs)
  then show ?case using importTracked_fields [of c x]
    by (auto simp: importAt_def split: sum.split)
qed simp

lemma importAt_pending:
  "\<forall>x \<in> set txs. HexToHash c (stHash x) = h \<longrightarrow> stStatus x \<noteq> ''mined'' \<Longrightarrow> fold (importAt c h) txs None = Some tx \<Longrightarrow> tState tx = statePending"
proof -
  assume a: "\<forall>x \<in> set txs. HexToHash c (stHash x) = h \<longrightarrow> stStatus x \<noteq> ''mined''" "fold (importAt c h) txs None = Some tx"
  have "fold (importAt c h) txs acc = Some tx \<Longrightarrow> \<forall>tx. acc = Some tx \<longrightarrow> tState tx = statePending \<Longrightarrow> tState tx = statePending" for acc
    using a(1)
  proof (induction txs arbitrary: acc)
    case (Cons x txs)
    have "\<forall>tx. importAt c h x acc = Some tx \<longrightarrow> tState tx = statePending"
      using Cons.prems(2,3) importTracked_fields [of c x]
      by (auto simp: importAt_def importTracked_def split: sum.splits if_splits)
    then show ?case using Cons.IH [of "importAt c h x acc"] Cons.prems by simp
  qed simp
  then show ?thesis using a(2) by blast
qed

text \<open>
  The restored tracker next to the one that was: a mined transaction is back as it was, with its legs
  as the table orders them; a pending one too, but for the start of its staleness timer; and nothing
  else is back as mined.
\<close>

definition recovered :: "tracker \<Rightarrow> tracker \<Rightarrow> hash \<Rightarrow> bool" where
  "recovered t t' h \<longleftrightarrow>
     (case fmlookup (trTxs t) h of
        Some tx \<Rightarrow> \<exists>since. (tState tx = stateMined \<longrightarrow> since = tPendingSince tx) \<and>
          fmlookup (trTxs t') h = Some (asRestored (tx\<lparr>tPendingSince := since\<rparr>))
      | None \<Rightarrow> \<forall>tx. fmlookup (trTxs t') h = Some tx \<longrightarrow> tState tx = statePending)"

lemma restored_recovers:
  assumes D: "sql_engine D live dur prog" and hex: "hexOK (eCodec E)" and st: "eStore E = Some (sqliteStore D)"
    and inv: "trackerInv t" and ok: "\<forall>h tx. fmlookup (trTxs t) h = Some tx \<longrightarrow> storable tx"
    and tidy: "tidyTable (eCodec E) (icName (eCfg E)) (dur w)" and run: "restore E (newIndexer E clk w) = (Inr (), s')"
    and follows: "followsTx (eCodec E) (icName (eCfg E)) (dur w) t h"
  shows "recovered t (ixTracker s') h"
proof -
  let ?c = "eCodec E" and ?ix = "icName (eCfg E)" and ?s = "newIndexer E clk w"
  obtain state w1 txs w2 s1 s2 where r: "LoadIndexerState D ?ix (ixWorld ?s) = (Inr state, w1)"
    "restoreProgress E state (?s\<lparr>ixWorld := w1\<rparr>) = (Inr (), s1)" "LoadActiveTransactions D ?ix (ixWorld s1) = (Inr txs, w2)"
    "s2 = s1\<lparr>ixWorld := w2, ixTracker := snd (Import ?c txs (ixTracker s1)), ixRestoredTx := []\<rparr>"
    "s' = fold (markRestored ?c) txs s2"
    by (rule restore_steps [OF st run])
  have new: "trTxs (ixTracker ?s) = fmempty" "ixWorld ?s = w" by (simp_all add: newIndexer_def NewTracker_def)
  have s1: "ixTracker s1 = ixTracker ?s" "ixWorld s1 = w1" using r(2) by (auto simp: restoreProgress_exact split: option.splits if_splits)
  have "dur w1 = dur w" using LoadIndexerState_quiet [OF D r(1)] new(2) by simp
  then obtain rows where rows: "foldl assembleRow (Inr []) rows = Inr txs" "mset rows = mset (filter (activeRow ?ix) (dur w))" "sorted (map txPos rows)"
    using load_rows [OF D r(3)] s1(2) by metis
  have tracker: "fmlookup (trTxs (ixTracker s')) h = fold (importAt ?c h) txs None"
    using markRestored_all [of ?c txs s2] Import_at [of ?c txs "ixTracker s1" h] unfolding r(5) Let_def by (simp add: r(4) s1(1) new(1))
  have source: "\<exists>row. row \<in> set (dur w) \<and> activeRow ?ix row \<and> stHash x = rwTxHash row \<and> stStatus x = rwStatus row" if "x \<in> set txs" for x
    using read_rows [OF rows(1) that] mset_eq_setD [OF rows(2)] by auto
  have names: "HexToHash ?c (stHash x) = h \<longleftrightarrow> stHash x = hashHex ?c h" if x: "x \<in> set txs" for x
  proof -
    obtain h' where "stHash x = hashHex ?c h'" using source [OF x] tidy by (auto simp: tidyTable_def ownRows_def activeRow_def)
    then show ?thesis using hexOK_inj(1) [OF hex] by (simp add: hexOK_simps(1) [OF hex])
  qed
  show ?thesis
  proof (cases "fmlookup (trTxs t) h")
    case (Some tx)
    have keys: "distinct (map rowKey (ownRows ?ix (dur w)))" using tidy by (simp add: tidyTable_def)
    obtain since where since: "tState tx = stateMined \<longrightarrow> since = tPendingSince tx"
      "filter (\<lambda>x. stHash x = hashHex ?c h) txs = [exportTracked ?c (asRestored (tx\<lparr>tPendingSince := since\<rparr>))]"
      using read_tracked [OF follows inv Some _ keys rows] ok Some by blast
    have "filter (\<lambda>x. HexToHash ?c (stHash x) = h) txs = filter (\<lambda>x. stHash x = hashHex ?c h) txs"
      by (rule filter_cong) (simp_all add: names)
    moreover note ok' = txOK_restored [OF trackerInv_tx [OF inv Some], of since]
    ultimately have "fold (importAt ?c h) txs None = Some (asRestored (tx\<lparr>tPendingSince := since\<rparr>))"
      using since(2) importTracked_export [OF hex ok'] ok' fold_importAt [of ?c h txs None] by (simp add: importAt_def txOK_def)
    then show ?thesis using since(1) Some tracker by (auto simp: recovered_def)
  next
    case None
    have "stStatus x \<noteq> ''mined''" if "x \<in> set txs" "HexToHash ?c (stHash x) = h" for x
      using source [OF that(1)] names [OF that(1)] that(2) follows None by (auto simp: followsTx_def ofTx_def activeRow_def)
    then have "tState tx = statePending" if "fold (importAt ?c h) txs None = Some tx" for tx
      using importAt_pending [OF _ that] by blast
    then show ?thesis using None tracker by (simp add: recovered_def)
  qed
qed

section \<open>Property\<close>

text \<open>
  C5: crash recovery. Run the dispatch loop from a well-formed table that follows the tracker, with live
  matches that come one transaction at a time, a node that answers with anything but whose receipts
  carry only logs of the transaction asked for and a database any statement of which may fail; stop
  it after any of its inputs, and start a new process on what is committed. For every transaction, unless the log got a line that persisting
  it failed, the new tracker has what the old one had: a mined transaction with the same block, times,
  sender, nonce, authority and legs (in the order of their log indices), a pending one likewise but
  for the start of its staleness timer; and no transaction that the old one did not track is
  taken to be mined. The transactions must fit the columns: times within the years 1 to 9999, no
  log index that is the sentinel.
\<close>

theorem crash_recovery:
  assumes "ordersOK E" and "receiptsOK E" and "liveOK E" and "\<forall>sn \<in> set sns. scriptOK sn"
    and "sql_engine D live dur prog" and "eStore E = Some (sqliteStore D)" and "soleWriter dur logged E"
    and "safeEnv E" and "hexOK (eCodec E)" and "trackerInv (ixTracker s)"
    and "\<forall>h. followsTx (eCodec E) (icName (eCfg E)) (dur (ixWorld s)) (ixTracker s) h"
    and "tidyTable (eCodec E) (icName (eCfg E)) (dur (ixWorld s))"
    and "s' = snd (runLoop E sns backoff s)" and "\<forall>h tx. fmlookup (trTxs (ixTracker s')) h = Some tx \<longrightarrow> storable tx"
    and "ownRows (icName (eCfg E)) (dur w) = ownRows (icName (eCfg E)) (dur (ixWorld s'))"
    and "restore E (newIndexer E clk w) = (Inr (), s'')"
  shows "\<exists>new. logged (ixWorld s') = logged (ixWorld s) @ new \<and>
    (\<forall>h. recovered (ixTracker s') (ixTracker s'') h \<or> (\<exists>l \<in> set new. complains (eCodec E) h l))"
proof -
  have T: "keepsTable D dur logged E" using assms(5-9) unfolding keepsTable_def by blast
  have run: "trackerInv (ixTracker s')" "tidyTable (eCodec E) (icName (eCfg E)) (dur (ixWorld s'))"
    using run_tidy [OF assms(1-4) T assms(10,12)] assms(13) by simp_all
  then have tidy: "tidyTable (eCodec E) (icName (eCfg E)) (dur w)" using assms(15) by (simp add: tidyTable_def)
  obtain new where new: "logged (ixWorld s') = logged (ixWorld s) @ new"
    "\<And>h. followsTx (eCodec E) (icName (eCfg E)) (dur (ixWorld s')) (ixTracker s') h \<or> (\<exists>l \<in> set new. complains (eCodec E) h l)"
    using run_follows [OF assms(1-4) T assms(10,11)] assms(13) by auto
  have "recovered (ixTracker s') (ixTracker s'') h"
    if "followsTx (eCodec E) (icName (eCfg E)) (dur (ixWorld s')) (ixTracker s') h" for h
    by (rule restored_recovers [OF assms(5,9,6) run(1) assms(14) tidy assms(16) follows_cong [OF own_ofTx [OF assms(15)] that]])
  then show ?thesis using new by blast
qed

text \<open>Two pending transactions, stored; a session whose dial fails; then the crash.\<close>

definition storedDb :: loggedDb where
  "storedDb = emptyDb\<lparr>dbRows := [mirrorRow 1, mirrorRow 2]\<rparr>"

definition storedState :: "loggedDb indexer" where
  "storedState = (newIndexer tableEnv (\<lambda>_. 1000) storedDb)\<lparr>ixTracker := demoPend\<rparr>"

definition failedDial :: sessionScript where
  "failedDial = \<lparr>snDialErr = Some (ErrText ''refused''), snSubscribeErr = None, snInputs = []\<rparr>"

lemma stored_fields: "ixTracker storedState = demoPend" "ixWorld storedState = storedDb" "dbRows storedDb = dbRows mirrorDb"
  "dbLog storedDb = []"
  by (simp_all add: storedState_def storedDb_def emptyDb_def mirrorState_fields newIndexer_def)

lemma tableEnv_fields: "eCodec tableEnv = decimalCodec" "icName (eCfg tableEnv) = ''demo''" "eStore tableEnv = Some (sqliteStore memEngine)"
  "eNow tableEnv w = (1000, w)" "eCtx tableEnv w = (None, w)"
  by (simp_all add: tableEnv_def demoConfig_def)

lemma failedDial_run:
  "ixTracker (snd (runLoop tableEnv [failedDial] backoffMin storedState)) = demoPend"
  "ixWorld (snd (runLoop tableEnv [failedDial] backoffMin storedState)) = storedDb"
  by (simp_all add: failedDial_def bindE_def clock_def tableEnv_fields stored_fields runSession_def attempt_def checkScript_def
    fail_def ok_def ctxErr_def configError_def Let_def)

lemma storedDb_follows: "followsTx decimalCodec ''demo'' (dbRows storedDb) demoPend h"
  using mirrorDb_mirrors mirrors_follows unfolding mirrors_def stored_fields by blast

lemma storedDb_tidy: "tidyTable decimalCodec ''demo'' (dbRows storedDb)"
  by (auto simp: stored_fields mirrorState_fields tidyTable_def ownRows_def rowKey_def mirrorRow_fields mirror_hashes)

lemma stored_restores: "\<exists>s''. restore tableEnv (newIndexer tableEnv clk storedDb) = (Inr (), s'')"
proof -
  let ?s = "newIndexer tableEnv clk storedDb"
  have w: "ixWorld ?s = storedDb" by (simp add: newIndexer_def)
  have l: "LoadIndexerState memEngine (icName (eCfg tableEnv)) (ixWorld ?s) = (Inr None, storedDb)"
    unfolding w LoadIndexerState_def bindE_def mem_get by (simp add: storedDb_def emptyDb_def ok_def)
  have parses: "\<exists>t. txOfRow (mirrorRow h) = Inr t" if "h = 1 \<or> h = 2" for h
    unfolding mirrorRow_def using that
    by (subst txOfRow_saved) (auto simp: timesOK_def exportTracked_def demoTracked_def pendingTx_def maxTime_def nsPerDay_def)
  have "\<forall>r \<in> set (sort_key txPos [mirrorRow 1, mirrorRow 2]). \<exists>t. txOfRow r = Inr t"
    unfolding set_sort using parses by auto
  then obtain txs where "foldl assembleRow (Inr []) (sort_key txPos [mirrorRow 1, mirrorRow 2]) = Inr txs"
    using foldl_assemble_total by blast
  then have "LoadActiveTransactions memEngine (icName (eCfg tableEnv)) storedDb = (Inr txs, storedDb)"
    by (simp add: LoadActiveTransactions_def bindE_def mem_select limitRows_def lift_def ok_def tableEnv_fields stored_fields
      mirrorState_fields mirrorRow_fields activeStatuses_def)
  then show ?thesis using restore_runs [OF tableEnv_fields(3) l] by auto
qed

theorem crash_recovery_witness:
  "\<exists>s'' since. restore tableEnv (newIndexer tableEnv (\<lambda>_. 1000) storedDb) = (Inr (), s'') \<and>
     ixWorld (snd (runLoop tableEnv [failedDial] backoffMin storedState)) = storedDb \<and>
     fmlookup (trTxs (ixTracker s'')) 1 = Some (asRestored ((demoTracked 1)\<lparr>tPendingSince := since\<rparr>))"
proof -
  obtain s'' where run: "restore tableEnv (newIndexer tableEnv (\<lambda>_. 1000) storedDb) = (Inr (), s'')"
    using stored_restores by blast
  have env: "ordersOK tableEnv" "receiptsOK tableEnv" "liveOK tableEnv"
    by (simp_all add: sorted_orders demoTransport_receipts liveOK_def tableEnv_def)
  have script: "\<forall>sn \<in> set [failedDial]. scriptOK sn" by (simp add: scriptOK_def failedDial_def)
  have hex: "hexOK (eCodec tableEnv)" using decimalCodec_OK by (simp add: tableEnv_fields)
  have inv: "trackerInv (ixTracker storedState)" using demo_inv by (simp add: stored_fields)
  have table: "\<forall>h. followsTx (eCodec tableEnv) (icName (eCfg tableEnv)) (dbRows (ixWorld storedState)) (ixTracker storedState) h"
    "tidyTable (eCodec tableEnv) (icName (eCfg tableEnv)) (dbRows (ixWorld storedState))"
    unfolding tableEnv_fields stored_fields(1,2) using storedDb_follows storedDb_tidy by simp_all
  have fit: "\<forall>h tx. fmlookup (trTxs (ixTracker (snd (runLoop tableEnv [failedDial] backoffMin storedState)))) h = Some tx \<longrightarrow> storable tx"
    unfolding failedDial_run using demo_storable by blast
  have "recovered demoPend (ixTracker s'') 1"
    using crash_recovery [OF env script mem.sql_engine_axioms tableEnv_fields(3) tableEnv_writes tableEnv_safe hex inv table refl fit _ run]
    unfolding failedDial_run by (auto simp: stored_fields)
  then show ?thesis unfolding failedDial_run using run by (auto simp: recovered_def demo_lookup)
qed

end
