(* ===== verification/Connect.thy ===== *)
theory Connect
  imports Calm
begin

text \<open>
  The edges of a session: \<open>Dial\<close> and \<open>Close\<close> of client.go with the connections a session opens and
  closes, and \<open>watchPending\<close> of pending.go, which chooses between the pending subscriptions, as a
  relation between what the node supports and what the dispatcher receives.
\<close>

section \<open>Connections\<close>

text \<open>
  go-ethereum's \<open>rpc.DialOptions\<close> and \<open>Close\<close>, parameters: a connection is opened to a URL with a
  message size limit (none over HTTP) and a user agent.
\<close>

record 'w dialer =
  dlOpen :: "string \<Rightarrow> int option \<Rightarrow> string \<Rightarrow> ('w, nat) rpcM"
  dlClose :: "nat \<Rightarrow> 'w \<Rightarrow> 'w"

text \<open>The build info, when there is any, carries the version of the main module.\<close>

definition userAgent :: "string option \<Rightarrow> string" where
  "userAgent buildInfo =
     ''ethindex/'' @ (case buildInfo of
        Some version \<Rightarrow> if version \<noteq> '''' \<and> version \<noteq> ''(devel)'' then version else ''dev''
      | None \<Rightarrow> ''dev'')"

record connection =
  cnWS :: nat
  cnHTTP :: nat

definition Dial :: "'w dialer \<Rightarrow> string option \<Rightarrow> string \<Rightarrow> string \<Rightarrow> ('w, connection) goM" where
  "Dial D buildInfo wsURL httpURL =
     (let ua = userAgent buildInfo in
      bindE (wire (dlOpen D wsURL (Some (512 * 1024 * 1024)) ua)) (\<lambda>rawWS.
      bindE (attempt (wire (dlOpen D httpURL None ua))) (\<lambda>res.
        case res of
          Inl e \<Rightarrow> bindE (modify (dlClose D rawWS)) (\<lambda>_. fail e)
        | Inr rawHTTP \<Rightarrow> ok \<lparr>cnWS = rawWS, cnHTTP = rawHTTP\<rparr>)))"

definition closeClient :: "'w dialer \<Rightarrow> connection \<Rightarrow> ('w, unit) goM" where
  "closeClient D c = bindE (modify (dlClose D (cnWS c))) (\<lambda>_. modify (dlClose D (cnHTTP c)))"

text \<open>
  The subscriptions go over the WebSocket; go-ethereum's clients open them, with the channel they
  fill and the subscription both named by a number.
\<close>

record 'w wsClient =
  wsNewHeads :: "nat \<Rightarrow> ('w, nat) rpcM"
  wsFullPending :: "nat \<Rightarrow> ('w, nat) rpcM"
  wsPending :: "nat \<Rightarrow> ('w, nat) rpcM"

definition SubscribeNewHead :: "'w wsClient \<Rightarrow> nat \<Rightarrow> ('w, nat) goM" where
  "SubscribeNewHead W ch = wire (wsNewHeads W ch)"

definition SubscribeFullPendingTransactions :: "'w wsClient \<Rightarrow> nat \<Rightarrow> ('w, nat) goM" where
  "SubscribeFullPendingTransactions W ch = wire (wsFullPending W ch)"

definition SubscribePendingTransactions :: "'w wsClient \<Rightarrow> nat \<Rightarrow> ('w, nat) goM" where
  "SubscribePendingTransactions W ch = wire (wsPending W ch)"

text \<open>The head of \<open>runSession\<close>: dial, and close when the rest has returned, whatever it returned.\<close>

definition withConnection :: "'w dialer \<Rightarrow> string option \<Rightarrow> indexerConfig \<Rightarrow> (connection \<Rightarrow> ('w, 'a) goM) \<Rightarrow> ('w, 'a) goM" where
  "withConnection D buildInfo cfg session w =
     (case Dial D buildInfo (icRPCURL cfg) (icHTTPRPCURL cfg) w of
        (Inl e, w1) \<Rightarrow> (Inl (Wrap (''dialing '' @ icRPCURL cfg) e), w1)
      | (Inr c, w1) \<Rightarrow> (case session c w1 of (r, w2) \<Rightarrow> (r, snd (closeClient D c w2))))"

locale connections =
  fixes D :: "'w dialer" and conns :: "'w \<Rightarrow> nat set"
  assumes open_law: "dlOpen D url limit ua w = (r, w') \<Longrightarrow>
      (case r of Inl e \<Rightarrow> conns w' = conns w | Inr c \<Rightarrow> c \<notin> conns w \<and> conns w' = insert c (conns w))"
    and close_law: "conns (dlClose D c w) = conns w - {c}"
begin

lemma dial_conns:
  assumes "Dial D info wsURL httpURL w = (r, w')"
  shows "case r of Inl e \<Rightarrow> conns w' = conns w
    | Inr c \<Rightarrow> cnWS c \<noteq> cnHTTP c \<and> {cnWS c, cnHTTP c} \<inter> conns w = {} \<and> conns w' = {cnWS c, cnHTTP c} \<union> conns w"
proof -
  obtain r1 w1 where o1: "dlOpen D wsURL (Some (512 * 1024 * 1024)) (userAgent info) w = (r1, w1)"
    by (cases "dlOpen D wsURL (Some (512 * 1024 * 1024)) (userAgent info) w")
  show ?thesis
  proof (cases r1)
    case (Inl e)
    then show ?thesis using assms o1 open_law [OF o1] by (auto simp: Dial_def Let_def bindE_def wire_def)
  next
    case (Inr ws)
    obtain r2 w2 where o2: "dlOpen D httpURL None (userAgent info) w1 = (r2, w2)"
      by (cases "dlOpen D httpURL None (userAgent info) w1")
    show ?thesis
    proof (cases r2)
      case (Inl e)
      then show ?thesis using assms o1 o2 open_law [OF o1] open_law [OF o2] \<open>r1 = Inr ws\<close>
        by (auto simp: Dial_def Let_def bindE_def wire_def attempt_def modify_def fail_def close_law)
    next
      case (Inr http)
      then show ?thesis using assms o1 o2 open_law [OF o1] open_law [OF o2] \<open>r1 = Inr ws\<close>
        by (auto simp: Dial_def Let_def bindE_def wire_def attempt_def ok_def)
    qed
  qed
qed

lemma session_conns:
  assumes "withConnection D info cfg session w = (r, w')" and "\<And>c w r w'. session c w = (r, w') \<Longrightarrow> conns w' = conns w"
  shows "conns w' = conns w"
proof -
  obtain r1 w1 where d: "Dial D info (icRPCURL cfg) (icHTTPRPCURL cfg) w = (r1, w1)"
    by (cases "Dial D info (icRPCURL cfg) (icHTTPRPCURL cfg) w")
  note D = dial_conns [OF d]
  show ?thesis
  proof (cases r1)
    case (Inl e)
    then show ?thesis using assms(1) d D by (simp add: withConnection_def)
  next
    case (Inr c)
    obtain r2 w2 where s: "session c w1 = (r2, w2)" by (cases "session c w1")
    have "w' = dlClose D (cnHTTP c) (dlClose D (cnWS c) w2)"
      using assms(1) d s Inr by (simp add: withConnection_def closeClient_def bindE_def modify_def)
    then have "conns w' = conns w2 - {cnWS c, cnHTTP c}" by (auto simp: close_law)
    then show ?thesis using D Inr assms(2) [OF s] by auto
  qed
qed

end

text \<open>A dialer that numbers its connections and refuses HTTP to one host.\<close>

definition countingDialer :: "(nat \<times> nat set) dialer" where
  "countingDialer = \<lparr>dlOpen = (\<lambda>url limit ua (n, open). if url = ''http://down'' then (Inl (RpcText ''refused''), (n, open))
       else (Inr n, (Suc n, insert n open))),
     dlClose = (\<lambda>c (n, open). (n, open - {c}))\<rparr>"

interpretation countingDialer: connections countingDialer "\<lambda>(n, open). {c \<in> open. c < n}"
  by unfold_locales (auto simp: countingDialer_def split: if_splits)

text \<open>
  Whatever happens while dialing or in the session, an error included, a session leaves open
  exactly the connections that were open before it.
\<close>

theorem sessions_close_connections:
  assumes "connections D conns" and "\<forall>c w. conns (snd (session c w)) = conns w"
  shows "conns (snd (withConnection D info cfg session w)) = conns w"
proof -
  obtain r w' where run: "withConnection D info cfg session w = (r, w')" by (cases "withConnection D info cfg session w")
  have "conns w' = conns w"
  proof (rule connections.session_conns [OF assms(1) run])
    fix c w r w' assume "session c w = (r, w')"
    then show "conns w' = conns w" using assms(2) by (metis snd_conv)
  qed
  then show ?thesis by (simp add: run)
qed

theorem sessions_close_connections_witness:
  "(\<lambda>(n, open). {c \<in> open. c < n}) (snd (withConnection countingDialer None (demoConfig\<lparr>icHTTPRPCURL := ''http://down''\<rparr>)
     (\<lambda>c. ok ()) (5, {3}))) = {3}"
  using sessions_close_connections [OF countingDialer.connections_axioms, of "\<lambda>c. ok ()"] by (auto simp: ok_def)

section \<open>The pending watcher\<close>

text \<open>
  What the dispatcher has received from one run of \<open>watchPending\<close> and what the run has returned, if it
  has. The answers of the node to the two subscriptions choose the mode; beside a subscription the
  snapshot of the mempool runs on a goroutine of its own, so the dispatcher receives a shuffle of
  what both have sent, of the snapshot possibly only a part.
\<close>

inductive watchPending :: "'w env \<Rightarrow> (ethTx \<Rightarrow> goerr + address) \<Rightarrow> goerr option \<Rightarrow> goerr option \<Rightarrow> bool \<Rightarrow>
    transferMatch list list \<Rightarrow> goerr option option \<Rightarrow> bool \<Rightarrow> bool" for E Sender where
  fullTxs: "loadMempool E loaded w = (Inr (snapshotted, loaded'), w') \<Longrightarrow> prefix part snapshotted \<Longrightarrow>
     consumePendingTxs Sender (eMatcher E) inputs = (streamed, ret) \<Longrightarrow> out \<in> shuffles part streamed \<Longrightarrow>
     watchPending E Sender None hashErr loaded out ret loaded'"
| hashesOnly: "loadMempool E loaded w = (Inr (snapshotted, loaded'), w') \<Longrightarrow> prefix part snapshotted \<Longrightarrow>
     hashRun E seen arrived asked hw w2 \<Longrightarrow> out \<in> shuffles part (hwOut hw) \<Longrightarrow>
     watchPending E Sender (Some e) None loaded out ret loaded'"
| blockOnly: "loadMempool E loaded w = (Inr (snapshotted, loaded'), w') \<Longrightarrow>
     watchPending E Sender (Some e) (Some e') loaded snapshotted (Some None) loaded'"

lemma loadMempool_out:
  assumes "loadMempool E loaded w = (Inr (out, loaded'), w')"
  shows "loaded' \<and> (loaded \<longrightarrow> out = []) \<and> (\<forall>ms \<in> set out. goodBatch ms)"
  using yields_run [OF loadMempool_good assms] by simp

lemma watchPending_out:
  assumes "watchPending E Sender fullErr hashErr loaded out ret loaded'"
  shows "loaded' \<and> (\<forall>ms \<in> set out. goodBatch ms) \<and> (loaded \<longrightarrow> fullErr \<noteq> None \<longrightarrow> hashErr \<noteq> None \<longrightarrow> out = [])"
  using assms
proof cases
  case (fullTxs w snapshotted w' part inputs streamed)
  note L = loadMempool_out [OF fullTxs(2)]
  have "set out = set part \<union> set streamed" using fullTxs(5) by (rule set_shuffles)
  moreover have "goodBatch ms" if "ms \<in> set streamed" for ms
    using consumePendingTxs_good [of ms Sender "eMatcher E" inputs] fullTxs(4) that by simp
  ultimately show ?thesis using L set_mono_prefix [OF fullTxs(3)] fullTxs(1) by auto
next
  case (hashesOnly w snapshotted w' part seen arrived asked hw w2 e)
  note L = loadMempool_out [OF hashesOnly(3)]
  have "set out = set part \<union> set (hwOut hw)" using hashesOnly(6) by (rule set_shuffles)
  moreover have "\<forall>ms \<in> set (hwOut hw). goodBatch ms" using hashRun_good [OF hashesOnly(5)] by blast
  ultimately show ?thesis using L set_mono_prefix [OF hashesOnly(4)] hashesOnly(2) by blast
next
  case (blockOnly w w' e e')
  then show ?thesis using loadMempool_out [OF blockOnly(4)] by simp
qed

definition watcherSends :: "'w env \<Rightarrow> (ethTx \<Rightarrow> goerr + address) \<Rightarrow> transferMatch list \<Rightarrow> bool" where
  "watcherSends E Sender ms \<longleftrightarrow>
     (\<exists>fullErr hashErr loaded out ret loaded'. watchPending E Sender fullErr hashErr loaded out ret loaded' \<and> ms \<in> set out)"

lemma watcherSends_oneTx: "watcherSends E Sender ms \<Longrightarrow> oneTx ms"
  unfolding watcherSends_def using watchPending_out goodBatch_def by metis

end
