(* ===== verification/Whole.thy ===== *)
theory Whole
  imports RestartProps Connect
begin

text \<open>
  A restarted process from its first step: \<open>Run\<close> restores from the database and then drives sessions
  whose pending transactions come from the watcher.
\<close>

section \<open>Restoring, whatever the database answers\<close>

lemma restore_chain:
  assumes st: "eStore E = Some (sqliteStore D)" and inv: "chainInv (ixChain s)"
  shows "chainInv (ixChain (snd (restore E s))) \<and> (isl (fst (restore E s)) \<longrightarrow> ixTracker (snd (restore E s)) = ixTracker s)"
proof -
  let ?ix = "icName (eCfg E)"
  have rec: "chainInv (foldl record_head c hs)" if "chainInv c" for c hs using that by (rule ring.inv_rec_all)
  obtain r1 w1 where l: "LoadIndexerState D ?ix (ixWorld s) = (r1, w1)" by (cases "LoadIndexerState D ?ix (ixWorld s)")
  show ?thesis
  proof (cases r1)
    case (Inl e)
    then show ?thesis using l inv
      by (simp add: restore_def st sqliteStore_def bindE_def attempt_def world_def fail_def split: if_splits)
  next
    case (Inr state)
    obtain s1 where p: "restoreProgress E state (s\<lparr>ixWorld := w1\<rparr>) = (Inr (), s1)" "ixTracker s1 = ixTracker s" "chainInv (ixChain s1)"
      using inv rec by (simp add: restoreProgress_exact split: option.splits)
    obtain r2 w2 where a: "LoadActiveTransactions D ?ix (ixWorld s1) = (r2, w2)" by (cases "LoadActiveTransactions D ?ix (ixWorld s1)")
    show ?thesis
    proof (cases r2)
      case (Inl e)
      then show ?thesis using l Inr p a
        by (simp add: restore_def st sqliteStore_def bindE_def attempt_def world_def fail_def split: if_splits)
    next
      case (Inr txs)
      let ?s2 = "s1\<lparr>ixWorld := w2, ixTracker := snd (Import (eCodec E) txs (ixTracker s1)), ixRestoredTx := []\<rparr>"
      obtain e tr where im: "Import (eCodec E) txs (ixTracker s1) = (e, tr)" by (cases "Import (eCodec E) txs (ixTracker s1)")
      have "restore E s = (Inr (), fold (markRestored (eCodec E)) txs ?s2)"
        using l \<open>r1 = Inr state\<close> p(1) a Inr im
        by (simp add: restore_def st sqliteStore_def bindE_def attempt_def world_def track_def forEach_modify
            modify_def [of "ixRestoredTx_update (\<lambda>_. [])"])
      moreover have "ixChain (fold (markRestored (eCodec E)) txs ?s2) = ixChain s1"
        using markRestored_all [of "eCodec E" txs ?s2] unfolding Let_def by simp
      ultimately show ?thesis using p(3) by simp
    qed
  qed
qed

lemma runIndexer_steps:
  "runIndexer E sns s = (case restore E s of
     (Inl e, s') \<Rightarrow> (Inl (if isPanic e then e else Wrap (''indexer '' @ icName (eCfg E) @ '': restoring state'') e), s')
   | (Inr x, s') \<Rightarrow> runLoop E sns backoffMin s')"
  by (auto simp: runIndexer_def bindE_def wrapErr_def attempt_def fail_def ok_def split: prod.splits sum.splits)

lemma run_fed:
  assumes "ordersOK E" and "receiptsOK E"
    and "\<forall>w ms. LiveMatches ms \<in> set (fst (eLive E w)) \<longrightarrow> watcherSends E Sender ms"
    and "\<forall>sn \<in> set sns. \<forall>ms. InLive (LiveMatches ms) \<in> set (snInputs sn) \<longrightarrow> watcherSends E Sender ms"
  shows "ixStep (eCodec E) s (snd (runLoop E sns backoff s))"
proof -
  have "liveOK E" using assms(3) watcherSends_oneTx unfolding liveOK_def by blast
  moreover have "\<forall>sn \<in> set sns. scriptOK sn" using assms(4) watcherSends_oneTx unfolding scriptOK_def by blast
  ultimately show ?thesis using drive.within_runLoop [OF assms(1,2)] by (simp add: drive.within_def)
qed

section \<open>Properties\<close>

text \<open>
  C38: a process restarted on its database. Start \<open>Run\<close> on a database whose rows mirror a tracker, let
  every list of pending matches that reaches the dispatcher come from the watcher, in any of its
  modes and in any order, and let the node, the store and the sink answer with anything, but for receipts,
  which carry only logs of the transaction asked for.
  Then, however \<open>Run\<close> goes on, the tracker and the header ring are well formed; and if restoring
  succeeded, the tracker is reached by its own operations from the one that the database mirrored.
\<close>

theorem restarted_run_safe:
  assumes "ordersOK E" and "receiptsOK E"
    and "\<forall>w ms. LiveMatches ms \<in> set (fst (eLive E w)) \<longrightarrow> watcherSends E Sender ms"
    and "\<forall>sn \<in> set sns. \<forall>ms. InLive (LiveMatches ms) \<in> set (snInputs sn) \<longrightarrow> watcherSends E Sender ms"
    and "sql_engine D live dur prog" and "hexOK (eCodec E)" and "eStore E = Some (sqliteStore D)"
    and "trackerInv t" and "\<forall>h tx. fmlookup (trTxs t) h = Some tx \<longrightarrow> storable tx"
    and "mirrors (eCodec E) (icName (eCfg E)) (dur w) t" and "distinct (map rowKey (dur w))"
  shows "let s' = snd (runIndexer E sns (newIndexer E clk w)) in
    trackerInv (ixTracker s') \<and> chainInv (ixChain s') \<and>
    (\<not> isl (fst (restore E (newIndexer E clk w))) \<longrightarrow>
      (\<exists>t0. trTxs t0 = fmmap asRestored (trTxs t) \<and> trackerReach (eCodec E) t0 (ixTracker s')))"
proof -
  let ?s = "newIndexer E clk w"
  have new: "chainInv (ixChain ?s)" "trackerInv (ixTracker ?s)" by (simp_all add: newIndexer_def chainInv_new trackerInv_new)
  obtain r s1 where r: "restore E ?s = (r, s1)" by (cases "restore E ?s")
  note C = restore_chain [OF assms(7) new(1), unfolded r]
  show ?thesis
  proof (cases r)
    case (Inl e)
    then show ?thesis using C new r by (simp add: runIndexer_steps Let_def)
  next
    case (Inr x)
    then have "restore E ?s = (Inr (), s1)" using r by simp
    note R = restored_from_mirror [OF assms(5-11) this]
    have "ixStep (eCodec E) s1 (snd (runLoop E sns backoffMin s1))" by (rule run_fed [OF assms(1-4)])
    then have reach: "trackerReach (eCodec E) (ixTracker s1) (ixTracker (snd (runLoop E sns backoffMin s1)))"
      "chainInv (ixChain s1) \<longrightarrow> chainInv (ixChain (snd (runLoop E sns backoffMin s1)))"
      using R C r by (simp_all add: ixStep_def)
    then show ?thesis using R C trackerReach_inv r Inr by (auto simp: runIndexer_steps Let_def)
  qed
qed

text \<open>The demo tracker on its database; the watcher finds a third transaction in the mempool stream.\<close>

lemma demo_watcher:
  assumes "MatchTx Sender (eMatcher E) tx = ms" and "ms \<noteq> []"
  shows "watcherSends E Sender ms"
proof -
  have "loadMempool E True w = (Inr ([], True), w)" for w by (simp add: loadMempool_def ok_def)
  moreover have "consumePendingTxs Sender (eMatcher E) [TxIn (Some tx) True] = ([ms], None)" using assms by simp
  ultimately have "watchPending E Sender None None True [ms] None True"
    by (intro watchPending.fullTxs [where part = "[]" and snapshotted = "[]" and streamed = "[ms]" and inputs = "[TxIn (Some tx) True]"])
      simp_all
  then show ?thesis unfolding watcherSends_def by (metis list.set_intros(1))
qed

lemma restartEnv_orders: "ordersOK (restartEnv D)" and restartEnv_receipts: "receiptsOK (restartEnv D)"
  by (simp_all add: sorted_orders demoTransport_receipts restartEnv_def)

definition payment :: ethTx where
  "payment = \<lparr>etHash = 3, etTo = Some 8, etValue = 5, etData = [], etNonce = 0\<rparr>"

lemma payment_matches: "MatchTx (\<lambda>_. Inr 7) demoMatcher payment \<noteq> []"
  by code_simp

theorem restarted_run_safe_witness:
  "trackerInv (ixTracker (snd (runIndexer (restartEnv memEngine)
     [\<lparr>snDialErr = None, snSubscribeErr = None,
       snInputs = [InLive (LiveMatches (MatchTx (\<lambda>_. Inr 7) demoMatcher payment)), InHeadErr (ErrText ''gone'')]\<rparr>]
     (newIndexer (restartEnv memEngine) (\<lambda>_. 1000) mirrorDb))))"
proof -
  let ?E = "restartEnv memEngine" and ?sender = "\<lambda>_ :: ethTx. Inr 7 :: goerr + address"
  let ?sn = "\<lparr>snDialErr = None, snSubscribeErr = None,
       snInputs = [InLive (LiveMatches (MatchTx ?sender demoMatcher payment)), InHeadErr (ErrText ''gone'')]\<rparr>"
  have keys: "distinct (map rowKey (dbRows mirrorDb))"
    by (simp add: mirrorState_fields rowKey_def mirrorRow_fields mirror_hashes)
  have live: "\<forall>w ms. LiveMatches ms \<in> set (fst (eLive ?E w)) \<longrightarrow> watcherSends ?E ?sender ms"
    by (simp add: restartEnv_def)
  have "watcherSends ?E ?sender (MatchTx ?sender demoMatcher payment)"
    by (rule demo_watcher [OF _ payment_matches]) (simp add: restartEnv_def)
  then have fed: "\<forall>sn \<in> set [?sn]. \<forall>ms. InLive (LiveMatches ms) \<in> set (snInputs sn) \<longrightarrow> watcherSends ?E ?sender ms" by simp
  have st: "\<forall>h tx. fmlookup (trTxs demoPend) h = Some tx \<longrightarrow> storable tx" using demo_storable by blast
  have "hexOK (eCodec ?E)" "mirrors (eCodec ?E) (icName (eCfg ?E)) (dbRows mirrorDb) demoPend"
    using decimalCodec_OK mirrorDb_mirrors by (simp_all add: restartEnv_fields)
  from restarted_run_safe [OF restartEnv_orders restartEnv_receipts live fed mem.sql_engine_axioms this(1) restartEnv_fields(2) demo_inv st this(2) keys,
      of "\<lambda>_. 1000"]
  show ?thesis by (simp add: Let_def)
qed

end
