(* ===== verification/Pipeline.thy ===== *)
theory Pipeline
  imports Fetching "HOL-Library.Multiset"
begin

text \<open>
  The goroutines of \<open>prefetchBlocks\<close> (internal/indexer/indexer.go) as a transition system: a feeder that
  makes slots and hands out spans, the workers, and the consumer, over the channels \<open>jobs\<close>,
  \<open>ordered\<close> and one channel per slot. Every run ends, no state blocks all goroutines before they have
  ended, and what the workers may have fetched by then is what the sequential model of \<open>Indexer\<close> allows.
\<close>

section \<open>State\<close>

text \<open>
  A slot is known by its position in the scan. A worker that fetches holds the slots of its span that
  it has not filled yet. The feeder leaves by closing \<open>ordered\<close> and then \<open>jobs\<close> (the deferred calls).
\<close>

datatype feeder = Feeding | Leaving | FeederGone

datatype fetchWorker = WorkerWaits | Fetching "(nat \<times> u64) list" | WorkerGone

datatype consumer = Ready | Awaits nat | Finished | Abandoned

record pipeline =
  plTodo :: "u64 list"
  plMade :: nat
  plPending :: "(nat \<times> u64) list"
  plFeeder :: feeder
  plJobs :: "(nat \<times> u64) list list"
  plOrdered :: "nat list"
  plWorkers :: "fetchWorker list"
  plSlots :: "(nat \<times> u64) list"
  plConsumer :: consumer
  plResults :: "u64 list"
  plCtxDone :: bool

definition pipeStart :: "'w env \<Rightarrow> u64 list \<Rightarrow> pipeline" where
  "pipeStart E ns = \<lparr>plTodo = ns, plMade = 0, plPending = [], plFeeder = Feeding, plJobs = [], plOrdered = [],
     plWorkers = replicate (workerCount E) WorkerWaits, plSlots = [], plConsumer = Ready, plResults = [], plCtxDone = False\<rparr>"

text \<open>The capacity of \<open>ordered\<close>; that of \<open>jobs\<close> is the number of workers, that of a slot is one.\<close>

definition orderedCap :: "'w env \<Rightarrow> nat" where
  "orderedCap E = 2 * workerCount E * batchBlocks E"

text \<open>The context of the prefetcher ends with its parent, or when the consumer returns.\<close>

definition prefetchDone :: "pipeline \<Rightarrow> bool" where
  "prefetchDone p \<longleftrightarrow> plCtxDone p \<or> plConsumer p = Finished \<or> plConsumer p = Abandoned"

section \<open>Steps\<close>

text \<open>
  The result of a slot is known by the number it was fetched for. A worker fills the slots of its
  span in any order (\<open>fetchSpan\<close> first those that the batch served, then the rest); it sends to a channel
  with room for one.
\<close>

inductive pipeStep :: "'w env \<Rightarrow> pipeline \<Rightarrow> pipeline \<Rightarrow> bool" for E where
  emit: "plFeeder p = Feeding \<Longrightarrow> plTodo p = n # ns \<Longrightarrow> length (plPending p) < batchBlocks E \<Longrightarrow>
     length (plOrdered p) < orderedCap E \<Longrightarrow>
     pipeStep E p (p\<lparr>plTodo := ns, plMade := Suc (plMade p), plOrdered := plOrdered p @ [plMade p],
       plPending := plPending p @ [(plMade p, n)]\<rparr>)"
| flush: "plFeeder p = Feeding \<Longrightarrow> plPending p \<noteq> [] \<Longrightarrow> batchBlocks E \<le> length (plPending p) \<or> plTodo p = [] \<Longrightarrow>
     length (plJobs p) < workerCount E \<Longrightarrow>
     pipeStep E p (p\<lparr>plJobs := plJobs p @ [plPending p], plPending := []\<rparr>)"
| leave: "plFeeder p = Feeding \<Longrightarrow> plTodo p = [] \<and> plPending p = [] \<or> prefetchDone p \<Longrightarrow>
     pipeStep E p (p\<lparr>plFeeder := Leaving\<rparr>)"
| closeJobs: "plFeeder p = Leaving \<Longrightarrow> pipeStep E p (p\<lparr>plFeeder := FeederGone\<rparr>)"
| take: "i < length (plWorkers p) \<Longrightarrow> plWorkers p ! i = WorkerWaits \<Longrightarrow> plJobs p = sp # sps \<Longrightarrow>
     pipeStep E p (p\<lparr>plJobs := sps, plWorkers := (plWorkers p)[i := Fetching sp]\<rparr>)"
| fill: "i < length (plWorkers p) \<Longrightarrow> plWorkers p ! i = Fetching sp \<Longrightarrow> (k, n) \<in> set sp \<Longrightarrow> k \<notin> fst ` set (plSlots p) \<Longrightarrow>
     pipeStep E p (p\<lparr>plSlots := (k, n) # plSlots p, plWorkers := (plWorkers p)[i := Fetching (remove1 (k, n) sp)]\<rparr>)"
| spanDone: "i < length (plWorkers p) \<Longrightarrow> plWorkers p ! i = Fetching [] \<Longrightarrow>
     pipeStep E p (p\<lparr>plWorkers := (plWorkers p)[i := WorkerWaits]\<rparr>)"
| workerEnds: "i < length (plWorkers p) \<Longrightarrow> plWorkers p ! i = WorkerWaits \<Longrightarrow> plJobs p = [] \<Longrightarrow> plFeeder p = FeederGone \<Longrightarrow>
     pipeStep E p (p\<lparr>plWorkers := (plWorkers p)[i := WorkerGone]\<rparr>)"
| nextSlot: "plConsumer p = Ready \<Longrightarrow> plOrdered p = k # ks \<Longrightarrow>
     pipeStep E p (p\<lparr>plOrdered := ks, plConsumer := Awaits k\<rparr>)"
| receive: "plConsumer p = Awaits k \<Longrightarrow> (k, n) \<in> set (plSlots p) \<Longrightarrow>
     pipeStep E p (p\<lparr>plSlots := remove1 (k, n) (plSlots p), plConsumer := Ready, plResults := plResults p @ [n]\<rparr>)"
| stopAwaiting: "plConsumer p = Awaits k \<Longrightarrow> plCtxDone p \<Longrightarrow> pipeStep E p (p\<lparr>plConsumer := Abandoned\<rparr>)"
| finish: "plConsumer p = Ready \<Longrightarrow> plOrdered p = [] \<Longrightarrow> plFeeder p \<noteq> Feeding \<Longrightarrow>
     pipeStep E p (p\<lparr>plConsumer := Finished\<rparr>)"

text \<open>
  What the surroundings may do: end the context, or make the loop of the consumer return early, at an
  error or past the cutoff of a catch-up.
\<close>

inductive pipeStop :: "pipeline \<Rightarrow> pipeline \<Rightarrow> bool" where
  ctxEnds: "\<not> plCtxDone p \<Longrightarrow> pipeStop p (p\<lparr>plCtxDone := True\<rparr>)"
| returns: "plConsumer p = Ready \<Longrightarrow> plResults p \<noteq> [] \<Longrightarrow> pipeStop p (p\<lparr>plConsumer := Abandoned\<rparr>)"

inductive pipeRun :: "'w env \<Rightarrow> u64 list \<Rightarrow> pipeline \<Rightarrow> bool" for E ns where
  start: "pipeRun E ns (pipeStart E ns)"
| step: "pipeRun E ns p \<Longrightarrow> pipeStep E p p' \<Longrightarrow> pipeRun E ns p'"
| stop: "pipeRun E ns p \<Longrightarrow> pipeStop p p' \<Longrightarrow> pipeRun E ns p'"

text \<open>Every goroutine has ended.\<close>

definition pipeOver :: "pipeline \<Rightarrow> bool" where
  "pipeOver p \<longleftrightarrow> plFeeder p = FeederGone \<and> set (plWorkers p) \<subseteq> {WorkerGone} \<and>
     (plConsumer p = Finished \<or> plConsumer p = Abandoned)"

section \<open>Conservation\<close>

fun workerSpan :: "fetchWorker \<Rightarrow> (nat \<times> u64) list" where
  "workerSpan (Fetching sp) = sp"
| "workerSpan w = []"

definition outstanding :: "pipeline \<Rightarrow> (nat \<times> u64) multiset" where
  "outstanding p = mset (concat (plJobs p)) + sum_list (map (\<lambda>w. mset (workerSpan w)) (plWorkers p))"

text \<open>The slots from \<open>a\<close> to before \<open>b\<close>, with their numbers.\<close>

definition tagged :: "u64 list \<Rightarrow> nat \<Rightarrow> nat \<Rightarrow> (nat \<times> u64) list" where
  "tagged ns a b = map (\<lambda>j. (j, ns ! j)) [a..<b]"

text \<open>The slots whose spans were handed out, and those that were handed to the consumer.\<close>

definition given :: "pipeline \<Rightarrow> nat" where
  "given p = plMade p - length (plPending p)"

definition handed :: "pipeline \<Rightarrow> nat" where
  "handed p = plMade p - length (plOrdered p)"

definition feederInv :: "'w env \<Rightarrow> u64 list \<Rightarrow> pipeline \<Rightarrow> bool" where
  "feederInv E ns p \<longleftrightarrow> plMade p \<le> length ns \<and> plTodo p = drop (plMade p) ns \<and>
     length (plPending p) \<le> plMade p \<and> length (plPending p) \<le> batchBlocks E \<and> plPending p = tagged ns (given p) (plMade p) \<and>
     length (plOrdered p) \<le> plMade p \<and> length (plOrdered p) \<le> orderedCap E \<and>
     (plFeeder p \<noteq> Feeding \<longrightarrow> \<not> prefetchDone p \<longrightarrow> plTodo p = [] \<and> plPending p = [])"

definition spansInv :: "'w env \<Rightarrow> u64 list \<Rightarrow> pipeline \<Rightarrow> bool" where
  "spansInv E ns p \<longleftrightarrow> (\<exists>out. chunksOf (batchBlocks E) ns = out @ chunksOf (batchBlocks E) (map snd (plPending p) @ plTodo p) \<and>
     length (concat out) = given p \<and> (\<forall>sp \<in> set (plJobs p). sp \<noteq> [] \<and> map snd sp \<in> set out))"

definition workersInv :: "'w env \<Rightarrow> pipeline \<Rightarrow> bool" where
  "workersInv E p \<longleftrightarrow> length (plWorkers p) = workerCount E \<and>
     (WorkerGone \<in> set (plWorkers p) \<longrightarrow> plFeeder p = FeederGone \<and> plJobs p = [])"

text \<open>
  The slots whose spans were handed out are, each once, with a worker or on the way to one, filled, or
  received.
\<close>

definition slotsInv :: "u64 list \<Rightarrow> pipeline \<Rightarrow> bool" where
  "slotsInv ns p \<longleftrightarrow>
     outstanding p + mset (plSlots p) + mset (tagged ns 0 (length (plResults p))) = mset (tagged ns 0 (given p))"

definition consumerInv :: "u64 list \<Rightarrow> pipeline \<Rightarrow> bool" where
  "consumerInv ns p \<longleftrightarrow> plResults p = take (length (plResults p)) ns \<and>
     (case plConsumer p of
        Ready \<Rightarrow> handed p = length (plResults p) \<and> plOrdered p = [handed p..<plMade p]
      | Awaits k \<Rightarrow> k = length (plResults p) \<and> handed p = Suc k \<and> plOrdered p = [handed p..<plMade p]
      | Finished \<Rightarrow> plCtxDone p \<or> plResults p = ns
      | Abandoned \<Rightarrow> True)"

lemma tagged_append: "a \<le> b \<Longrightarrow> b \<le> c \<Longrightarrow> tagged ns a b @ tagged ns b c = tagged ns a c"
  unfolding tagged_def map_append [symmetric] by (metis le_add_diff_inverse upt_add_eq_append)

lemma tagged_snoc: "a \<le> b \<Longrightarrow> tagged ns a (Suc b) = tagged ns a b @ [(b, ns ! b)]"
  by (simp add: tagged_def)

lemma tagged_empty [simp]: "tagged ns a a = []" and tagged_length [simp]: "length (tagged ns a b) = b - a"
  and tagged_mem: "(k, n) \<in> set (tagged ns a b) \<longleftrightarrow> a \<le> k \<and> k < b \<and> n = ns ! k"
  and tagged_fst: "map fst (tagged ns a b) = [a..<b]"
  by (auto simp: tagged_def comp_def)

lemma tagged_snd: "b \<le> length ns \<Longrightarrow> map snd (tagged ns a b) = drop a (take b ns)"
  by (rule nth_equalityI) (auto simp: tagged_def)

lemma workers_update:
  "i < length ws \<Longrightarrow> sum_list (map f (ws[i := w])) + f (ws ! i) = sum_list (map f ws) + (f w :: 'a multiset)"
  by (induction ws arbitrary: i) (auto simp: ac_simps split: nat.splits)

lemma outstanding_update:
  assumes "i < length (plWorkers p)"
  shows "outstanding (p\<lparr>plJobs := js, plWorkers := (plWorkers p)[i := w]\<rparr>) + mset (workerSpan (plWorkers p ! i)) + mset (concat (plJobs p)) =
    outstanding p + mset (workerSpan w) + mset (concat js)"
  using workers_update [OF assms, of "\<lambda>w. mset (workerSpan w)" w] by (simp add: outstanding_def ac_simps)

section \<open>Every step keeps the invariants\<close>

lemma start_inv:
  "feederInv E ns (pipeStart E ns)" "spansInv E ns (pipeStart E ns)" "workersInv E (pipeStart E ns)"
  "slotsInv ns (pipeStart E ns)" "consumerInv ns (pipeStart E ns)"
proof -
  have "sum_list (replicate k {#}) = ({#} :: (nat \<times> u64) multiset)" for k
    by (induction k) simp_all
  then show "slotsInv ns (pipeStart E ns)"
    by (simp add: slotsInv_def pipeStart_def outstanding_def given_def)
qed (simp_all add: feederInv_def spansInv_def workersInv_def consumerInv_def pipeStart_def given_def handed_def)

lemma drop_next: "drop k xs = x # ys \<Longrightarrow> k < length xs \<and> x = xs ! k \<and> ys = drop (Suc k) xs"
  by (metis Cons_nth_drop_Suc drop_all linorder_not_le list.distinct(1) list.sel(1) list.sel(3))

lemma step_feeder:
  assumes "pipeStep E p p'" and "feederInv E ns p"
  shows "feederInv E ns p'"
  using assms(1)
proof cases
  case (emit n rest)
  then have "plMade p < length ns \<and> n = ns ! plMade p \<and> rest = drop (Suc (plMade p)) ns"
    using assms(2) by (intro drop_next) (simp add: feederInv_def)
  moreover have "plPending p = tagged ns (given p) (plMade p)" "given p \<le> plMade p"
    using assms(2) by (auto simp: feederInv_def given_def)
  ultimately show ?thesis using assms(2) emit
    by (auto simp: feederInv_def given_def tagged_snoc)
qed (use assms(2) in \<open>auto simp: feederInv_def given_def prefetchDone_def\<close>)

lemma chunksOf_one: "0 < b \<Longrightarrow> xs \<noteq> [] \<Longrightarrow> length xs \<le> b \<Longrightarrow> length xs = b \<or> ys = [] \<Longrightarrow> chunksOf b (xs @ ys) = xs # chunksOf b ys"
  by (cases xs) (auto simp: Suc_diff_le)

lemma batchBlocks_pos: "0 < batchBlocks E"
  by (simp add: batchBlocks_def)

lemma step_spans:
  assumes "pipeStep E p p'" and "feederInv E ns p" and "spansInv E ns p"
  shows "spansInv E ns p'"
proof -
  let ?b = "batchBlocks E"
  obtain out where out: "chunksOf ?b ns = out @ chunksOf ?b (map snd (plPending p) @ plTodo p)" "length (concat out) = given p"
    "\<forall>sp \<in> set (plJobs p). sp \<noteq> [] \<and> map snd sp \<in> set out"
    using assms(3) by (auto simp: spansInv_def)
  show ?thesis using assms(1)
  proof cases
    case flush
    have "chunksOf ?b (map snd (plPending p) @ plTodo p) = map snd (plPending p) # chunksOf ?b (plTodo p)"
      using flush(3,4) assms(2) by (intro chunksOf_one batchBlocks_pos) (auto simp: feederInv_def)
    then have "chunksOf ?b ns = (out @ [map snd (plPending p)]) @ chunksOf ?b (plTodo p)" using out(1) by simp
    moreover have "length (concat (out @ [map snd (plPending p)])) = plMade p"
      using out(2) assms(2) by (simp add: given_def feederInv_def)
    ultimately show ?thesis unfolding spansInv_def flush(1)
      using out(3) flush(3) by (intro exI [of _ "out @ [map snd (plPending p)]"]) (auto simp: given_def)
  qed (use out in \<open>auto simp: spansInv_def given_def intro!: exI [of _ out]\<close>)
qed

lemma step_workers:
  assumes "pipeStep E p p'" and "workersInv E p"
  shows "workersInv E p'"
  using assms(1)
proof cases
  case (workerEnds i)
  then show ?thesis using assms(2) by (simp add: workersInv_def)
qed (use assms(2) in \<open>auto simp: workersInv_def dest!: set_update_subset_insert [THEN subsetD]\<close>)

lemma slots_part:
  assumes "slotsInv ns p"
  shows "set (plSlots p) \<subseteq> set (tagged ns 0 (given p))" "set_mset (outstanding p) \<subseteq> set (tagged ns 0 (given p))"
    "distinct (map fst (plSlots p))" "fst ` set_mset (outstanding p) \<inter> fst ` set (plSlots p) = {}"
    "k \<in> fst ` set (plSlots p) \<Longrightarrow> length (plResults p) \<le> k"
proof -
  let ?res = "tagged ns 0 (length (plResults p))"
  note eq = assms [unfolded slotsInv_def]
  have "set_mset (outstanding p + mset (plSlots p) + mset ?res) = set (tagged ns 0 (given p))" unfolding eq by simp
  then show "set (plSlots p) \<subseteq> set (tagged ns 0 (given p))" "set_mset (outstanding p) \<subseteq> set (tagged ns 0 (given p))" by auto
  obtain ws where ws: "mset ws = outstanding p" by (metis ex_mset)
  have "mset (map fst (ws @ plSlots p @ ?res)) = mset (map fst (tagged ns 0 (given p)))"
    using arg_cong [OF eq, of "image_mset fst"] ws by (simp add: ac_simps)
  then have "distinct (map fst (ws @ plSlots p @ ?res))"
    unfolding tagged_fst by (metis distinct_upt mset_eq_imp_distinct_iff)
  then show "distinct (map fst (plSlots p))" "fst ` set_mset (outstanding p) \<inter> fst ` set (plSlots p) = {}"
    "k \<in> fst ` set (plSlots p) \<Longrightarrow> length (plResults p) \<le> k"
    by (auto simp: tagged_fst ws [symmetric] simp flip: set_map)
qed

lemma step_slots:
  assumes "pipeStep E p p'" and "feederInv E ns p" and "slotsInv ns p" and "consumerInv ns p"
  shows "slotsInv ns p'"
proof -
  note eq = assms(3) [unfolded slotsInv_def]
  show ?thesis using assms(1)
  proof cases
    case (emit n rest)
    then show ?thesis using eq by (simp add: slotsInv_def given_def outstanding_def)
  next
    case flush
    have "mset (tagged ns 0 (given p)) + mset (plPending p) = mset (tagged ns 0 (plMade p))"
      using assms(2) tagged_append [of 0 "given p" "plMade p" ns]
      by (simp add: feederInv_def given_def flip: mset_append)
    then show ?thesis using eq flush(1) by (simp add: slotsInv_def given_def outstanding_def ac_simps)
  next
    case (take i sp sps)
    then have "outstanding p' = outstanding p"
      using outstanding_update [OF take(2), where js = sps and w = "Fetching sp"] by simp
    then show ?thesis using eq take(1) by (simp add: slotsInv_def given_def)
  next
    case (fill i sp k n)
    have "outstanding p' + mset sp = outstanding p + mset (remove1 (k, n) sp)"
      using outstanding_update [OF fill(2), where js = "plJobs p" and w = "Fetching (remove1 (k, n) sp)"] fill(1,3) by (simp add: outstanding_def)
    moreover have "mset sp = {#(k, n)#} + mset (remove1 (k, n) sp)" using fill(4) by simp
    ultimately have "outstanding p' + {#(k, n)#} + mset (remove1 (k, n) sp) = outstanding p + mset (remove1 (k, n) sp)"
      by (simp only: add.assoc)
    then have "outstanding p' + {#(k, n)#} = outstanding p" by (rule add_right_imp_eq)
    moreover have "mset (plSlots p') = {#(k, n)#} + mset (plSlots p)" "plResults p' = plResults p" "given p' = given p"
      using fill(1) by (simp_all add: given_def)
    ultimately show ?thesis using eq unfolding slotsInv_def by (simp only: add.assoc [symmetric])
  next
    case (spanDone i)
    then have "outstanding p' = outstanding p"
      using outstanding_update [OF spanDone(2), where js = "plJobs p" and w = WorkerWaits] by (simp add: outstanding_def)
    then show ?thesis using eq spanDone(1) by (simp add: slotsInv_def given_def)
  next
    case (workerEnds i)
    then have "outstanding p' = outstanding p"
      using outstanding_update [OF workerEnds(2), where js = "plJobs p" and w = WorkerGone] by (simp add: outstanding_def)
    then show ?thesis using eq workerEnds(1) by (simp add: slotsInv_def given_def)
  next
    case (receive k n)
    have "k = length (plResults p)" using receive(2) assms(4) by (simp add: consumerInv_def)
    moreover have "(k, n) \<in> set (tagged ns 0 (given p))" using slots_part(1) [OF assms(3)] receive(3) by blast
    ultimately have "mset (plSlots p) + mset (tagged ns 0 (length (plResults p))) =
        mset (remove1 (k, n) (plSlots p)) + mset (tagged ns 0 (Suc (length (plResults p))))"
      using receive(3) by (simp add: tagged_mem tagged_snoc)
    moreover have "outstanding p' = outstanding p" "given p' = given p" "plSlots p' = remove1 (k, n) (plSlots p)"
      "length (plResults p') = Suc (length (plResults p))" using receive(1) by (simp_all add: outstanding_def given_def)
    ultimately show ?thesis using eq unfolding slotsInv_def by (simp only: add.assoc)
  qed (use eq in \<open>simp_all add: slotsInv_def given_def outstanding_def\<close>)
qed

lemma step_consumer:
  assumes "pipeStep E p p'" and "feederInv E ns p" and "slotsInv ns p" and "consumerInv ns p"
  shows "consumerInv ns p'"
  using assms(1)
proof cases
  case (emit n rest)
  have "length (plOrdered p) \<le> plMade p" using assms(2) by (simp add: feederInv_def)
  then have "handed p' = handed p" "handed p \<le> plMade p" using emit(1) by (simp_all add: handed_def)
  then show ?thesis using assms(4) emit(1)
    by (auto simp: consumerInv_def split: consumer.splits)
next
  case (nextSlot k ks)
  have le: "length (plOrdered p) \<le> plMade p" using assms(2) by (simp add: feederInv_def)
  have "[handed p..<plMade p] = k # ks" "handed p = length (plResults p)"
    using assms(4) nextSlot(2,3) by (simp_all add: consumerInv_def)
  then have "k = handed p" "ks = [Suc (handed p)..<plMade p]" by (auto simp: upt_eq_Cons_conv)
  moreover have "plMade p - length ks = Suc (handed p)" using le nextSlot(3) by (simp add: handed_def)
  ultimately have "handed p' = Suc (handed p)" "ks = [Suc (handed p)..<plMade p]" using nextSlot(1) by (simp_all add: handed_def)
  then show ?thesis using assms(4) nextSlot(1) \<open>k = handed p\<close> \<open>handed p = length (plResults p)\<close> by (simp add: consumerInv_def)
next
  case (receive k n)
  have k: "k = length (plResults p)" "handed p = Suc k" "plOrdered p = [handed p..<plMade p]"
    using receive(2) assms(4) by (simp_all add: consumerInv_def)
  have "(k, n) \<in> set (tagged ns 0 (given p))" using slots_part(1) [OF assms(3)] receive(3) by blast
  moreover have "given p \<le> length ns" using assms(2) by (auto simp: feederInv_def given_def)
  ultimately have n: "n = ns ! length (plResults p)" "length (plResults p) < length ns" using k(1) by (auto simp: tagged_mem)
  moreover have "plResults p = take (length (plResults p)) ns" using assms(4) by (simp add: consumerInv_def)
  ultimately have "plResults p @ [n] = take (Suc (length (plResults p))) ns" by (metis take_Suc_conv_app_nth)
  moreover have "handed p' = handed p" using receive(1) by (simp add: handed_def)
  ultimately show ?thesis using k receive(1) n(2) by (simp add: consumerInv_def)
next
  case finish
  have h: "handed p = length (plResults p)" "plResults p = take (length (plResults p)) ns"
    using finish(2) assms(4) by (simp_all add: consumerInv_def)
  have "plResults p = ns" if "\<not> plCtxDone p"
  proof -
    have "plTodo p = []" "plTodo p = drop (plMade p) ns" "plMade p \<le> length ns"
      using that assms(2) finish by (auto simp: feederInv_def prefetchDone_def)
    then have "length (plResults p) = length ns" using h(1) finish(3) by (simp add: handed_def)
    then show ?thesis using h(2) by simp
  qed
  then show ?thesis using h finish(1) by (auto simp: consumerInv_def)
next
  case (stopAwaiting k)
  then show ?thesis using assms(4) by (simp add: consumerInv_def)
qed (use assms(4) in \<open>simp_all add: consumerInv_def, simp_all add: handed_def cong: consumer.case_cong\<close>)

text \<open>The same for what the surroundings do.\<close>

lemma stop_inv:
  assumes "pipeStop p p'"
  shows "feederInv E ns p \<Longrightarrow> feederInv E ns p'" "spansInv E ns p \<Longrightarrow> spansInv E ns p'" "workersInv E p \<Longrightarrow> workersInv E p'"
    "slotsInv ns p \<Longrightarrow> slotsInv ns p'" "consumerInv ns p \<Longrightarrow> consumerInv ns p'"
  using assms
  by (auto elim!: pipeStop.cases simp: feederInv_def spansInv_def workersInv_def slotsInv_def consumerInv_def given_def handed_def
      outstanding_def prefetchDone_def split: consumer.splits)

lemma run_inv:
  "pipeRun E ns p \<Longrightarrow> feederInv E ns p \<and> spansInv E ns p \<and> workersInv E p \<and> slotsInv ns p \<and> consumerInv ns p"
proof (induction rule: pipeRun.induct)
  case start
  then show ?case using start_inv by blast
next
  case (step p p')
  then show ?case using step_feeder step_spans step_workers step_slots step_consumer by blast
next
  case (stop p p')
  then show ?case using stop_inv by blast
qed

section \<open>Every run ends\<close>

fun workerWork :: "fetchWorker \<Rightarrow> nat" where
  "workerWork WorkerWaits = 1"
| "workerWork (Fetching sp) = 2 + length sp"
| "workerWork WorkerGone = 0"

fun feederWork :: "feeder \<Rightarrow> nat" where
  "feederWork Feeding = 2"
| "feederWork Leaving = 1"
| "feederWork FeederGone = 0"

fun consumerWork :: "consumer \<Rightarrow> nat" where
  "consumerWork Ready = 1"
| "consumerWork (Awaits k) = 2"
| "consumerWork c = 0"

definition pipeWork :: "pipeline \<Rightarrow> nat" where
  "pipeWork p = 7 * length (plTodo p) + 4 * length (plPending p) + 3 * length (concat (plJobs p)) + 2 * length (plOrdered p) +
     sum_list (map workerWork (plWorkers p)) + feederWork (plFeeder p) + consumerWork (plConsumer p) + (if plCtxDone p then 0 else 1)"

lemma work_update:
  "i < length ws \<Longrightarrow> sum_list (map workerWork (ws[i := w])) + workerWork (ws ! i) = sum_list (map workerWork ws) + workerWork w"
  by (induction ws arbitrary: i) (auto split: nat.splits)

lemma step_work:
  assumes "pipeStep E p p'" and "spansInv E ns p"
  shows "pipeWork p' < pipeWork p"
  using assms(1)
proof cases
  case flush
  then have "0 < length (plPending p)" by simp
  then show ?thesis using flush(1) by (simp add: pipeWork_def)
next
  case (take i sp sps)
  have "sp \<noteq> []" using assms(2) take(4) by (auto simp: spansInv_def)
  then obtain y ys where "sp = y # ys" by (cases sp) auto
  then show ?thesis using take work_update [of i "plWorkers p" "Fetching sp"] by (simp add: pipeWork_def)
next
  case (fill i sp k n)
  then have "length sp = Suc (length (remove1 (k, n) sp))" by (simp add: length_remove1) (cases sp; auto)
  then show ?thesis using fill work_update [of i "plWorkers p" "Fetching (remove1 (k, n) sp)"] by (simp add: pipeWork_def)
next
  case (spanDone i)
  then show ?thesis using work_update [of i "plWorkers p" WorkerWaits] by (simp add: pipeWork_def)
next
  case (workerEnds i)
  then show ?thesis using work_update [of i "plWorkers p" WorkerGone] by (simp add: pipeWork_def)
qed (simp_all add: pipeWork_def)

lemma stop_work: "pipeStop p p' \<Longrightarrow> pipeWork p' < pipeWork p"
  by (auto elim!: pipeStop.cases simp: pipeWork_def)

section \<open>No goroutine waits for ever\<close>

lemma worker_step:
  assumes "i < length (plWorkers p)" and "plWorkers p ! i = Fetching sp" and "slotsInv ns p"
  shows "\<exists>p'. pipeStep E p p'"
proof (cases sp)
  case Nil
  then show ?thesis using pipeStep.spanDone [OF assms(1)] assms(2) by blast
next
  case (Cons x xs)
  obtain k n where x: "x = (k, n)" by (cases x)
  have "y \<in># f (ws ! i) \<Longrightarrow> y \<in># sum_list (map f ws)" if "i < length ws" for y and f :: "fetchWorker \<Rightarrow> (nat \<times> u64) multiset" and ws
    using that by (induction ws arbitrary: i) (auto simp: nth_Cons split: nat.splits)
  from this [OF assms(1), of "(k, n)" "\<lambda>w. mset (workerSpan w)"] have "(k, n) \<in># outstanding p"
    using assms(2) Cons x by (simp add: outstanding_def)
  then have "k \<in> fst ` set_mset (outstanding p)" by force
  then have "k \<notin> fst ` set (plSlots p)" using slots_part(4) [OF assms(3)] by blast
  moreover have "(k, n) \<in> set sp" using Cons x by simp
  ultimately show ?thesis using pipeStep.fill [OF assms(1,2)] by blast
qed

lemma orderedCap_room: "batchBlocks E \<le> orderedCap E"
proof -
  have "1 * batchBlocks E \<le> 2 * workerCount E * batchBlocks E" by (rule mult_le_mono1) (simp add: workerCount_def)
  then show ?thesis by (simp add: orderedCap_def)
qed

text \<open>When the workers are idle and nothing is queued for them, what was given is filled or received.\<close>

lemma idle_filled:
  assumes "slotsInv ns p" and "outstanding p = {#}" and "k < given p" and "length (plResults p) \<le> k"
  shows "(k, ns ! k) \<in> set (plSlots p)"
proof -
  have "(k, ns ! k) \<in># mset (plSlots p) + mset (tagged ns 0 (length (plResults p)))"
    using assms(1-3) unfolding slotsInv_def by (simp add: tagged_mem)
  then show ?thesis using assms(4) by (auto simp: tagged_mem)
qed

lemma pipe_progress:
  assumes run: "pipeRun E ns p" and stuck: "\<nexists>p'. pipeStep E p p'"
  shows "pipeOver p"
proof -
  have F: "feederInv E ns p" and W: "workersInv E p" and S: "slotsInv ns p" and C: "consumerInv ns p"
    using run_inv [OF run] by blast+
  note stuck = stuck [unfolded not_ex, rule_format]
  have idle: "w = WorkerWaits \<or> w = WorkerGone" if w: "w \<in> set (plWorkers p)" for w
  proof (cases w)
    case (Fetching sp)
    obtain i where "i < length (plWorkers p)" "plWorkers p ! i = Fetching sp"
      using w Fetching by (auto simp: in_set_conv_nth)
    then show ?thesis using worker_step [OF _ _ S] stuck by blast
  qed simp_all
  have count: "length (plWorkers p) = workerCount E" "0 < workerCount E" using W by (auto simp: workersInv_def workerCount_def)
  have gone: "WorkerGone \<in> set (plWorkers p) \<Longrightarrow> plFeeder p = FeederGone \<and> plJobs p = []" using W by (simp add: workersInv_def)
  have jobs: "plJobs p = []"
  proof (rule ccontr)
    assume ne: "plJobs p \<noteq> []"
    then obtain sp sps where "plJobs p = sp # sps" by (cases "plJobs p") auto
    moreover have "plWorkers p ! 0 \<in> set (plWorkers p)" using count by simp
    then have "plWorkers p ! 0 = WorkerWaits" using idle [of "plWorkers p ! 0"] gone ne by force
    ultimately show False using stuck pipeStep.take [of 0 p sp sps E] count by simp
  qed
  have "sum_list (map (\<lambda>w. mset (workerSpan w)) ws) = {#}" if "\<forall>w \<in> set ws. w = WorkerWaits \<or> w = WorkerGone" for ws
    using that by (induction ws) auto
  then have none: "outstanding p = {#}" using idle jobs by (simp add: outstanding_def)
  have le: "given p \<le> plMade p" "length (plOrdered p) \<le> plMade p" by (use F in \<open>auto simp: given_def feederInv_def\<close>)
  have feeder: "plFeeder p = FeederGone"
  proof (cases "plFeeder p")
    case Feeding
    have pend: "plPending p = [] \<or> length (plPending p) < batchBlocks E \<and> plTodo p \<noteq> []"
      using stuck pipeStep.flush [OF Feeding] jobs count(2) by (metis linorder_not_le list.size(3))
    then have "length (plPending p) < batchBlocks E" using batchBlocks_pos [of E] by auto
    have todo: "plTodo p \<noteq> []" and alive: "\<not> prefetchDone p" using stuck pipeStep.leave [OF Feeding] pend by blast+
    obtain n rest where "plTodo p = n # rest" using todo by (cases "plTodo p") auto
    then have full: "\<not> length (plOrdered p) < orderedCap E"
      using stuck pipeStep.emit [OF Feeding _ \<open>length (plPending p) < batchBlocks E\<close>] by blast
    then have "plOrdered p \<noteq> []" using orderedCap_room [of E] batchBlocks_pos [of E] by auto
    then obtain k where k: "plConsumer p = Awaits k"
      using stuck pipeStep.nextSlot [of p] alive by (cases "plConsumer p"; cases "plOrdered p") (auto simp: prefetchDone_def)
    then have "k = length (plResults p)" "handed p = Suc k" using C by (simp_all add: consumerInv_def)
    moreover have "k < given p"
      using \<open>handed p = Suc k\<close> full orderedCap_room [of E] \<open>length (plPending p) < batchBlocks E\<close> le
      by (simp add: handed_def given_def)
    ultimately show ?thesis using idle_filled [OF S none, of k] stuck pipeStep.receive [OF k] by blast
  qed (use stuck pipeStep.closeJobs [of p] in blast)+
  have workers: "set (plWorkers p) \<subseteq> {WorkerGone}"
    using idle stuck pipeStep.workerEnds [OF _ _ jobs feeder] by (force simp: in_set_conv_nth)
  have "plConsumer p = Finished \<or> plConsumer p = Abandoned"
  proof (cases "plConsumer p")
    case Ready
    then show ?thesis using stuck pipeStep.nextSlot [OF Ready] pipeStep.finish [OF Ready] feeder by (cases "plOrdered p") auto
  next
    case (Awaits k)
    then have k: "k = length (plResults p)" "handed p = Suc k" using C by (simp_all add: consumerInv_def)
    have "\<not> plCtxDone p" using stuck pipeStep.stopAwaiting [OF Awaits] by blast
    then have "plPending p = []" using F feeder Awaits by (auto simp: feederInv_def prefetchDone_def)
    then have "k < given p" using k le by (simp add: given_def handed_def)
    then show ?thesis using idle_filled [OF S none, of k] k stuck pipeStep.receive [OF Awaits] by blast
  qed simp_all
  then show ?thesis using feeder workers by (simp add: pipeOver_def)
qed

section \<open>The sequential model\<close>

text \<open>Whatever was handed to a worker lies in a span that the sequential model calls dispatched.\<close>

lemma given_dispatched:
  assumes run: "pipeRun E ns p" and j: "(j, n) \<in> set (tagged ns 0 (given p))"
  shows "\<exists>k i. slotsOf (chunksOf (batchBlocks E) ns) ! j = (k, i) \<and> chunksOf (batchBlocks E) ns ! k ! i = n \<and>
    dispatched E (chunksOf (batchBlocks E) ns) (handed p) k"
proof -
  let ?spans = "chunksOf (batchBlocks E) ns"
  have F: "feederInv E ns p" and P: "spansInv E ns p" using run_inv [OF run] by blast+
  obtain out rest where out: "?spans = out @ rest" "length (concat out) = given p" using P by (auto simp: spansInv_def)
  have j': "j < given p" "n = ns ! j" "given p \<le> length ns" using j F by (auto simp: tagged_mem feederInv_def given_def)
  then have len: "j < length (slotsOf ?spans)" by (simp add: slotsOf_length chunksOf_concat)
  obtain k i where k: "slotsOf ?spans ! j = (k, i)" by (cases "slotsOf ?spans ! j")
  have pos: "k < length ?spans" "j = length (concat (take k ?spans)) + i" using slotsOf_position [OF len k] by auto
  have "k < length out"
  proof (rule ccontr)
    assume "\<not> k < length out"
    then have "take k ?spans = out @ take (k - length out) rest" unfolding out(1) by simp
    then show False using pos(2) j'(1) out(2) by simp
  qed
  then have "length (concat (take (Suc k) ?spans)) + length (concat (drop (Suc k) out)) = given p"
    unfolding out(1) out(2) [symmetric] by (simp flip: length_append concat_append)
  also have "given p \<le> handed p + orderedCap E" using F by (auto simp: given_def handed_def feederInv_def)
  finally have "dispatched E ?spans (handed p) k" using pos(1) by (simp add: dispatched_def orderedCap_def)
  moreover have "map (\<lambda>(k, i). ?spans ! k ! i) (slotsOf ?spans) ! j = ns ! j" by (simp only: slotsOf_in_order chunksOf_concat)
  ultimately show ?thesis using k len j'(2) by simp
qed

section \<open>Property\<close>

text \<open>
  C24: the prefetcher cannot deadlock. In every reachable state of its goroutines, with any interleaving
  and whenever the context ends or the consumer returns, some goroutine can move, or the feeder, all
  workers and the consumer have ended, so none is left behind; no run is infinite; the consumer has
  received a prefix of the scan in order, and all of it when its loop ends without the context having
  ended. A worker only ever holds or has filled slots of spans that the sequential model calls dispatched.
\<close>

theorem prefetch_no_deadlock:
  assumes "pipeRun E ns p"
  shows "(pipeOver p \<or> (\<exists>p'. pipeStep E p p')) \<and>
    (\<forall>p'. pipeStep E p p' \<or> pipeStop p p' \<longrightarrow> pipeWork p' < pipeWork p) \<and>
    plResults p = take (length (plResults p)) ns \<and> (plConsumer p = Finished \<longrightarrow> plCtxDone p \<or> plResults p = ns) \<and>
    (\<forall>(j, n) \<in> set (plSlots p) \<union> set_mset (outstanding p). \<exists>k i. slotsOf (chunksOf (batchBlocks E) ns) ! j = (k, i) \<and>
       chunksOf (batchBlocks E) ns ! k ! i = n \<and> dispatched E (chunksOf (batchBlocks E) ns) (handed p) k)"
proof -
  have P: "spansInv E ns p" and S: "slotsInv ns p" and C: "consumerInv ns p" using run_inv [OF assms] by blast+
  have "\<forall>x \<in> set (plSlots p) \<union> set_mset (outstanding p). x \<in> set (tagged ns 0 (given p))" using slots_part(1,2) [OF S] by blast
  then show ?thesis
    using pipe_progress [OF assms] step_work [OF _ P] stop_work given_dispatched [OF assms] C by (auto simp: consumerInv_def)
qed

text \<open>The consumer waits for a slot whose span is not full yet.\<close>

theorem prefetch_no_deadlock_witness:
  "\<exists>p. pipeRun demoEnv [5, 6, 7, 8] p \<and> plConsumer p = Awaits 0 \<and> plPending p = [(0, 5)] \<and> (\<exists>p'. pipeStep demoEnv p p')"
proof -
  let ?p0 = "pipeStart demoEnv [5, 6, 7, 8]"
  let ?p1 = "?p0\<lparr>plTodo := [6, 7, 8], plMade := Suc (plMade ?p0), plOrdered := plOrdered ?p0 @ [plMade ?p0],
       plPending := plPending ?p0 @ [(plMade ?p0, 5)]\<rparr>"
  let ?p2 = "?p1\<lparr>plOrdered := [], plConsumer := Awaits 0\<rparr>"
  have size: "0 < batchBlocks demoEnv" "0 < orderedCap demoEnv"
    by (simp_all add: orderedCap_def workerCount_def batchBlocks_def demoEnv_def demoConfig_def)
  have "pipeStep demoEnv ?p0 ?p1" by (rule pipeStep.emit) (use size in \<open>simp_all add: pipeStart_def\<close>)
  moreover have "pipeStep demoEnv ?p1 ?p2" by (rule pipeStep.nextSlot) (simp_all add: pipeStart_def)
  ultimately have run: "pipeRun demoEnv [5, 6, 7, 8] ?p2" by (meson pipeRun.start pipeRun.step)
  moreover have "\<not> pipeOver ?p2" by (simp add: pipeOver_def)
  ultimately have "\<exists>p'. pipeStep demoEnv ?p2 p'" using prefetch_no_deadlock by blast
  with run show ?thesis by (intro exI [of _ ?p2]) (simp add: pipeStart_def)
qed

end
