(* ===== verification/ApiLive.thy ===== *)
theory ApiLive
  imports Api
begin

text \<open>
  What a client of the event stream gets of the live events. Every call of \<open>handleEvents\<close> takes time in
  which the other goroutines go on, so each of them may leave the hub as any operations of theirs leave
  it. The argument is of the rely and guarantee kind: the others neither receive on the stream's channel
  nor cancel its subscription, and what the stream has received with what waits in its channel stays
  a prefix of the events emitted since the request began.
\<close>

section \<open>The others\<close>











section \<open>The stream\<close>


section \<open>A stream beside an indexer\<close>







section \<open>Property\<close>







end
