(* ===== verification/Serving.thy ===== *)
theory Serving
  imports Api
begin

text \<open>
  The routes of the two HTTP servers: \<open>Handler\<close> of internal/api/api.go and the metrics mux of
  cmd/ethindex/main.go. A mux is the list of its patterns; a pattern is a path and perhaps a method, as no
  pattern of the source has a wildcard. The path of a request is the cleaned one: net/http
  redirects a request for another spelling of it.
\<close>

section \<open>The multiplexer\<close>

record pattern =
  ptMethod :: string
  ptPath :: string

text \<open>GET in a pattern stands for GET and HEAD; an empty method for all.\<close>

definition patternMatches :: "string \<Rightarrow> string \<Rightarrow> pattern \<Rightarrow> bool" where
  "patternMatches meth path p \<longleftrightarrow> ptPath p = path \<and>
     (ptMethod p = '''' \<or> ptMethod p = meth \<or> ptMethod p = ''GET'' \<and> meth = ''HEAD'')"

datatype 'h dispatched = Handled 'h | MethodNotAllowed | PageNotFound

definition muxServe :: "(pattern \<times> 'h) list \<Rightarrow> string \<Rightarrow> string \<Rightarrow> 'h dispatched" where
  "muxServe mux meth path =
     (case find (\<lambda>(p, h). patternMatches meth path p) mux of
        Some (p, h) \<Rightarrow> Handled h
      | None \<Rightarrow> if \<exists>(p, h) \<in> set mux. ptPath p = path then MethodNotAllowed else PageNotFound)"

section \<open>The routes\<close>

datatype route = EventsRoute | LatestRoute | HealthRoute | MetricsRoute

definition apiMux :: "(pattern \<times> route) list" where
  "apiMux =
     [(\<lparr>ptMethod = ''GET'', ptPath = ''/v1/events''\<rparr>, EventsRoute),
      (\<lparr>ptMethod = ''GET'', ptPath = ''/v1/events/latest''\<rparr>, LatestRoute),
      (\<lparr>ptMethod = '''', ptPath = ''/healthz''\<rparr>, HealthRoute)]"

definition metricsMux :: "(pattern \<times> route) list" where
  "metricsMux =
     [(\<lparr>ptMethod = '''', ptPath = ''/metrics''\<rparr>, MetricsRoute), (\<lparr>ptMethod = '''', ptPath = ''/healthz''\<rparr>, HealthRoute)]"

text \<open>
  What the API does with a request; \<open>inps\<close> is what the select of a stream receives. The answers
  to requests that reach no handler are those of net/http.
\<close>

definition serveAPI :: "'w server \<Rightarrow> string \<Rightarrow> string \<Rightarrow> request \<Rightarrow> 'w streamInput list \<Rightarrow> 'w \<Rightarrow> ((goerr + unit) \<times> 'w) option" where
  "serveAPI sv meth path rq inps w =
     (case muxServe apiMux meth path of
        Handled EventsRoute \<Rightarrow> handleEvents sv rq inps w
      | Handled LatestRoute \<Rightarrow> Some (handleLatest sv rq w)
      | Handled _ \<Rightarrow> Some (ignoring (svWrite sv (StatusResponse 200)) w)
      | MethodNotAllowed \<Rightarrow> Some (ignoring (svWrite sv (StatusResponse 405)) w)
      | PageNotFound \<Rightarrow> Some (ignoring (svWrite sv (StatusResponse 404)) w))"

section \<open>What is reached\<close>

lemma api_routes:
  "muxServe apiMux meth path = Handled r \<longleftrightarrow>
     (r = EventsRoute \<and> path = ''/v1/events'' \<and> meth \<in> {''GET'', ''HEAD''}) \<or>
     (r = LatestRoute \<and> path = ''/v1/events/latest'' \<and> meth \<in> {''GET'', ''HEAD''}) \<or>
     (r = HealthRoute \<and> path = ''/healthz'')"
  by (auto simp: muxServe_def apiMux_def patternMatches_def)

text \<open>A request that is not for a stream neither subscribes nor touches the hub.\<close>

lemma only_streams_subscribe:
  assumes "path \<noteq> ''/v1/events'' \<or> meth \<notin> {''GET'', ''HEAD''}"
  shows "\<exists>fr. serveAPI sv meth path rq inps w = Some (handleLatest sv rq w) \<or>
    serveAPI sv meth path rq inps w = Some (ignoring (svWrite sv fr) w)"
proof (cases "muxServe apiMux meth path")
  case (Handled r)
  then have "r \<noteq> EventsRoute" using assms by (auto simp: api_routes)
  then show ?thesis unfolding serveAPI_def Handled by (cases r) auto
qed (auto simp: serveAPI_def)

end
