(* ===== verification/CommandLine.thy ===== *)
theory CommandLine
  imports Program Metrics Serving
begin

text \<open>
  The start and the end of the process: \<open>OpenSQLite\<close> and \<open>Close\<close> of sqlite.go, and \<open>main\<close> of
  cmd/ethindex/main.go, from the flags to the exit status, with its log lines and the two HTTP
  servers it starts. The SQLite driver, the logger, the listeners and the error group that runs the indexers,
  under a context that a signal ends, are parameters.
\<close>

section \<open>Opening the database\<close>

text \<open>The driver: opening a data source gives a handle, the schema is executed on it.\<close>

record 'w dbDriver =
  drOpen :: "string \<Rightarrow> ('w, nat) rpcM"
  drSchema :: "nat \<Rightarrow> ('w, unit) rpcM"
  drClose :: "nat \<Rightarrow> 'w \<Rightarrow> goerr option \<times> 'w"

definition dataSource :: "string \<Rightarrow> string" where
  "dataSource path =
     ''file:'' @ path @ ''?_pragma=journal_mode(WAL)&_pragma=busy_timeout(5000)&_pragma=synchronous(NORMAL)''"

definition OpenSQLite :: "'w dbDriver \<Rightarrow> string \<Rightarrow> ('w, nat) goM" where
  "OpenSQLite R path =
     bindE (wrapErr (''opening sqlite database '' @ path) (wire (drOpen R (dataSource path)))) (\<lambda>db.
     bindE (attempt (wire (drSchema R db))) (\<lambda>res.
       case res of
         Inl e \<Rightarrow> bindE (modify (\<lambda>w. snd (drClose R db w))) (\<lambda>_. fail (Wrap ''initializing sqlite schema'' e))
       | Inr _ \<Rightarrow> ok db))"

definition storeClose :: "'w dbDriver \<Rightarrow> nat \<Rightarrow> ('w, goerr option) goM" where
  "storeClose R db w = (case drClose R db w of (e, w') \<Rightarrow> (Inr e, w'))"

section \<open>The log level\<close>

text \<open>
  \<open>slog.Level.UnmarshalText\<close>: a name, in any case, and an optional offset. Upper case is that of
  the letters the names consist of, among them the dotless i of Turkish, two bytes in UTF-8.
\<close>

fun upperName :: "string \<Rightarrow> string" where
  "upperName [] = []"
| "upperName (ch # cs) =
     (if ch = CHR 0xC4 \<and> cs \<noteq> [] \<and> hd cs = CHR 0xB1 then CHR ''I'' # upperName (tl cs)
      else (if 97 \<le> (of_char ch :: nat) \<and> (of_char ch :: nat) \<le> 122 then char_of ((of_char ch :: nat) - 32) else ch) # upperName cs)"

definition levelBase :: "string \<Rightarrow> int option" where
  "levelBase name =
     (if name = ''DEBUG'' then Some (- 4) else if name = ''INFO'' then Some 0
      else if name = ''WARN'' then Some 4 else if name = ''ERROR'' then Some 8 else None)"

definition parseLevel :: "string \<Rightarrow> int option" where
  "parseLevel s =
     (let name = takeWhile (\<lambda>ch. ch \<notin> set ''+-'') s; rest = dropWhile (\<lambda>ch. ch \<notin> set ''+-'') s
      in case (if rest = '''' then Some 0 else atoi rest) of
           None \<Rightarrow> None
         | Some offset \<Rightarrow> map_option (\<lambda>base. sint (word_of_int (base + offset) :: 64 word)) (levelBase (upperName name)))"

section \<open>main\<close>

record flags =
  fgConfig :: string
  fgLogLevel :: string
  fgJson :: bool
  fgPrint :: bool
  fgResume :: bool

text \<open>The log handler: JSON lines, or colored text when standard error is a terminal.\<close>

datatype logHandler = JSONHandler int | TextHandler int bool

datatype logLevel = LogInfo | LogError

text \<open>What a listener serves: the metrics mux or the routes of the API.\<close>

datatype 'd service = MetricsService | APIService "'d server"

text \<open>
  What \<open>main\<close> runs in: the database as the indexers use it, the sinks, the surroundings of an
  indexer, and the error group, which runs the indexers beside each other until all have returned
  and gives the first error; the registry of the metrics, the logger, standard error, how the API
  writes and reaches the hub, and \<open>psListen\<close>, which starts the goroutine of a server on an address.
\<close>

record 'd process =
  psEngine :: "'d sqlEngine"
  psDriver :: "'d dbDriver"
  psEmitter :: "'d sink"
  psHub :: "'d sink"
  psBase :: "indexerConfig \<Rightarrow> 'd env"
  psRunAll :: "'d env list \<Rightarrow> ('d, goerr option) goM"
  psProm :: "'d promLib"
  psTerminal :: bool
  psSetLog :: "logHandler \<Rightarrow> 'd \<Rightarrow> 'd"
  psLog :: "logLevel \<Rightarrow> string \<Rightarrow> logAttr list \<Rightarrow> 'd \<Rightarrow> 'd"
  psStderr :: "string \<Rightarrow> 'd \<Rightarrow> 'd"
  psListen :: "string \<Rightarrow> 'd service \<Rightarrow> 'd \<Rightarrow> 'd"
  psCodec :: hexcodec
  psWrite :: "frame \<Rightarrow> ('d, unit) goM"
  psHubOf :: "'d \<Rightarrow> hub"
  psSetHub :: "hub \<Rightarrow> 'd \<Rightarrow> 'd"

definition programEnvs :: "'d process \<Rightarrow> flags \<Rightarrow> config \<Rightarrow> watchedSet \<Rightarrow> 'd env list" where
  "programEnvs P fl cfg watched =
     map (\<lambda>entry. programEnv (psEngine P) (fgResume fl) (fgJson fl)
        (Multi (programSinks (fgPrint fl) cfg (psEmitter P) (psHub P))) watched entry (psBase P entry)) (cIndexers cfg)"

definition say :: "'d process \<Rightarrow> logLevel \<Rightarrow> string \<Rightarrow> logAttr list \<Rightarrow> ('d, unit) goM" where
  "say P lvl msg attrs = modify (psLog P lvl msg attrs)"

definition logHandlerFor :: "'d process \<Rightarrow> flags \<Rightarrow> int \<Rightarrow> logHandler" where
  "logHandlerFor P fl level = (if fgJson fl then JSONHandler level else TextHandler level (\<not> psTerminal P))"

definition serveMetrics :: "'d process \<Rightarrow> config \<Rightarrow> ('d, unit) goM" where
  "serveMetrics P cfg =
     (if cMetrics cfg \<noteq> '''' then bindE (Handler (psProm P)) (\<lambda>_. modify (psListen P (cMetrics cfg) MetricsService)) else ok ())"

definition apiOf :: "'d process \<Rightarrow> config \<Rightarrow> watchedSet \<Rightarrow> 'd server" where
  "apiOf P cfg watched = programServer (psEngine P) cfg watched (psCodec P) (psWrite P) (psHubOf P) (psSetHub P)"

definition startAPI :: "'d process \<Rightarrow> config \<Rightarrow> watchedSet \<Rightarrow> ('d, unit) goM" where
  "startAPI P cfg watched =
     (if cAPI cfg \<noteq> '''' then modify (psListen P (cAPI cfg) (APIService (apiOf P cfg watched))) else ok ())"

text \<open>The indexers and what follows them, with the database open; the result is the exit status.\<close>

definition finishProgram :: "'d process \<Rightarrow> nat \<Rightarrow> goerr option \<Rightarrow> ('d, int) goM" where
  "finishProgram P db err =
     bindE (say P LogInfo ''all indexers stopped'' []) (\<lambda>_.
     bindE (say P LogInfo ''closing database'' []) (\<lambda>_.
     bindE (storeClose (psDriver P) db) (\<lambda>closeErr.
     bindE (case closeErr of None \<Rightarrow> ok () | Some e \<Rightarrow> say P LogError ''closing database'' [ErrAttr ''err'' e]) (\<lambda>_.
     case err of
       Some e \<Rightarrow> bindE (say P LogError ''exited with error'' [ErrAttr ''err'' e]) (\<lambda>_. ok 1)
     | None \<Rightarrow> bindE (say P LogInfo ''shutdown complete'' []) (\<lambda>_. ok 0)))))"

text \<open>The goroutine that announces a shutdown in the log is left out.\<close>

definition runProgram :: "'d process \<Rightarrow> flags \<Rightarrow> config \<Rightarrow> watchedSet \<Rightarrow> nat \<Rightarrow> ('d, int) goM" where
  "runProgram P fl cfg watched db =
     bindE (say P LogInfo ''database open'' [StrAttr ''path'' (cDatabase cfg)]) (\<lambda>_.
     bindE (serveMetrics P cfg) (\<lambda>_.
     bindE (startAPI P cfg watched) (\<lambda>_.
     bindE (say P LogInfo ''starting indexers'' [NumAttr ''count'' (of_nat (length (cIndexers cfg)))]) (\<lambda>_.
     bindE (psRunAll P (programEnvs P fl cfg watched)) (finishProgram P db)))))"

definition mainProgram :: "'k configLib \<Rightarrow> 'd process \<Rightarrow> flags \<Rightarrow> ('d, int) goM" where
  "mainProgram L P fl =
     (case parseLevel (fgLogLevel fl) of
        None \<Rightarrow> bindE (modify (psStderr P (''invalid log level '' @ fgLogLevel fl))) (\<lambda>_. ok 1)
      | Some level \<Rightarrow>
          bindE (modify (psSetLog P (logHandlerFor P fl level))) (\<lambda>_.
          bindE (say P LogInfo ''starting'' [StrAttr ''config'' (fgConfig fl)]) (\<lambda>_.
          case Load L (fgConfig fl) of
            Inl e \<Rightarrow> bindE (say P LogError ''loading config'' [StrAttr ''path'' (fgConfig fl), ErrAttr ''err'' e]) (\<lambda>_. ok 1)
          | Inr cfg \<Rightarrow>
              bindE (deref (cWatched cfg)) (\<lambda>watched.
              bindE (say P LogInfo ''configuration loaded'' [NumAttr ''addresses'' (of_nat (watchedCount watched)),
                  NumAttr ''indexers'' (of_nat (length (cIndexers cfg)))]) (\<lambda>_.
              bindE (attempt (OpenSQLite (psDriver P) (cDatabase cfg))) (\<lambda>res.
                case res of
                  Inl e \<Rightarrow> bindE (say P LogError ''opening database'' [StrAttr ''path'' (cDatabase cfg), ErrAttr ''err'' e]) (\<lambda>_. ok 1)
                | Inr db \<Rightarrow> runProgram P fl cfg watched db))))))"

section \<open>No handle is left open\<close>

locale db_handles =
  fixes R :: "'w dbDriver" and handles :: "'w \<Rightarrow> nat set"
  assumes open_law: "drOpen R dsn w = (r, w') \<Longrightarrow>
      (case r of Inl e \<Rightarrow> handles w' = handles w | Inr db \<Rightarrow> db \<notin> handles w \<and> handles w' = insert db (handles w))"
    and schema_law: "drSchema R db w = (ru, w') \<Longrightarrow> handles w' = handles w"
    and close_law: "drClose R db w = (e, w') \<Longrightarrow> handles w' = handles w - {db}"
begin

lemma open_handles:
  assumes "OpenSQLite R path w = (r, w')"
  shows "case r of Inl e \<Rightarrow> handles w' = handles w \<and> \<not> isPanic e | Inr db \<Rightarrow> db \<notin> handles w \<and> handles w' = insert db (handles w)"
proof -
  obtain r1 w1 where o1: "drOpen R (dataSource path) w = (r1, w1)" by (cases "drOpen R (dataSource path) w")
  show ?thesis
  proof (cases r1)
    case (Inl e)
    then show ?thesis using assms o1 open_law [OF o1]
      by (auto simp: OpenSQLite_def wrapErr_def bindE_def attempt_def wire_def fail_def)
  next
    case (Inr db)
    obtain r2 w2 where o2: "drSchema R db w1 = (r2, w2)" by (cases "drSchema R db w1")
    obtain e w3 where c: "drClose R db w2 = (e, w3)" by (cases "drClose R db w2")
    show ?thesis
      using assms o1 Inr o2 c open_law [OF o1] schema_law [OF o2] close_law [OF c]
      by (cases r2) (auto simp: OpenSQLite_def wrapErr_def bindE_def attempt_def wire_def fail_def ok_def modify_def)
  qed
qed

end

lemma validate_watched_set: "validate L c = Inr cfg \<Longrightarrow> \<exists>watched. cWatched cfg = Some watched"
  unfolding validate_def Let_def by (auto simp: andThen_Inr split: if_splits)

lemma Load_watched:
  assumes "Load L path = Inr cfg"
  shows "\<exists>watched. cWatched cfg = Some watched"
proof -
  obtain data where data: "Parse L data = Inr cfg" using assms by (auto simp: Load_def split: sum.splits)
  then obtain x where x: "(case clYaml L x of Inl e \<Rightarrow> Inl (Wrap ''parsing config'' e) | Inr c \<Rightarrow> validate L c) = Inr cfg"
    by (auto simp: Parse_def andThen_Inr)
  then show ?thesis by (cases "clYaml L x") (auto intro: validate_watched_set)
qed

text \<open>
  The laws of the process: logging and listening open and close no database and register no metric,
  and neither do the indexers and the database the latter.
\<close>

definition processLaws :: "'d process \<Rightarrow> ('d \<Rightarrow> nat set) \<Rightarrow> ('d \<Rightarrow> string list) \<Rightarrow> bool" where
  "processLaws P handles regs \<longleftrightarrow>
     (\<forall>h w. handles (psSetLog P h w) = handles w \<and> regs (psSetLog P h w) = regs w) \<and>
     (\<forall>lvl msg attrs w. handles (psLog P lvl msg attrs w) = handles w \<and> regs (psLog P lvl msg attrs w) = regs w) \<and>
     (\<forall>msg w. handles (psStderr P msg w) = handles w) \<and> (\<forall>addr sv w. handles (psListen P addr sv w) = handles w) \<and>
     (\<forall>envs w. \<exists>err w'. psRunAll P envs w = (Inr err, w') \<and> handles w' = handles w) \<and>
     (\<forall>dsn w. regs (snd (drOpen (psDriver P) dsn w)) = regs w) \<and>
     (\<forall>db w. regs (snd (drSchema (psDriver P) db w)) = regs w) \<and>
     (\<forall>v w. handles (snd (pmRegister (psProm P) v w)) = handles w)"

lemma say_kept:
  assumes "processLaws P handles regs"
  shows "\<exists>w'. say P lvl msg attrs w = (Inr (), w') \<and> handles w' = handles w \<and> regs w' = regs w"
  using assms by (simp add: processLaws_def say_def)

lemma runAll_kept: "processLaws P handles regs \<Longrightarrow> \<exists>err w'. psRunAll P envs w = (Inr err, w') \<and> handles w' = handles w"
  by (simp add: processLaws_def)

lemma OpenSQLite_regs:
  assumes "processLaws P handles regs" and "OpenSQLite (psDriver P) path w = (Inr db, w')"
  shows "regs w' = regs w"
proof -
  obtain r1 w1 where o1: "drOpen (psDriver P) (dataSource path) w = (r1, w1)" by (cases "drOpen (psDriver P) (dataSource path) w")
  show ?thesis
  proof (cases r1)
    case (Inl e)
    then show ?thesis using assms(2) o1 by (auto simp: OpenSQLite_def wrapErr_def bindE_def attempt_def wire_def fail_def)
  next
    case (Inr h)
    obtain r2 w2 where o2: "drSchema (psDriver P) h w1 = (r2, w2)" by (cases "drSchema (psDriver P) h w1")
    obtain e w3 where c: "drClose (psDriver P) h w2 = (e, w3)" by (cases "drClose (psDriver P) h w2")
    have "regs w1 = regs w" "regs w2 = regs w1" using assms(1) o1 o2 unfolding processLaws_def by (metis snd_conv)+
    then show ?thesis using assms(2) o1 Inr o2 c
      by (cases r2) (auto simp: OpenSQLite_def wrapErr_def bindE_def attempt_def wire_def fail_def ok_def modify_def)
  qed
qed

lemma serveMetrics_kept:
  assumes "processLaws P handles regs" and "prom_registry (psProm P) packageVecs regs series"
    and "set (regs w) \<inter> set (map mvName registerOrder) = {}" and "distinct (regs w)"
  shows "\<exists>w'. serveMetrics P cfg w = (Inr (), w') \<and> handles w' = handles w"
proof (cases "cMetrics cfg = ''''")
  case True
  then show ?thesis by (simp add: serveMetrics_def)
next
  case False
  obtain w1 where w1: "Handler (psProm P) w = (Inr (), w1)" using Handler_registers [OF assms(2-4)] by blast
  have "state_relation (\<lambda>w w'. handles w' = handles w)" by unfold_locales auto
  moreover have "handles (snd (pmRegister (psProm P) v w)) = handles w" for v w
    using assms(1) by (simp add: processLaws_def)
  ultimately have "state_relation.within (\<lambda>w w'. handles w' = handles w) (Handler (psProm P))"
    unfolding Handler_def by (intro state_relation.within_forEach) (simp_all add: state_relation.within_def)
  from state_relation.within_run [OF \<open>state_relation _\<close> this w1] have "handles w1 = handles w" .
  moreover have "handles (psListen P (cMetrics cfg) MetricsService w1) = handles w1"
    using assms(1) by (simp add: processLaws_def)
  ultimately show ?thesis using False w1 by (simp add: serveMetrics_def bindE_def)
qed

lemma startAPI_kept:
  assumes "processLaws P handles regs"
  shows "\<exists>w'. startAPI P cfg watched w = (Inr (), w') \<and> handles w' = handles w"
  using assms by (simp add: processLaws_def startAPI_def)

lemma finish_ends:
  assumes D: "db_handles (psDriver P) handles" and L: "processLaws P handles regs"
  shows "\<exists>w'. finishProgram P db err w = (Inr (if err = None then 0 else 1), w') \<and> handles w' = handles w - {db}"
proof -
  obtain w1 where w1: "say P LogInfo ''all indexers stopped'' [] w = (Inr (), w1)" "handles w1 = handles w"
    using say_kept [OF L] by blast
  obtain w2 where w2: "say P LogInfo ''closing database'' [] w1 = (Inr (), w2)" "handles w2 = handles w1"
    using say_kept [OF L] by blast
  obtain ce w3 where c: "drClose (psDriver P) db w2 = (ce, w3)" by (cases "drClose (psDriver P) db w2")
  have "\<exists>w'. (case ce of None \<Rightarrow> ok () | Some e \<Rightarrow> say P LogError ''closing database'' [ErrAttr ''err'' e]) w3 = (Inr (), w') \<and> handles w' = handles w3"
    using say_kept [OF L, of LogError "''closing database''" "[ErrAttr ''err'' (the ce)]" w3] by (cases ce) auto
  then obtain w4 where w4: "(case ce of None \<Rightarrow> ok () | Some e \<Rightarrow> say P LogError ''closing database'' [ErrAttr ''err'' e]) w3 = (Inr (), w4)"
    "handles w4 = handles w3" by blast
  obtain w5 w6 where w5: "say P LogError ''exited with error'' [ErrAttr ''err'' (the err)] w4 = (Inr (), w5)" "handles w5 = handles w4"
    and w6: "say P LogInfo ''shutdown complete'' [] w4 = (Inr (), w6)" "handles w6 = handles w4" using say_kept [OF L] by metis
  have "finishProgram P db err w = (Inr (if err = None then 0 else 1), if err = None then w6 else w5)"
    using w5 w6 by (cases err) (simp_all add: finishProgram_def bindE_def w1(1) w2(1) storeClose_def c w4(1))
  then show ?thesis using db_handles.close_law [OF D c] w1 w2 w4 w5 w6 by simp
qed

lemma run_ends:
  assumes D: "db_handles (psDriver P) handles" and L: "processLaws P handles regs" and R: "prom_registry (psProm P) packageVecs regs series"
    and fresh: "set (regs w) \<inter> set (map mvName registerOrder) = {}" "distinct (regs w)"
  obtains w1 err w2 where "psRunAll P (programEnvs P fl cfg watched) w1 = (Inr err, w2)"
    and "\<exists>w'. runProgram P fl cfg watched db w = (Inr (if err = None then 0 else 1), w') \<and> handles w' = handles w - {db}"
proof -
  obtain w1 where w1: "say P LogInfo ''database open'' [StrAttr ''path'' (cDatabase cfg)] w = (Inr (), w1)"
    "handles w1 = handles w" "regs w1 = regs w" using say_kept [OF L] by blast
  obtain w2 where w2: "serveMetrics P cfg w1 = (Inr (), w2)" "handles w2 = handles w1"
    using serveMetrics_kept [OF L R, of w1 cfg] fresh w1(3) by auto
  obtain w3 where w3: "startAPI P cfg watched w2 = (Inr (), w3)" "handles w3 = handles w2" using startAPI_kept [OF L] by blast
  obtain w4 where w4: "say P LogInfo ''starting indexers'' [NumAttr ''count'' (of_nat (length (cIndexers cfg)))] w3 = (Inr (), w4)"
    "handles w4 = handles w3" using say_kept [OF L] by blast
  obtain err w5 where w5: "psRunAll P (programEnvs P fl cfg watched) w4 = (Inr err, w5)" "handles w5 = handles w4"
    using runAll_kept [OF L] by blast
  obtain w6 where w6: "finishProgram P db err w5 = (Inr (if err = None then 0 else 1), w6)" "handles w6 = handles w5 - {db}"
    using finish_ends [OF D L] by blast
  have "runProgram P fl cfg watched db w = (Inr (if err = None then 0 else 1), w6)"
    by (simp add: runProgram_def bindE_def w1(1) w2(1) w3(1) w4(1) w5(1) w6(1))
  then show thesis using that [OF w5(1)] w1 w2 w3 w4 w5 w6 by auto
qed

text \<open>
  How the process ends: it always exits with a status, never with a panic, and on every path the
  database handle it opened is closed. The status is 1 when the log level or the configuration is
  refused, the database does not open or an indexer returns an error, and 0 otherwise.
\<close>

theorem main_exits:
  assumes D: "db_handles (psDriver P) handles" and L: "processLaws P handles regs" and R: "prom_registry (psProm P) packageVecs regs series"
    and fresh: "set (regs w) \<inter> set (map mvName registerOrder) = {}" "distinct (regs w)"
  shows "\<exists>code w'. mainProgram L P fl w = (Inr code, w') \<and> handles w' = handles w \<and>
    (case Load L (fgConfig fl) of
       Inl e \<Rightarrow> code = 1
     | Inr cfg \<Rightarrow> parseLevel (fgLogLevel fl) = None \<and> code = 1 \<or>
         (\<exists>watched w1. cWatched cfg = Some watched \<and>
            (case fst (OpenSQLite (psDriver P) (cDatabase cfg) w1) of
               Inl e \<Rightarrow> code = 1
             | Inr db \<Rightarrow> \<exists>w2 err. fst (psRunAll P (programEnvs P fl cfg watched) w2) = Inr err \<and>
                 code = (if err = None then 0 else 1))))"
proof (cases "parseLevel (fgLogLevel fl)")
  case None
  then show ?thesis using L by (auto simp: mainProgram_def bindE_def processLaws_def split: sum.split)
next
  case (Some level)
  let ?w0 = "psSetLog P (logHandlerFor P fl level) w"
  have w0: "handles ?w0 = handles w" "regs ?w0 = regs w" using L by (simp_all add: processLaws_def)
  obtain w1 where w1: "say P LogInfo ''starting'' [StrAttr ''config'' (fgConfig fl)] ?w0 = (Inr (), w1)"
    "handles w1 = handles w" "regs w1 = regs w" using say_kept [OF L] w0 by metis
  show ?thesis
  proof (cases "Load L (fgConfig fl)")
    case (Inl e)
    obtain w2 where "say P LogError ''loading config'' [StrAttr ''path'' (fgConfig fl), ErrAttr ''err'' e] w1 = (Inr (), w2)"
      "handles w2 = handles w1" using say_kept [OF L] by blast
    then show ?thesis using Some Inl w1 by (simp add: mainProgram_def bindE_def)
  next
    case (Inr cfg)
    obtain watched where c: "cWatched cfg = Some watched" using Load_watched [OF Inr] by blast
    obtain w2 where w2: "say P LogInfo ''configuration loaded'' [NumAttr ''addresses'' (of_nat (watchedCount watched)),
        NumAttr ''indexers'' (of_nat (length (cIndexers cfg)))] w1 = (Inr (), w2)" "handles w2 = handles w" "regs w2 = regs w"
      using say_kept [OF L] w1 by metis
    obtain r w3 where o: "OpenSQLite (psDriver P) (cDatabase cfg) w2 = (r, w3)" by (cases "OpenSQLite (psDriver P) (cDatabase cfg) w2")
    note O = db_handles.open_handles [OF D o]
    show ?thesis
    proof (cases r)
      case e: (Inl e)
      obtain w4 where w4: "say P LogError ''opening database'' [StrAttr ''path'' (cDatabase cfg), ErrAttr ''err'' e] w3 = (Inr (), w4)"
        "handles w4 = handles w3" using say_kept [OF L] by blast
      have "mainProgram L P fl w = (Inr 1, w4)"
        using Some Inr w1 c w2 o O e w4 by (simp add: mainProgram_def bindE_def deref_def attempt_def)
      then show ?thesis using Inr c o e O w2 w4 by (force intro!: exI [of _ w2])
    next
      case db: (Inr db)
      have "set (regs w3) \<inter> set (map mvName registerOrder) = {}" "distinct (regs w3)"
        using OpenSQLite_regs [OF L] o db w2(3) fresh by auto
      from run_ends [OF D L R this] obtain w5 err w6 where run: "psRunAll P (programEnvs P fl cfg watched) w5 = (Inr err, w6)"
        "\<exists>w'. runProgram P fl cfg watched db w3 = (Inr (if err = None then 0 else 1), w') \<and> handles w' = handles w3 - {db}" by metis
      then obtain w7 where w7: "runProgram P fl cfg watched db w3 = (Inr (if err = None then 0 else 1), w7)" "handles w7 = handles w3 - {db}"
        by blast
      have "mainProgram L P fl w = (Inr (if err = None then 0 else 1), w7)"
        using Some Inr w1 c w2 o db w7(1) by (simp add: mainProgram_def bindE_def deref_def attempt_def)
      moreover have "handles w7 = handles w" using O db w7(2) w2(2) by auto
      moreover have "\<exists>w1. (case fst (OpenSQLite (psDriver P) (cDatabase cfg) w1) of Inl e \<Rightarrow> (if err = None then 0 else 1) = (1 :: int)
          | Inr db \<Rightarrow> \<exists>w2 err'. fst (psRunAll P (programEnvs P fl cfg watched) w2) = Inr err' \<and>
              (if err = None then 0 else 1) = (if err' = None then 0 else (1 :: int)))"
        using o db run(1) by (intro exI [of _ w2]) (force intro: exI [of _ w5])
      ultimately show ?thesis using Inr c by auto
    qed
  qed
qed

text \<open>A driver that numbers its handles.\<close>

definition countingDriver :: "(nat \<times> nat set) dbDriver" where
  "countingDriver = \<lparr>drOpen = (\<lambda>dsn (n, open). (Inr n, (Suc n, insert n open))), drSchema = (\<lambda>db w. (Inr (), w)),
     drClose = (\<lambda>db (n, open). (None, (n, open - {db})))\<rparr>"

interpretation countingDriver: db_handles countingDriver "\<lambda>(n, open). {c \<in> open. c < n}"
  by unfold_locales (auto simp: countingDriver_def)

end
