(* ===== verification/Spec2Isabelle.thy ===== *)
theory Spec2Isabelle
  imports Chain TrackerProps Metrics Delivered Recovery Whole NoPanic Pipeline ApiLive CommandLine
begin

text \<open>
  A verification development for ethindex (wille/ethindex), a Go program that watches EVM chains for
  native and ERC20 transfers touching a configured set of addresses and reports the lifecycle of
  every such transaction. Each definition is translated from the Go source named beside it; sources
  are under src/, paths below start at internal/ or cmd/.

  The program. One indexer per configured chain (indexer/indexer.go) runs a dispatch goroutine over
  three inputs: new heads, lists of pending matches, the end of a subscription. A head is classified
  against a ring of recent headers (indexer/chain.go): an extension is processed, a gap is caught up
  through a prefetch pipeline, a reorganisation is walked back to the common ancestor and rescanned.
  Processing a block (indexer/blocks.go) finds the watched transfers in its logs, receipts and
  calldata (indexer/matcher.go, config/watched.go), feeds them to the tracker (indexer/tracker.go),
  and emits the events the tracker returns to the sinks (event/event.go, event/hub.go) before it
  saves the transactions they touch (storage/sqlite.go). Every head then confirms, drops or
  rechecks tracked transactions. Pending transactions come from a watcher of its own
  (indexer/pending.go). The events API (api/api.go) replays stored rows and then forwards live events
  of the hub. cmd/ethindex/main.go loads the configuration (config/config.go, hdwallet/hdwallet.go),
  wires the parts and runs the indexers; metrics/metrics.go counts.

  Representation. A uint64 is a 64-bit word whose arithmetic wraps, a hash or an address the word of
  its bytes, big integers and durations are integers, strings are byte lists, times are nanoseconds
  since Go's zero time, which is 0. A Go map is a finite map and an absent entry is written out; a
  loop over a map takes the order of its keys as an argument. A function that returns an error and
  acts on some state is a state-passing function into a sum (Effects): a panic is an error value of
  its own that no handler catches, so a theorem that none occurs is about the result. The outside
  world (node, clock, database, the cases a select takes) is the state and the parameters of the
  record env (Blocks); goroutines that run beside the dispatcher are inputs or schedules it reads,
  or step relations. Text of an error that Go quotes with verbs such as q keeps its words without the
  quotes.

  Theories and sources.
    Prelude, Effects: machine types, errors, maps; state-passing code, retries, loops, the rules for
      relations a program keeps (locale state_relation).
    Decimal, Units, GoTime: decimal text, event/units.go, the two time layouts (event/hub.go).
    Event: event/event.go and event/hub.go, the hub with its subscribers' buffers.
    Chain: indexer/chain.go, the ring, its snapshot, head kinds and findAncestor.
    Watched, Matcher: config/watched.go, indexer/matcher.go.
    Records, Config: the records of storage/storage.go and the settings of an indexer.
    Tracker: indexer/tracker.go, one definition per method. TrackerInv: its invariant. Lifecycle: the
      abstract transition system of one transaction, which the tracker refines. Graves: its
      memory of ended transactions. TrackerProps: the properties.
    Client: indexer/client.go, every request over a JSON-RPC transport. Connect: dialing, closing,
      the subscriptions, and watchPending of indexer/pending.go. Pending: the rest of that file.
    Blocks: indexer/blocks.go. BlockScan: what a scan finds. Drive: what a run may do to the tracker
      and the world, for any relation kept by the steps (locale indexer_relation), through blocks.go.
    Indexer, Session: indexer/indexer.go, scanning and following heads, then sessions and Run.
      IndexerRun: Drive continued. Calm, NoPanic: why nothing panics. Fetching: the ranges of blocks
      and the order in which prefetched blocks are consumed. Pipeline: the goroutines of the prefetcher
      over their channels, as a transition system.
    Delivered: what reaches the sinks, and through the hub (event/hub.go) a subscriber.
    Sqlite, SqliteProps: storage/sqlite.go and storage/headers.go over the statements they execute.
    Restart, RestartProps, Whole: the table as a mirror of the tracker, restoring, a restarted run.
    Silent, Mirror, Recovery: what the tracker does without an event, the table over a whole run, and a
      crash followed by a restart.
    Api, ApiProps, ApiLive, Serving: api/api.go, both handlers, the backfill and the synthesis of
      events; what a replay gives; what a live stream gives beside the goroutines that use the hub; the
      routes of both HTTP servers.
    HdWallet: hdwallet/hdwallet.go. Validate, ValidateProps: config/config.go.
    Metrics: metrics/metrics.go. Program, CommandLine: cmd/ethindex/main.go.

  What is proved. Of the tracker: every operation moves every transaction along one edge of the
  lifecycle and emits events of that edge only; the nonce index, the records and the tombstones
  agree in every reachable state; a confirmed transaction stays silent for 8191 further burials; what
  a used nonce, a reorganisation and a head do, exactly. Of matching: it finds exactly the
  transfers, and calldata and logs give the same leg. Of the ring: the chunked walk finds the highest
  agreement; what a newest-first scan does to the window. Of the indexer: given receipts that carry
  the logs of their transaction, and whatever else the node, the store and the sink answer, it drives
  the tracker as the tracker asks; it panics nowhere; its prefetcher neither deadlocks nor reorders;
  a hash the pending watcher was told of is asked for once, or counted as dropped; it hands its sink every event of the tracker in order, so
  that what is delivered of a transaction, and what a subscriber of the hub gets of it, walks through
  the lifecycle. Of the database: saving is atomic, pages of the feed
  join, the table follows the tracker over a whole run or the log names the transaction whose saving
  failed, so that a process started after a crash has back what the old one tracked, and a resumed run
  goes on where the saved progress ends; together, that a restarted run keeps every invariant. Of the API: a replay is complete, a replayed event is the event the
  live stream carried, and the live part of a stream has no gap. Of the metrics: every family shows what was recorded. Of the configuration and the wallets: which are accepted, what is left of them,
  and that the parts the program builds from one fit together.

  Contracts. An interface a part relies on is a locale, interpreted where the provider is modelled:
  header_window (Chain, the ring), header_fetcher (Chain; from the client's contract in Calm),
  slot_index (TrackerInv, the nonce index), grave_memory (Graves, the tombstones), state_relation
  (Effects), quiet_world and indexer_relation (Drive; the first is a part of the second, which is
  interpreted on the tracker's own steps in Drive and instantiated with the sinks in Delivered),
  chain_client (Client, rpcClient over any transport).
  Code that is not in the repository is a parameter, and the locale states its documented behaviour:
  sql_engine (Sqlite: transactions, ordering, the JSON of the header window reads back),
  stream_world (ApiProps: the database beside the response), live_stream (ApiLive: the others on the
  hub neither receive on a stream's channel nor cancel it), connections and db_handles
  (Connect, CommandLine: what dialing and opening leave open), prom_registry (Metrics). Those are
  interpreted on concrete implementations, on which the witnesses run. Parameters without laws:
  types.Sender (Matcher), the codec of hashes and addresses, of which hexOK says that parsing inverts
  printing (Records), the transport's decoding (Client), the YAML decoder, net/url and the environment
  (Validate), the key arithmetic (HdWallet), the JSON encoders (Event, Api), the error group, the
  logger and the listeners of main (CommandLine).

  Bounds and loops. The tombstones are capped at 8192, the ring has at least 64 slots and at least 16
  more than the confirmation depth, a reorganisation is walked in chunks of 8, a fetch is tried 7
  times, a page of the replay has 500 rows, a burst of hashes 16, the queue 4096; the slot channel of
  the prefetcher holds two spans per worker, which Pipeline shows to be enough. Loops whose
  end depends on 64-bit counters (the headers of a snapshot, the numbers of a range, the chunks of a
  gap) and the replay, whose end depends on the database, are partial functions into an option; that
  they return is proved (snapshot_restore, block_ranges_covered, backfill_complete). Every other loop
  is over a list (of legs, rows, heads, inputs, schedules) or has a measure, so nothing runs on fuel.

  Logs. Where the source handles an error by logging it, or reports an event in the log, the line is
  modelled (eLogLine of env, psLog of the process), because the log is then where the failure can
  be seen: Mirror rests on it.

  Not modelled. The remaining log lines of the indexer (progress, warnings) and the calls that record
  metrics inside it, which nothing reads back (the recording functions themselves are modelled); the
  arithmetic of hierarchical keys, JSON, YAML, HTTP and SQL themselves, which are libraries the
  source calls; response headers; how signals end the context and how the log handler renders a
  line; the heartbeat goroutines that only log progress; data races, which the source excludes by
  giving each indexer one dispatch goroutine and the hub a mutex. A process stops between two inputs of
  the dispatch loop, not inside one, so between emitting and saving the events of one input it does
  not crash. During a replay (backfill_complete) no other goroutine changes the rows. The order of
  the token map and of the watched map is fixed per environment; that of the tracked transactions
  may differ at every loop. persistTx reads the clock before it builds a row, where the source does so only for
  rows that need it.
\<close>

section \<open>The indexer as a whole\<close>

text \<open>
  C20: safety of the composition. Run the dispatch loop over any sessions. Three things are asked of
  what surrounds it: a receipt the node gives for a transaction carries only logs of that transaction
  (promotePendingTx files them under it without looking), a list of live matches is of one
  transaction (as the pending watcher sends them, which restarted_run_safe shows), and ranging over
  the tracked transactions visits each once. For the rest the node answers with anything (errors,
  reorganisations, receipts that contradict the blocks), the store and the sink fail at any time, and
  the prefetch workers complete in any order. Then the tracker changes only by its own operations,
  called with the legs of one transaction and over every tracked transaction once, and stays well
  formed, and so does the header ring. So what is proved of reachable trackers (the lifecycle,
  finality of confirmations, bounded tombstones) holds of the running program.
\<close>

theorem indexer_keeps_invariants:
  assumes "ordersOK E" and "receiptsOK E" and "liveOK E" and "\<forall>sn \<in> set sns. scriptOK sn"
    and "trackerInv (ixTracker s)" and "chainInv (ixChain s)"
  shows "let s' = snd (runLoop E sns backoff s) in
    trackerReach (eCodec E) (ixTracker s) (ixTracker s') \<and> trackerInv (ixTracker s') \<and> chainInv (ixChain s')"
proof -
  have "ixStep (eCodec E) s (snd (runLoop E sns backoff s))"
    using drive.within_runLoop [OF assms(1-4)] by (simp add: drive.within_def)
  then show ?thesis using assms(5,6) trackerReach_inv by (simp add: ixStep_def Let_def) blast
qed

theorem indexer_keeps_invariants_witness:
  "trackerInv (ixTracker (snd (runLoop demoEnv
     [\<lparr>snDialErr = None, snSubscribeErr = None, snInputs = [InLive (LiveMatches [demoLeg 1]), InHeadErr (ErrText ''gone'')]\<rparr>]
     backoffMin (newIndexer demoEnv (\<lambda>n. int n) []))))"
proof -
  have "scriptOK \<lparr>snDialErr = None, snSubscribeErr = None, snInputs = [InLive (LiveMatches [demoLeg 1]), InHeadErr (ErrText ''gone'')]\<rparr>"
    by (simp add: scriptOK_def oneTx_def)
  then show ?thesis
    using indexer_keeps_invariants [OF demoEnv_orders demoEnv_receipts demoEnv_live, of "[_]"]
    by (simp add: Let_def newIndexer_def trackerInv_new chainInv_new)
qed

end
